(* ===== verification/Prelude.thy ===== *)
theory Prelude
  imports Main "HOL-Library.Word"
begin

text \<open>
  The shared vocabulary of the development: the fixed-width integer types of
  \<^verbatim>\<open>kernel/stdint.h\<close>, the outcome of a kernel operation that may halt the processor
  (\<^verbatim>\<open>Debug::assert\<close>, \<^verbatim>\<open>Debug::panic\<close>, \<^verbatim>\<open>Debug::missing\<close>), the error numbers of
  \<^verbatim>\<open>kernel/errno.h\<close> that the kernel returns, and the generic facts on words, lists and
  options that the component theories use.
\<close>

unbundle bit_operations_syntax

section \<open>Machine integers\<close>

type_synonym u8 = "8 word"
type_synonym u16 = "16 word"
type_synonym u32 = "32 word"
type_synonym u64 = "64 word"

text \<open>
  The collections the component theories extend: \<open>word_facts\<close> gathers the rules that
  move a goal from words to natural numbers, \<open>inv_intros\<close> the preservation rules of the
  component invariants.
\<close>

named_theorems word_facts \<open>from words to natural numbers\<close>
named_theorems inv_intros \<open>operations preserve their invariants\<close>

lemmas [word_facts] = word_less_nat_alt word_le_nat_alt unat_div_distrib unat_mod_distrib

lemma unat_u32_less [simp]: "unat (x :: u32) < 4294967296"
  using unsigned_less [of x, where ?'a = nat] by simp

lemma unat_u8_less [simp]: "unat (x :: u8) < 256"
  using unsigned_less [of x, where ?'a = nat] by simp

lemma unat_u16_less [simp]: "unat (x :: u16) < 65536"
  using unsigned_less [of x, where ?'a = nat] by simp

lemma unat_plus_exact:
  fixes a b :: "'w::len word"
  assumes "unat a + unat b < 2 ^ LENGTH('w)"
  shows "unat (a + b) = unat a + unat b"
  using assms by (simp add: unat_word_ariths)

lemma unat_minus_exact:
  fixes a b :: "'w::len word"
  assumes "b \<le> a"
  shows "unat (a - b) = unat a - unat b"
  using assms by (simp add: unat_sub_if' word_le_nat_alt)

lemma unat_times_exact:
  fixes a b :: "'w::len word"
  assumes "unat a * unat b < 2 ^ LENGTH('w)"
  shows "unat (a * b) = unat a * unat b"
  using assms by (simp add: unat_word_ariths)

lemma unat_Suc_exact:
  fixes a b :: "'w::len word"
  assumes "a < b"
  shows "unat (a + 1) = Suc (unat a)"
  using assms by unat_arith

text \<open>Signed readings and conversions that lose nothing.\<close>

lemma sint_small:
  fixes w :: "'w::len word"
  assumes "unat w < 2 ^ (LENGTH('w) - 1)"
  shows "sint w = int (unat w)"
proof -
  have lt: "uint w < 2 ^ (LENGTH('w) - 1)"
    using assms by (metis of_nat_less_iff of_nat_numeral of_nat_power of_nat_unat)
  have "- (2 ^ (LENGTH('w) - 1)) \<le> (0::int)" by simp
  then have "- (2 ^ (LENGTH('w) - 1)) \<le> uint w" by (rule order.trans) simp
  from signed_take_bit_int_eq_self [OF this lt] show ?thesis by (simp add: sint_uint)
qed

lemma sint_of_int_exact:
  assumes "- (2 ^ (LENGTH('w) - 1)) \<le> k" and "k < 2 ^ (LENGTH('w) - 1)"
  shows "sint (word_of_int k :: 'w::len word) = k"
  using assms by (simp add: signed_of_int signed_take_bit_int_eq_self)

lemma unat_of_nat_exact: "n < 2 ^ LENGTH('w) \<Longrightarrow> unat (of_nat n :: 'w::len word) = n"
  by (simp add: unat_of_nat)

lemma unat_ucast_small:
  fixes w :: "'a::len word"
  assumes "unat w < 2 ^ LENGTH('b)"
  shows "unat (ucast w :: 'b::len word) = unat w"
  using assms by (simp add: unsigned_ucast_eq take_bit_nat_eq_self)

text \<open>Testing one bit with a mask or with a shift.\<close>

lemma and_exp_word: "w AND 2 ^ n = (if bit w n then 2 ^ n else (0 :: 'w::len word))"
  by (rule bit_word_eqI) (auto simp: bit_simps)

lemma drop_bit_flag: "drop_bit n w AND 1 = (1 :: 'w::len word) \<longleftrightarrow> bit w n"
  by (simp add: and_one_eq odd_iff_mod_2_eq_one bit_iff_odd_drop_bit)

text \<open>One subtraction replaces a remainder below twice the divisor.\<close>

lemma mod_below_twice: "(x :: nat) < 2 * n \<Longrightarrow> x mod n = (if x < n then x else x - n)"
  by (auto simp: mod_if)

section \<open>Operations that may halt the processor\<close>

text \<open>
  A failed \<^verbatim>\<open>ASSERT\<close>, a call of \<^verbatim>\<open>Debug::panic\<close> and a call of \<^verbatim>\<open>MISSING()\<close> never
  return to the caller: the processor prints and halts. An operation that can reach one
  of them returns \<open>Inl\<close> of what it reached. An array access outside the array has no
  defined meaning in the code; where an index comes from data, the model makes such an
  access a failure of its own, \<open>OutOfBounds\<close>, so that its absence is a theorem. A division by
  zero raises the processor's divide exception, \<open>DivideError\<close>. A loop that waits for a value which
  only another processor could change is \<open>Spin\<close> if the value is not there.
\<close>

datatype panic = Assertion | Panic | Missing | OutOfBounds | DivideError | Spin

type_synonym 'a outcome = "panic + 'a"

definition bind_ok :: "'e + 'a \<Rightarrow> ('a \<Rightarrow> 'e + 'b) \<Rightarrow> 'e + 'b" where
  "bind_ok m f = (case m of Inl e \<Rightarrow> Inl e | Inr x \<Rightarrow> f x)"

lemma bind_ok_simps [simp]:
  "bind_ok (Inl e) f = Inl e"
  "bind_ok (Inr x) f = f x"
  by (simp_all add: bind_ok_def)

lemma bind_ok_Inr_iff: "bind_ok m f = Inr y \<longleftrightarrow> (\<exists>x. m = Inr x \<and> f x = Inr y)"
  by (cases m) auto

lemma bind_ok_cong [fundef_cong]:
  assumes "m = m'" and "\<And>x. m' = Inr x \<Longrightarrow> f x = g x"
  shows "bind_ok m f = bind_ok m' g"
  using assms by (cases m') auto

definition assert :: "bool \<Rightarrow> unit outcome" where
  "assert invariant = (if invariant then Inr () else Inl Assertion)"

lemma assert_simps [simp]:
  "assert True = Inr ()"
  "assert False = Inl Assertion"
  "assert b = Inr u \<longleftrightarrow> b"
  by (simp_all add: assert_def)

text \<open>Array reads and writes that notice an index outside the array.\<close>

definition read_at :: "'a list \<Rightarrow> nat \<Rightarrow> 'a outcome" where
  "read_at xs i = (if i < length xs then Inr (xs ! i) else Inl OutOfBounds)"

definition write_at :: "'a list \<Rightarrow> nat \<Rightarrow> 'a \<Rightarrow> 'a list outcome" where
  "write_at xs i v = (if i < length xs then Inr (xs[i := v]) else Inl OutOfBounds)"

lemma read_at_ok [simp]: "i < length xs \<Longrightarrow> read_at xs i = Inr (xs ! i)"
  by (simp add: read_at_def)

lemma write_at_ok [simp]: "i < length xs \<Longrightarrow> write_at xs i v = Inr (xs[i := v])"
  by (simp add: write_at_def)

definition udivide :: "'w::len word \<Rightarrow> 'w word \<Rightarrow> 'w word outcome" where
  "udivide a b = (if b = 0 then Inl DivideError else Inr (a div b))"

lemma udivide_ok [simp]: "b \<noteq> 0 \<Longrightarrow> udivide a b = Inr (a div b)"
  by (simp add: udivide_def)

section \<open>Lists\<close>

lemma nth_list_update_if:
  "i < length xs \<Longrightarrow> xs[i := v] ! j = (if i = j then v else xs ! j)"
  by auto

lemma map_upt_cong:
  "(\<And>i. a \<le> i \<Longrightarrow> i < b \<Longrightarrow> f i = g i) \<Longrightarrow> map f [a..<b] = map g [a..<b]"
  by auto

end
