(* ===== verification/Circular_Buffer.thy ===== *)
theory Circular_Buffer
  imports Prelude
begin

text \<open>
  The ring buffer of \<^verbatim>\<open>kernel/circular_buffer.h\<close>, which holds the keyboard and the mouse
  events. Both operations run under the buffer's spin lock, so each is one step.
  The interface locale \<open>bounded_fifo\<close> states what a client of the buffer relies on; the
  ring implements it, and every sequence of calls returns on the ring what it returns on
  a list bounded by one less than the ring's size.
\<close>

section \<open>The ring\<close>

record 'a circular_buffer =
  cb_size :: u32
  cb_head :: u32
  cb_tail :: u32
  cb_ar :: "'a list"

text \<open>The constructor; \<open>d\<close> is the value of a default-initialised element.\<close>

definition new_circular_buffer :: "'a \<Rightarrow> u32 \<Rightarrow> 'a circular_buffer" where
  "new_circular_buffer d n =
     \<lparr>cb_size = n, cb_head = 0, cb_tail = 0, cb_ar = replicate (unat n) d\<rparr>"

definition cb_add :: "'a \<Rightarrow> 'a circular_buffer \<Rightarrow> bool \<times> 'a circular_buffer" where
  "cb_add el b =
     (if (cb_head b + 1) mod cb_size b = cb_tail b then (False, b)
      else (True, b\<lparr>cb_ar := (cb_ar b)[unat (cb_head b) := el],
                    cb_head := (cb_head b + 1) mod cb_size b\<rparr>))"

text \<open>\<open>zero\<close> is the value of the cast \<^verbatim>\<open>(T)0\<close>, returned when the buffer is empty.\<close>

definition cb_remove :: "'a \<Rightarrow> 'a circular_buffer \<Rightarrow> 'a \<times> 'a circular_buffer" where
  "cb_remove zero b =
     (if cb_head b = cb_tail b then (zero, b)
      else (cb_ar b ! unat (cb_tail b), b\<lparr>cb_tail := (cb_tail b + 1) mod cb_size b\<rparr>))"

section \<open>What a bounded first-in first-out buffer promises\<close>

locale bounded_fifo =
  fixes invar :: "'q \<Rightarrow> bool"
    and contents :: "'q \<Rightarrow> 'a list"
    and capacity :: "'q \<Rightarrow> nat"
    and put :: "'a \<Rightarrow> 'q \<Rightarrow> bool \<times> 'q"
    and take_out :: "'a \<Rightarrow> 'q \<Rightarrow> 'a \<times> 'q"
  assumes within: "invar q \<Longrightarrow> length (contents q) \<le> capacity q"
    and put_full: "invar q \<Longrightarrow> length (contents q) = capacity q \<Longrightarrow> put x q = (False, q)"
    and put_room: "invar q \<Longrightarrow> length (contents q) < capacity q \<Longrightarrow>
      fst (put x q) \<and> contents (snd (put x q)) = contents q @ [x]"
    and take_empty: "invar q \<Longrightarrow> contents q = [] \<Longrightarrow> take_out z q = (z, q)"
    and take_hd: "invar q \<Longrightarrow> contents q = x # xs \<Longrightarrow>
      fst (take_out z q) = x \<and> contents (snd (take_out z q)) = xs"
    and put_invar: "invar q \<Longrightarrow> invar (snd (put x q))"
    and take_invar: "invar q \<Longrightarrow> invar (snd (take_out z q))"
    and put_capacity: "invar q \<Longrightarrow> capacity (snd (put x q)) = capacity q"
    and take_capacity: "invar q \<Longrightarrow> capacity (snd (take_out z q)) = capacity q"

text \<open>A sequence of calls and the values they return, for any implementation.\<close>

datatype 'a fifo_call = Put 'a | Take
datatype 'a fifo_reply = Accepted bool | Got 'a

fun run_calls :: "('a \<Rightarrow> 'q \<Rightarrow> bool \<times> 'q) \<Rightarrow> ('q \<Rightarrow> 'a \<times> 'q) \<Rightarrow>
    'a fifo_call list \<Rightarrow> 'q \<Rightarrow> 'a fifo_reply list \<times> 'q" where
  "run_calls p t [] q = ([], q)"
| "run_calls p t (Put x # cs) q =
     (let (ok, q') = p x q; (rs, q'') = run_calls p t cs q' in (Accepted ok # rs, q''))"
| "run_calls p t (Take # cs) q =
     (let (x, q') = t q; (rs, q'') = run_calls p t cs q' in (Got x # rs, q''))"

text \<open>The specification: a list of at most \<open>n\<close> elements.\<close>

definition list_put :: "nat \<Rightarrow> 'a \<Rightarrow> 'a list \<Rightarrow> bool \<times> 'a list" where
  "list_put n x xs = (if length xs < n then (True, xs @ [x]) else (False, xs))"

definition list_take :: "'a \<Rightarrow> 'a list \<Rightarrow> 'a \<times> 'a list" where
  "list_take z xs = (case xs of [] \<Rightarrow> (z, []) | x # ys \<Rightarrow> (x, ys))"

context bounded_fifo
begin

lemma put_refines:
  assumes "invar q"
  shows "list_put (capacity q) x (contents q) = map_prod id contents (put x q)"
proof (cases "length (contents q) < capacity q")
  case True
  with put_room [OF assms this, of x] show ?thesis
    by (cases "put x q") (simp add: list_put_def)
next
  case False
  with within [OF assms] have "length (contents q) = capacity q" by simp
  from put_full [OF assms this] False show ?thesis by (simp add: list_put_def)
qed

lemma take_refines:
  assumes "invar q"
  shows "list_take z (contents q) = map_prod id contents (take_out z q)"
proof (cases "contents q")
  case Nil
  with take_empty [OF assms this] show ?thesis by (simp add: list_take_def)
next
  case (Cons x xs)
  with take_hd [OF assms this, of z] show ?thesis
    by (cases "take_out z q") (simp add: list_take_def)
qed

lemma run_refines:
  assumes "invar q"
  shows "run_calls (list_put (capacity q)) (list_take z) cs (contents q)
    = map_prod id contents (run_calls put (take_out z) cs q)
    \<and> invar (snd (run_calls put (take_out z) cs q))"
  using assms
proof (induction cs arbitrary: q)
  case Nil
  then show ?case by simp
next
  case (Cons c cs)
  show ?case
  proof (cases c)
    case (Put x)
    obtain ok q' where q': "put x q = (ok, q')" by fastforce
    from put_invar [OF Cons.prems, of x] put_capacity [OF Cons.prems, of x] q'
    have inv: "invar q'" and cap: "capacity q' = capacity q" by simp_all
    from Cons.IH [OF inv] put_refines [OF Cons.prems, of x] show ?thesis
      by (auto simp: Put q' cap split: prod.splits)
  next
    case Take
    obtain x q' where q': "take_out z q = (x, q')" by fastforce
    from take_invar [OF Cons.prems, of z] take_capacity [OF Cons.prems, of z] q'
    have inv: "invar q'" and cap: "capacity q' = capacity q" by simp_all
    from Cons.IH [OF inv] take_refines [OF Cons.prems, of z] show ?thesis
      by (auto simp: Take q' cap split: prod.splits)
  qed
qed

end

section \<open>The ring implements it\<close>

definition cb_inv :: "'a circular_buffer \<Rightarrow> bool" where
  "cb_inv b \<longleftrightarrow> cb_head b < cb_size b \<and> cb_tail b < cb_size b
     \<and> length (cb_ar b) = unat (cb_size b)"

text \<open>The number of stored elements and the elements from the oldest to the newest.\<close>

definition cb_count :: "'a circular_buffer \<Rightarrow> nat" where
  "cb_count b = (unat (cb_head b) + unat (cb_size b) - unat (cb_tail b)) mod unat (cb_size b)"

definition cb_contents :: "'a circular_buffer \<Rightarrow> 'a list" where
  "cb_contents b =
     map (\<lambda>i. cb_ar b ! ((unat (cb_tail b) + i) mod unat (cb_size b))) [0..<cb_count b]"

definition cb_capacity :: "'a circular_buffer \<Rightarrow> nat" where
  "cb_capacity b = unat (cb_size b) - 1"

lemma cb_inv_new: "0 < n \<Longrightarrow> cb_inv (new_circular_buffer d n)"
  by (simp add: cb_inv_def new_circular_buffer_def)

lemma cb_contents_new: "cb_contents (new_circular_buffer d n) = []"
  by (simp add: cb_contents_def cb_count_def new_circular_buffer_def)

lemma length_cb_contents [simp]: "length (cb_contents b) = cb_count b"
  by (simp add: cb_contents_def)

text \<open>The index after \<open>i\<close> never wraps around the word, whatever the size.\<close>

lemma unat_next_index:
  fixes i n :: u32
  assumes "i < n"
  shows "unat ((i + 1) mod n) = (unat i + 1) mod unat n"
  using unat_Suc_exact [OF assms] by (simp add: unat_mod_distrib)

text \<open>Arithmetic on ring indices, on natural numbers.\<close>

lemma ring_count_put:
  fixes h t n :: nat
  assumes "h < n" "t < n" "(h + 1) mod n \<noteq> t"
  shows "((h + 1) mod n + n - t) mod n = Suc ((h + n - t) mod n)"
  using assms mod_below_twice [of "h + 1" n] mod_below_twice [of "h + n - t" n]
    mod_below_twice [of "(h + 1) mod n + n - t" n]
  by (auto split: if_splits)

lemma ring_count_take:
  fixes h t n :: nat
  assumes "h < n" "t < n" "h \<noteq> t"
  shows "(h + n - t) mod n = Suc ((h + n - (t + 1) mod n) mod n)"
  using assms mod_below_twice [of "t + 1" n] mod_below_twice [of "h + n - t" n]
    mod_below_twice [of "h + n - (t + 1) mod n" n]
  by (auto split: if_splits)

lemma ring_head_index:
  fixes h t n :: nat
  assumes "h < n" "t < n"
  shows "(t + (h + n - t) mod n) mod n = h"
  using assms mod_below_twice [of "h + n - t" n] mod_below_twice [of "t + (h + n - t) mod n" n]
  by (auto split: if_splits)

lemma ring_slot_free:
  fixes h t n i :: nat
  assumes "h < n" "t < n" "i < (h + n - t) mod n"
  shows "(t + i) mod n \<noteq> h"
  using assms mod_below_twice [of "h + n - t" n] mod_below_twice [of "t + i" n]
  by (auto split: if_splits)

lemma ring_full_iff:
  fixes h t n :: nat
  assumes "h < n" "t < n"
  shows "(h + 1) mod n = t \<longleftrightarrow> (h + n - t) mod n = n - 1"
  using assms mod_below_twice [of "h + 1" n] mod_below_twice [of "h + n - t" n]
  by (auto split: if_splits)

lemma ring_empty_iff:
  fixes h t n :: nat
  assumes "h < n" "t < n"
  shows "h = t \<longleftrightarrow> (h + n - t) mod n = 0"
  using assms mod_below_twice [of "h + n - t" n]
  by (auto split: if_splits)

lemma cb_inv_nat:
  assumes "cb_inv b"
  shows "unat (cb_head b) < unat (cb_size b)" "unat (cb_tail b) < unat (cb_size b)"
    "length (cb_ar b) = unat (cb_size b)"
  using assms by (simp_all add: cb_inv_def word_less_nat_alt)

lemma cb_full_iff:
  assumes "cb_inv b"
  shows "(cb_head b + 1) mod cb_size b = cb_tail b \<longleftrightarrow> cb_count b = cb_capacity b"
proof -
  have "(cb_head b + 1) mod cb_size b = cb_tail b
      \<longleftrightarrow> (unat (cb_head b) + 1) mod unat (cb_size b) = unat (cb_tail b)"
    using assms by (simp add: cb_inv_def word_unat_eq_iff unat_next_index)
  also have "\<dots> \<longleftrightarrow> cb_count b = cb_capacity b"
    using ring_full_iff [OF cb_inv_nat(1,2) [OF assms]]
    by (simp add: cb_count_def cb_capacity_def)
  finally show ?thesis .
qed

lemma cb_empty_iff: "cb_inv b \<Longrightarrow> cb_head b = cb_tail b \<longleftrightarrow> cb_count b = 0"
  using ring_empty_iff [OF cb_inv_nat(1,2)]
  by (simp add: cb_count_def word_unat_eq_iff)

lemma cb_add_contents:
  assumes inv: "cb_inv b" and room: "cb_count b < cb_capacity b"
  shows "fst (cb_add x b) \<and> cb_contents (snd (cb_add x b)) = cb_contents b @ [x]"
proof -
  let ?h = "unat (cb_head b)" and ?t = "unat (cb_tail b)" and ?n = "unat (cb_size b)"
  note lt = cb_inv_nat [OF inv]
  have notfull: "(cb_head b + 1) mod cb_size b \<noteq> cb_tail b"
    using cb_full_iff [OF inv] room by simp
  then have "(?h + 1) mod ?n \<noteq> ?t"
    using inv by (simp add: cb_inv_def word_unat_eq_iff unat_next_index)
  from ring_count_put [OF lt(1,2) this] inv
  have count: "cb_count (snd (cb_add x b)) = Suc (cb_count b)"
    using notfull by (simp add: cb_add_def cb_count_def cb_inv_def unat_next_index)
  show ?thesis
  proof (intro conjI nth_equalityI)
    fix i assume "i < length (cb_contents (snd (cb_add x b)))"
    then have i: "i < Suc (cb_count b)" by (simp add: count)
    have slot: "cb_contents (snd (cb_add x b)) ! i = (cb_ar b)[?h := x] ! ((?t + i) mod ?n)"
      using i count notfull by (simp add: cb_contents_def cb_add_def del: upt_Suc)
    show "cb_contents (snd (cb_add x b)) ! i = (cb_contents b @ [x]) ! i"
    proof (cases "i < cb_count b")
      case True
      then have "(?t + i) mod ?n \<noteq> ?h"
        using ring_slot_free [OF lt(1,2)] by (simp add: cb_count_def)
      with True slot show ?thesis by (simp add: nth_append cb_contents_def)
    next
      case False
      with i have "i = cb_count b" by simp
      with slot lt show ?thesis
        by (simp add: nth_append ring_head_index [OF lt(1,2)] cb_count_def)
    qed
  qed (use notfull count in \<open>simp_all add: cb_add_def\<close>)
qed

lemma cb_remove_contents:
  assumes inv: "cb_inv b" and c: "cb_contents b = x # xs"
  shows "fst (cb_remove z b) = x \<and> cb_contents (snd (cb_remove z b)) = xs"
proof -
  let ?h = "unat (cb_head b)" and ?t = "unat (cb_tail b)" and ?n = "unat (cb_size b)"
  note lt = cb_inv_nat [OF inv]
  from c have pos: "cb_count b = Suc (length xs)"
    by (metis length_cb_contents length_Cons)
  then have ne: "cb_head b \<noteq> cb_tail b" using cb_empty_iff [OF inv] by simp
  then have "?h \<noteq> ?t" by (simp add: word_unat_eq_iff)
  from ring_count_take [OF lt(1,2) this] inv ne
  have count: "cb_count (snd (cb_remove z b)) = length xs"
    using pos by (simp add: cb_remove_def cb_count_def cb_inv_def unat_next_index)
  have tail: "unat (cb_tail (snd (cb_remove z b))) = (?t + 1) mod ?n"
    using inv ne by (simp add: cb_remove_def cb_inv_def unat_next_index)
  have "xs ! i = cb_contents (snd (cb_remove z b)) ! i" if "i < length xs" for i
  proof -
    have "xs ! i = cb_contents b ! Suc i" by (simp add: c)
    also have "\<dots> = cb_ar b ! ((?t + Suc i) mod ?n)"
      using that pos by (simp add: cb_contents_def del: upt_Suc)
    also have "(?t + Suc i) mod ?n = ((?t + 1) mod ?n + i) mod ?n"
      by (simp add: mod_simps)
    finally show ?thesis using that ne tail count
      by (simp add: cb_contents_def cb_remove_def)
  qed
  moreover have "x = cb_ar b ! ?t"
  proof -
    have "x = cb_contents b ! 0" by (simp add: c)
    then show ?thesis using pos lt by (simp add: cb_contents_def del: upt_Suc)
  qed
  ultimately show ?thesis
    using ne count by (auto simp: cb_remove_def intro!: nth_equalityI)
qed

lemma cb_inv_add [inv_intros]: "cb_inv b \<Longrightarrow> cb_inv (snd (cb_add x b))"
  by (auto simp: cb_inv_def cb_add_def word_less_nat_alt unat_mod_distrib)

lemma cb_inv_remove [inv_intros]: "cb_inv b \<Longrightarrow> cb_inv (snd (cb_remove z b))"
  by (auto simp: cb_inv_def cb_remove_def word_less_nat_alt unat_mod_distrib)

lemma cb_capacity_add [simp]: "cb_capacity (snd (cb_add x b)) = cb_capacity b"
  by (simp add: cb_capacity_def cb_add_def)

lemma cb_capacity_remove [simp]: "cb_capacity (snd (cb_remove z b)) = cb_capacity b"
  by (simp add: cb_capacity_def cb_remove_def)

interpretation ring: bounded_fifo cb_inv cb_contents cb_capacity cb_add cb_remove
proof unfold_locales
  fix q :: "'a circular_buffer"
  assume inv: "cb_inv q"
  have "cb_count q < unat (cb_size q)"
    using cb_inv_nat(1) [OF inv] by (simp add: cb_count_def)
  then show "length (cb_contents q) \<le> cb_capacity q" by (simp add: cb_capacity_def)
next
  fix q :: "'a circular_buffer" and z
  assume "cb_inv q" "cb_contents q = []"
  then have "cb_count q = 0" by (metis length_cb_contents list.size(3))
  with \<open>cb_inv q\<close> show "cb_remove z q = (z, q)"
    by (simp add: cb_remove_def cb_empty_iff)
next
  fix q :: "'a circular_buffer" and x
  assume "cb_inv q" "length (cb_contents q) = cb_capacity q"
  then show "cb_add x q = (False, q)" by (simp add: cb_add_def cb_full_iff)
qed (simp_all add: cb_add_contents cb_remove_contents cb_inv_add cb_inv_remove)

text \<open>
  C34. Refinement of the event ring: for every size \<open>n > 0\<close> and every sequence of \<open>add\<close>
  and \<open>remove\<close> calls on a newly constructed ring, each call returns what it returns on a
  first-in first-out list of at most \<open>n - 1\<close> elements: an element is refused exactly
  when \<open>n - 1\<close> are stored, elements leave in the order they came, and an empty ring
  returns the zero element.
\<close>

theorem circular_buffer_refines_fifo:
  assumes "0 < n"
  shows "fst (run_calls cb_add (cb_remove z) cs (new_circular_buffer d n))
    = fst (run_calls (list_put (unat n - 1)) (list_take z) cs [])"
proof -
  have cap: "cb_capacity (new_circular_buffer d n) = unat n - 1"
    by (simp add: cb_capacity_def new_circular_buffer_def)
  from ring.run_refines [OF cb_inv_new [OF assms, of d], where z = z and cs = cs] show ?thesis
    by (simp add: cap cb_contents_new)
qed

theorem circular_buffer_refines_fifo_witness:
  "(0 :: u32) < 3
   \<and> fst (run_calls cb_add (cb_remove (0::nat)) [Put 5, Put 6, Put 7, Take, Put 8, Take, Take, Take]
        (new_circular_buffer 0 3))
     = [Accepted True, Accepted True, Accepted False, Got 5, Accepted True, Got 6, Got 8, Got 0]"
proof -
  have h: "(0 :: u32) < 3" by simp
  show ?thesis
    using h circular_buffer_refines_fifo [OF h, of 0 "[Put 5, Put 6, Put 7, Take, Put 8, Take, Take, Take]" "0::nat"]
    by (simp add: list_put_def list_take_def)
qed

end
