(* ===== verification/Input_Events.thy ===== *)
theory Input_Events
  imports Prelude
begin

text \<open>
  The input events of \<^verbatim>\<open>kernel/input_events.h\<close> and \<^verbatim>\<open>kernel/input_events.cc\<close> and the key
  codes and helpers of \<^verbatim>\<open>kernel/scancodes.h\<close>: building events from keyboard scan codes,
  mouse buttons and mouse movements, and packing an event into the 32-bit integer that
  the system calls return. A bit field of the packed struct is a word of its width; the
  signed field \<open>value\<close> is read with \<open>sint\<close>.
\<close>

section \<open>Codes\<close>

definition KEY_RELEASE :: nat where "KEY_RELEASE = 0"
definition KEY_PRESS :: nat where "KEY_PRESS = 1"
definition KEY_HELD :: nat where "KEY_HELD = 2"

definition EV_SYN :: nat where "EV_SYN = 0"
definition EV_KEY :: nat where "EV_KEY = 1"
definition EV_REL :: nat where "EV_REL = 2"

definition REL_X :: u8 where "REL_X = 0"
definition REL_Y :: u8 where "REL_Y = 1"
definition REL_HWHEEL :: u8 where "REL_HWHEEL = 6"
definition REL_WHEEL :: u8 where "REL_WHEEL = 8"

definition BTN_LEFT :: nat where "BTN_LEFT = 121"

lemmas event_codes = KEY_RELEASE_def KEY_PRESS_def KEY_HELD_def EV_SYN_def EV_KEY_def
  EV_REL_def REL_X_def REL_Y_def REL_HWHEEL_def REL_WHEEL_def BTN_LEFT_def

text \<open>The key codes of the header, by name.\<close>

definition key_codes :: "(string \<times> nat) list" where
  "key_codes =
    [(''KEY_RESERVED'', 0), (''KEY_ESC'', 1), (''KEY_1'', 2), (''KEY_2'', 3), (''KEY_3'', 4),
     (''KEY_4'', 5), (''KEY_5'', 6), (''KEY_6'', 7), (''KEY_7'', 8), (''KEY_8'', 9),
     (''KEY_9'', 10), (''KEY_0'', 11), (''KEY_MINUS'', 12), (''KEY_EQUAL'', 13),
     (''KEY_BACKSPACE'', 14), (''KEY_TAB'', 15), (''KEY_Q'', 16), (''KEY_W'', 17),
     (''KEY_E'', 18), (''KEY_R'', 19), (''KEY_T'', 20), (''KEY_Y'', 21), (''KEY_U'', 22),
     (''KEY_I'', 23), (''KEY_O'', 24), (''KEY_P'', 25), (''KEY_LEFTBRACE'', 26),
     (''KEY_RIGHTBRACE'', 27), (''KEY_ENTER'', 28), (''KEY_LEFTCTRL'', 29), (''KEY_A'', 30),
     (''KEY_S'', 31), (''KEY_D'', 32), (''KEY_F'', 33), (''KEY_G'', 34), (''KEY_H'', 35),
     (''KEY_J'', 36), (''KEY_K'', 37), (''KEY_L'', 38), (''KEY_SEMICOLON'', 39),
     (''KEY_APOSTROPHE'', 40), (''KEY_GRAVE'', 41), (''KEY_LEFTSHIFT'', 42),
     (''KEY_BACKSLASH'', 43), (''KEY_Z'', 44), (''KEY_X'', 45), (''KEY_C'', 46), (''KEY_V'', 47),
     (''KEY_B'', 48), (''KEY_N'', 49), (''KEY_M'', 50), (''KEY_COMMA'', 51), (''KEY_DOT'', 52),
     (''KEY_SLASH'', 53), (''KEY_RIGHTSHIFT'', 54), (''KEY_KPASTERISK'', 55),
     (''KEY_LEFTALT'', 56), (''KEY_SPACE'', 57), (''KEY_CAPSLOCK'', 58), (''KEY_F1'', 59),
     (''KEY_F2'', 60), (''KEY_F3'', 61), (''KEY_F4'', 62), (''KEY_F5'', 63), (''KEY_F6'', 64),
     (''KEY_F7'', 65), (''KEY_F8'', 66), (''KEY_F9'', 67), (''KEY_F10'', 68),
     (''KEY_NUMLOCK'', 69), (''KEY_SCROLLLOCK'', 70), (''KEY_KP7'', 71), (''KEY_KP8'', 72),
     (''KEY_KP9'', 73), (''KEY_KPMINUS'', 74), (''KEY_KP4'', 75), (''KEY_KP5'', 76),
     (''KEY_KP6'', 77), (''KEY_KPPLUS'', 78), (''KEY_KP1'', 79), (''KEY_KP2'', 80),
     (''KEY_KP3'', 81), (''KEY_KP0'', 82), (''KEY_KPDOT'', 83)]"

definition extended_key_codes :: "(string \<times> nat) list" where
  "extended_key_codes =
    [(''KEY_ZENKAKUHANKAKU'', 85), (''KEY_102ND'', 86), (''KEY_F11'', 87), (''KEY_F12'', 88), (''KEY_RO'', 89),
     (''KEY_KATAKANA'', 90), (''KEY_HIRAGANA'', 91), (''KEY_HENKAN'', 92),
     (''KEY_KATAKANAHIRAGANA'', 93), (''KEY_MUHENKAN'', 94), (''KEY_KPJPCOMMA'', 95),
     (''KEY_KPENTER'', 96), (''KEY_RIGHTCTRL'', 97), (''KEY_KPSLASH'', 98), (''KEY_SYSRQ'', 99),
     (''KEY_RIGHTALT'', 100), (''KEY_LINEFEED'', 101), (''KEY_HOME'', 102), (''KEY_UP'', 103),
     (''KEY_PAGEUP'', 104), (''KEY_LEFT'', 105), (''KEY_RIGHT'', 106), (''KEY_END'', 107),
     (''KEY_DOWN'', 108), (''KEY_PAGEDOWN'', 109), (''KEY_INSERT'', 110), (''KEY_DELETE'', 111),
     (''KEY_MACRO'', 112), (''KEY_MUTE'', 113), (''KEY_VOLUMEDOWN'', 114),
     (''KEY_VOLUMEUP'', 115), (''KEY_POWER'', 116), (''KEY_KPEQUAL'', 117),
     (''KEY_KPPLUSMINUS'', 118), (''KEY_PAUSE'', 119), (''KEY_SCALE'', 120)]"

definition button_codes :: "(string \<times> nat) list" where
  "button_codes =
    [(''BTN_LEFT'', 121), (''BTN_RIGHT'', 122), (''BTN_MIDDLE'', 123), (''BTN_4'', 124),
     (''BTN_5'', 125)]"

text \<open>
  The scan codes that follow \<^verbatim>\<open>0xE0\<close> when a navigation key is pressed, with the name of
  the key, as the table in the header's comment lists them.
\<close>

definition e0_navigation :: "(u8 \<times> string) list" where
  "e0_navigation =
    [(0x47, ''KEY_HOME''), (0x48, ''KEY_UP''), (0x49, ''KEY_PAGEUP''), (0x4B, ''KEY_LEFT''),
     (0x4D, ''KEY_RIGHT''), (0x4F, ''KEY_END''), (0x50, ''KEY_DOWN''), (0x51, ''KEY_PAGEDOWN''),
     (0x52, ''KEY_INSERT''), (0x53, ''KEY_DELETE'')]"

section \<open>Helpers on scan codes\<close>

definition is_char :: "u8 \<Rightarrow> bool" where
  "is_char scancode \<longleftrightarrow> (scancode \<ge> 2 \<and> scancode \<le> 53) \<or> scancode = 57
     \<or> (scancode \<ge> 71 \<and> scancode \<le> 83)"

definition get_char :: "u8 \<Rightarrow> u8" where
  "get_char scancode = 0"

definition is_num :: "u8 \<Rightarrow> bool" where
  "is_num scancode \<longleftrightarrow> (scancode \<ge> 2 \<and> scancode \<le> 11) \<or> (scancode \<ge> 71 \<and> scancode \<le> 73)
     \<or> (scancode \<le> 75 \<and> scancode \<ge> 77) \<or> (scancode \<le> 79 \<and> scancode \<ge> 82)"

definition get_num :: "u8 \<Rightarrow> u8" where
  "get_num scancode =
     (if scancode \<ge> 2 \<and> scancode \<le> 11 then (scancode - 1) mod 10
      else if scancode \<ge> 71 \<and> scancode \<le> 73 then (scancode - 4) mod 10
      else if scancode \<ge> 75 \<and> scancode \<le> 77 then (scancode - 1) mod 10
      else if scancode \<ge> 79 \<and> scancode \<le> 81 then (scancode - 8) mod 10
      else if scancode = 82 then 0
      else 11)"

section \<open>Events\<close>

record input_event =
  ev_type :: "2 word"
  ev_code :: "5 word"
  ev_value :: "9 word"
  ev_time :: u16

definition zero_event :: input_event where
  "zero_event = \<lparr>ev_type = 0, ev_code = 0, ev_value = 0, ev_time = 0\<rparr>"

definition get_compressed_time :: "u32 \<Rightarrow> u16" where
  "get_compressed_time jiffies = ucast (drop_bit 6 jiffies AND 0xFFFF)"

text \<open>
  \<^verbatim>\<open>PS2::is_pressed\<close> and \<^verbatim>\<open>PS2::is_held\<close> read the key table of the driver; the table is
  an argument here, and an access outside it fails.
\<close>

definition is_pressed :: "u8 list \<Rightarrow> int \<Rightarrow> bool outcome" where
  "is_pressed key_presses key =
     (if key < 0 then Inl OutOfBounds
      else bind_ok (read_at key_presses (nat key)) (\<lambda>k. Inr (k > 0)))"

definition is_held :: "u8 list \<Rightarrow> int \<Rightarrow> bool outcome" where
  "is_held key_presses key =
     (if key < 0 then Inl OutOfBounds
      else bind_ok (read_at key_presses (nat key)) (\<lambda>k. Inr (k = 2)))"

text \<open>A new press, or the auto-repeat of a key that is already down.\<close>

definition press_code :: "u8 list \<Rightarrow> 9 word \<Rightarrow> 5 word outcome" where
  "press_code key_presses value =
     bind_ok (is_pressed key_presses (sint value))
       (\<lambda>down. Inr (of_nat (if down then KEY_HELD else KEY_PRESS)))"

definition scan_code_to_event ::
    "u32 \<Rightarrow> u8 list \<Rightarrow> u8 \<Rightarrow> bool \<Rightarrow> input_event outcome" where
  "scan_code_to_event jiffies key_presses scancode e0_last =
     (let event = zero_event\<lparr>ev_type := of_nat EV_KEY AND 3\<rparr>;
          finish = (\<lambda>e. Inr (e\<lparr>ev_time := get_compressed_time jiffies\<rparr>))
      in if e0_last then
           (if scancode \<ge> 0x47 \<and> scancode \<le> 0x53 then
              (let value = ucast scancode + 30
               in bind_ok (press_code key_presses value)
                    (\<lambda>code. finish (event\<lparr>ev_value := value, ev_code := code\<rparr>)))
            else if scancode \<ge> 0xC7 \<and> scancode \<le> 0xD3 then
              finish (event\<lparr>ev_value := ucast scancode - 0x80 + 30,
                            ev_code := of_nat KEY_RELEASE\<rparr>)
            else finish event)
         else if scancode \<ge> 1 \<and> scancode \<le> 0x58 then
           (let value = ucast scancode
            in bind_ok (press_code key_presses value)
                 (\<lambda>code. finish (event\<lparr>ev_value := value, ev_code := code\<rparr>)))
         else if scancode \<ge> 0x81 \<and> scancode \<le> 0xD8 then
           finish (event\<lparr>ev_value := ucast scancode - 0x80, ev_code := of_nat KEY_RELEASE\<rparr>)
         else finish event)"

definition mouse_buttons_to_event :: "u32 \<Rightarrow> u8 \<Rightarrow> bool \<Rightarrow> input_event" where
  "mouse_buttons_to_event jiffies button_num press =
     zero_event\<lparr>ev_type := of_nat EV_KEY AND 3,
       ev_value := ucast button_num + of_nat BTN_LEFT,
       ev_code := of_nat (if press then KEY_PRESS else KEY_RELEASE),
       ev_time := get_compressed_time jiffies\<rparr>"

definition mouse_move_to_event :: "u32 \<Rightarrow> u16 \<Rightarrow> u8 \<Rightarrow> input_event" where
  "mouse_move_to_event jiffies movement axis =
     zero_event\<lparr>ev_type := of_nat EV_REL AND 3,
       ev_code := ucast axis,
       ev_value := ucast (if sint movement \<ge> 0 then movement else movement OR 0xFF00),
       ev_time := get_compressed_time jiffies\<rparr>"

definition snc_event :: "u32 \<Rightarrow> input_event" where
  "snc_event jiffies =
     zero_event\<lparr>ev_type := of_nat EV_SYN, ev_code := 1, ev_time := get_compressed_time jiffies\<rparr>"

definition ev_to_int :: "input_event \<Rightarrow> u32" where
  "ev_to_int event =
     push_bit 30 (ucast (ev_type event) AND 0x3) OR push_bit 25 (ucast (ev_code event) AND 0x1F)
     OR push_bit 16 (scast (ev_value event) AND 0x1FF) OR (ucast (ev_time event) AND 0xFFFF)"

definition int_to_ev :: "u32 \<Rightarrow> input_event" where
  "int_to_ev i =
     \<lparr>ev_type = ucast (drop_bit 30 i AND 0x3), ev_code = ucast (drop_bit 25 i AND 0x1F),
      ev_value = ucast (drop_bit 16 i AND 0x1FF), ev_time = ucast (i AND 0xFFFF)\<rparr>"

section \<open>Packing\<close>

lemma field_masks: "(0x3 :: u32) = mask 2" "(0x1F :: u32) = mask 5" "(0x1FF :: u32) = mask 9"
  "(0xFFFF :: u32) = mask 16"
  by (simp_all add: mask_eq_exp_minus_1)

lemma bit_ev_to_int:
  "bit (ev_to_int e) n \<longleftrightarrow>
     (if n < 16 then bit (ev_time e) n else if n < 25 then bit (ev_value e) (n - 16)
      else if n < 30 then bit (ev_code e) (n - 25) else n < 32 \<and> bit (ev_type e) (n - 30))"
  by (auto simp: ev_to_int_def field_masks bit_simps)

lemma ev_to_int_inverse: "ev_to_int (int_to_ev i) = i"
proof (rule bit_word_eqI)
  fix n assume "n < LENGTH(32)"
  then consider "n < 16" | "16 \<le> n" "n < 25" | "25 \<le> n" "n < 30" | "30 \<le> n" "n < 32"
    by fastforce
  then show "bit (ev_to_int (int_to_ev i)) n = bit i n"
    by cases (auto simp: bit_ev_to_int int_to_ev_def field_masks bit_simps)
qed

lemma ev_to_int_fields:
  "ucast (drop_bit 30 (ev_to_int e) AND 0x3) = ev_type e"
  "ucast (drop_bit 25 (ev_to_int e) AND 0x1F) = ev_code e"
  "ucast (drop_bit 16 (ev_to_int e) AND 0x1FF) = ev_value e"
  "ucast (ev_to_int e AND 0xFFFF) = ev_time e"
  by (rule bit_word_eqI, simp add: field_masks bit_simps bit_ev_to_int)+

text \<open>
  C39. An event packed into the integer that \<^verbatim>\<open>read_key_event\<close> and \<^verbatim>\<open>read_mouse_event\<close>
  return is recovered by unpacking it, and every 32-bit integer is the packing of the event it
  unpacks to: the two functions are inverse to each other, so no field overlaps another.
\<close>

theorem event_packing_roundtrip:
  "int_to_ev (ev_to_int e) = e \<and> ev_to_int (int_to_ev i) = i"
  by (simp add: int_to_ev_def ev_to_int_fields ev_to_int_inverse [unfolded int_to_ev_def])

section \<open>Mouse movements\<close>

text \<open>A movement that fits nine bits keeps its value, sign included.\<close>

lemma mouse_move_value:
  assumes "-256 \<le> m" "m < 256"
  shows "sint (ev_value (mouse_move_to_event j (word_of_int m) axis)) = m"
proof -
  let ?w = "word_of_int m :: u16"
  have s: "sint ?w = m" using assms by (simp add: sint_of_int_exact)
  have high: "bit m 8" if "m < 0"
  proof -
    from assms that have "m div 256 = -1" by presburger
    then show ?thesis by (simp add: bit_iff_odd)
  qed
  have mask: "(0xFF00 :: u16) = push_bit 8 (mask 8)"
    by (simp add: mask_eq_exp_minus_1 push_bit_eq_mult)
  have "(ucast (if sint ?w \<ge> 0 then ?w else ?w OR 0xFF00) :: 9 word) = word_of_int m"
  proof (rule bit_word_eqI)
    fix n assume "n < LENGTH(9)"
    then have "n < 8 \<or> n = 8" by auto
    then show "bit (ucast (if sint ?w \<ge> 0 then ?w else ?w OR 0xFF00) :: 9 word) n
        = bit (word_of_int m :: 9 word) n"
      using high by (auto simp: s mask bit_simps)
  qed
  then show ?thesis using assms
    by (simp add: mouse_move_to_event_def sint_of_int_exact)
qed

section \<open>Key codes\<close>

lemma mod_10_not_11: "(x :: u8) mod 10 \<noteq> 11"
proof
  assume "x mod 10 = 11"
  then have "unat (x mod 10) = 11" by simp
  then have "unat x mod 10 = 11" by (simp add: unat_mod_distrib)
  moreover have "unat x mod 10 < 10" by simp
  ultimately show False by linarith
qed

lemma get_num_digit: "get_num s \<noteq> 11 \<longleftrightarrow> 2 \<le> s \<and> s \<le> 11 \<or> 71 \<le> s \<and> s \<le> 73
    \<or> 75 \<le> s \<and> s \<le> 77 \<or> 79 \<le> s \<and> s \<le> 82"
proof -
  have "79 \<le> s \<and> s \<le> 82 \<longleftrightarrow> 79 \<le> s \<and> s \<le> 81 \<or> s = 82"
    by (auto simp: word_le_nat_alt word_unat_eq_iff)
  then show ?thesis using mod_10_not_11 by (simp add: get_num_def)
qed

text \<open>
  \<^verbatim>\<open>is_num\<close> misses exactly the seven keypad digits of the middle and lower rows: these are
  the scan codes for which \<^verbatim>\<open>get_num\<close> returns a digit and \<^verbatim>\<open>is_num\<close> says there is none.
\<close>

theorem is_num_incomplete:
  "get_num s \<noteq> 11 \<and> \<not> is_num s \<longleftrightarrow> 75 \<le> s \<and> s \<le> 77 \<or> 79 \<le> s \<and> s \<le> 82"
  unfolding get_num_digit is_num_def word_le_nat_alt by auto

lemma scan_e0_value:
  assumes "0x47 \<le> sc" "sc \<le> 0x53" "scan_code_to_event jiffies kp sc True = Inr e"
  shows "ev_value e = ucast sc + 30"
  using assms by (auto simp: scan_code_to_event_def Let_def bind_ok_Inr_iff)

lemma e0_table: "list_all (\<lambda>(sc, name). 0x47 \<le> sc \<and> sc \<le> 0x53 \<and>
    (sint (ucast sc + 30 :: 9 word) = int (the (map_of extended_key_codes name))
      \<longleftrightarrow> name = ''KEY_LEFT''))
  e0_navigation"
  by code_simp

text \<open>
  Of the navigation keys that the keyboard reports behind an \<^verbatim>\<open>0xE0\<close> prefix, only the left
  arrow gives an event whose value is the key code that the header assigns to the key.
\<close>

theorem e0_navigation_mismatch:
  assumes "(sc, name) \<in> set e0_navigation"
    and e: "scan_code_to_event jiffies kp sc True = Inr e"
  shows "sint (ev_value e) = int (the (map_of extended_key_codes name)) \<longleftrightarrow> name = ''KEY_LEFT''"
proof -
  from e0_table assms(1) have "0x47 \<le> sc \<and> sc \<le> 0x53 \<and>
    (sint (ucast sc + 30 :: 9 word) = int (the (map_of extended_key_codes name))
      \<longleftrightarrow> name = ''KEY_LEFT'')"
    by (auto simp: list_all_iff)
  with scan_e0_value [OF _ _ e] show ?thesis by simp
qed

theorem e0_navigation_mismatch_witness:
  "\<exists>e. scan_code_to_event 0 (replicate 126 0) 0x48 True = Inr e
     \<and> sint (ev_value e) \<noteq> int (the (map_of extended_key_codes ''KEY_UP''))"
proof -
  have tab: "(0x48, ''KEY_UP'') \<in> set e0_navigation" by (simp add: e0_navigation_def)
  obtain e where e: "scan_code_to_event 0 (replicate 126 0) 0x48 True = Inr e"
    by (simp add: scan_code_to_event_def press_code_def is_pressed_def read_at_def sint_small)
  from e0_navigation_mismatch [OF tab e] e show ?thesis by auto
qed

end
