(* ===== verification/Ps2.thy ===== *)
theory Ps2
  imports Circular_Buffer Input_Events
begin

text \<open>
  The keyboard and mouse driver of \<^verbatim>\<open>kernel/ps2.h\<close> and \<^verbatim>\<open>kernel/ps2.cc\<close>: the interrupt
  handler assembles scan codes and four-byte mouse packets, keeps the table of pressed
  keys and fills the two event rings. The bytes the handler reads from the controller's
  ports and the value of \<^verbatim>\<open>Pit::jiffies\<close> while it runs are arguments; the acknowledgement
  of the interrupt (\<^verbatim>\<open>SMP::eoi_reg.set(0)\<close>) is counted in the state.
\<close>

section \<open>The driver\<close>

record ps2 =
  cur_packet_index :: int
  packet :: "u8 list"
  e0_last :: bool
  key_events :: "input_event circular_buffer"
  mouse_events :: "input_event circular_buffer"
  key_presses :: "u8 list"
  eoi_count :: nat

definition ps2_initial :: ps2 where
  "ps2_initial =
     \<lparr>cur_packet_index = 0, packet = replicate 4 0, e0_last = False,
      key_events = new_circular_buffer zero_event 10000,
      mouse_events = new_circular_buffer zero_event 10000,
      key_presses = replicate 126 0, eoi_count = 0\<rparr>"

definition read_key_event :: "ps2 \<Rightarrow> input_event \<times> ps2" where
  "read_key_event s =
     (let (e, q) = cb_remove zero_event (key_events s) in (e, s\<lparr>key_events := q\<rparr>))"

definition read_mouse_event :: "ps2 \<Rightarrow> input_event \<times> ps2" where
  "read_mouse_event s =
     (let (e, q) = cb_remove zero_event (mouse_events s) in (e, s\<lparr>mouse_events := q\<rparr>))"

text \<open>\<^verbatim>\<open>key_events.add(e)\<close> and \<^verbatim>\<open>mouse_events.add(e)\<close>, whose results the driver ignores.\<close>

definition add_key_event :: "input_event \<Rightarrow> ps2 \<Rightarrow> ps2" where
  "add_key_event e s = s\<lparr>key_events := snd (cb_add e (key_events s))\<rparr>"

definition add_mouse_event :: "input_event \<Rightarrow> ps2 \<Rightarrow> ps2" where
  "add_mouse_event e s = s\<lparr>mouse_events := snd (cb_add e (mouse_events s))\<rparr>"

text \<open>\<^verbatim>\<open>key_presses[key] = code\<close>\<close>

definition set_key :: "int \<Rightarrow> 5 word \<Rightarrow> ps2 \<Rightarrow> ps2 outcome" where
  "set_key key code s =
     (if key < 0 then Inl OutOfBounds
      else bind_ok (write_at (key_presses s) (nat key) (ucast code))
             (\<lambda>kp. Inr (s\<lparr>key_presses := kp\<rparr>)))"

definition write_key_event :: "u32 \<Rightarrow> u8 \<Rightarrow> bool \<Rightarrow> ps2 \<Rightarrow> ps2 outcome" where
  "write_key_event jiffies key last_e0 s =
     bind_ok (scan_code_to_event jiffies (key_presses s) key last_e0) (\<lambda>event.
       if ev_value event = 0 then Inr s
       else bind_ok (set_key (sint (ev_value event)) (ev_code event) s) (\<lambda>s1.
         Inr (add_key_event event (add_key_event (snc_event jiffies) s1))))"

text \<open>The loop over the mouse buttons, from button number \<open>i\<close> on.\<close>

fun update_buttons :: "u32 \<Rightarrow> bool list \<Rightarrow> nat \<Rightarrow> ps2 \<Rightarrow> ps2 outcome" where
  "update_buttons jiffies [] i s = Inr s"
| "update_buttons jiffies (b # bs) i s =
     bind_ok (is_pressed (key_presses s) (int (BTN_LEFT + i))) (\<lambda>down.
       if down \<noteq> b then
         (let event = mouse_buttons_to_event jiffies (of_nat i) b
          in bind_ok (set_key (int (BTN_LEFT + i)) (ev_code event) (add_mouse_event event s))
               (update_buttons jiffies bs (Suc i)))
       else update_buttons jiffies bs (Suc i) s)"

definition rel_x :: "u8 \<Rightarrow> u8 \<Rightarrow> int" where
  "rel_x byte0 byte1 = uint byte1 - uint (push_bit 4 (ucast byte0 :: u32) AND 0x100)"

definition rel_y :: "u8 \<Rightarrow> u8 \<Rightarrow> int" where
  "rel_y byte0 byte2 = uint byte2 - uint (push_bit 3 (ucast byte0 :: u32) AND 0x100)"

definition mouse_buttons :: "u8 \<Rightarrow> u8 \<Rightarrow> bool list" where
  "mouse_buttons byte0 byte3 =
     [byte0 AND 1 \<noteq> 0, byte0 AND 0b10 \<noteq> 0, byte0 AND 0b100 \<noteq> 0,
      byte3 AND 0b10000 \<noteq> 0, byte3 AND 0b100000 \<noteq> 0]"

text \<open>The scroll event of a packet, if any, and the number of buttons it reports.\<close>

definition wheel :: "u32 \<Rightarrow> u8 \<Rightarrow> input_event option \<times> nat" where
  "wheel jiffies byte3 =
     (if byte3 AND 0b1000000 \<noteq> 0 then
        (if byte3 AND 0x3F \<noteq> 0 then
           Some (mouse_move_to_event jiffies
             (word_of_int (uint (byte3 AND 0x1F) - uint ((byte3 AND 0x3F) AND 0x20))) REL_HWHEEL)
         else None, 3)
      else if byte3 AND 0xF \<noteq> 0 then
        (Some (mouse_move_to_event jiffies
           (word_of_int (uint (byte3 AND 0x7) - uint ((byte3 AND 0x8) AND 0xF))) REL_WHEEL), 5)
      else (None, 5))"

definition handle_packet :: "u32 \<Rightarrow> u8 \<Rightarrow> u8 \<Rightarrow> u8 \<Rightarrow> u8 \<Rightarrow> ps2 \<Rightarrow> ps2 outcome" where
  "handle_packet jiffies byte0 byte1 byte2 byte3 s =
     (if drop_bit 6 byte0 AND 1 = 1 \<or> drop_bit 7 byte0 AND 1 = 1 then Inr s
      else
        (let s1 = add_mouse_event (snc_event jiffies) s;
             (scroll, button_max) = wheel jiffies byte3;
             s2 = (case scroll of None \<Rightarrow> s1 | Some e \<Rightarrow> add_mouse_event e s1)
         in bind_ok (update_buttons jiffies (take button_max (mouse_buttons byte0 byte3)) 0 s2)
              (\<lambda>s3. Inr
                (add_mouse_event (mouse_move_to_event jiffies (word_of_int (rel_y byte0 byte2)) REL_Y)
                 (add_mouse_event
                   (mouse_move_to_event jiffies (word_of_int (rel_x byte0 byte1)) REL_X) s3)))))"

definition eoi :: "ps2 \<Rightarrow> ps2" where
  "eoi s = s\<lparr>eoi_count := Suc (eoi_count s)\<rparr>"

text \<open>
  \<open>status\<close> is the byte read from port \<^verbatim>\<open>0x64\<close>, \<open>data\<close> the one read from port \<^verbatim>\<open>0x60\<close>.
\<close>

definition PS2InterruptHandler :: "u32 \<Rightarrow> u8 \<Rightarrow> u8 \<Rightarrow> ps2 \<Rightarrow> ps2 outcome" where
  "PS2InterruptHandler jiffies status data s =
     (if 0x20 AND status = 0 then
        (if data = 0xE0 then Inr (eoi (s\<lparr>e0_last := True\<rparr>))
         else bind_ok (write_key_event jiffies data (e0_last s) (s\<lparr>e0_last := False\<rparr>))
                (\<lambda>s1. Inr (eoi s1)))
      else if cur_packet_index s < 0 then Inl OutOfBounds
      else bind_ok (write_at (packet s) (nat (cur_packet_index s)) data) (\<lambda>p.
        if cur_packet_index s = 0 \<and> drop_bit 3 (p ! 0) AND 1 \<noteq> 1
        then Inr (eoi (s\<lparr>packet := p\<rparr>))
        else
          (let i = (cur_packet_index s + 1) mod 4; s1 = s\<lparr>packet := p, cur_packet_index := i\<rparr>
           in if i = 0
              then bind_ok (handle_packet jiffies (p ! 0) (p ! 1) (p ! 2) (p ! 3) s1)
                     (\<lambda>s2. Inr (eoi s2))
              else Inr (eoi s1))))"

section \<open>Keyboard events\<close>

text \<open>The key a scan code stands for, and whether it goes down.\<close>

definition key_of :: "bool \<Rightarrow> u8 \<Rightarrow> (nat \<times> bool) option" where
  "key_of e0 sc =
     (if e0 then
        if 0x47 \<le> sc \<and> sc \<le> 0x53 then Some (unat sc + 30, True)
        else if 0xC7 \<le> sc \<and> sc \<le> 0xD3 then Some (unat sc - 0x80 + 30, False) else None
      else if 1 \<le> sc \<and> sc \<le> 0x58 then Some (unat sc, True)
      else if 0x81 \<le> sc \<and> sc \<le> 0xD8 then Some (unat sc - 0x80, False) else None)"

definition stroke_code :: "u8 list \<Rightarrow> nat \<Rightarrow> bool \<Rightarrow> nat" where
  "stroke_code kp k down =
     (if \<not> down then KEY_RELEASE else if kp ! k > 0 then KEY_HELD else KEY_PRESS)"

definition stroke_event :: "u32 \<Rightarrow> u8 list \<Rightarrow> nat \<Rightarrow> bool \<Rightarrow> input_event" where
  "stroke_event j kp k down =
     \<lparr>ev_type = 1, ev_code = of_nat (stroke_code kp k down), ev_value = of_nat k,
      ev_time = get_compressed_time j\<rparr>"

lemma key_of_range: "key_of e0 sc = Some (k, d) \<Longrightarrow> 0 < k \<and> k < 114"
  by (auto simp: key_of_def word_le_nat_alt split: if_splits)

lemma key_value:
  assumes "k < 126"
  shows "sint (of_nat k :: 9 word) = int k" "unat (of_nat k :: 9 word) = k"
  using assms by (simp_all add: sint_small unat_of_nat_exact)

lemma is_pressed_nat [simp]: "k < length kp \<Longrightarrow> is_pressed kp (int k) = Inr (kp ! k > 0)"
  by (simp add: is_pressed_def)

lemma ucast_u8_nat: "(ucast (sc :: u8) :: 9 word) = of_nat (unat sc)"
  by simp

lemma scan_code_event:
  assumes "length kp = 126"
  shows "scan_code_to_event j kp sc e0 = Inr (case key_of e0 sc of
      None \<Rightarrow> \<lparr>ev_type = 1, ev_code = 0, ev_value = 0, ev_time = get_compressed_time j\<rparr>
    | Some (k, down) \<Rightarrow> stroke_event j kp k down)"
proof (cases "key_of e0 sc")
  case None
  then show ?thesis
    by (auto simp: scan_code_to_event_def key_of_def zero_event_def event_codes Let_def
        split: if_splits)
next
  case (Some kd)
  obtain k d where kd: "kd = (k, d)" by (cases kd)
  with Some have k: "key_of e0 sc = Some (k, d)" by simp
  from key_of_range [OF this] have "k < 126" by simp
  note kv = key_value [OF this]
  have press: "press_code kp (of_nat k) = Inr (of_nat (stroke_code kp k True))"
    using \<open>k < 126\<close> assms by (simp add: press_code_def kv stroke_code_def)
  have rel: "(ucast sc :: 9 word) - 0x80 = of_nat (unat sc - 0x80)" if "0x80 \<le> unat sc"
    using that by (simp add: of_nat_diff)
  consider (e0_down) "e0" "d" "0x47 \<le> sc" "sc \<le> 0x53" "k = unat sc + 30"
    | (e0_up) "e0" "\<not> d" "0xC7 \<le> sc" "sc \<le> 0xD3" "k = unat sc - 0x80 + 30"
    | (down) "\<not> e0" "d" "1 \<le> sc" "sc \<le> 0x58" "k = unat sc"
    | (up) "\<not> e0" "\<not> d" "0x81 \<le> sc" "sc \<le> 0xD8" "k = unat sc - 0x80"
    using k by (auto simp: key_of_def split: if_splits)
  then show ?thesis
  proof cases
    case e0_down
    then show ?thesis unfolding k using press
      by (simp add: scan_code_to_event_def stroke_event_def zero_event_def event_codes)
  next
    case e0_up
    then have "\<not> sc \<le> 0x53" "0x80 \<le> unat sc" by (simp_all add: word_le_nat_alt)
    with e0_up rel show ?thesis unfolding k
      by (simp add: scan_code_to_event_def stroke_event_def zero_event_def event_codes
          stroke_code_def)
  next
    case down
    then show ?thesis unfolding k using press
      by (simp add: scan_code_to_event_def stroke_event_def zero_event_def event_codes)
  next
    case up
    then have "\<not> sc \<le> 0x58" "0x80 \<le> unat sc" by (simp_all add: word_le_nat_alt)
    with up rel show ?thesis unfolding k
      by (simp add: scan_code_to_event_def stroke_event_def zero_event_def event_codes
          stroke_code_def)
  qed
qed

lemma write_key_event_eq:
  assumes "length (key_presses s) = 126"
  shows "write_key_event j sc e0 s = Inr (case key_of e0 sc of None \<Rightarrow> s
    | Some (k, down) \<Rightarrow>
        add_key_event (stroke_event j (key_presses s) k down) (add_key_event (snc_event j)
          (s\<lparr>key_presses := (key_presses s)[k := of_nat (stroke_code (key_presses s) k down)]\<rparr>)))"
proof (cases "key_of e0 sc")
  case None
  then show ?thesis using assms by (simp add: write_key_event_def scan_code_event)
next
  case (Some kd)
  obtain k d where kd: "kd = (k, d)" by (cases kd)
  with Some have k: "key_of e0 sc = Some (k, d)" by simp
  from key_of_range [OF this] have r: "0 < k" "k < 126" by simp_all
  note kv = key_value [OF this(2)]
  have "(of_nat k :: 9 word) \<noteq> 0" using kv(2) r by (metis unat_0 less_irrefl)
  moreover have "(ucast (of_nat (stroke_code kp k d) :: 5 word) :: u8) = of_nat (stroke_code kp k d)" for kp
    by (auto simp: stroke_code_def event_codes)
  ultimately show ?thesis using assms r k
    by (simp add: write_key_event_def scan_code_event stroke_event_def set_key_def kv)
qed
section \<open>Mouse packets\<close>

definition ps2_inv :: "ps2 \<Rightarrow> bool" where
  "ps2_inv s \<longleftrightarrow> 0 \<le> cur_packet_index s \<and> cur_packet_index s < 4 \<and> length (packet s) = 4
     \<and> length (key_presses s) = 126 \<and> cb_inv (key_events s) \<and> cb_inv (mouse_events s)"

lemma ps2_inv_initial: "ps2_inv ps2_initial"
  by (simp add: ps2_inv_def ps2_initial_def cb_inv_new)

lemma ps2_inv_add [inv_intros]:
  "ps2_inv s \<Longrightarrow> ps2_inv (add_key_event e s)"
  "ps2_inv s \<Longrightarrow> ps2_inv (add_mouse_event e s)"
  by (simp_all add: ps2_inv_def add_key_event_def add_mouse_event_def cb_inv_add)

lemma ps2_inv_eoi [simp]: "ps2_inv (eoi s) = ps2_inv s"
  by (simp add: ps2_inv_def eoi_def)

lemma add_event_fields [simp]:
  "key_presses (add_key_event e s) = key_presses s"
  "key_presses (add_mouse_event e s) = key_presses s"
  "eoi_count (add_key_event e s) = eoi_count s"
  "eoi_count (add_mouse_event e s) = eoi_count s"
  "e0_last (add_key_event e s) = e0_last s"
  "e0_last (add_mouse_event e s) = e0_last s"
  "cur_packet_index (add_mouse_event e s) = cur_packet_index s"
  "packet (add_mouse_event e s) = packet s"
  "key_events (add_mouse_event e s) = key_events s"
  "mouse_events (add_key_event e s) = mouse_events s"
  "add_mouse_event e (s\<lparr>key_presses := kp\<rparr>) = add_mouse_event e s\<lparr>key_presses := kp\<rparr>"
  by (simp_all add: add_key_event_def add_mouse_event_def)

text \<open>What the button loop does, on the list of the packet's buttons from number \<open>i\<close> on.\<close>

fun button_events :: "u32 \<Rightarrow> u8 list \<Rightarrow> nat \<Rightarrow> bool list \<Rightarrow> input_event list" where
  "button_events j kp i [] = []"
| "button_events j kp i (b # bs) =
     (if (kp ! (BTN_LEFT + i) > 0) \<noteq> b then [mouse_buttons_to_event j (of_nat i) b] else [])
     @ button_events j kp (Suc i) bs"

fun button_table :: "u8 list \<Rightarrow> nat \<Rightarrow> bool list \<Rightarrow> u8 list" where
  "button_table kp i [] = kp"
| "button_table kp i (b # bs) =
     button_table (if (kp ! (BTN_LEFT + i) > 0) \<noteq> b
       then kp[BTN_LEFT + i := if b then 1 else 0] else kp) (Suc i) bs"

lemma button_table_length [simp]: "length (button_table kp i bs) = length kp"
  by (induction bs arbitrary: kp i) simp_all



lemma button_events_update:
  "k < BTN_LEFT + i \<Longrightarrow> button_events j (kp[k := v]) i bs = button_events j kp i bs"
  by (induction bs arbitrary: i) simp_all

lemma button_code: "ucast (ev_code (mouse_buttons_to_event j n b)) = (if b then 1 else 0 :: u8)"
  by (simp add: mouse_buttons_to_event_def event_codes)

lemma fold_add_mouse_fields [simp]:
  "key_presses (fold add_mouse_event es s) = key_presses s"
  "fold add_mouse_event es (s\<lparr>key_presses := kp\<rparr>) = fold add_mouse_event es s\<lparr>key_presses := kp\<rparr>"
  by (induction es arbitrary: s) simp_all

lemma update_buttons_eq:
  assumes "length (key_presses s) = 126" "i + length bs \<le> 5"
  shows "update_buttons j bs i s = Inr (fold add_mouse_event (button_events j (key_presses s) i bs) s
           \<lparr>key_presses := button_table (key_presses s) i bs\<rparr>)"
  using assms
proof (induction bs arbitrary: s i)
  case Nil
  then show ?case by simp
next
  case (Cons b bs)
  have ix: "BTN_LEFT + i < 126" using Cons.prems by (simp add: BTN_LEFT_def)
  show ?case
  proof (cases "(key_presses s ! (BTN_LEFT + i) > 0) = b")
    case True
    have p: "is_pressed (key_presses s) (int (BTN_LEFT + i)) = Inr b"
      using is_pressed_nat [of "BTN_LEFT + i" "key_presses s"] ix Cons.prems True by simp
    with True show ?thesis using Cons.IH [of s "Suc i"] Cons.prems
      by (simp del: of_nat_add)
  next
    case False
    have p: "is_pressed (key_presses s) (int (BTN_LEFT + i)) = Inr (\<not> b)"
      using is_pressed_nat [of "BTN_LEFT + i" "key_presses s"] ix Cons.prems False by simp
    let ?e = "mouse_buttons_to_event j (of_nat i) b"
    let ?s = "add_mouse_event ?e s\<lparr>key_presses := (key_presses s)[BTN_LEFT + i := if b then 1 else 0]\<rparr>"
    have "set_key (int (BTN_LEFT + i)) (ev_code ?e) (add_mouse_event ?e s) = Inr ?s"
      using ix Cons.prems(1) by (simp add: set_key_def button_code del: of_nat_add)
    with p False show ?thesis using Cons.IH [of ?s "Suc i"] Cons.prems
      by (simp add: button_events_update del: of_nat_add)
  qed
qed

definition packet_buttons :: "u8 \<Rightarrow> u8 \<Rightarrow> bool list" where
  "packet_buttons byte0 byte3 = take (snd (wheel 0 byte3)) (mouse_buttons byte0 byte3)"

definition packet_events :: "u32 \<Rightarrow> u8 list \<Rightarrow> u8 \<Rightarrow> u8 \<Rightarrow> u8 \<Rightarrow> u8 \<Rightarrow> input_event list" where
  "packet_events j kp byte0 byte1 byte2 byte3 =
     [snc_event j] @ (case fst (wheel j byte3) of None \<Rightarrow> [] | Some e \<Rightarrow> [e])
     @ button_events j kp 0 (packet_buttons byte0 byte3)
     @ [mouse_move_to_event j (word_of_int (rel_x byte0 byte1)) REL_X,
        mouse_move_to_event j (word_of_int (rel_y byte0 byte2)) REL_Y]"

lemma wheel_buttons: "take (snd (wheel j byte3)) (mouse_buttons byte0 byte3) = packet_buttons byte0 byte3"
  by (simp add: packet_buttons_def wheel_def)

lemma packet_buttons_length: "length (packet_buttons byte0 byte3) \<le> 5"
  by (simp add: packet_buttons_def mouse_buttons_def)



lemma handle_packet_eq:
  assumes "length (key_presses s) = 126" "\<not> bit byte0 6" "\<not> bit byte0 7"
  shows "handle_packet j byte0 byte1 byte2 byte3 s = Inr
    (fold add_mouse_event (packet_events j (key_presses s) byte0 byte1 byte2 byte3) s
      \<lparr>key_presses := button_table (key_presses s) 0 (packet_buttons byte0 byte3)\<rparr>)"
proof -
  have "drop_bit 6 byte0 AND 1 \<noteq> 1" "drop_bit 7 byte0 AND 1 \<noteq> 1"
    using assms(2,3) by (simp_all add: and_one_eq odd_iff_mod_2_eq_one bit_iff_odd_drop_bit)
  then show ?thesis
    using assms(1) wheel_buttons [of j byte3 byte0] packet_buttons_length [of byte0 byte3]
    by (cases "wheel j byte3")
      (simp add: handle_packet_def packet_events_def update_buttons_eq split: option.split)
qed

lemma handle_packet_overflow:
  assumes "bit byte0 6 \<or> bit byte0 7"
  shows "handle_packet j byte0 byte1 byte2 byte3 s = Inr s"
proof -
  have "drop_bit 6 byte0 AND 1 = 1 \<or> drop_bit 7 byte0 AND 1 = 1"
    using assms by (simp add: and_one_eq odd_iff_mod_2_eq_one bit_iff_odd_drop_bit)
  then show ?thesis by (simp add: handle_packet_def)
qed

lemma fold_add_mouse [simp]:
  "eoi_count (fold add_mouse_event es s) = eoi_count s"
  "e0_last (fold add_mouse_event es s) = e0_last s"
  "key_events (fold add_mouse_event es s) = key_events s"
  "packet (fold add_mouse_event es s) = packet s"
  "cur_packet_index (fold add_mouse_event es s) = cur_packet_index s"
  by (induction es arbitrary: s) simp_all

lemma fold_add_mouse_inv [inv_intros]: "ps2_inv s \<Longrightarrow> ps2_inv (fold add_mouse_event es s)"
  by (induction es arbitrary: s) (simp_all add: inv_intros)


lemma handle_packet_total:
  assumes "ps2_inv s"
  shows "\<exists>s'. handle_packet j b0 b1 b2 b3 s = Inr s' \<and> ps2_inv s' \<and> eoi_count s' = eoi_count s"
proof (cases "bit b0 6 \<or> bit b0 7")
  case True
  with assms show ?thesis by (simp add: handle_packet_overflow)
next
  case False
  let ?es = "packet_events j (key_presses s) b0 b1 b2 b3"
  have "length (key_presses s) = 126" using assms by (simp add: ps2_inv_def)
  moreover have "ps2_inv (fold add_mouse_event ?es s)" using assms by (rule fold_add_mouse_inv)
  ultimately show ?thesis using False by (simp add: handle_packet_eq ps2_inv_def)
qed

lemma write_key_event_total:
  assumes "ps2_inv s"
  shows "\<exists>s'. write_key_event j sc e0 s = Inr s' \<and> ps2_inv s' \<and> eoi_count s' = eoi_count s"
proof -
  have len: "length (key_presses s) = 126" using assms by (simp add: ps2_inv_def)
  have "ps2_inv (s\<lparr>key_presses := (key_presses s)[k := v]\<rparr>)" for k v
    using assms by (simp add: ps2_inv_def)
  then show ?thesis using assms
    by (auto simp: write_key_event_eq [OF len] intro!: inv_intros split: option.split)
qed

text \<open>
  C36. The interrupt handler never reaches a failure. In every state that satisfies the
  invariant (a packet index below four, tables of the declared sizes, well-formed rings) and
  for every pair of bytes the controller may deliver, it finishes, leaves a state that
  satisfies the invariant and acknowledges the interrupt exactly once; no byte makes it
  access the key table, the packet or a ring outside its bounds.
\<close>

theorem PS2InterruptHandler_safe:
  assumes "ps2_inv s"
  shows "\<exists>s'. PS2InterruptHandler j status data s = Inr s' \<and> ps2_inv s'
           \<and> eoi_count s' = Suc (eoi_count s)"
proof (cases "0x20 AND status = 0")
  case True
  have "ps2_inv (s\<lparr>e0_last := b\<rparr>)" for b using assms by (simp add: ps2_inv_def)
  from this [of True] write_key_event_total [OF this [of False], of j data "e0_last s"] True
  show ?thesis by (auto simp: PS2InterruptHandler_def eoi_def ps2_inv_def)
next
  case False
  let ?p = "(packet s)[nat (cur_packet_index s) := data]"
  let ?i = "(cur_packet_index s + 1) mod 4"
  have w: "write_at (packet s) (nat (cur_packet_index s)) data = Inr ?p"
    using assms by (intro write_at_ok) (simp add: ps2_inv_def nat_less_iff)
  have "ps2_inv (s\<lparr>packet := ?p\<rparr>)" "ps2_inv (s\<lparr>packet := ?p, cur_packet_index := ?i\<rparr>)"
    using assms by (simp_all add: ps2_inv_def)
  with handle_packet_total [OF this(2), of j "?p ! 0" "?p ! 1" "?p ! 2" "?p ! 3"] w False assms
  show ?thesis
    by (auto simp: PS2InterruptHandler_def Let_def eoi_def ps2_inv_def)
qed

theorem PS2InterruptHandler_safe_witness:
  "\<exists>s'. PS2InterruptHandler 640 0 0x1E ps2_initial = Inr s' \<and> ps2_inv s' \<and> eoi_count s' = 1"
  using PS2InterruptHandler_safe [OF ps2_inv_initial, of 640 0 "0x1E"]
  by (simp add: ps2_initial_def)

section \<open>Sequences of interrupts\<close>











section \<open>The table of pressed keys\<close>












end
