(* ===== verification/Atomics.thy ===== *)
theory Atomics
  imports Prelude
begin

text \<open>
  The atomic cells and the locks of \<^verbatim>\<open>kernel/atomic.h\<close>. A sequentially consistent operation
  on a cell is one step, a function from the value of the cell to the result and the new
  value. The two compare-and-swap loops take the values that other cores store between the
  read and the exchange of each round. The spin lock is a step relation over any number of
  threads.
\<close>

section \<open>Cells\<close>

definition atomic_load :: "'a \<Rightarrow> 'a \<times> 'a" where
  "atomic_load value = (value, value)"

definition atomic_store :: "'a \<Rightarrow> 'a \<Rightarrow> 'a" where
  "atomic_store v value = v"

definition fetch_add :: "'w::len word \<Rightarrow> 'w word \<Rightarrow> 'w word \<times> 'w word" where
  "fetch_add inc value = (value, value + inc)"

definition add_fetch :: "'w::len word \<Rightarrow> 'w word \<Rightarrow> 'w word \<times> 'w word" where
  "add_fetch inc value = (value + inc, value + inc)"

definition exchange :: "'a \<Rightarrow> 'a \<Rightarrow> 'a \<times> 'a" where
  "exchange v value = (value, v)"

definition cmp_exchange :: "'a \<Rightarrow> 'a \<Rightarrow> 'a \<Rightarrow> bool \<times> 'a" where
  "cmp_exchange change_from change_to value =
     (if value = change_from then (True, change_to) else (False, value))"

text \<open>
  \<open>others\<close> holds, for each round, the value another core stores between \<^verbatim>\<open>get\<close> and
  \<^verbatim>\<open>cmp_exchange\<close>, or \<open>None\<close> if no core interferes; when it is used up no core interferes.
\<close>

fun fetch_add_mod ::
    "'w::len word \<Rightarrow> 'w word \<Rightarrow> 'w word option list \<Rightarrow> 'w word \<Rightarrow> 'w word \<times> 'w word" where
  "fetch_add_mod inc m [] value =
     (let (val, value1) = atomic_load value;
          (done, value2) = cmp_exchange val ((val + inc) mod m) value1
      in (val, value2))"
| "fetch_add_mod inc m (other # others) value =
     (let (val, value1) = atomic_load value;
          value2 = (case other of None \<Rightarrow> value1 | Some v \<Rightarrow> atomic_store v value1);
          (done, value3) = cmp_exchange val ((val + inc) mod m) value2
      in if done then (val, value3) else fetch_add_mod inc m others value3)"

fun add_mod_fetch ::
    "'w::len word \<Rightarrow> 'w word \<Rightarrow> 'w word option list \<Rightarrow> 'w word \<Rightarrow> 'w word \<times> 'w word" where
  "add_mod_fetch inc m [] value =
     (let (val, value1) = atomic_load value; ret = (val + inc) mod m;
          (done, value2) = cmp_exchange val ret value1
      in (ret, value2))"
| "add_mod_fetch inc m (other # others) value =
     (let (val, value1) = atomic_load value; ret = (val + inc) mod m;
          value2 = (case other of None \<Rightarrow> value1 | Some v \<Rightarrow> atomic_store v value1);
          (done, value3) = cmp_exchange val ret value2
      in if done then (ret, value3) else add_mod_fetch inc m others value3)"

lemmas atomic_defs = atomic_load_def atomic_store_def cmp_exchange_def

text \<open>The value in the cell just before the successful exchange.\<close>

fun value_before :: "'w::len word option list \<Rightarrow> 'w word \<Rightarrow> 'w word" where
  "value_before [] value = value"
| "value_before (None # others) value = value"
| "value_before (Some v # others) value = (if v = value then value else value_before others v)"

text \<open>
  Under any interference of other cores, the compare-and-swap loops are atomic: they take
  effect at one moment, at which the cell holds some value \<open>v\<close>; \<^verbatim>\<open>fetch_add_mod\<close> returns \<open>v\<close>,
  \<^verbatim>\<open>add_mod_fetch\<close> the incremented value modulo the bound, and both leave the latter in the
  cell, so that no update of another core is lost.
\<close>

theorem add_mod_loops_atomic:
  "fetch_add_mod inc m others value
     = (value_before others value, (value_before others value + inc) mod m)
   \<and> add_mod_fetch inc m others value
     = ((value_before others value + inc) mod m, (value_before others value + inc) mod m)"
  by (induction others "value" rule: value_before.induct) (simp_all add: atomic_defs Let_def)

section \<open>The spin lock\<close>

text \<open>
  A thread is outside, in the loop of \<^verbatim>\<open>SpinLock::lock\<close> about to exchange, or past it. The
  iterations of the loop and \<^verbatim>\<open>unlock\<close> are the steps on the cell \<open>taken\<close>.
\<close>

datatype lock_pc = Outside | Spinning | Holding

type_synonym 't lock_state = "bool \<times> ('t \<Rightarrow> lock_pc)"

definition spin_enter :: "'t \<Rightarrow> 't lock_state \<Rightarrow> 't lock_state" where
  "spin_enter t s = (fst s, (snd s)(t := Spinning))"

definition spin_try :: "'t \<Rightarrow> 't lock_state \<Rightarrow> 't lock_state" where
  "spin_try t s =
     (let (was_taken, taken) = exchange True (fst s)
      in (taken, (snd s)(t := if was_taken then Spinning else Holding)))"

definition spin_unlock :: "'t \<Rightarrow> 't lock_state \<Rightarrow> 't lock_state" where
  "spin_unlock t s = (atomic_store False (fst s), (snd s)(t := Outside))"

inductive lock_step :: "'t lock_state \<Rightarrow> 't lock_state \<Rightarrow> bool" where
  enter: "snd s t = Outside \<Longrightarrow> lock_step s (spin_enter t s)"
| attempt: "snd s t = Spinning \<Longrightarrow> lock_step s (spin_try t s)"
| leave: "snd s t = Holding \<Longrightarrow> lock_step s (spin_unlock t s)"

inductive_cases lock_stepE: "lock_step s s'"

definition lock_initial :: "'t lock_state" where
  "lock_initial = (False, \<lambda>_. Outside)"

definition lock_inv :: "'t lock_state \<Rightarrow> bool" where
  "lock_inv s \<longleftrightarrow> (\<forall>t u. snd s t = Holding \<longrightarrow> snd s u = Holding \<longrightarrow> t = u)
     \<and> (fst s \<longleftrightarrow> (\<exists>t. snd s t = Holding))"

lemmas spin_defs = spin_enter_def spin_try_def spin_unlock_def exchange_def atomic_store_def

lemma lock_step_inv: "lock_step s s' \<Longrightarrow> lock_inv s \<Longrightarrow> lock_inv s'"
proof (erule lock_stepE)
  fix t assume inv: "lock_inv s"
  show "snd s t = Outside \<Longrightarrow> s' = spin_enter t s \<Longrightarrow> lock_inv s'"
    using inv by (simp add: lock_inv_def spin_defs) (metis lock_pc.distinct(3))
  show "snd s t = Spinning \<Longrightarrow> s' = spin_try t s \<Longrightarrow> lock_inv s'"
    using inv
    by (cases "fst s")
      (simp add: lock_inv_def spin_defs, metis lock_pc.distinct(5), simp add: lock_inv_def spin_defs)
  show "snd s t = Holding \<Longrightarrow> s' = spin_unlock t s \<Longrightarrow> lock_inv s'"
    using inv by (simp add: lock_inv_def spin_defs) metis
qed

lemma lock_reachable_inv: "lock_step\<^sup>*\<^sup>* lock_initial s \<Longrightarrow> lock_inv s"
proof (induction rule: rtranclp_induct)
  case base
  then show ?case by (simp add: lock_inv_def lock_initial_def)
next
  case (step s s')
  then show ?case by (blast intro: lock_step_inv)
qed

text \<open>
  C38. In every state that any number of threads can reach by calling \<^verbatim>\<open>lock\<close> and \<^verbatim>\<open>unlock\<close>,
  at most one thread holds the lock; and whenever no thread holds it, the next exchange of any
  spinning thread takes it, so the lock is never left taken without a holder.
\<close>

theorem spin_lock_mutual_exclusion:
  assumes "lock_step\<^sup>*\<^sup>* lock_initial s"
  shows "(\<forall>t u. snd s t = Holding \<longrightarrow> snd s u = Holding \<longrightarrow> t = u)
    \<and> ((\<forall>t. snd s t \<noteq> Holding) \<longrightarrow> (\<forall>t. snd (spin_try t s) t = Holding))"
proof -
  from lock_reachable_inv [OF assms]
  have "\<forall>t u. snd s t = Holding \<longrightarrow> snd s u = Holding \<longrightarrow> t = u"
    and free: "(\<forall>t. snd s t \<noteq> Holding) \<longrightarrow> \<not> fst s"
    by (simp_all only: lock_inv_def) blast+
  moreover have "\<not> fst s \<Longrightarrow> snd (spin_try t s) t = Holding" for t
    by (simp add: spin_try_def exchange_def)
  ultimately show ?thesis by blast
qed

theorem spin_lock_mutual_exclusion_witness:
  "snd (spin_try (2 :: nat) (spin_enter 2 (spin_try 1 (spin_enter 1 lock_initial)))) 1 = Holding
   \<and> snd (spin_try (2 :: nat) (spin_enter 2 (spin_try 1 (spin_enter 1 lock_initial)))) 2 \<noteq> Holding"
proof -
  let ?s1 = "spin_enter (1 :: nat) lock_initial" and ?s2 = "spin_try 1 (spin_enter (1 :: nat) lock_initial)"
  let ?s3 = "spin_enter 2 ?s2"
  have "lock_step\<^sup>*\<^sup>* lock_initial ?s1"
    by (intro r_into_rtranclp lock_step.enter) (simp add: lock_initial_def)
  then have "lock_step\<^sup>*\<^sup>* lock_initial ?s2"
    by (rule rtranclp.rtrancl_into_rtrancl) (intro lock_step.attempt, simp add: spin_enter_def)
  then have "lock_step\<^sup>*\<^sup>* lock_initial ?s3"
    by (rule rtranclp.rtrancl_into_rtrancl)
      (intro lock_step.enter, simp add: spin_enter_def spin_try_def exchange_def lock_initial_def)
  then have "lock_step\<^sup>*\<^sup>* lock_initial (spin_try 2 ?s3)"
    by (rule rtranclp.rtrancl_into_rtrancl) (intro lock_step.attempt, simp add: spin_enter_def)
  note excl = conjunct1 [OF spin_lock_mutual_exclusion [OF this]]
  have one: "snd (spin_try 2 ?s3) 1 = Holding" by (simp add: spin_defs lock_initial_def)
  moreover have "snd (spin_try 2 ?s3) 2 \<noteq> Holding"
  proof
    assume "snd (spin_try 2 ?s3) 2 = Holding"
    with excl one have "(2 :: nat) = 1" by blast
    then show False by simp
  qed
  ultimately show ?thesis ..
qed

end
