(* ===== verification/Intrusive_Queue.thy ===== *)
theory Intrusive_Queue
  imports Prelude
begin

text \<open>
  The intrusive queue of \<^verbatim>\<open>kernel/queue.h\<close>. The items are addresses, their \<^verbatim>\<open>next\<close> fields
  live in a store that all queues share, and a null pointer is \<open>None\<close>. Every operation runs
  under the queue's lock, so each is one step. The interface locale \<open>linked_fifo\<close> states
  what the clients of a queue rely on, including that a queue leaves the items of the other
  queues alone; the linked implementation is an interpretation of it.
\<close>

section \<open>The queue\<close>

type_synonym 'p next_store = "'p \<Rightarrow> 'p option"

record 'p queue =
  q_first :: "'p option"
  q_last :: "'p option"

definition queue_new :: "'p queue" where
  "queue_new = \<lparr>q_first = None, q_last = None\<rparr>"

text \<open>\<^verbatim>\<open>last->next = v\<close>, where \<^verbatim>\<open>last\<close> is not null.\<close>

definition set_last_next :: "'p option \<Rightarrow> 'p option \<Rightarrow> 'p next_store \<Rightarrow> 'p next_store" where
  "set_last_next l v nx = (case l of None \<Rightarrow> nx | Some x \<Rightarrow> nx(x := v))"

definition q_add :: "'p \<Rightarrow> 'p next_store \<Rightarrow> 'p queue \<Rightarrow> 'p next_store \<times> 'p queue" where
  "q_add t nx q =
     (let nx1 = nx(t := None)
      in if q_first q = None then (nx1, q\<lparr>q_first := Some t, q_last := Some t\<rparr>)
         else (set_last_next (q_last q) (Some t) nx1, q\<lparr>q_last := Some t\<rparr>))"

definition q_add_stack :: "'p \<Rightarrow> 'p next_store \<Rightarrow> 'p queue \<Rightarrow> 'p next_store \<times> 'p queue" where
  "q_add_stack t nx q =
     (nx(t := q_first q),
      q\<lparr>q_first := Some t, q_last := (if q_last q = None then Some t else q_last q)\<rparr>)"

definition q_remove :: "'p next_store \<Rightarrow> 'p queue \<Rightarrow> 'p option \<times> 'p queue" where
  "q_remove nx q =
     (case q_first q of
        None \<Rightarrow> (None, q)
      | Some it \<Rightarrow>
          (Some it, q\<lparr>q_first := nx it, q_last := (if nx it = None then None else q_last q)\<rparr>))"

definition q_remove_all :: "'p queue \<Rightarrow> 'p option \<times> 'p queue" where
  "q_remove_all q = (q_first q, q\<lparr>q_first := None, q_last := None\<rparr>)"

definition q_transfer_all ::
    "'p next_store \<Rightarrow> 'p queue \<Rightarrow> 'p queue \<Rightarrow> 'p next_store \<times> 'p queue \<times> 'p queue" where
  "q_transfer_all nx q other =
     (if q_first other = None then (nx, q, other)
      else if q_first q = None then
        (nx, q\<lparr>q_first := q_first other, q_last := q_last other\<rparr>,
         other\<lparr>q_first := None, q_last := None\<rparr>)
      else
        (set_last_next (q_last q) (q_first other) nx, q\<lparr>q_last := q_last other\<rparr>,
         other\<lparr>q_first := None, q_last := None\<rparr>))"

definition q_get_front :: "'p queue \<Rightarrow> 'p option" where
  "q_get_front q = q_first q"

definition q_get_next :: "'p next_store \<Rightarrow> 'p \<Rightarrow> 'p option" where
  "q_get_next nx item = nx item"

definition q_is_empty :: "'p queue \<Rightarrow> bool" where
  "q_is_empty q \<longleftrightarrow> q_first q = None"

text \<open>
  The loop of \<^verbatim>\<open>free_all_items\<close>, which collects the items it deletes; it need not end when
  the items form a cycle, hence a partial function.
\<close>

partial_function (option) free_from :: "'p next_store \<Rightarrow> 'p option \<Rightarrow> 'p list option" where
  "free_from nx it =
     (case it of None \<Rightarrow> Some []
      | Some x \<Rightarrow> Option.bind (free_from nx (nx x)) (\<lambda>ps. Some (x # ps)))"

definition q_free_all_items :: "'p next_store \<Rightarrow> 'p queue \<Rightarrow> ('p list \<times> 'p queue) option" where
  "q_free_all_items nx q =
     Option.bind (free_from nx (q_first q))
       (\<lambda>ps. Some (ps, q\<lparr>q_first := None, q_last := None\<rparr>))"

section \<open>What a queue promises\<close>

text \<open>
  \<open>rep h q ps\<close> says that under the store \<open>h\<close> the queue \<open>q\<close> holds the items \<open>ps\<close>.
\<close>

locale linked_fifo =
  fixes rep :: "'h \<Rightarrow> 'q \<Rightarrow> 'p list \<Rightarrow> bool"
    and enq :: "'p \<Rightarrow> 'h \<Rightarrow> 'q \<Rightarrow> 'h \<times> 'q"
    and deq :: "'h \<Rightarrow> 'q \<Rightarrow> 'p option \<times> 'q"
  assumes rep_distinct: "rep h q ps \<Longrightarrow> distinct ps"
    and enq_rep: "rep h q ps \<Longrightarrow> t \<notin> set ps \<Longrightarrow> enq t h q = (h', q') \<Longrightarrow> rep h' q' (ps @ [t])"
    and enq_frame: "rep h q ps \<Longrightarrow> rep h r qs \<Longrightarrow> set qs \<inter> insert t (set ps) = {} \<Longrightarrow>
      enq t h q = (h', q') \<Longrightarrow> rep h' r qs"
    and deq_empty: "rep h q [] \<Longrightarrow> deq h q = (None, q)"
    and deq_hd: "rep h q (x # xs) \<Longrightarrow> \<exists>q'. deq h q = (Some x, q') \<and> rep h q' xs"
begin

text \<open>Taking the oldest item of one queue and appending it to another.\<close>

lemma handoff:
  assumes a: "rep h a (x # xs)" and b: "rep h b ys" and disj: "set (x # xs) \<inter> set ys = {}"
    and e: "deq h a = (Some x, a')" "enq x h b = (h', b')"
  shows "rep h' a' xs" "rep h' b' (ys @ [x])"
proof -
  from deq_hd [OF a] e(1) have a': "rep h a' xs" by simp
  have "x \<notin> set xs" using rep_distinct [OF a] by simp
  with disj have "set xs \<inter> insert x (set ys) = {}" by auto
  from enq_frame [OF b a' this e(2)] show "rep h' a' xs" .
  show "rep h' b' (ys @ [x])" using enq_rep [OF b _ e(2)] disj by auto
qed

lemma deq_cases:
  assumes "rep h q ps"
  obtains (empty) "ps = []" "deq h q = (None, q)"
  | (item) x xs q' where "ps = x # xs" "deq h q = (Some x, q')" "rep h q' xs"
proof (cases ps)
  case Nil
  with deq_empty assms empty show ?thesis by blast
next
  case (Cons x xs)
  with deq_hd assms item show ?thesis by blast
qed

end

section \<open>The linked implementation\<close>

fun path :: "'p next_store \<Rightarrow> 'p option \<Rightarrow> 'p list \<Rightarrow> bool" where
  "path nx p [] \<longleftrightarrow> p = None"
| "path nx p (x # xs) \<longleftrightarrow> p = Some x \<and> path nx (nx x) xs"

definition queue_rep :: "'p next_store \<Rightarrow> 'p queue \<Rightarrow> 'p list \<Rightarrow> bool" where
  "queue_rep nx q ps \<longleftrightarrow> path nx (q_first q) ps \<and> distinct ps
     \<and> q_last q = (if ps = [] then None else Some (last ps))"

lemma path_None [simp]: "path nx None ps \<longleftrightarrow> ps = []"
  by (cases ps) auto

lemma path_frame: "x \<notin> set ps \<Longrightarrow> path (nx(x := v)) p ps = path nx p ps"
  by (induction ps arbitrary: p) auto

lemma path_append:
  assumes "path nx p (ps @ [x])" "distinct (ps @ [x])" "path nx r qs" "set (ps @ [x]) \<inter> set qs = {}"
  shows "path (nx(x := r)) p (ps @ [x] @ qs)"
  using assms by (induction ps arbitrary: p) (auto simp: path_frame)

lemma queue_rep_new [simp]: "queue_rep nx queue_new []"
  by (simp add: queue_rep_def queue_new_def)

lemma queue_rep_empty: "queue_rep nx q [] \<longleftrightarrow> q = queue_new"
  by (cases q) (auto simp: queue_rep_def queue_new_def)

lemma queue_rep_snoc_cases:
  assumes "queue_rep nx q ps" "q_first q \<noteq> None"
  obtains xs x where "ps = xs @ [x]" "q_last q = Some x"
  using assms by (cases ps rule: rev_cases) (auto simp: queue_rep_def)

lemma q_add_rep:
  assumes rep: "queue_rep nx q ps" and t: "t \<notin> set ps" and e: "q_add t nx q = (nx', q')"
  shows "queue_rep nx' q' (ps @ [t])"
proof (cases "q_first q = None")
  case True
  with rep e show ?thesis by (auto simp: queue_rep_def q_add_def)
next
  case False
  with rep obtain xs x where ps: "ps = xs @ [x]" "q_last q = Some x" by (rule queue_rep_snoc_cases)
  have "path (nx(t := None)) (q_first q) (xs @ [x])"
    using rep t by (simp add: queue_rep_def path_frame ps)
  from path_append [OF this, of "Some t" "[t]"] rep t False e show ?thesis
    by (auto simp: queue_rep_def q_add_def set_last_next_def ps)
qed

lemma q_add_frame:
  assumes "queue_rep nx q ps" "queue_rep nx r qs" "set qs \<inter> insert t (set ps) = {}"
    and e: "q_add t nx q = (nx', q')"
  shows "queue_rep nx' r qs"
proof (cases "q_first q = None")
  case True
  with assms show ?thesis by (auto simp: queue_rep_def q_add_def path_frame)
next
  case False
  with assms(1) obtain xs x where "ps = xs @ [x]" "q_last q = Some x" by (rule queue_rep_snoc_cases)
  with assms False show ?thesis by (auto simp: queue_rep_def q_add_def set_last_next_def path_frame)
qed

lemma q_remove_rep:
  assumes "queue_rep nx q (x # xs)"
  shows "\<exists>q'. q_remove nx q = (Some x, q') \<and> queue_rep nx q' xs"
  using assms by (auto simp: queue_rep_def q_remove_def)

interpretation lq: linked_fifo queue_rep q_add q_remove
proof unfold_locales
  show "distinct ps" if "queue_rep h q ps" for h q and ps :: "'p list"
    using that by (simp add: queue_rep_def)
  show "q_remove h q = (None, q)" if "queue_rep h q []" for h and q :: "'p queue"
    using that by (simp add: queue_rep_def q_remove_def)
qed (fact q_add_rep q_add_frame q_remove_rep)+

section \<open>The other operations\<close>

lemma path_pair_append:
  assumes "path nx p ps" "path nx r qs" "distinct ps" "set ps \<inter> set qs = {}" "ps = xs @ [x]"
  shows "path (nx(x := r)) p (ps @ qs)"
  using assms path_append [of nx p xs x r qs] by auto

lemma q_transfer_all_rep:
  assumes "queue_rep nx q ps" "queue_rep nx other qs" "set ps \<inter> set qs = {}"
    and "q_transfer_all nx q other = (nx', q', other')"
  shows "queue_rep nx' q' (ps @ qs)" "queue_rep nx' other' []"
proof -
  show "queue_rep nx' other' []"
    using assms by (auto simp: queue_rep_def q_transfer_all_def split: if_splits)
  show "queue_rep nx' q' (ps @ qs)"
  proof (cases "q_first q = None \<or> q_first other = None")
    case True
    with assms show ?thesis
      by (auto simp: queue_rep_def q_transfer_all_def split: if_splits)
  next
    case False
    with assms(1) obtain xs x where ps: "ps = xs @ [x]" "q_last q = Some x"
      by (auto elim: queue_rep_snoc_cases)
    have "path (nx(x := q_first other)) (q_first q) (ps @ qs)"
      using assms by (intro path_pair_append [OF _ _ _ _ ps(1)]) (simp_all add: queue_rep_def)
    with assms False ps show ?thesis
      by (auto simp: queue_rep_def q_transfer_all_def set_last_next_def)
  qed
qed

lemma q_add_stack_rep:
  assumes "queue_rep nx q ps" "t \<notin> set ps" "q_add_stack t nx q = (nx', q')"
  shows "queue_rep nx' q' (t # ps)"
  using assms by (auto simp: queue_rep_def q_add_stack_def path_frame split: if_splits)

lemma free_from_path: "path nx p ps \<Longrightarrow> free_from nx p = Some ps"
  by (induction ps arbitrary: p) (auto simp: free_from.simps)

lemma q_free_all_items_rep:
  assumes "queue_rep nx q ps"
  shows "q_free_all_items nx q = Some (ps, queue_new)"
  using assms free_from_path [of nx "q_first q" ps]
  by (cases q) (simp add: queue_rep_def q_free_all_items_def queue_new_def)

section \<open>Sequences of operations\<close>

text \<open>
  The calls on two queues that share their items, as \<^verbatim>\<open>waiting\<close> queues and the ready queue do;
  \<open>True\<close> names the first queue. A call returns an item, if it removes one.
\<close>

datatype 'p queue_call =
  Add bool 'p | Add_stack bool 'p | Remove bool | Remove_all bool | Transfer_all bool
  | Free_all_items bool

type_synonym 'p queue_pair = "'p next_store \<times> 'p queue \<times> 'p queue"

fun on_queue :: "bool \<Rightarrow> ('p queue \<Rightarrow> 'r \<times> 'p queue) \<Rightarrow> 'p queue \<times> 'p queue \<Rightarrow>
    'r \<times> 'p queue \<times> 'p queue" where
  "on_queue True f (a, b) = (let (r, a') = f a in (r, a', b))"
| "on_queue False f (a, b) = (let (r, b') = f b in (r, a, b'))"

fun queue_step :: "'p queue_call \<Rightarrow> 'p queue_pair \<Rightarrow> ('p list \<times> 'p queue_pair) option" where
  "queue_step (Add w t) (nx, ab) = (let (nx', ab') = on_queue w (q_add t nx) ab in Some ([], nx', ab'))"
| "queue_step (Add_stack w t) (nx, ab) =
     (let (nx', ab') = on_queue w (q_add_stack t nx) ab in Some ([], nx', ab'))"
| "queue_step (Remove w) (nx, ab) =
     (let (r, ab') = on_queue w (q_remove nx) ab
      in Some (case r of None \<Rightarrow> [] | Some x \<Rightarrow> [x], nx, ab'))"
| "queue_step (Remove_all w) (nx, ab) =
     (let (r, ab') = on_queue w q_remove_all ab
      in Option.bind (free_from nx r) (\<lambda>ps. Some (ps, nx, ab')))"
| "queue_step (Transfer_all w) (nx, a, b) =
     (if w then (let (nx', a', b') = q_transfer_all nx a b in Some ([], nx', a', b'))
      else (let (nx', b', a') = q_transfer_all nx b a in Some ([], nx', a', b')))"
| "queue_step (Free_all_items w) (nx, a, b) =
     (if w then Option.bind (q_free_all_items nx a) (\<lambda>(ps, a'). Some (ps, nx, a', b))
      else Option.bind (q_free_all_items nx b) (\<lambda>(ps, b'). Some (ps, nx, a, b')))"


fun queue_run :: "'p queue_call list \<Rightarrow> 'p queue_pair \<Rightarrow> ('p list list \<times> 'p queue_pair) option" where
  "queue_run [] s = Some ([], s)"
| "queue_run (c # cs) s =
     Option.bind (queue_step c s) (\<lambda>(r, s'). Option.bind (queue_run cs s')
       (\<lambda>(rs, s''). Some (r # rs, s'')))"

text \<open>The specification: a pair of lists. A call is legal if the item it adds is in neither.\<close>

fun lists_step :: "'p queue_call \<Rightarrow> 'p list \<times> 'p list \<Rightarrow> 'p list \<times> 'p list \<times> 'p list" where
  "lists_step (Add w t) (as, bs) = ([], if w then (as @ [t], bs) else (as, bs @ [t]))"
| "lists_step (Add_stack w t) (as, bs) = ([], if w then (t # as, bs) else (as, t # bs))"
| "lists_step (Remove w) (as, bs) =
     (if w then (take 1 as, tl as, bs) else (take 1 bs, as, tl bs))"
| "lists_step (Remove_all w) (as, bs) = (if w then (as, [], bs) else (bs, as, []))"
| "lists_step (Transfer_all w) (as, bs) = ([], if w then (as @ bs, []) else ([], bs @ as))"
| "lists_step (Free_all_items w) (as, bs) = (if w then (as, [], bs) else (bs, as, []))"

fun lists_run :: "'p queue_call list \<Rightarrow> 'p list \<times> 'p list \<Rightarrow> 'p list list" where
  "lists_run [] l = []"
| "lists_run (c # cs) l = (let (r, l') = lists_step c l in r # lists_run cs l')"

fun legal_call :: "'p queue_call \<Rightarrow> 'p list \<times> 'p list \<Rightarrow> bool" where
  "legal_call (Add w t) (as, bs) \<longleftrightarrow> t \<notin> set as \<union> set bs"
| "legal_call (Add_stack w t) (as, bs) \<longleftrightarrow> t \<notin> set as \<union> set bs"
| "legal_call c l \<longleftrightarrow> True"

fun legal_run :: "'p queue_call list \<Rightarrow> 'p list \<times> 'p list \<Rightarrow> bool" where
  "legal_run [] l \<longleftrightarrow> True"
| "legal_run (c # cs) l \<longleftrightarrow> legal_call c l \<and> legal_run cs (snd (lists_step c l))"

fun pair_rep :: "'p queue_pair \<Rightarrow> 'p list \<times> 'p list \<Rightarrow> bool" where
  "pair_rep (nx, a, b) (as, bs) \<longleftrightarrow>
     queue_rep nx a as \<and> queue_rep nx b bs \<and> set as \<inter> set bs = {}"

lemma q_add_stack_frame:
  assumes "queue_rep nx r qs" "t \<notin> set qs" "q_add_stack t nx q = (nx', q')"
  shows "queue_rep nx' r qs"
  using assms by (auto simp: queue_rep_def q_add_stack_def path_frame)

lemma q_remove_all_rep: "q_remove_all q = (q_first q, queue_new)"
  by (cases q) (simp add: q_remove_all_def queue_new_def)

lemma q_remove_tl:
  assumes "queue_rep nx q ps"
  obtains q' where "q_remove nx q = (case ps of [] \<Rightarrow> None | x # xs \<Rightarrow> Some x, q')" "queue_rep nx q' (tl ps)"
  using assms that by (cases ps) (auto simp: lq.deq_empty dest: lq.deq_hd)

lemma queue_step_refines:
  assumes "pair_rep s l" "legal_call c l"
  shows "\<exists>s'. queue_step c s = Some (fst (lists_step c l), s') \<and> pair_rep s' (snd (lists_step c l))"
proof -
  obtain nx a b as bs where s: "s = (nx, a, b)" and l: "l = (as, bs)" by (cases s, cases l)
  have rep: "queue_rep nx a as" "queue_rep nx b bs" "set as \<inter> set bs = {}" using assms(1) s l by auto
  have walk: "free_from nx (q_first a) = Some as" "free_from nx (q_first b) = Some bs"
    using rep by (auto simp: queue_rep_def intro: free_from_path)
  show ?thesis
  proof (cases c)
    case (Add w t)
    obtain nx' a' nx'' b' where e: "q_add t nx a = (nx', a')" "q_add t nx b = (nx'', b')" by fastforce
    have t: "t \<notin> set as" "t \<notin> set bs" using assms(2) Add l by auto
    show ?thesis
      using lq.enq_rep [OF rep(1) t(1) e(1)] lq.enq_rep [OF rep(2) t(2) e(2)]
        lq.enq_frame [OF rep(1,2) _ e(1)] lq.enq_frame [OF rep(2,1) _ e(2)] rep t e Add s l
      by (cases w) auto
  next
    case (Add_stack w t)
    obtain nx' a' nx'' b' where e: "q_add_stack t nx a = (nx', a')" "q_add_stack t nx b = (nx'', b')"
      by fastforce
    have t: "t \<notin> set as" "t \<notin> set bs" using assms(2) Add_stack l by auto
    show ?thesis
      using q_add_stack_rep [OF rep(1) t(1) e(1)] q_add_stack_rep [OF rep(2) t(2) e(2)]
        q_add_stack_frame [OF rep(2) t(2) e(1)] q_add_stack_frame [OF rep(1) t(1) e(2)]
        rep t e Add_stack s l
      by (cases w) auto
  next
    case (Remove w)
    obtain a' where a': "q_remove nx a = (case as of [] \<Rightarrow> None | x # xs \<Rightarrow> Some x, a')"
      "queue_rep nx a' (tl as)" using rep(1) by (rule q_remove_tl)
    obtain b' where b': "q_remove nx b = (case bs of [] \<Rightarrow> None | x # xs \<Rightarrow> Some x, b')"
      "queue_rep nx b' (tl bs)" using rep(2) by (rule q_remove_tl)
    show ?thesis using Remove s l rep a' b'
      by (cases w; cases as; cases bs) auto
  next
    case (Remove_all w)
    then show ?thesis using s l rep walk by (cases w) (auto simp: q_remove_all_rep)
  next
    case (Transfer_all w)
    obtain nx' a' b' nx'' b'' a'' where e: "q_transfer_all nx a b = (nx', a', b')"
      "q_transfer_all nx b a = (nx'', b'', a'')" by (cases "q_transfer_all nx a b", cases "q_transfer_all nx b a")
    have "set bs \<inter> set as = {}" using rep(3) by auto
    then show ?thesis
      using q_transfer_all_rep [OF rep e(1)] q_transfer_all_rep [OF rep(2,1) _ e(2)] Transfer_all s l e
      by (cases w) auto
  next
    case (Free_all_items w)
    then show ?thesis using s l rep by (cases w) (auto simp: q_free_all_items_rep)
  qed
qed

lemma queue_run_refines:
  assumes "pair_rep s l" "legal_run cs l"
  shows "\<exists>s'. queue_run cs s = Some (lists_run cs l, s')"
  using assms
proof (induction cs arbitrary: s l)
  case Nil
  then show ?case by (cases s) simp
next
  case (Cons c cs)
  from queue_step_refines [OF Cons.prems(1), of c] Cons.prems(2) obtain s'
    where s': "queue_step c s = Some (fst (lists_step c l), s')" "pair_rep s' (snd (lists_step c l))"
    by auto
  from Cons.IH [OF s'(2)] Cons.prems(2) s'(1) show ?case
    by (cases "lists_step c l") auto
qed

text \<open>
  C29. Two queues that share one store of \<^verbatim>\<open>next\<close> fields behave as two separate lists. For
  every sequence of calls on the two queues in which no item is added while it is still in one
  of them, every call finishes (in particular the walk of \<^verbatim>\<open>free_all_items\<close> ends) and returns
  what the same call returns on the lists: \<^verbatim>\<open>add\<close> appends, \<^verbatim>\<open>add_stack\<close> puts in front,
  \<^verbatim>\<open>remove\<close> takes the front, \<^verbatim>\<open>transfer_all\<close> appends the other queue and empties it.
\<close>

theorem queues_refine_lists:
  assumes "legal_run cs ([], [])"
  shows "\<exists>s'. queue_run cs (nx, queue_new, queue_new) = Some (lists_run cs ([], []), s')"
  by (rule queue_run_refines [OF _ assms]) simp

theorem queues_refine_lists_witness:
  "\<exists>s'. queue_run [Add True (1::nat), Add False 2, Add_stack True 3, Add False 4, Transfer_all True,
      Remove True, Add False 3, Remove True, Free_all_items True] (\<lambda>_. None, queue_new, queue_new)
    = Some ([[], [], [], [], [], [3], [], [1], [2, 4]], s')"
proof -
  let ?cs = "[Add True (1::nat), Add False 2, Add_stack True 3, Add False 4, Transfer_all True,
      Remove True, Add False 3, Remove True, Free_all_items True]"
  have "legal_run ?cs ([], [])" by simp
  from queues_refine_lists [OF this, of "\<lambda>_. None"] show ?thesis by simp
qed

end
