(* ===== verification/Events.thy ===== *)
theory Events
  imports Intrusive_Queue "HOL-Library.Multiset"
begin

text \<open>
  Events, the timer queue, the ready queue and the loop that every core runs, from
  \<^verbatim>\<open>kernel/events.h\<close> and \<^verbatim>\<open>kernel/events.cc\<close>. Events are addresses; the allocated ones are the
  set \<open>live\<close>, so that deleting an event that is not allocated is a failure. The value of
  \<^verbatim>\<open>Pit::jiffies\<close> when it is read is an argument. The operations on each queue run under its
  lock and are steps; one turn of the loop of one core is the composition of them.
\<close>

section \<open>The timer queue\<close>

record 'p pq_entry =
  pq_at :: u32
  pq_event :: 'p

text \<open>The list of entries from the head on; the loop looks for the first later entry.\<close>

fun pq_add :: "u32 \<Rightarrow> 'p \<Rightarrow> 'p pq_entry list \<Rightarrow> 'p pq_entry list" where
  "pq_add at e [] = [\<lparr>pq_at = at, pq_event = e\<rparr>]"
| "pq_add at e (p # ps) =
     (if pq_at p > at then \<lparr>pq_at = at, pq_event = e\<rparr> # p # ps else p # pq_add at e ps)"

definition remove_if_ready :: "u32 \<Rightarrow> 'p pq_entry list \<Rightarrow> 'p option \<times> 'p pq_entry list" where
  "remove_if_ready jiffies q =
     (case q of
        [] \<Rightarrow> (None, [])
      | pqe # rest \<Rightarrow> if pq_at pqe \<le> jiffies then (Some (pq_event pqe), rest) else (None, q))"

section \<open>The event system\<close>

record 'p event_system =
  pq :: "'p pq_entry list"
  ready_queue :: "'p queue"
  nexts :: "'p next_store"
  to_free :: "nat \<Rightarrow> 'p option"
  kernel_interrupted :: "nat \<Rightarrow> bool"
  live :: "'p set"

definition events_initial :: "'p event_system" where
  "events_initial =
     \<lparr>pq = [], ready_queue = queue_new, nexts = \<lambda>_. None, to_free = \<lambda>_. None,
      kernel_interrupted = \<lambda>_. False, live = {}\<rparr>"

definition ready_add :: "'p \<Rightarrow> 'p event_system \<Rightarrow> 'p event_system" where
  "ready_add e s =
     (let (nx, q) = q_add e (nexts s) (ready_queue s) in s\<lparr>nexts := nx, ready_queue := q\<rparr>)"

definition timed :: "u32 \<Rightarrow> 'p \<Rightarrow> 'p event_system \<Rightarrow> 'p event_system" where
  "timed at e s = s\<lparr>pq := pq_add at e (pq s)\<rparr>"

text \<open>\<open>e\<close> is the address that \<^verbatim>\<open>new\<close> returns for the event.\<close>

definition go :: "u32 \<Rightarrow> 'p \<Rightarrow> u32 \<Rightarrow> 'p event_system \<Rightarrow> 'p event_system" where
  "go jiffies e delay s =
     (let s1 = s\<lparr>live := insert e (live s)\<rparr>
      in if delay = 0 then ready_add e s1 else timed (jiffies + delay + 1) e s1)"

definition delete_event :: "'p option \<Rightarrow> 'p event_system \<Rightarrow> 'p event_system outcome" where
  "delete_event p s =
     (case p of None \<Rightarrow> Inr s
      | Some e \<Rightarrow> if e \<in> live s then Inr (s\<lparr>live := live s - {e}\<rparr>) else Inl Panic)"

text \<open>The inner loop: move every entry that is due to the ready queue.\<close>

function drain_due :: "u32 \<Rightarrow> 'p event_system \<Rightarrow> 'p event_system" where
  "drain_due jiffies s =
     (case remove_if_ready jiffies (pq s) of
        (None, q) \<Rightarrow> s\<lparr>pq := q\<rparr>
      | (Some e, q) \<Rightarrow> drain_due jiffies (ready_add e (s\<lparr>pq := q\<rparr>)))"
  by pat_completeness auto

lemma pq_ready_add [simp]: "pq (ready_add e s) = pq s"
  by (simp add: ready_add_def Let_def split: prod.split)

termination drain_due
  by (relation "measure (\<lambda>(_, s). length (pq s))")
    (auto simp: remove_if_ready_def split: list.splits if_splits)

declare drain_due.simps [simp del]

text \<open>
  One turn of the loop of core \<open>c\<close>, up to the call of the event's work: the result is the
  event whose \<^verbatim>\<open>doit\<close> runs next, if any.
\<close>

definition event_loop_turn ::
    "u32 \<Rightarrow> nat \<Rightarrow> 'p event_system \<Rightarrow> ('p option \<times> 'p event_system) outcome" where
  "event_loop_turn jiffies c s =
     bind_ok (delete_event (to_free s c) s) (\<lambda>s1.
       let s2 = drain_due jiffies (s1\<lparr>to_free := (to_free s1)(c := None)\<rparr>);
           (r, q) = q_remove (nexts s2) (ready_queue s2);
           s3 = s2\<lparr>ready_queue := q\<rparr>
       in Inr (r, case r of None \<Rightarrow> s3
            | Some e \<Rightarrow> s3\<lparr>to_free := (to_free s3)(c := Some e),
                            kernel_interrupted := (kernel_interrupted s3)(c := False)\<rparr>))"

section \<open>Order of the timer queue\<close>

lemma pq_add_sorted: "sorted (map pq_at q) \<Longrightarrow> sorted (map pq_at (pq_add at e q))"
proof -
  have set: "set (pq_add at e q) = insert \<lparr>pq_at = at, pq_event = e\<rparr> (set q)" for q :: "'a pq_entry list"
    by (induction q) auto
  show "sorted (map pq_at q) \<Longrightarrow> sorted (map pq_at (pq_add at e q))"
    by (induction q) (auto simp: set)
qed

lemma pq_add_filter:
  assumes "sorted (map pq_at q)"
  shows "filter (\<lambda>p. pq_at p = t) (pq_add at e q)
    = filter (\<lambda>p. pq_at p = t) q @ (if at = t then [\<lparr>pq_at = at, pq_event = e\<rparr>] else [])"
  using assms
proof (induction q)
  case Nil
  then show ?case by simp
next
  case (Cons p q)
  show ?case
  proof (cases "pq_at p > at")
    case True
    with Cons.prems have "\<forall>x \<in> set (p # q). pq_at x > at" by auto
    then have "at = t \<Longrightarrow> filter (\<lambda>p. pq_at p = t) (p # q) = []"
      by (auto simp: filter_empty_conv simp del: filter.simps)
    with True show ?thesis by auto
  next
    case False
    with Cons show ?thesis by simp
  qed
qed

text \<open>
  C37. The timer queue sorts stably: after any sequence of insertions into the empty queue its
  entries are the inserted ones in order of their times, and entries with the same time keep
  the order in which they were inserted.
\<close>

theorem pq_add_stable_sort:
  "fold (\<lambda>p. pq_add (pq_at p) (pq_event p)) ps [] = sort_key pq_at (ps :: 'p pq_entry list)"
proof (rule sym, rule properties_for_sort_key)
  let ?add = "\<lambda>p :: 'p pq_entry. pq_add (pq_at p) (pq_event p)"
  have eta: "\<lparr>pq_at = pq_at p, pq_event = pq_event p\<rparr> = p" for p :: "'p pq_entry" by simp
  have mset: "mset (pq_add at e q) = add_mset \<lparr>pq_at = at, pq_event = e\<rparr> (mset q)"
    for at and e :: 'p and q
    by (induction q) auto
  show "mset (fold ?add ps []) = mset ps"
    by (induction ps rule: rev_induct) (simp_all add: mset)
  have sorted: "sorted (map pq_at (fold ?add ps []))" for ps
    by (induction ps rule: rev_induct) (simp_all add: pq_add_sorted)
  then show "sorted (map pq_at (fold ?add ps []))" .
  show "filter (\<lambda>p. pq_at k = pq_at p) (fold ?add ps []) = filter (\<lambda>p. pq_at k = pq_at p) ps"
    for k :: "'p pq_entry"
  proof (induction ps rule: rev_induct)
    case Nil
    then show ?case by simp
  next
    case (snoc p ps)
    then show ?case
      using pq_add_filter [OF sorted [of ps], of "pq_at k" "pq_at p" "pq_event p"] by (simp add: eq_commute)
  qed
qed

section \<open>The loop\<close>

definition is_due :: "u32 \<Rightarrow> 'p pq_entry \<Rightarrow> bool" where
  "is_due jiffies p \<longleftrightarrow> pq_at p \<le> jiffies"

lemma ready_add_fields [simp]:
  "to_free (ready_add e s) = to_free s" "live (ready_add e s) = live s"
  by (simp_all add: ready_add_def Let_def split: prod.split)

lemma ready_add_rep:
  assumes "queue_rep (nexts s) (ready_queue s) rs" "e \<notin> set rs"
  shows "queue_rep (nexts (ready_add e s)) (ready_queue (ready_add e s)) (rs @ [e])"
  using assms lq.enq_rep [OF assms]
  by (cases "q_add e (nexts s) (ready_queue s)") (simp add: ready_add_def)

lemma drain_due_spec:
  assumes "queue_rep (nexts s) (ready_queue s) rs" "distinct (rs @ map pq_event (pq s))"
  shows "queue_rep (nexts (drain_due j s)) (ready_queue (drain_due j s))
           (rs @ map pq_event (takeWhile (is_due j) (pq s)))
    \<and> pq (drain_due j s) = dropWhile (is_due j) (pq s)
    \<and> to_free (drain_due j s) = to_free s \<and> live (drain_due j s) = live s"
  using assms
proof (induction "pq s" arbitrary: s rs)
  case Nil
  then show ?case by (simp add: drain_due.simps [of j s] remove_if_ready_def flip: Nil(1))
next
  case (Cons p ps)
  note pq = Cons.hyps(2) [symmetric]
  show ?case
  proof (cases "is_due j p")
    case False
    with Cons.prems show ?thesis
      by (simp add: drain_due.simps [of j s] remove_if_ready_def pq is_due_def)
  next
    case True
    let ?s = "ready_add (pq_event p) (s\<lparr>pq := ps\<rparr>)"
    have step: "drain_due j s = drain_due j ?s"
      using True by (simp add: drain_due.simps [of j s] remove_if_ready_def pq is_due_def)
    have "pq_event p \<notin> set rs" using Cons.prems(2) pq by auto
    then have rep: "queue_rep (nexts ?s) (ready_queue ?s) (rs @ [pq_event p])"
      using ready_add_rep [of "s\<lparr>pq := ps\<rparr>" rs "pq_event p"] Cons.prems(1) by simp
    have "distinct ((rs @ [pq_event p]) @ map pq_event (pq ?s))" using Cons.prems(2) pq by simp
    from Cons.hyps(1) [of ?s, OF _ rep this] True show ?thesis unfolding step by (simp add: pq)
  qed
qed

text \<open>
  Runs of the event system: \<open>now\<close> is the number of ticks so far, \<open>due\<close> records when each event
  may run at the earliest. Work submits events with \<^verbatim>\<open>go\<close>, at addresses that are not allocated,
  and any core takes a turn of the loop.
\<close>

inductive ev_run :: "nat \<Rightarrow> ('p \<Rightarrow> nat) \<Rightarrow> 'p event_system \<Rightarrow> bool" where
  start: "ev_run now due events_initial"
| tick: "ev_run now due s \<Longrightarrow> now \<le> now' \<Longrightarrow> now' < 2 ^ 32 \<Longrightarrow> ev_run now' due s"
| submit: "ev_run now due s \<Longrightarrow> e \<notin> live s \<Longrightarrow> now + unat delay + 1 < 2 ^ 32 \<Longrightarrow>
    ev_run now (due(e := if delay = 0 then now else now + unat delay + 1)) (go (of_nat now) e delay s)"
| turn: "ev_run now due s \<Longrightarrow> now < 2 ^ 32 \<Longrightarrow> event_loop_turn (of_nat now) c s = Inr (r, s') \<Longrightarrow>
    ev_run now due s'"

definition ev_inv :: "nat \<Rightarrow> ('p \<Rightarrow> nat) \<Rightarrow> 'p event_system \<Rightarrow> 'p list \<Rightarrow> bool" where
  "ev_inv now due s rs \<longleftrightarrow> queue_rep (nexts s) (ready_queue s) rs
     \<and> distinct (rs @ map pq_event (pq s))
     \<and> set rs \<union> pq_event ` set (pq s) \<subseteq> live s
     \<and> (\<forall>c e. to_free s c = Some e \<longrightarrow> e \<in> live s \<and> e \<notin> set rs \<union> pq_event ` set (pq s)
          \<and> (\<forall>c'. to_free s c' = Some e \<longrightarrow> c' = c))
     \<and> (\<forall>e \<in> set rs. due e \<le> now) \<and> (\<forall>p \<in> set (pq s). due (pq_event p) = unat (pq_at p))"

lemma pq_add_set: "set (pq_add at e q) = insert \<lparr>pq_at = at, pq_event = e\<rparr> (set q)"
  by (induction q) auto

lemma pq_add_distinct:
  "distinct (map pq_event (pq_add at e q)) \<longleftrightarrow> e \<notin> pq_event ` set q \<and> distinct (map pq_event q)"
  by (induction q) (auto simp: pq_add_set)

lemma go_inv:
  assumes inv: "ev_inv now due s rs" and e: "e \<notin> live s" and small: "now + unat delay + 1 < 2 ^ 32"
  shows "\<exists>rs'. ev_inv now (due(e := if delay = 0 then now else now + unat delay + 1))
     (go (of_nat now) e delay s) rs'"
proof (cases "delay = 0")
  case True
  let ?s = "s\<lparr>live := insert e (live s)\<rparr>"
  have "e \<notin> set rs" "e \<notin> pq_event ` set (pq s)" using inv e by (auto simp: ev_inv_def)
  moreover have "queue_rep (nexts (ready_add e ?s)) (ready_queue (ready_add e ?s)) (rs @ [e])"
    using inv calculation by (intro ready_add_rep) (simp_all add: ev_inv_def)
  ultimately have "ev_inv now (due(e := now)) (ready_add e ?s) (rs @ [e])"
    using inv e unfolding ev_inv_def by auto
  then show ?thesis using True by (auto simp: go_def)
next
  case False
  have at: "unat (of_nat now + delay + 1 :: u32) = now + unat delay + 1"
    using small by (simp add: unat_word_ariths unat_of_nat)
  have "e \<notin> set rs" "e \<notin> pq_event ` set (pq s)" using inv e by (auto simp: ev_inv_def)
  then have "ev_inv now (due(e := now + unat delay + 1)) (go (of_nat now) e delay s) rs"
    using inv e False at
    by (auto simp: ev_inv_def go_def timed_def pq_add_set pq_add_distinct)
  then show ?thesis using False by auto
qed

lemma delete_to_free:
  assumes inv: "ev_inv now due s rs"
  shows "\<exists>s1. delete_event (to_free s c) s = Inr s1
    \<and> ev_inv now due (s1\<lparr>to_free := (to_free s1)(c := None)\<rparr>) rs
    \<and> to_free s1 = to_free s \<and> pq s1 = pq s"
proof (cases "to_free s c")
  case None
  then show ?thesis using inv by (auto simp: delete_event_def ev_inv_def)
next
  case (Some e)
  with inv have e: "e \<in> live s" "e \<notin> set rs" "e \<notin> pq_event ` set (pq s)"
    and other: "\<And>c'. to_free s c' = Some e \<Longrightarrow> c' = c"
    by (auto simp: ev_inv_def)
  have "ev_inv now due (s\<lparr>live := live s - {e}, to_free := (to_free s)(c := None)\<rparr>) rs"
    using inv e other unfolding ev_inv_def by auto
  with Some e show ?thesis by (simp add: delete_event_def)
qed

lemma drain_inv:
  assumes inv: "ev_inv now due s rs" and now: "now < 2 ^ 32"
  shows "ev_inv now due (drain_due (of_nat now) s)
    (rs @ map pq_event (takeWhile (is_due (of_nat now)) (pq s)))"
proof -
  let ?d = "is_due (of_nat now :: u32)" and ?s = "drain_due (of_nat now) s"
  have d: "queue_rep (nexts s) (ready_queue s) rs" "distinct (rs @ map pq_event (pq s))"
    using inv by (auto simp: ev_inv_def)
  have split: "pq s = takeWhile ?d (pq s) @ dropWhile ?d (pq s)" by simp
  have due: "due (pq_event p) \<le> now" if "p \<in> set (takeWhile ?d (pq s))" for p
  proof -
    have "?d p" "p \<in> set (pq s)" using that by (auto dest: set_takeWhileD)
    then show ?thesis using inv now
      by (auto simp: ev_inv_def is_due_def word_le_nat_alt unat_of_nat_exact)
  qed
  have set: "set (pq s) = set (takeWhile ?d (pq s)) \<union> set (dropWhile ?d (pq s))"
    by (metis set_append takeWhile_dropWhile_id)
  have dist: "distinct (rs @ map pq_event (takeWhile ?d (pq s)) @ map pq_event (dropWhile ?d (pq s)))"
    using d(2) by (metis map_append takeWhile_dropWhile_id)
  note spec = drain_due_spec [OF d, of "of_nat now"]
  have "set (rs @ map pq_event (takeWhile ?d (pq s))) \<union> pq_event ` set (pq ?s)
      = set rs \<union> pq_event ` set (pq s)"
    using spec by (auto simp: set)
  moreover have "\<forall>p \<in> set (pq ?s). due (pq_event p) = unat (pq_at p)"
    using spec inv unfolding ev_inv_def by (metis set_dropWhileD)
  moreover have "\<forall>e \<in> set (rs @ map pq_event (takeWhile ?d (pq s))). due e \<le> now"
    using inv due by (auto simp: ev_inv_def)
  ultimately show ?thesis using spec inv dist unfolding ev_inv_def by simp
qed

lemma turn_inv:
  assumes inv: "ev_inv now due s rs" and now: "now < 2 ^ 32"
  shows "\<exists>r s' rs'. event_loop_turn (of_nat now) c s = Inr (r, s') \<and> ev_inv now due s' rs'
    \<and> (\<forall>e. r = Some e \<longrightarrow> e \<in> live s' \<and> due e \<le> now \<and> to_free s' c = Some e)"
proof -
  from delete_to_free [OF inv, of c] obtain s1 where s1: "delete_event (to_free s c) s = Inr s1"
    "ev_inv now due (s1\<lparr>to_free := (to_free s1)(c := None)\<rparr>) rs" by blast
  define s2 where "s2 = drain_due (of_nat now) (s1\<lparr>to_free := (to_free s1)(c := None)\<rparr>)"
  define rs2 where "rs2 = rs @ map pq_event (takeWhile (is_due (of_nat now)) (pq s1))"
  have inv2: "ev_inv now due s2 rs2" unfolding s2_def rs2_def using drain_inv [OF s1(2) now] by simp
  have none: "to_free s2 c = None"
  proof -
    have "to_free s2 = (to_free s1)(c := None)"
      using drain_due_spec [of "s1\<lparr>to_free := (to_free s1)(c := None)\<rparr>" rs "of_nat now"] s1(2)
      unfolding s2_def by (simp add: ev_inv_def)
    then show ?thesis by simp
  qed
  have rep: "queue_rep (nexts s2) (ready_queue s2) rs2" using inv2 by (simp add: ev_inv_def)
  show ?thesis
  proof (cases rule: lq.deq_cases [OF rep])
    case 1
    then show ?thesis using s1(1) inv2
      by (intro exI [of _ None] exI [of _ s2] exI [of _ "[]"])
        (simp add: event_loop_turn_def flip: s2_def)
  next
    case (2 e xs q')
    let ?s = "s2\<lparr>ready_queue := q', to_free := (to_free s2)(c := Some e),
      kernel_interrupted := (kernel_interrupted s2)(c := False)\<rparr>"
    have "ev_inv now due ?s xs"
      using inv2 2 none unfolding ev_inv_def by (auto split: if_splits)
    moreover have "e \<in> live s2" "due e \<le> now" using inv2 2 by (auto simp: ev_inv_def)
    ultimately show ?thesis using s1(1) 2
      by (intro exI [of _ "Some e"] exI [of _ ?s] exI [of _ xs])
        (simp add: event_loop_turn_def flip: s2_def)
  qed
qed

lemma ev_run_inv: "ev_run now due s \<Longrightarrow> \<exists>rs. ev_inv now due s rs"
proof (induction rule: ev_run.induct)
  case (start now due)
  then show ?case by (auto simp: ev_inv_def events_initial_def)
next
  case (tick now due s now')
  then obtain rs where "ev_inv now due s rs" by blast
  then have "ev_inv now' due s rs"
    using tick.hyps(2) unfolding ev_inv_def by (meson order.trans)
  then show ?case by blast
next
  case (submit now due s e delay)
  then show ?case by (blast intro: go_inv)
next
  case (turn now due s c r s')
  then obtain rs where "ev_inv now due s rs" by blast
  from turn_inv [OF this turn.hyps(2), of c] turn.hyps(3) show ?case by auto
qed

text \<open>
  C14. Every turn of the event loop is safe, on every core and after any history of submitted
  work and turns of all cores: the event deleted at the start of the turn is allocated, so no
  event is deleted twice; the event that is run next is still allocated and is kept until the
  core's next turn; and it does not run before its time, the tick of its submission or, for a
  delayed one, more than \<open>delay\<close> ticks later (as long as these times fit 32 bits).
\<close>

theorem event_loop_turn_safe:
  assumes "ev_run now due s" "now < 2 ^ 32"
  shows "\<exists>r s'. event_loop_turn (of_nat now) c s = Inr (r, s')
    \<and> (\<forall>e. r = Some e \<longrightarrow> e \<in> live s' \<and> due e \<le> now \<and> to_free s' c = Some e)"
  using ev_run_inv [OF assms(1)] turn_inv [OF _ assms(2)] by meson

theorem event_loop_turn_safe_witness:
  "\<exists>r s'. event_loop_turn 3 1 (go 3 (7 :: nat) 0 (go 3 8 5 events_initial)) = Inr (r, s') \<and> r = Some 7
     \<and> 7 \<in> live s' \<and> to_free s' 1 = Some 7"
proof -
  let ?due = "(\<lambda>_ :: nat. 0 :: nat)"
  let ?s = "go 3 (7 :: nat) 0 (go 3 8 5 events_initial)"
  let ?d = "?due(8 := 9, 7 := 3)"
  have "ev_run 3 ?due (events_initial :: nat event_system)" by (rule ev_run.start)
  from ev_run.submit [OF this, of 8 5] have "ev_run 3 (?due(8 := 9)) (go 3 8 5 events_initial)"
    by (simp add: events_initial_def)
  from ev_run.submit [OF this, of 7 0] have run: "ev_run 3 ?d ?s"
    by (simp add: events_initial_def go_def timed_def)
  have "fst (the (case event_loop_turn 3 1 ?s of Inr x \<Rightarrow> Some x | Inl _ \<Rightarrow> None)) = Some 7"
    by (simp add: event_loop_turn_def go_def timed_def ready_add_def q_add_def queue_new_def
        events_initial_def delete_event_def drain_due.simps remove_if_ready_def q_remove_def)
  with event_loop_turn_safe [OF run, of 1] show ?thesis by fastforce
qed

end
