(* ===== verification/Semaphores.thy ===== *)
theory Semaphores
  imports Events
begin

text \<open>
  Counting semaphores and futures, from \<^verbatim>\<open>kernel/semaphore.h\<close>, \<^verbatim>\<open>kernel/semaphore.cc\<close> and
  \<^verbatim>\<open>kernel/future.h\<close>. Waiting and ready events are linked through the same \<^verbatim>\<open>next\<close> fields,
  those of the event system; the semaphore's lock makes each operation one step.
\<close>

section \<open>Semaphores\<close>

record 'p semaphore =
  sem_count :: u64
  sem_waiting :: "'p queue"

definition semaphore_new :: "u32 \<Rightarrow> 'p semaphore" where
  "semaphore_new n = \<lparr>sem_count = ucast n, sem_waiting = queue_new\<rparr>"

definition sem_up :: "'p semaphore \<Rightarrow> 'p event_system \<Rightarrow> ('p semaphore \<times> 'p event_system) outcome" where
  "sem_up m s =
     (let (e, w) = q_remove (nexts s) (sem_waiting m)
      in case e of
           Some x \<Rightarrow> bind_ok (assert (sem_count m = 0))
             (\<lambda>_. Inr (m\<lparr>sem_waiting := w\<rparr>, ready_add x s))
         | None \<Rightarrow> Inr (m\<lparr>sem_waiting := w, sem_count := sem_count m + 1\<rparr>, s))"

text \<open>\<open>e\<close> is the address of the event that holds the work.\<close>

definition sem_down :: "'p \<Rightarrow> 'p semaphore \<Rightarrow> 'p event_system \<Rightarrow> 'p semaphore \<times> 'p event_system" where
  "sem_down e m s =
     (let s1 = s\<lparr>live := insert e (live s)\<rparr>
      in if sem_count m > 0 then (m\<lparr>sem_count := sem_count m - 1\<rparr>, ready_add e s1)
         else (let (nx, w) = q_add e (nexts s1) (sem_waiting m)
               in (m\<lparr>sem_waiting := w\<rparr>, s1\<lparr>nexts := nx\<rparr>)))"

definition sem_await_ready :: "'p semaphore \<Rightarrow> bool \<times> 'p semaphore" where
  "sem_await_ready m =
     (if sem_count m > 0 then (True, m\<lparr>sem_count := sem_count m - 1\<rparr>) else (False, m))"

definition sem_await_suspend :: "'p \<Rightarrow> 'p semaphore \<Rightarrow> 'p event_system \<Rightarrow> 'p semaphore \<times> 'p event_system" where
  "sem_await_suspend handle m s = sem_down handle m s"

definition sem_destroy :: "'p semaphore \<Rightarrow> 'p event_system \<Rightarrow> ('p semaphore \<times> 'p event_system) option" where
  "sem_destroy m s =
     Option.bind (q_free_all_items (nexts s) (sem_waiting m))
       (\<lambda>(ps, w). Some (m\<lparr>sem_waiting := w\<rparr>, s\<lparr>live := live s - set ps\<rparr>))"

section \<open>Accounting\<close>

text \<open>
  \<open>sem_rep m s ws rs\<close>: under the store of \<open>s\<close> the events \<open>ws\<close> wait on \<open>m\<close> and \<open>rs\<close> are ready;
  an event waits only while the count is zero.
\<close>

definition sem_rep :: "'p semaphore \<Rightarrow> 'p event_system \<Rightarrow> 'p list \<Rightarrow> 'p list \<Rightarrow> bool" where
  "sem_rep m s ws rs \<longleftrightarrow> queue_rep (nexts s) (sem_waiting m) ws
     \<and> queue_rep (nexts s) (ready_queue s) rs \<and> set ws \<inter> set rs = {}
     \<and> (ws \<noteq> [] \<longrightarrow> sem_count m = 0)"

lemma sem_up_wait:
  assumes "sem_rep m s (x # ws) rs"
  shows "\<exists>m' s'. sem_up m s = Inr (m', s') \<and> sem_rep m' s' ws (rs @ [x])
    \<and> sem_count m' = 0 \<and> live s' = live s"
proof -
  have rep: "queue_rep (nexts s) (sem_waiting m) (x # ws)" "queue_rep (nexts s) (ready_queue s) rs"
    and disj: "set (x # ws) \<inter> set rs = {}" and zero: "sem_count m = 0"
    using assms by (auto simp: sem_rep_def)
  from lq.deq_hd [OF rep(1)] obtain w where w: "q_remove (nexts s) (sem_waiting m) = (Some x, w)" by blast
  obtain nx q where e: "q_add x (nexts s) (ready_queue s) = (nx, q)" by fastforce
  note h = lq.handoff [OF rep disj w e]
  have "x \<notin> set ws" using lq.rep_distinct [OF rep(1)] by simp
  then show ?thesis using w e h disj zero
    by (auto simp: sem_up_def sem_rep_def ready_add_def)
qed

lemma sem_up_free:
  assumes "sem_rep m s [] rs"
  shows "\<exists>m'. sem_up m s = Inr (m', s) \<and> sem_rep m' s [] rs \<and> sem_count m' = sem_count m + 1"
  using assms by (auto simp: sem_rep_def sem_up_def lq.deq_empty)

lemma sem_down_grant:
  assumes "sem_rep m s ws rs" "sem_count m > 0" "e \<notin> set rs"
  shows "\<exists>m' s'. sem_down e m s = (m', s') \<and> sem_rep m' s' [] (rs @ [e]) \<and> ws = []
    \<and> sem_count m' = sem_count m - 1 \<and> live s' = insert e (live s)"
proof -
  have "ws = []" using assms by (auto simp: sem_rep_def)
  moreover have "queue_rep (nexts (ready_add e (s\<lparr>live := insert e (live s)\<rparr>)))
      (ready_queue (ready_add e (s\<lparr>live := insert e (live s)\<rparr>))) (rs @ [e])"
    using assms by (intro ready_add_rep) (simp_all add: sem_rep_def)
  ultimately show ?thesis using assms
    by (auto simp: sem_down_def sem_rep_def queue_rep_empty)
qed

lemma sem_down_wait:
  assumes "sem_rep m s ws rs" "sem_count m = 0" "e \<notin> set ws" "e \<notin> set rs"
  shows "\<exists>m' s'. sem_down e m s = (m', s') \<and> sem_rep m' s' (ws @ [e]) rs \<and> sem_count m' = 0
    \<and> live s' = insert e (live s)"
proof -
  have rep: "queue_rep (nexts s) (sem_waiting m) ws" "queue_rep (nexts s) (ready_queue s) rs"
    and disj: "set ws \<inter> set rs = {}"
    using assms by (auto simp: sem_rep_def)
  obtain nx w where e: "q_add e (nexts s) (sem_waiting m) = (nx, w)" by fastforce
  have "set rs \<inter> insert e (set ws) = {}" using disj assms(4) by auto
  from lq.enq_rep [OF rep(1) assms(3) e] lq.enq_frame [OF rep this e] assms e disj show ?thesis
    by (auto simp: sem_down_def sem_rep_def)
qed


text \<open>
  Histories of a semaphore: \<open>Await b\<close> is a call of \<^verbatim>\<open>await_ready\<close> that returned \<open>b\<close>, \<open>Take e\<close>
  the removal of \<open>e\<close> from the ready queue by an event loop. \<open>rs0\<close> are the events that are ready
  when the semaphore is created. An event is not enqueued while it is in a queue.
\<close>

datatype 'p sem_call = Up | Down 'p | Await bool | Take 'p


definition ups :: "'p sem_call list \<Rightarrow> nat" where
  "ups cs = length (filter (\<lambda>c. c = Up) cs)"

definition quick :: "'p sem_call list \<Rightarrow> nat" where
  "quick cs = length (filter (\<lambda>c. c = Await True) cs)"

definition downs :: "'p sem_call list \<Rightarrow> 'p list" where
  "downs cs = concat (map (\<lambda>c. case c of Down e \<Rightarrow> [e] | _ \<Rightarrow> []) cs)"

definition taken :: "'p sem_call list \<Rightarrow> 'p list" where
  "taken cs = concat (map (\<lambda>c. case c of Take e \<Rightarrow> [e] | _ \<Rightarrow> []) cs)"

lemma sem_call_simps [simp]:
  "ups [] = 0" "quick [] = 0" "downs [] = []" "taken [] = []"
  "ups (cs @ [c]) = ups cs + (if c = Up then 1 else 0)"
  "quick (cs @ [c]) = quick cs + (if c = Await True then 1 else 0)"
  "downs (cs @ [c]) = downs cs @ (case c of Down e \<Rightarrow> [e] | _ \<Rightarrow> [])"
  "taken (cs @ [c]) = taken cs @ (case c of Take e \<Rightarrow> [e] | _ \<Rightarrow> [])"
  by (simp_all add: ups_def quick_def downs_def taken_def)


lemma sem_rep_unique:
  assumes "sem_rep m s ws rs" "sem_rep m s ws' rs'"
  shows "ws' = ws \<and> rs' = rs"
  using assms free_from_path unfolding sem_rep_def queue_rep_def by (metis option.inject)

lemma sem_rep_count: "sem_rep m s ws rs \<Longrightarrow> sem_rep (m\<lparr>sem_count := sem_count m - 1\<rparr>) s [] rs \<or> sem_count m = 0"
  by (auto simp: sem_rep_def queue_rep_empty)






section \<open>Futures\<close>

text \<open>
  A future is a semaphore and a value. The event that \<^verbatim>\<open>get\<close> and \<^verbatim>\<open>await_suspend\<close> enqueue first
  raises the semaphore again and then calls its work with the value; the calls are recorded.
\<close>

record ('p, 'v) future =
  fut_sem :: "'p semaphore"
  fut_value :: 'v

definition future_new :: "'v \<Rightarrow> ('p, 'v) future" where
  "future_new d = \<lparr>fut_sem = semaphore_new 0, fut_value = d\<rparr>"

definition fut_up ::
    "('p, 'v) future \<Rightarrow> 'p event_system \<Rightarrow> (('p, 'v) future \<times> 'p event_system) outcome" where
  "fut_up f s = bind_ok (sem_up (fut_sem f) s) (\<lambda>(m, s'). Inr (f\<lparr>fut_sem := m\<rparr>, s'))"

definition future_set ::
    "'v \<Rightarrow> ('p, 'v) future \<Rightarrow> 'p event_system \<Rightarrow> (('p, 'v) future \<times> 'p event_system) outcome" where
  "future_set v f s = fut_up (f\<lparr>fut_value := v\<rparr>) s"

definition future_get :: "'p \<Rightarrow> ('p, 'v) future \<Rightarrow> 'p event_system \<Rightarrow> ('p, 'v) future \<times> 'p event_system" where
  "future_get e f s = (let (m, s') = sem_down e (fut_sem f) s in (f\<lparr>fut_sem := m\<rparr>, s'))"

text \<open>The work of the event: \<^verbatim>\<open>state->sem.up(); work(state->value)\<close>.\<close>

definition future_event ::
    "('p, 'v) future \<Rightarrow> 'p event_system \<Rightarrow> ('v \<times> ('p, 'v) future \<times> 'p event_system) outcome" where
  "future_event f s = bind_ok (fut_up f s) (\<lambda>(f', s'). Inr (fut_value f', f', s'))"

definition future_await_ready ::
    "('p, 'v) future \<Rightarrow> 'p event_system \<Rightarrow> (bool \<times> ('p, 'v) future \<times> 'p event_system) outcome" where
  "future_await_ready f s =
     (let (out, m) = sem_await_ready (fut_sem f); f1 = f\<lparr>fut_sem := m\<rparr>
      in if out then bind_ok (fut_up f1 s) (\<lambda>(f2, s'). Inr (out, f2, s')) else Inr (out, f1, s))"

definition future_return_value :: "'v \<Rightarrow> ('p, 'v) future \<Rightarrow> ('p, 'v) future" where
  "future_return_value v f = f\<lparr>fut_value := v\<rparr>"

definition future_final_suspend ::
    "('p, 'v) future \<Rightarrow> 'p event_system \<Rightarrow> (('p, 'v) future \<times> 'p event_system) outcome" where
  "future_final_suspend f s = fut_up f s"

definition future_await_resume :: "('p, 'v) future \<Rightarrow> 'v" where
  "future_await_resume f = fut_value f"

text \<open>One turn of an event loop whose ready queue holds events of this future.\<close>

definition future_turn ::
    "('p, 'v) future \<Rightarrow> 'p event_system \<Rightarrow> (('p \<times> 'v) option \<times> ('p, 'v) future \<times> 'p event_system) outcome" where
  "future_turn f s =
     (let (r, q) = q_remove (nexts s) (ready_queue s); s1 = s\<lparr>ready_queue := q\<rparr>
      in case r of None \<Rightarrow> Inr (None, f, s1)
         | Some e \<Rightarrow> bind_ok (future_event f s1) (\<lambda>(v, f', s'). Inr (Some (e, v), f', s')))"

fun future_turns ::
    "nat \<Rightarrow> ('p, 'v) future \<Rightarrow> 'p event_system \<Rightarrow> (('p \<times> 'v) list \<times> ('p, 'v) future \<times> 'p event_system) outcome" where
  "future_turns 0 f s = Inr ([], f, s)"
| "future_turns (Suc n) f s =
     bind_ok (future_turn f s) (\<lambda>(r, f1, s1). bind_ok (future_turns n f1 s1)
       (\<lambda>(rs, f2, s2). Inr ((case r of None \<Rightarrow> [] | Some c \<Rightarrow> [c]) @ rs, f2, s2)))"

datatype ('p, 'v) fut_call = Set_value 'v | Get 'p | Poll bool 'v | Called 'p 'v

definition is_set :: "('p, 'v) fut_call list \<Rightarrow> bool" where
  "is_set cs \<longleftrightarrow> (\<exists>v. Set_value v \<in> set cs)"

text \<open>
  Histories of a future, with at most one call of \<^verbatim>\<open>set\<close>: \<open>Poll b v\<close> is an \<^verbatim>\<open>await_ready\<close> that
  returned \<open>b\<close> when \<^verbatim>\<open>await_resume\<close> would give \<open>v\<close>; \<open>Called e v\<close> says that the work of \<open>e\<close> ran on \<open>v\<close>.
\<close>

inductive fut_run ::
    "'v \<Rightarrow> ('p, 'v) fut_call list \<Rightarrow> ('p, 'v) future \<Rightarrow> 'p event_system \<Rightarrow> bool" where
  start: "queue_rep (nexts s) (ready_queue s) [] \<Longrightarrow> fut_run d [] (future_new d) s"
| set: "fut_run d cs f s \<Longrightarrow> \<not> is_set cs \<Longrightarrow> future_set v f s = Inr (f', s') \<Longrightarrow>
    fut_run d (cs @ [Set_value v]) f' s'"
| get: "fut_run d cs f s \<Longrightarrow> sem_rep (fut_sem f) s ws rs \<Longrightarrow> e \<notin> set ws \<Longrightarrow> e \<notin> set rs \<Longrightarrow>
    future_get e f s = (f', s') \<Longrightarrow> fut_run d (cs @ [Get e]) f' s'"
| poll: "fut_run d cs f s \<Longrightarrow> future_await_ready f s = Inr (b, f', s') \<Longrightarrow>
    fut_run d (cs @ [Poll b (future_await_resume f')]) f' s'"
| turn: "fut_run d cs f s \<Longrightarrow> future_turn f s = Inr (Some (e, v), f', s') \<Longrightarrow>
    fut_run d (cs @ [Called e v]) f' s'"

definition gets :: "('p, 'v) fut_call list \<Rightarrow> 'p list" where
  "gets cs = concat (map (\<lambda>c. case c of Get e \<Rightarrow> [e] | _ \<Rightarrow> []) cs)"

definition called :: "('p, 'v) fut_call list \<Rightarrow> ('p \<times> 'v) list" where
  "called cs = concat (map (\<lambda>c. case c of Called e v \<Rightarrow> [(e, v)] | _ \<Rightarrow> []) cs)"

definition ready_polls :: "('p, 'v) fut_call list \<Rightarrow> 'v list" where
  "ready_polls cs = concat (map (\<lambda>c. case c of Poll True v \<Rightarrow> [v] | _ \<Rightarrow> []) cs)"

lemma fut_call_simps [simp]:
  "gets [] = []" "called [] = []" "ready_polls [] = []" "\<not> is_set []"
  "gets (cs @ [c]) = gets cs @ (case c of Get e \<Rightarrow> [e] | _ \<Rightarrow> [])"
  "called (cs @ [c]) = called cs @ (case c of Called e v \<Rightarrow> [(e, v)] | _ \<Rightarrow> [])"
  "ready_polls (cs @ [c]) = ready_polls cs @ (case c of Poll True v \<Rightarrow> [v] | _ \<Rightarrow> [])"
  "is_set (cs @ [c]) \<longleftrightarrow> is_set cs \<or> (\<exists>v. c = Set_value v)"
  by (auto simp: gets_def called_def ready_polls_def is_set_def split: fut_call.splits bool.splits)

text \<open>While unset, no permit exists; once set, exactly one permit circulates.\<close>

definition fut_inv ::
    "('p, 'v) fut_call list \<Rightarrow> ('p, 'v) future \<Rightarrow> 'p event_system \<Rightarrow> 'p list \<Rightarrow> 'p list \<Rightarrow> bool" where
  "fut_inv cs f s ws rs \<longleftrightarrow> sem_rep (fut_sem f) s ws rs
     \<and> map fst (called cs) @ rs @ ws = gets cs
     \<and> (\<not> is_set cs \<longrightarrow> sem_count (fut_sem f) = 0 \<and> rs = [] \<and> called cs = [] \<and> ready_polls cs = [])
     \<and> (is_set cs \<longrightarrow> (sem_count (fut_sem f) = 1 \<and> rs = [] \<and> ws = [] \<or>
          sem_count (fut_sem f) = 0 \<and> length rs = 1)
        \<and> (\<forall>v. Set_value v \<in> set cs \<longrightarrow> fut_value f = v \<and> set (map snd (called cs) @ ready_polls cs) \<subseteq> {v}))"


lemma fut_up_cases:
  assumes "sem_rep (fut_sem f) s ws rs"
  obtains (free) f' where "ws = []" "fut_up f s = Inr (f', s)" "sem_rep (fut_sem f') s [] rs"
      "sem_count (fut_sem f') = sem_count (fut_sem f) + 1" "fut_value f' = fut_value f"
  | (handoff) x xs f' s' where "ws = x # xs" "fut_up f s = Inr (f', s')"
      "sem_rep (fut_sem f') s' xs (rs @ [x])" "sem_count (fut_sem f') = 0" "fut_value f' = fut_value f"
proof (cases ws)
  case Nil
  with sem_up_free [of "fut_sem f" s rs] assms obtain m' where
    "sem_up (fut_sem f) s = Inr (m', s)" "sem_rep m' s [] rs" "sem_count m' = sem_count (fut_sem f) + 1"
    by auto
  with Nil free [of "f\<lparr>fut_sem := m'\<rparr>"] show ?thesis by (simp add: fut_up_def)
next
  case (Cons x xs)
  with sem_up_wait [of "fut_sem f" s x xs rs] assms obtain m' s' where
    "sem_up (fut_sem f) s = Inr (m', s')" "sem_rep m' s' xs (rs @ [x])" "sem_count m' = 0" by auto
  with Cons handoff [of x xs "f\<lparr>fut_sem := m'\<rparr>" s'] show ?thesis by (simp add: fut_up_def)
qed

text \<open>With the one permit in the ready queue, a turn runs its event and passes the permit on.\<close>

lemma future_turn_step:
  assumes rep: "sem_rep (fut_sem f) s ws [e]" and zero: "sem_count (fut_sem f) = 0"
  shows "\<exists>f' s'. future_turn f s = Inr (Some (e, fut_value f), f', s') \<and> fut_value f' = fut_value f
    \<and> (case ws of [] \<Rightarrow> sem_rep (fut_sem f') s' [] [] \<and> sem_count (fut_sem f') = 1
       | x # xs \<Rightarrow> sem_rep (fut_sem f') s' xs [x] \<and> sem_count (fut_sem f') = 0)"
proof -
  have "queue_rep (nexts s) (ready_queue s) [e]" using rep by (simp add: sem_rep_def)
  from lq.deq_hd [OF this] obtain q where q: "q_remove (nexts s) (ready_queue s) = (Some e, q)"
    "queue_rep (nexts s) q []" by blast
  let ?s = "s\<lparr>ready_queue := q\<rparr>"
  have "sem_rep (fut_sem f) ?s ws []" using rep q by (simp add: sem_rep_def)
  then show ?thesis
  proof (cases rule: fut_up_cases)
    case (free f')
    with q zero show ?thesis by (simp add: future_turn_def future_event_def)
  next
    case (handoff x xs f' s')
    with q show ?thesis by (simp add: future_turn_def future_event_def)
  qed
qed

lemma future_turn_idle:
  assumes "sem_rep (fut_sem f) s ws []"
  shows "\<exists>s'. future_turn f s = Inr (None, f, s')"
  using assms lq.deq_empty [of "nexts s" "ready_queue s"]
  by (simp add: sem_rep_def future_turn_def)

lemma future_turns_all:
  assumes "sem_rep (fut_sem f) s ws [e]" "sem_count (fut_sem f) = 0"
  shows "\<exists>f' s'. future_turns (Suc (length ws)) f s = Inr (map (\<lambda>e. (e, fut_value f)) (e # ws), f', s')"
  using assms
proof (induction ws arbitrary: e f s)
  case Nil
  from future_turn_step [OF Nil] show ?case by auto
next
  case (Cons x xs)
  from future_turn_step [OF Cons.prems] obtain f' s' where
    1: "future_turn f s = Inr (Some (e, fut_value f), f', s')" "fut_value f' = fut_value f"
       "sem_rep (fut_sem f') s' xs [x]" "sem_count (fut_sem f') = 0" by auto
  from Cons.IH [OF 1(3,4)] 1 show ?case by auto
qed

lemma fut_run_inv: "fut_run d cs f s \<Longrightarrow> \<exists>ws rs. fut_inv cs f s ws rs"
proof (induction rule: fut_run.induct)
  case (start s d)
  then have "fut_inv [] (future_new d) s [] []"
    by (simp add: fut_inv_def sem_rep_def future_new_def semaphore_new_def)
  then show ?case by blast
next
  case (set d cs f s v f' s')
  then obtain ws rs where inv: "fut_inv cs f s ws rs" by blast
  then have rep: "sem_rep (fut_sem (f\<lparr>fut_value := v\<rparr>)) s ws []" and z: "rs = []" "called cs = []"
      "ready_polls cs = []" "sem_count (fut_sem f) = 0" "ws = gets cs"
    using set.hyps(2) by (auto simp: fut_inv_def)
  have only: "Set_value u \<in> set (cs @ [Set_value v]) \<Longrightarrow> u = v" for u
    using set.hyps(2) by (auto simp: is_set_def)
  from rep show ?case
  proof (cases rule: fut_up_cases)
    case (free f2)
    then have "fut_inv (cs @ [Set_value v]) f' s' [] []"
      using set.hyps(3) z only by (auto simp: fut_inv_def future_set_def)
    then show ?thesis by blast
  next
    case (handoff x xs f2 s2)
    then have "fut_inv (cs @ [Set_value v]) f' s' xs [x]"
      using set.hyps(3) z only by (auto simp: fut_inv_def future_set_def)
    then show ?thesis by blast
  qed
next
  case (get d cs f s ws rs e f' s')
  then obtain ws' rs' where "fut_inv cs f s ws' rs'" by blast
  with get.hyps(2) have inv: "fut_inv cs f s ws rs" using sem_rep_unique unfolding fut_inv_def by metis
  have sets: "Set_value v \<in> set (cs @ [Get e]) \<longleftrightarrow> Set_value v \<in> set cs" for v by auto
  show ?case
  proof (cases "sem_count (fut_sem f) > 0")
    case True
    from sem_down_grant [OF get.hyps(2) True get.hyps(4)] obtain m'
      where "sem_down e (fut_sem f) s = (m', s')" "f' = f\<lparr>fut_sem := m'\<rparr>"
        "sem_rep m' s' [] (rs @ [e])" "ws = []" "sem_count m' = sem_count (fut_sem f) - 1"
      using get.hyps(5) by (auto simp: future_get_def)
    then have "fut_inv (cs @ [Get e]) f' s' [] (rs @ [e])"
      using inv True unfolding fut_inv_def sets by auto
    then show ?thesis by blast
  next
    case False
    then have "sem_count (fut_sem f) = 0" by (simp add: word_gt_0)
    from sem_down_wait [OF get.hyps(2) this get.hyps(3,4)] obtain m'
      where "sem_down e (fut_sem f) s = (m', s')" "f' = f\<lparr>fut_sem := m'\<rparr>"
        "sem_rep m' s' (ws @ [e]) rs" "sem_count m' = 0"
      using get.hyps(5) by (auto simp: future_get_def)
    then have "fut_inv (cs @ [Get e]) f' s' (ws @ [e]) rs"
      using inv False unfolding fut_inv_def sets by auto
    then show ?thesis by blast
  qed
next
  case (poll d cs f s b f' s')
  then obtain ws rs where inv: "fut_inv cs f s ws rs" by blast
  have sets: "Set_value v \<in> set (cs @ [Poll b u]) \<longleftrightarrow> Set_value v \<in> set cs" for v u by auto
  show ?case
  proof (cases "sem_count (fut_sem f) > 0")
    case False
    then have "fut_inv (cs @ [Poll b (future_await_resume f')]) f' s' ws rs"
      using inv poll.hyps(2) unfolding fut_inv_def sets
      by (auto simp: future_await_ready_def sem_await_ready_def)
    then show ?thesis by blast
  next
    case True
    let ?f = "f\<lparr>fut_sem := fut_sem f\<lparr>sem_count := sem_count (fut_sem f) - 1\<rparr>\<rparr>"
    have w: "is_set cs" "ws = []" "rs = []" "sem_count (fut_sem f) = 1"
      using inv True by (auto simp: fut_inv_def)
    then have "sem_rep (fut_sem ?f) s [] []" using inv by (simp add: fut_inv_def sem_rep_def)
    then have "fut_inv (cs @ [Poll b (future_await_resume f')]) f' s' [] []"
    proof (cases rule: fut_up_cases)
      case (free f2)
      then show ?thesis using inv poll.hyps(2) w True unfolding fut_inv_def sets
        by (auto simp: future_await_ready_def sem_await_ready_def future_await_resume_def)
    next
      case (handoff x xs f2 s2)
      then show ?thesis by simp
    qed
    then show ?thesis by blast
  qed
next
  case (turn d cs f s e v f' s')
  then obtain ws rs where inv: "fut_inv cs f s ws rs" by blast
  have "rs \<noteq> []" using inv turn.hyps(2) future_turn_idle unfolding fut_inv_def by fastforce
  then have set: "is_set cs" "sem_count (fut_sem f) = 0" using inv by (auto simp: fut_inv_def)
  with inv \<open>rs \<noteq> []\<close> obtain e' where rs: "rs = [e']"
    by (auto simp: fut_inv_def length_Suc_conv)
  have sets: "Set_value u \<in> set (cs @ [Called e v]) \<longleftrightarrow> Set_value u \<in> set cs" for u by auto
  have rep: "sem_rep (fut_sem f) s ws [e']" using inv rs by (simp add: fut_inv_def)
  from future_turn_step [OF rep set(2)] turn.hyps(2) have e: "e' = e" "v = fut_value f" "fut_value f' = fut_value f"
    and next_: "case ws of [] \<Rightarrow> sem_rep (fut_sem f') s' [] [] \<and> sem_count (fut_sem f') = 1
       | x # xs \<Rightarrow> sem_rep (fut_sem f') s' xs [x] \<and> sem_count (fut_sem f') = 0" by auto
  have "fut_inv (cs @ [Called e v]) f' s' (tl ws) (take 1 ws)"
    using inv set rs e next_ unfolding fut_inv_def sets by (cases ws) auto
  then show ?case by blast
qed


text \<open>
  C15. A future delivers its value. Before \<^verbatim>\<open>set\<close> no work runs: the event loop finds nothing to
  do. After one \<^verbatim>\<open>set\<close> with value \<open>v\<close>, in whatever order \<^verbatim>\<open>get\<close>, \<^verbatim>\<open>await_ready\<close>, \<^verbatim>\<open>set\<close> and turns
  of the event loop came before, every call so far received \<open>v\<close>, and as many further turns as
  there are outstanding calls run each outstanding work exactly once, in the order of the
  \<^verbatim>\<open>get\<close> calls and with \<open>v\<close>.
\<close>

theorem future_delivers:
  assumes "fut_run d cs f s"
  shows "if is_set cs
    then \<exists>v f' s'. Set_value v \<in> set cs \<and> set (map snd (called cs) @ ready_polls cs) \<subseteq> {v}
      \<and> future_turns (length (gets cs) - length (called cs)) f s
        = Inr (map (\<lambda>e. (e, v)) (drop (length (called cs)) (gets cs)), f', s')
    else called cs = [] \<and> ready_polls cs = [] \<and> (\<exists>s'. future_turn f s = Inr (None, f, s'))"
proof -
  from fut_run_inv [OF assms] obtain ws rs where inv: "fut_inv cs f s ws rs" by blast
  show ?thesis
  proof (cases "is_set cs")
    case False
    with inv future_turn_idle [of f s ws] show ?thesis by (auto simp: fut_inv_def)
  next
    case True
    then obtain v where v: "Set_value v \<in> set cs" by (auto simp: is_set_def)
    have val: "fut_value f = v" "set (map snd (called cs) @ ready_polls cs) \<subseteq> {v}"
      using inv True v unfolding fut_inv_def by blast+
    have "gets cs = map fst (called cs) @ rs @ ws" using inv by (simp add: fut_inv_def)
    then have rest: "drop (length (called cs)) (gets cs) = rs @ ws"
      "length (gets cs) - length (called cs) = length (rs @ ws)" by simp_all
    have "\<exists>f' s'. future_turns (length (rs @ ws)) f s = Inr (map (\<lambda>e. (e, v)) (rs @ ws), f', s')"
    proof (cases "rs = []")
      case True
      with inv \<open>is_set cs\<close> show ?thesis by (auto simp: fut_inv_def)
    next
      case False
      with inv True obtain e where "rs = [e]" "sem_count (fut_sem f) = 0"
        by (auto simp: fut_inv_def length_Suc_conv)
      with future_turns_all [of f s ws e] inv val(1) show ?thesis by (simp add: fut_inv_def)
    qed
    with True v val rest show ?thesis by auto
  qed
qed


theorem future_delivers_witness:
  "\<exists>f s f' s'. fut_run (0 :: nat) [Get (5 :: nat), Get 6, Set_value 9] f s
     \<and> future_turns 2 f s = Inr ([(5, 9), (6, 9)], f', s')"
proof -
  let ?f0 = "future_new 0 :: (nat, nat) future" and ?s0 = "events_initial :: nat event_system"
  have q: "queue_rep (nexts ?s0) (ready_queue ?s0) []" by (simp add: events_initial_def)
  then have r0: "fut_run 0 [] ?f0 ?s0" by (rule fut_run.start)
  have rep0: "sem_rep (fut_sem ?f0) ?s0 [] []" and c0: "sem_count (fut_sem ?f0) = 0"
    using q by (simp_all add: sem_rep_def future_new_def semaphore_new_def)
  from sem_down_wait [OF rep0 c0, of 5] obtain m1 s1
    where 1: "sem_down 5 (fut_sem ?f0) ?s0 = (m1, s1)" "sem_rep m1 s1 [5] []" "sem_count m1 = 0" by auto
  let ?f1 = "?f0\<lparr>fut_sem := m1\<rparr>"
  have r1: "fut_run 0 [Get 5] ?f1 s1"
    using fut_run.get [OF r0 rep0, of 5 ?f1 s1] 1(1) by (simp add: future_get_def)
  from sem_down_wait [OF 1(2,3), of 6] obtain m2 s2
    where 2: "sem_down 6 m1 s1 = (m2, s2)" "sem_rep m2 s2 [5, 6] []" "sem_count m2 = 0" by auto
  let ?f2 = "?f1\<lparr>fut_sem := m2\<rparr>"
  have r2: "fut_run 0 [Get 5, Get 6] ?f2 s2"
    using fut_run.get [OF r1, of "[5]" "[]" 6 ?f2 s2] 1(2) 2(1) by (simp add: future_get_def)
  from sem_up_wait [OF 2(2)] obtain m3 s3 where 3: "sem_up m2 s2 = Inr (m3, s3)" by auto
  let ?f3 = "?f2\<lparr>fut_value := 9, fut_sem := m3\<rparr>"
  have "future_set 9 ?f2 s2 = Inr (?f3, s3)" using 3 by (simp add: future_set_def fut_up_def)
  from fut_run.set [OF r2 _ this] have r3: "fut_run 0 [Get 5, Get 6, Set_value 9] ?f3 s3"
    by (simp add: is_set_def)
  from future_delivers [OF r3] have "\<exists>f' s'. future_turns 2 ?f3 s3 = Inr ([(5, 9), (6, 9)], f', s')"
    by (simp add: is_set_def gets_def called_def numeral_2_eq_2)
  with r3 show ?thesis by blast
qed

end
