(* ===== verification/Pointers.thy ===== *)
theory Pointers
  imports Prelude
begin

text \<open>
  The smart pointers of \<^verbatim>\<open>kernel/shared.h\<close> and \<^verbatim>\<open>kernel/unique_ptr.h\<close>. The variables of a
  program that hold such pointers are the slots of a list; a slot is \<open>None\<close> while the variable is
  not constructed. Objects are addresses, and the state records which are allocated, so that
  touching or deleting an object that is not allocated is a failure.
\<close>

section \<open>Reference counted pointers\<close>

record 'a shared_state =
  ref_count :: "'a \<Rightarrow> u32 option"
  shared_vars :: "'a option option list"

definition shared_ref :: "'a option \<Rightarrow> 'a shared_state \<Rightarrow> 'a shared_state outcome" where
  "shared_ref p s =
     (case p of None \<Rightarrow> Inr s
      | Some a \<Rightarrow> (case ref_count s a of None \<Rightarrow> Inl Panic
          | Some n \<Rightarrow> Inr (s\<lparr>ref_count := (ref_count s)(a \<mapsto> n + 1)\<rparr>)))"

definition shared_unref :: "'a option \<Rightarrow> 'a shared_state \<Rightarrow> 'a shared_state outcome" where
  "shared_unref p s =
     (case p of None \<Rightarrow> Inr s
      | Some a \<Rightarrow> (case ref_count s a of None \<Rightarrow> Inl Panic
          | Some c \<Rightarrow> (let n = c - 1 in
              if n = 0 then Inr (s\<lparr>ref_count := (ref_count s)(a := None)\<rparr>)
              else Inr (s\<lparr>ref_count := (ref_count s)(a \<mapsto> n)\<rparr>))))"

definition shared_put :: "nat \<Rightarrow> 'a option option \<Rightarrow> 'a shared_state \<Rightarrow> 'a shared_state" where
  "shared_put i v s = s\<lparr>shared_vars := (shared_vars s)[i := v]\<rparr>"

text \<open>\<^verbatim>\<open>Shared<T>::make\<close>; \<open>a\<close> is the address that \<^verbatim>\<open>new\<close> returns for the counted object.\<close>

definition shared_make :: "nat \<Rightarrow> 'a \<Rightarrow> 'a shared_state \<Rightarrow> 'a shared_state outcome" where
  "shared_make i a s =
     bind_ok (shared_ref (Some a) (s\<lparr>ref_count := (ref_count s)(a \<mapsto> 0)\<rparr>))
       (\<lambda>s1. Inr (shared_put i (Some (Some a)) s1))"

definition shared_default :: "nat \<Rightarrow> 'a shared_state \<Rightarrow> 'a shared_state outcome" where
  "shared_default i s = Inr (shared_put i (Some None) s)"

definition shared_copy :: "nat \<Rightarrow> 'a option \<Rightarrow> 'a shared_state \<Rightarrow> 'a shared_state outcome" where
  "shared_copy i rhs s = bind_ok (shared_ref rhs s) (\<lambda>s1. Inr (shared_put i (Some rhs) s1))"

text \<open>The move constructor; \<open>j\<close> is the variable of the source, which holds \<open>rhs\<close>.\<close>

definition shared_move :: "nat \<Rightarrow> nat \<Rightarrow> 'a option \<Rightarrow> 'a shared_state \<Rightarrow> 'a shared_state outcome" where
  "shared_move i j rhs s = Inr (shared_put j (Some None) (shared_put i (Some rhs) s))"

definition shared_assign ::
    "nat \<Rightarrow> 'a option \<Rightarrow> 'a option \<Rightarrow> 'a shared_state \<Rightarrow> 'a shared_state outcome" where
  "shared_assign i ptr rhs s =
     (if ptr \<noteq> rhs then
        bind_ok (shared_unref ptr s) (\<lambda>s1. shared_ref rhs (shared_put i (Some rhs) s1))
      else Inr s)"

definition shared_move_assign ::
    "nat \<Rightarrow> nat \<Rightarrow> 'a option \<Rightarrow> 'a option \<Rightarrow> 'a shared_state \<Rightarrow> 'a shared_state outcome" where
  "shared_move_assign i j ptr rhs s =
     (if ptr \<noteq> rhs then
        bind_ok (shared_unref ptr s) (\<lambda>s1. Inr (shared_put j (Some None) (shared_put i (Some rhs) s1)))
      else Inr s)"

definition shared_destroy :: "nat \<Rightarrow> 'a option \<Rightarrow> 'a shared_state \<Rightarrow> 'a shared_state outcome" where
  "shared_destroy i ptr s = bind_ok (shared_unref ptr s) (\<lambda>s1. Inr (shared_put i None s1))"

definition shared_reset :: "nat \<Rightarrow> 'a option \<Rightarrow> 'a shared_state \<Rightarrow> 'a shared_state outcome" where
  "shared_reset i ptr s = bind_ok (shared_unref ptr s) (\<lambda>s1. Inr (shared_put i (Some None) s1))"

text \<open>
  Programs over the variables. A constructor needs a variable that is not constructed, every
  other operation and every source a constructed one, and a new object a free address: a
  statement that violates this is not a program and is skipped.
\<close>

datatype 'a shared_op =
  Make nat 'a | Default nat | Copy nat nat | Move nat nat | Assign nat nat
  | Move_assign nat nat | Destroy nat | Reset nat

definition slot :: "nat \<Rightarrow> 'a shared_state \<Rightarrow> 'a option option option" where
  "slot i s = (if i < length (shared_vars s) then Some (shared_vars s ! i) else None)"

fun shared_step :: "'a shared_op \<Rightarrow> 'a shared_state \<Rightarrow> 'a shared_state outcome" where
  "shared_step (Make i a) s =
     (if slot i s = Some None \<and> ref_count s a = None then shared_make i a s else Inr s)"
| "shared_step (Default i) s = (if slot i s = Some None then shared_default i s else Inr s)"
| "shared_step (Copy i j) s =
     (case (slot i s, slot j s) of (Some None, Some (Some rhs)) \<Rightarrow> shared_copy i rhs s | _ \<Rightarrow> Inr s)"
| "shared_step (Move i j) s =
     (case (slot i s, slot j s) of (Some None, Some (Some rhs)) \<Rightarrow> shared_move i j rhs s | _ \<Rightarrow> Inr s)"
| "shared_step (Assign i j) s =
     (case (slot i s, slot j s) of
        (Some (Some p), Some (Some rhs)) \<Rightarrow> shared_assign i p rhs s | _ \<Rightarrow> Inr s)"
| "shared_step (Move_assign i j) s =
     (case (slot i s, slot j s) of
        (Some (Some p), Some (Some rhs)) \<Rightarrow> shared_move_assign i j p rhs s | _ \<Rightarrow> Inr s)"
| "shared_step (Destroy i) s = (case slot i s of Some (Some p) \<Rightarrow> shared_destroy i p s | _ \<Rightarrow> Inr s)"
| "shared_step (Reset i) s = (case slot i s of Some (Some p) \<Rightarrow> shared_reset i p s | _ \<Rightarrow> Inr s)"

fun shared_run :: "'a shared_op list \<Rightarrow> 'a shared_state \<Rightarrow> 'a shared_state outcome" where
  "shared_run [] s = Inr s"
| "shared_run (c # cs) s = bind_ok (shared_step c s) (shared_run cs)"

definition shared_initial :: "nat \<Rightarrow> 'a shared_state" where
  "shared_initial n = \<lparr>ref_count = \<lambda>_. None, shared_vars = replicate n None\<rparr>"

text \<open>The number of variables that point to an object.\<close>

definition pointers_to :: "'a \<Rightarrow> 'a option option list \<Rightarrow> nat" where
  "pointers_to a vs = length (filter (\<lambda>v. v = Some (Some a)) vs)"

definition counted :: "'a shared_state \<Rightarrow> ('a \<Rightarrow> nat) \<Rightarrow> bool" where
  "counted s f \<longleftrightarrow> (\<forall>a. ref_count s a = (if f a = 0 then None else Some (of_nat (f a))) \<and> f a < 2 ^ 32)"

definition inc :: "'a option \<Rightarrow> ('a \<Rightarrow> nat) \<Rightarrow> 'a \<Rightarrow> nat" where
  "inc p f = (case p of None \<Rightarrow> f | Some a \<Rightarrow> f(a := Suc (f a)))"

definition dec :: "'a option \<Rightarrow> ('a \<Rightarrow> nat) \<Rightarrow> 'a \<Rightarrow> nat" where
  "dec p f = (case p of None \<Rightarrow> f | Some a \<Rightarrow> f(a := f a - 1))"

definition present :: "'a option \<Rightarrow> ('a \<Rightarrow> nat) \<Rightarrow> bool" where
  "present p f \<longleftrightarrow> (case p of None \<Rightarrow> True | Some a \<Rightarrow> f a > 0)"

definition shared_inv :: "'a shared_state \<Rightarrow> bool" where
  "shared_inv s \<longleftrightarrow> length (shared_vars s) < 2 ^ 32 \<and> counted s (\<lambda>a. pointers_to a (shared_vars s))"

lemma dec_inc [simp]: "dec p (inc p f) = f"
  by (auto simp: inc_def dec_def split: option.split)

lemma pointers_to_None:
  assumes "i < length vs" "vs ! i = None \<or> vs ! i = Some None"
  shows "(\<lambda>a. pointers_to a (vs[i := Some p])) = inc p (\<lambda>a. pointers_to a vs)"
  using assms
proof (induction vs arbitrary: i)
  case Nil
  then show ?case by simp
next
  case (Cons x xs)
  show ?case
  proof (cases i)
    case 0
    with Cons.prems show ?thesis
      by (auto simp: pointers_to_def inc_def fun_eq_iff split: option.split)
  next
    case (Suc k)
    with Cons.IH [of k] Cons.prems show ?thesis
      by (auto simp: pointers_to_def inc_def fun_eq_iff split: option.splits)
  qed
qed

lemma pointers_to_Some:
  assumes "i < length vs" "vs ! i = Some p" "v = None \<or> v = Some None"
  shows "(\<lambda>a. pointers_to a (vs[i := v])) = dec p (\<lambda>a. pointers_to a vs)"
proof -
  have "vs = (vs[i := v])[i := Some p]" using assms by (metis list_update_id list_update_overwrite)
  then have "(\<lambda>a. pointers_to a vs) = inc p (\<lambda>a. pointers_to a (vs[i := v]))"
    using pointers_to_None [of i "vs[i := v]" p] assms by simp
  then show ?thesis by simp
qed

lemma pointers_to_present:
  assumes "i < length vs" "vs ! i = Some p"
  shows "present p (\<lambda>a. pointers_to a vs)"
  using assms nth_mem [of i vs]
  by (auto simp: present_def pointers_to_def filter_empty_conv split: option.split)

lemma counted_upd:
  assumes "counted s f" "n < 2 ^ 32"
  shows "counted (s\<lparr>ref_count := (ref_count s)(a := if n = 0 then None else Some (of_nat n))\<rparr>) (f(a := n))"
  using assms by (simp add: counted_def)

lemma unref_counted:
  assumes "counted s f" "present p f"
  shows "\<exists>s'. shared_unref p s = Inr s' \<and> counted s' (dec p f) \<and> shared_vars s' = shared_vars s"
proof (cases p)
  case None
  then show ?thesis using assms by (simp add: shared_unref_def dec_def)
next
  case (Some a)
  then have pos: "0 < f a" "f a < 2 ^ 32" using assms by (auto simp: present_def counted_def)
  then have c: "ref_count s a = Some (of_nat (f a))" using assms by (simp add: counted_def)
  have small: "f a - 1 < 2 ^ 32" using pos by simp
  define w where "w = (of_nat (f a - 1) :: u32)"
  have w: "(of_nat (f a) :: u32) - 1 = w" using pos by (simp add: w_def of_nat_diff)
  have "unat w = f a - 1" unfolding w_def using small by (simp add: unat_of_nat_exact)
  then have z: "w = 0 \<longleftrightarrow> f a - 1 = 0" by (metis unat_eq_0)
  from counted_upd [OF assms(1) small, of a] show ?thesis
    by (cases "f a - 1 = 0") (simp_all add: Some c w z dec_def shared_unref_def w_def [symmetric])
qed

lemma ref_counted:
  assumes "counted s f" "present p f" "\<And>a. p = Some a \<Longrightarrow> Suc (f a) < 2 ^ 32"
  shows "\<exists>s'. shared_ref p s = Inr s' \<and> counted s' (inc p f) \<and> shared_vars s' = shared_vars s"
  using assms by (auto simp: shared_ref_def inc_def counted_def present_def add.commute split: option.splits)


lemma shared_vars_put [simp]: "shared_vars (shared_put i v s) = (shared_vars s)[i := v]"
  by (simp add: shared_put_def)

lemma counted_put [simp]: "counted (shared_put i v s) f = counted s f"
  by (simp add: counted_def shared_put_def)

lemma slot_Some: "slot i s = Some v \<longleftrightarrow> i < length (shared_vars s) \<and> shared_vars s ! i = v"
  by (simp add: slot_def)

lemma pointers_to_less:
  assumes "i < length vs" "vs ! i \<noteq> Some (Some a)"
  shows "pointers_to a vs < length vs"
  using assms nth_mem [of i vs] by (auto simp: pointers_to_def intro!: length_filter_less)


definition refs :: "'a shared_state \<Rightarrow> 'a \<Rightarrow> nat" where
  "refs s a = pointers_to a (shared_vars s)"

text \<open>What each operation has to establish.\<close>

definition keeps :: "'a shared_state \<Rightarrow> 'a shared_state outcome \<Rightarrow> bool" where
  "keeps s r \<longleftrightarrow> (\<exists>s'. r = Inr s' \<and> shared_inv s' \<and> length (shared_vars s') = length (shared_vars s))"

lemma keepsI:
  assumes "counted s' (\<lambda>a. pointers_to a (shared_vars s'))" "shared_inv s"
    "length (shared_vars s') = length (shared_vars s)"
  shows "keeps s (Inr s')"
  using assms by (simp add: keeps_def shared_inv_def)

lemma keeps_same: "shared_inv s \<Longrightarrow> keeps s (Inr s)"
  by (simp add: keeps_def)

lemma inv_counted: "shared_inv s \<Longrightarrow> counted s (refs s)"
  by (simp add: shared_inv_def refs_def [abs_def])

lemma slot_refs:
  assumes "slot i s = Some v"
  shows "v = None \<or> v = Some None \<Longrightarrow> (\<lambda>a. pointers_to a ((shared_vars s)[i := Some p])) = inc p (refs s)"
    and "v = Some q \<Longrightarrow> (\<lambda>a. pointers_to a ((shared_vars s)[i := None])) = dec q (refs s)"
    and "v = Some q \<Longrightarrow> (\<lambda>a. pointers_to a ((shared_vars s)[i := Some None])) = dec q (refs s)"
    and "v = Some q \<Longrightarrow> present q (refs s)"
  using assms pointers_to_None [of i "shared_vars s" p] pointers_to_Some [of i "shared_vars s" q None]
    pointers_to_Some [of i "shared_vars s" q "Some None"] pointers_to_present [of i "shared_vars s" q]
  by (auto simp: slot_Some refs_def [abs_def])

lemma slot_small:
  assumes "shared_inv s" "slot i s = Some v" "v \<noteq> Some (Some a)"
  shows "Suc (refs s a) < 2 ^ 32"
  using assms pointers_to_less [of i "shared_vars s" a] by (auto simp: slot_Some shared_inv_def refs_def)

lemma keeps_make:
  assumes inv: "shared_inv s" and i: "slot i s = Some None" and a: "ref_count s a = None"
  shows "keeps s (shared_make i a s)"
proof -
  have "refs s a = 0" using inv_counted [OF inv] a by (auto simp: counted_def split: if_splits)
  with inv_counted [OF inv] have "counted (s\<lparr>ref_count := (ref_count s)(a \<mapsto> 1)\<rparr>) (inc (Some a) (refs s))"
    by (auto simp: counted_def inc_def)
  with slot_refs(1) [OF i, of "Some a"] inv show ?thesis
    by (auto simp: shared_make_def shared_ref_def intro!: keepsI)
qed

lemma keeps_default:
  assumes "shared_inv s" "slot i s = Some None"
  shows "keeps s (shared_default i s)"
  using assms inv_counted [OF assms(1)] slot_refs(1) [OF assms(2), of None]
  by (auto simp: shared_default_def inc_def intro!: keepsI)

lemma keeps_copy:
  assumes inv: "shared_inv s" and i: "slot i s = Some None" and j: "slot j s = Some (Some rhs)"
  shows "keeps s (shared_copy i rhs s)"
proof -
  from ref_counted [OF inv_counted [OF inv] slot_refs(4) [OF j refl] slot_small [OF inv i]]
  obtain s1 where "shared_ref rhs s = Inr s1" "counted s1 (inc rhs (refs s))" "shared_vars s1 = shared_vars s"
    by auto
  with slot_refs(1) [OF i, of rhs] inv show ?thesis
    by (auto simp: shared_copy_def intro!: keepsI)
qed

lemma refs_moved:
  assumes i: "slot i s = Some None \<or> slot i s = Some (Some None)" and j: "slot j s = Some (Some rhs)" and "i \<noteq> j"
  shows "(\<lambda>a. pointers_to a ((shared_vars s)[i := Some rhs, j := Some None])) = refs s"
proof -
  have "slot j (shared_put i (Some rhs) s) = Some (Some rhs)" using j \<open>i \<noteq> j\<close> by (auto simp: slot_Some)
  from slot_refs(3) [OF this refl] i slot_refs(1) [of i s _ rhs] show ?thesis
    by (auto simp: refs_def [abs_def])
qed

lemma keeps_move:
  assumes "shared_inv s" "slot i s = Some None" "slot j s = Some (Some rhs)"
  shows "keeps s (shared_move i j rhs s)"
proof -
  have "i \<noteq> j" using assms by auto
  with assms inv_counted [OF assms(1)] refs_moved [of i s j rhs] show ?thesis
    by (auto simp: shared_move_def intro!: keepsI)
qed

lemma unref_slot:
  assumes "shared_inv s" "slot i s = Some (Some p)"
  obtains s1 where "shared_unref p s = Inr s1" "counted s1 (dec p (refs s))" "shared_vars s1 = shared_vars s"
  using unref_counted [OF inv_counted [OF assms(1)] slot_refs(4) [OF assms(2) refl]] by blast

lemma keeps_destroy:
  assumes inv: "shared_inv s" and i: "slot i s = Some (Some p)"
  shows "keeps s (shared_destroy i p s)" "keeps s (shared_reset i p s)"
proof -
  obtain s1 where "shared_unref p s = Inr s1" "counted s1 (dec p (refs s))" "shared_vars s1 = shared_vars s"
    using unref_slot [OF inv i] .
  with inv slot_refs(2,3) [OF i refl] show "keeps s (shared_destroy i p s)" "keeps s (shared_reset i p s)"
    by (auto simp: shared_destroy_def shared_reset_def intro!: keepsI)
qed

lemma keeps_assign:
  assumes inv: "shared_inv s" and i: "slot i s = Some (Some p)" and j: "slot j s = Some (Some rhs)"
  shows "keeps s (shared_assign i p rhs s)"
proof (cases "p = rhs")
  case False
  obtain s1 where s1: "shared_unref p s = Inr s1" "counted s1 (dec p (refs s))" "shared_vars s1 = shared_vars s"
    using unref_slot [OF inv i] .
  have pres: "present rhs (dec p (refs s))" using slot_refs(4) [OF j refl] False
    by (auto simp: present_def dec_def split: option.splits)
  have small: "Suc (dec p (refs s) a) < 2 ^ 32" if "rhs = Some a" for a
    using slot_small [OF inv i, of a] False that by (auto simp: dec_def split: option.splits)
  have "counted (shared_put i (Some rhs) s1) (dec p (refs s))" using s1 by simp
  from ref_counted [OF this pres small] obtain s2 where
    s2: "shared_ref rhs (shared_put i (Some rhs) s1) = Inr s2" "counted s2 (inc rhs (dec p (refs s)))"
      "shared_vars s2 = (shared_vars s)[i := Some rhs]" using s1(3) by auto
  have "slot i (shared_put i None s) = Some None" using i by (auto simp: slot_Some)
  from slot_refs(1) [OF this, of rhs] slot_refs(2) [OF i refl]
  have "(\<lambda>a. pointers_to a (shared_vars s2)) = inc rhs (dec p (refs s))"
    by (simp add: s2(3) refs_def [abs_def])
  with s1 s2 False inv show ?thesis by (auto simp: shared_assign_def intro!: keepsI)
qed (use inv in \<open>simp add: shared_assign_def keeps_same\<close>)

lemma keeps_move_assign:
  assumes inv: "shared_inv s" and i: "slot i s = Some (Some p)" and j: "slot j s = Some (Some rhs)"
  shows "keeps s (shared_move_assign i j p rhs s)"
proof (cases "p = rhs")
  case False
  obtain s1 where s1: "shared_unref p s = Inr s1" "counted s1 (dec p (refs s))" "shared_vars s1 = shared_vars s"
    using unref_slot [OF inv i] .
  have "i \<noteq> j" using i j False by auto
  then have "slot i (shared_put i None s) = Some None" "slot j (shared_put i None s) = Some (Some rhs)"
    using i j by (auto simp: slot_Some)
  with refs_moved [of i "shared_put i None s" j rhs] \<open>i \<noteq> j\<close> slot_refs(2) [OF i refl]
  have "(\<lambda>a. pointers_to a ((shared_vars s)[i := Some rhs, j := Some None])) = dec p (refs s)"
    by (simp add: refs_def [abs_def])
  with s1 False inv show ?thesis by (auto simp: shared_move_assign_def intro!: keepsI)
qed (use inv in \<open>simp add: shared_move_assign_def keeps_same\<close>)

lemma shared_step_keeps:
  assumes "shared_inv s"
  shows "keeps s (shared_step c s)"
proof (cases c)
  case (Make i a)
  then show ?thesis using assms by (simp add: keeps_same keeps_make)
next
  case (Default i)
  then show ?thesis using assms by (simp add: keeps_same keeps_default)
next
  case (Copy i j)
  then show ?thesis using assms keeps_copy [OF assms, of i j]
    by (simp add: keeps_same split: option.split)
next
  case (Move i j)
  then show ?thesis using assms keeps_move [OF assms, of i j]
    by (simp add: keeps_same split: option.split)
next
  case (Assign i j)
  then show ?thesis using assms keeps_assign [OF assms, of i _ j]
    by (simp add: keeps_same split: option.split)
next
  case (Move_assign i j)
  then show ?thesis using assms keeps_move_assign [OF assms, of i _ j]
    by (simp add: keeps_same split: option.split)
next
  case (Destroy i)
  then show ?thesis using assms by (simp add: keeps_same keeps_destroy split: option.split)
next
  case (Reset i)
  then show ?thesis using assms by (simp add: keeps_same keeps_destroy split: option.split)
qed

lemma shared_run_keeps: "shared_inv s \<Longrightarrow> keeps s (shared_run cs s)"
proof (induction cs arbitrary: s)
  case Nil
  then show ?case by (simp add: keeps_same)
next
  case (Cons c cs)
  from shared_step_keeps [OF Cons.prems, of c] obtain s1 where
    s1: "shared_step c s = Inr s1" "shared_inv s1" "length (shared_vars s1) = length (shared_vars s)"
    by (auto simp: keeps_def)
  from Cons.IH [OF s1(2)] s1 show ?case by (simp add: keeps_def)
qed


text \<open>
  C26. Programs over reference counted pointers are memory safe and leak nothing. Whatever
  constructions, copies, moves, assignments, resets and destructions are performed on fewer than
  \<open>2 ^ 32\<close> variables, no operation touches an object that has been deleted, every allocated
  object's count is the number of variables that point to it, and an object is allocated if and
  only if some variable points to it.
\<close>

theorem shared_pointers_safe:
  assumes "n < 2 ^ 32"
  shows "\<exists>s. shared_run cs (shared_initial n) = Inr s
    \<and> (\<forall>a. ref_count s a = (if Some (Some a) \<in> set (shared_vars s)
           then Some (of_nat (pointers_to a (shared_vars s))) else None))"
proof -
  have "shared_inv (shared_initial n)"
    using assms by (simp add: shared_inv_def shared_initial_def counted_def pointers_to_def)
  from shared_run_keeps [OF this, of cs] obtain s where
    s: "shared_run cs (shared_initial n) = Inr s" "shared_inv s" by (auto simp: keeps_def)
  have "pointers_to a vs = 0 \<longleftrightarrow> Some (Some a) \<notin> set vs" for a :: 'a and vs
    by (auto simp: pointers_to_def filter_empty_conv)
  with s show ?thesis by (auto simp: shared_inv_def counted_def)
qed

theorem shared_pointers_safe_witness:
  "\<exists>s. shared_run [Make 0 (7 :: nat), Copy 1 0, Make 2 8, Assign 0 2, Destroy 1] (shared_initial 3) = Inr s
     \<and> ref_count s 8 = Some 2 \<and> ref_count s 7 = None"
proof -
  let ?cs = "[Make 0 (7 :: nat), Copy 1 0, Make 2 8, Assign 0 2, Destroy 1]"
  have n: "(3 :: nat) < 2 ^ 32" by simp
  from shared_pointers_safe [OF n, of ?cs] obtain s where s: "shared_run ?cs (shared_initial 3) = Inr s"
    and c: "\<And>a. ref_count s a = (if Some (Some a) \<in> set (shared_vars s)
           then Some (of_nat (pointers_to a (shared_vars s))) else None)" by blast
  have "shared_vars s = [Some (Some 8), None, Some (Some 8)]"
    using s by (simp add: shared_initial_def slot_def shared_make_def shared_copy_def shared_assign_def
        shared_destroy_def shared_ref_def shared_unref_def shared_put_def numeral_3_eq_3)
       (auto simp: numeral_eq_Suc)
  with s c [of 8] c [of 7] show ?thesis by (simp add: pointers_to_def)
qed

section \<open>Unique pointers\<close>

record 'a unique_ptr =
  up_ptr :: "'a option"
  should_free :: bool

text \<open>\<open>released\<close> are the objects that \<^verbatim>\<open>release\<close> handed back to the program.\<close>

record 'a unique_state =
  allocated :: "'a set"
  released :: "'a set"
  unique_vars :: "'a unique_ptr option list"

definition unique_put :: "nat \<Rightarrow> 'a unique_ptr option \<Rightarrow> 'a unique_state \<Rightarrow> 'a unique_state" where
  "unique_put i v s = s\<lparr>unique_vars := (unique_vars s)[i := v]\<rparr>"

definition try_free :: "'a unique_ptr \<Rightarrow> 'a unique_state \<Rightarrow> 'a unique_state outcome" where
  "try_free u s =
     (if should_free u then
        (case up_ptr u of None \<Rightarrow> Inr s
         | Some a \<Rightarrow> if a \<in> allocated s then Inr (s\<lparr>allocated := allocated s - {a}\<rparr>) else Inl Panic)
      else Inr s)"

definition unique_own :: "nat \<Rightarrow> 'a \<Rightarrow> 'a unique_state \<Rightarrow> 'a unique_state outcome" where
  "unique_own i a s =
     Inr (unique_put i (Some \<lparr>up_ptr = Some a, should_free = True\<rparr>) (s\<lparr>allocated := insert a (allocated s)\<rparr>))"

definition unique_empty :: "nat \<Rightarrow> 'a unique_state \<Rightarrow> 'a unique_state outcome" where
  "unique_empty i s = Inr (unique_put i (Some \<lparr>up_ptr = None, should_free = True\<rparr>) s)"

definition unique_move :: "nat \<Rightarrow> nat \<Rightarrow> 'a unique_ptr \<Rightarrow> 'a unique_state \<Rightarrow> 'a unique_state outcome" where
  "unique_move i j other s =
     Inr (unique_put j (Some (other\<lparr>up_ptr := None\<rparr>)) (unique_put i (Some other) s))"

text \<open>Both assignments from another pointer, which may be the same variable.\<close>

definition unique_assign ::
    "nat \<Rightarrow> nat \<Rightarrow> 'a unique_ptr \<Rightarrow> 'a unique_ptr \<Rightarrow> 'a unique_state \<Rightarrow> 'a unique_state outcome" where
  "unique_assign i j this_ptr other s =
     bind_ok (try_free this_ptr s)
       (\<lambda>s1. Inr (unique_put j (Some (other\<lparr>up_ptr := None\<rparr>)) (unique_put i (Some other) s1)))"

definition unique_assign_raw ::
    "nat \<Rightarrow> 'a \<Rightarrow> 'a unique_ptr \<Rightarrow> 'a unique_state \<Rightarrow> 'a unique_state outcome" where
  "unique_assign_raw i a this_ptr s = bind_ok (try_free this_ptr s) (unique_own i a)"

definition unique_release :: "nat \<Rightarrow> 'a unique_ptr \<Rightarrow> 'a unique_state \<Rightarrow> 'a unique_state outcome" where
  "unique_release i u s =
     Inr (unique_put i (Some \<lparr>up_ptr = None, should_free = False\<rparr>)
       (s\<lparr>released := released s \<union> set_option (up_ptr u)\<rparr>))"

definition unique_destroy :: "nat \<Rightarrow> 'a unique_ptr \<Rightarrow> 'a unique_state \<Rightarrow> 'a unique_state outcome" where
  "unique_destroy i u s = bind_ok (try_free u s) (\<lambda>s1. Inr (unique_put i None s1))"

text \<open>Programs over unique pointers, restricted to the well-formed ones as above.\<close>

datatype 'a unique_op =
  Own nat 'a | Empty nat | Take_over nat nat | Replace nat nat | Replace_raw nat 'a | Release nat | Drop nat

definition uslot :: "nat \<Rightarrow> 'a unique_state \<Rightarrow> 'a unique_ptr option option" where
  "uslot i s = (if i < length (unique_vars s) then Some (unique_vars s ! i) else None)"

fun unique_step :: "'a unique_op \<Rightarrow> 'a unique_state \<Rightarrow> 'a unique_state outcome" where
  "unique_step (Own i a) s =
     (if uslot i s = Some None \<and> a \<notin> allocated s then unique_own i a s else Inr s)"
| "unique_step (Empty i) s = (if uslot i s = Some None then unique_empty i s else Inr s)"
| "unique_step (Take_over i j) s =
     (case (uslot i s, uslot j s) of (Some None, Some (Some u)) \<Rightarrow> unique_move i j u s | _ \<Rightarrow> Inr s)"
| "unique_step (Replace i j) s =
     (case (uslot i s, uslot j s) of (Some (Some t), Some (Some u)) \<Rightarrow> unique_assign i j t u s | _ \<Rightarrow> Inr s)"
| "unique_step (Replace_raw i a) s =
     (case uslot i s of Some (Some t) \<Rightarrow> if a \<in> allocated s then Inr s else unique_assign_raw i a t s
      | _ \<Rightarrow> Inr s)"
| "unique_step (Release i) s = (case uslot i s of Some (Some u) \<Rightarrow> unique_release i u s | _ \<Rightarrow> Inr s)"
| "unique_step (Drop i) s = (case uslot i s of Some (Some u) \<Rightarrow> unique_destroy i u s | _ \<Rightarrow> Inr s)"

fun unique_run :: "'a unique_op list \<Rightarrow> 'a unique_state \<Rightarrow> 'a unique_state outcome" where
  "unique_run [] s = Inr s"
| "unique_run (c # cs) s = bind_ok (unique_step c s) (unique_run cs)"

definition unique_initial :: "nat \<Rightarrow> 'a unique_state" where
  "unique_initial n = \<lparr>allocated = {}, released = {}, unique_vars = replicate n None\<rparr>"

definition owns :: "nat \<Rightarrow> 'a \<Rightarrow> 'a unique_state \<Rightarrow> bool" where
  "owns i a s \<longleftrightarrow> (\<exists>u. uslot i s = Some (Some u) \<and> up_ptr u = Some a)"

definition unique_inv :: "'a unique_state \<Rightarrow> bool" where
  "unique_inv s \<longleftrightarrow> (\<forall>a. a \<in> allocated s \<longleftrightarrow> a \<in> released s \<or> (\<exists>i. owns i a s))
     \<and> (\<forall>i a. owns i a s \<longrightarrow> a \<notin> released s \<and> (\<forall>j. owns j a s \<longrightarrow> j = i))
     \<and> (\<forall>i u. uslot i s = Some (Some u) \<longrightarrow> up_ptr u \<noteq> None \<longrightarrow> should_free u)"

lemma uslot_put: "uslot k (unique_put i v s) = (if k = i \<and> i < length (unique_vars s) then Some v else uslot k s)"
  by (simp add: uslot_def unique_put_def)

lemma uslot_fields [simp]:
  "uslot i (s\<lparr>allocated := A\<rparr>) = uslot i s" "uslot i (s\<lparr>released := R\<rparr>) = uslot i s"
  by (simp_all add: uslot_def)

lemma uslot_length: "uslot i s = Some v \<Longrightarrow> i < length (unique_vars s)"
  by (simp add: uslot_def split: if_splits)

lemma put_fields [simp]:
  "allocated (unique_put i v s) = allocated s" "released (unique_put i v s) = released s"
  "length (unique_vars (unique_put i v s)) = length (unique_vars s)"
  by (simp_all add: unique_put_def)

lemma owns_put:
  assumes "i < length (unique_vars s)"
  shows "owns k a (unique_put i v s) \<longleftrightarrow>
    (if k = i then \<exists>u. v = Some u \<and> up_ptr u = Some a else owns k a s)"
  using assms by (auto simp: owns_def uslot_put)


text \<open>A slot that owns nothing.\<close>

definition vacant :: "'a unique_ptr option \<Rightarrow> bool" where
  "vacant v \<longleftrightarrow> (case v of None \<Rightarrow> True | Some u \<Rightarrow> up_ptr u = None)"

lemma put_put [simp]: "unique_put i v (unique_put i w s) = unique_put i v s"
  by (simp add: unique_put_def)

lemma vacant_owns: "uslot i s = Some v \<Longrightarrow> vacant v \<Longrightarrow> \<not> owns i a s"
  by (auto simp: vacant_def owns_def split: option.splits)

lemma put_vacant_inv:
  assumes inv: "unique_inv s" and i: "uslot i s = Some v" "vacant v" and w: "vacant w"
  shows "unique_inv (unique_put i w s)"
proof -
  have "owns k a (unique_put i w s) = owns k a s" for k a
    using vacant_owns [OF i] w uslot_length [OF i(1)] by (auto simp: owns_put vacant_def)
  with inv w show ?thesis
    by (auto simp: unique_inv_def uslot_put vacant_def split: if_splits)
qed

lemma free_slot:
  assumes inv: "unique_inv s" and i: "uslot i s = Some (Some u)" and w: "vacant w"
  shows "\<exists>s1. try_free u s = Inr s1 \<and> unique_inv (unique_put i w s1)
    \<and> unique_vars s1 = unique_vars s \<and> allocated s1 = allocated s - set_option (up_ptr u)"
proof (cases "up_ptr u")
  case None
  then have "vacant (Some u)" by (simp add: vacant_def)
  from put_vacant_inv [OF inv i this w] None show ?thesis by (simp add: try_free_def)
next
  case (Some a)
  have own: "owns i a s" using i Some by (simp add: owns_def)
  have free: "should_free u" and a: "a \<in> allocated s" "a \<notin> released s"
    using inv own i Some unfolding unique_inv_def by blast+
  let ?s = "unique_put i w (s\<lparr>allocated := allocated s - {a}\<rparr>)"
  have o: "owns k b ?s \<longleftrightarrow> k \<noteq> i \<and> owns k b s" for k b
    using w uslot_length [OF i] owns_put [of i "s\<lparr>allocated := allocated s - {a}\<rparr>" k b w]
    by (auto simp: vacant_def owns_def)
  have only: "owns k b s \<Longrightarrow> k = i \<longleftrightarrow> b = a" for k b
    using inv own i Some unfolding unique_inv_def owns_def by fastforce
  have "unique_inv ?s"
    unfolding unique_inv_def o
    using inv only own a w unfolding unique_inv_def
    by (auto simp: uslot_put vacant_def split: if_splits) blast+
  with free a Some show ?thesis by (simp add: try_free_def)
qed

lemma adopt:
  assumes inv: "unique_inv s" and i: "uslot i s = Some v" "vacant v" and a: "a \<notin> allocated s"
  shows "\<exists>s'. unique_own i a s = Inr s' \<and> unique_inv s' \<and> length (unique_vars s') = length (unique_vars s)"
proof -
  let ?w = "Some \<lparr>up_ptr = Some a, should_free = True\<rparr>"
  let ?s = "unique_put i ?w (s\<lparr>allocated := insert a (allocated s)\<rparr>)"
  have o: "owns k b ?s \<longleftrightarrow> k = i \<and> b = a \<or> owns k b s" for k b
    using vacant_owns [OF i] uslot_length [OF i(1)]
      owns_put [of i "s\<lparr>allocated := insert a (allocated s)\<rparr>" k b ?w]
    by (auto simp: owns_def)
  have "unique_inv ?s"
    unfolding unique_inv_def o using inv a unfolding unique_inv_def
    by (auto simp: uslot_put split: if_splits)
  then show ?thesis by (simp add: unique_own_def)
qed

lemma transfer_slot:
  assumes inv: "unique_inv s" and i: "uslot i s = Some v" "vacant v"
    and j: "uslot j s = Some (Some u)" and ij: "i \<noteq> j"
  shows "unique_inv (unique_put j (Some (u\<lparr>up_ptr := None\<rparr>)) (unique_put i (Some u) s))"
proof -
  let ?s = "unique_put j (Some (u\<lparr>up_ptr := None\<rparr>)) (unique_put i (Some u) s)"
  have len: "i < length (unique_vars s)" "j < length (unique_vars s)" using i j by (auto dest: uslot_length)
  have o: "owns k a ?s \<longleftrightarrow> (if k = j then False else if k = i then owns j a s else owns k a s)" for k a
    using len ij j by (auto simp: owns_put) (auto simp: owns_def)
  have "\<not> owns i a s" for a using vacant_owns [OF i] .
  with inv have "unique_inv ?s"
    unfolding unique_inv_def o
    using len ij j unfolding unique_inv_def
    by (auto simp: uslot_put split: if_splits) (metis | blast)+
  then show ?thesis .
qed


definition ukeeps :: "'a unique_state outcome \<Rightarrow> bool" where
  "ukeeps r \<longleftrightarrow> (\<exists>s'. r = Inr s' \<and> unique_inv s')"

lemma ukeeps_assign:
  assumes inv: "unique_inv s" and i: "uslot i s = Some (Some t)" and j: "uslot j s = Some (Some u)"
  shows "ukeeps (unique_assign i j t u s)"
proof (cases "i = j")
  case True
  with i j have "t = u" by simp
  have "vacant (Some (u\<lparr>up_ptr := None\<rparr>))" by (simp add: vacant_def)
  from free_slot [OF inv i this] True \<open>t = u\<close> show ?thesis
    by (auto simp: ukeeps_def unique_assign_def)
next
  case False
  let ?v = "Some \<lparr>up_ptr = None, should_free = True\<rparr>"
  have v: "vacant ?v" by (simp add: vacant_def)
  from free_slot [OF inv i v] obtain s1 where s1: "try_free t s = Inr s1" "unique_inv (unique_put i ?v s1)"
    "unique_vars s1 = unique_vars s" by blast
  have "uslot i (unique_put i ?v s1) = Some ?v" "uslot j (unique_put i ?v s1) = Some (Some u)"
    using i j False s1(3) by (auto simp: uslot_def unique_put_def split: if_splits)
  from transfer_slot [OF s1(2) this(1) v this(2) False] s1(1) show ?thesis
    by (simp add: ukeeps_def unique_assign_def)
qed

lemma ukeeps_assign_raw:
  assumes inv: "unique_inv s" and i: "uslot i s = Some (Some t)" and a: "a \<notin> allocated s"
  shows "ukeeps (unique_assign_raw i a t s)"
proof -
  let ?v = "Some \<lparr>up_ptr = None, should_free = True\<rparr>"
  have v: "vacant ?v" by (simp add: vacant_def)
  from free_slot [OF inv i v] obtain s1 where s1: "try_free t s = Inr s1" "unique_inv (unique_put i ?v s1)"
    "unique_vars s1 = unique_vars s" "allocated s1 = allocated s - set_option (up_ptr t)" by blast
  have "uslot i (unique_put i ?v s1) = Some ?v"
    using i s1(3) by (auto simp: uslot_def unique_put_def split: if_splits)
  from adopt [OF s1(2) this v, of a] a s1 show ?thesis
    by (auto simp: ukeeps_def unique_assign_raw_def unique_own_def unique_put_def)
qed

lemma ukeeps_release:
  assumes inv: "unique_inv s" and i: "uslot i s = Some (Some u)"
  shows "ukeeps (unique_release i u s)"
proof -
  let ?w = "Some \<lparr>up_ptr = None, should_free = False\<rparr>"
  let ?s = "unique_put i ?w (s\<lparr>released := released s \<union> set_option (up_ptr u)\<rparr>)"
  have o: "owns k b ?s \<longleftrightarrow> k \<noteq> i \<and> owns k b s" for k b
    using uslot_length [OF i] owns_put [of i "s\<lparr>released := released s \<union> set_option (up_ptr u)\<rparr>" k b ?w]
    by (auto simp: owns_def)
  have only: "owns k b s \<Longrightarrow> k = i \<longleftrightarrow> up_ptr u = Some b" for k b
    using inv i unfolding unique_inv_def owns_def by fastforce
  have "owns i b s \<longleftrightarrow> up_ptr u = Some b" for b using i by (auto simp: owns_def)
  then have "unique_inv ?s"
    unfolding unique_inv_def o
    using inv only unfolding unique_inv_def
    by (auto simp: uslot_put split: if_splits) metis+
  then show ?thesis by (simp add: ukeeps_def unique_release_def)
qed

lemma unique_step_keeps:
  assumes inv: "unique_inv s"
  shows "ukeeps (unique_step c s)"
proof (cases c)
  case (Own i a)
  then show ?thesis using inv adopt [OF inv, of i None a] by (auto simp: ukeeps_def vacant_def)
next
  case (Empty i)
  then show ?thesis using inv put_vacant_inv [OF inv, of i None]
    by (simp add: ukeeps_def unique_empty_def vacant_def)
next
  case (Take_over i j)
  have "uslot i s = Some None \<Longrightarrow> uslot j s = Some (Some u) \<Longrightarrow> i \<noteq> j" for u by auto
  then show ?thesis using Take_over inv transfer_slot [OF inv, of i None j]
    by (auto simp: ukeeps_def unique_move_def vacant_def split: option.split)
next
  case (Replace i j)
  then show ?thesis using inv ukeeps_assign [OF inv, of i _ j]
    by (auto simp: ukeeps_def split: option.split)
next
  case (Replace_raw i a)
  then show ?thesis using inv ukeeps_assign_raw [OF inv, of i _ a]
    by (auto simp: ukeeps_def split: option.split)
next
  case (Release i)
  then show ?thesis using inv ukeeps_release [OF inv, of i]
    by (auto simp: ukeeps_def split: option.split)
next
  case (Drop i)
  then show ?thesis using inv free_slot [OF inv, of i _ None]
    by (auto simp: ukeeps_def unique_destroy_def vacant_def split: option.split)
qed

lemma unique_run_keeps: "unique_inv s \<Longrightarrow> ukeeps (unique_run cs s)"
proof (induction cs arbitrary: s)
  case Nil
  then show ?case by (simp add: ukeeps_def)
next
  case (Cons c cs)
  from unique_step_keeps [OF Cons.prems, of c] Cons.IH show ?case by (auto simp: ukeeps_def)
qed

text \<open>
  C35. Programs over unique pointers never delete an object twice: every sequence of
  constructions, moves, assignments (self-assignment included), releases and destructions
  succeeds, every object that is still allocated was released to the program or is owned by
  exactly one pointer, and no owned object was released.
\<close>

theorem unique_pointers_safe:
  "\<exists>s. unique_run cs (unique_initial n) = Inr s
    \<and> (\<forall>a. a \<in> allocated s \<longleftrightarrow> a \<in> released s \<or> (\<exists>i. owns i a s))
    \<and> (\<forall>a i j. \<not> (owns i a s \<and> owns j a s \<and> i \<noteq> j) \<and> \<not> (owns i a s \<and> a \<in> released s))"
proof -
  have "unique_inv (unique_initial n)"
    by (auto simp: unique_inv_def unique_initial_def owns_def uslot_def split: if_splits)
  from unique_run_keeps [OF this, of cs] obtain s where
    "unique_run cs (unique_initial n) = Inr s" "unique_inv s" by (auto simp: ukeeps_def)
  then show ?thesis unfolding unique_inv_def by blast
qed

end
