(* ===== verification/Block_IO.thy ===== *)
theory Block_IO
  imports Prelude
begin

text \<open>
  Byte access to block devices, from \<^verbatim>\<open>kernel/block_io.h\<close> and \<^verbatim>\<open>kernel/block_io.cc\<close>, and the
  block cache of \<^verbatim>\<open>kernel/cache.h\<close> and \<^verbatim>\<open>kernel/cache.cc\<close>. The virtual functions of a device
  are arguments: its size in bytes, its block size and the function that reads a block, which
  may halt. The bytes a read stores into the caller's buffer are part of its result. The
  interface locale \<open>block_device\<close> says that a device stores a sequence of bytes; what the reads
  return is proved once for every such device.
\<close>

section \<open>Reads\<close>

definition size_in_blocks :: "u32 \<Rightarrow> u32 \<Rightarrow> u32" where
  "size_in_blocks size_in_bytes block_size = (size_in_bytes + block_size - 1) div block_size"

type_synonym block_reader = "u32 \<Rightarrow> u8 list outcome"

text \<open>The result and the bytes stored. The result is the number of bytes, or \<open>-1\<close>.\<close>

definition bio_read :: "u32 \<Rightarrow> u32 \<Rightarrow> block_reader \<Rightarrow> u32 \<Rightarrow> u32 \<Rightarrow> (int \<times> u8 list) outcome" where
  "bio_read sz block_size read_block offset desired_n =
     (if offset > sz then Inr (-1, [])
      else if offset = sz then Inr (0, [])
      else
        let n = min desired_n (sz - offset);
            block_number = offset div block_size;
            offset_in_block = offset mod block_size;
            actual_n = min (block_size - offset_in_block) n
        in bind_ok (assert (actual_n \<le> n)) (\<lambda>_.
           bind_ok (assert (offset + actual_n \<le> sz)) (\<lambda>_.
           if actual_n = block_size then
             bind_ok (assert (offset_in_block = 0)) (\<lambda>_.
             bind_ok (read_block block_number) (\<lambda>bytes. Inr (uint actual_n, bytes)))
           else
             bind_ok (assert (offset_in_block + actual_n \<le> block_size)) (\<lambda>_.
             bind_ok (read_block block_number) (\<lambda>temp.
               Inr (uint actual_n, take (unat actual_n) (drop (unat offset_in_block) temp)))))))"

lemma bio_read_count:
  assumes "bio_read sz bs rb offset n = Inr (cnt, bytes)" "0 < cnt"
  shows "cnt \<le> uint n"
  using assms
  by (auto simp: bio_read_def Let_def bind_ok_Inr_iff word_le_def min_def split: if_splits)

text \<open>The loop of \<^verbatim>\<open>read_all\<close>; \<open>total_count\<close> and \<open>acc\<close> are the count and the bytes so far.\<close>

function read_all_loop ::
    "u32 \<Rightarrow> u32 \<Rightarrow> block_reader \<Rightarrow> u32 \<Rightarrow> u32 \<Rightarrow> int \<Rightarrow> u8 list \<Rightarrow> (int \<times> u8 list) outcome" where
  "read_all_loop sz bs rb offset n total_count acc =
     (if n > 0 then
        (case bio_read sz bs rb offset n of
           Inl p \<Rightarrow> Inl p
         | Inr (cnt, bytes) \<Rightarrow>
             if cnt < 0 then Inr (cnt, acc)
             else if cnt = 0 then Inr (total_count, acc)
             else read_all_loop sz bs rb (offset + word_of_int cnt) (n - word_of_int cnt)
                    (total_count + cnt) (acc @ bytes))
      else Inr (total_count, acc))"
  by pat_completeness auto

termination read_all_loop
proof (relation "measure (\<lambda>(sz, bs, rb, offset, n, total_count, acc). unat n)", goal_cases)
  case (2 sz bs rb offset n total_count acc x cnt bytes)
  then have "0 < cnt" "cnt \<le> uint n" using bio_read_count by auto
  then have "uint (n - word_of_int cnt) < uint n"
    using uint_lt2p [of n] by (simp add: uint_word_ariths uint_word_of_int mod_pos_pos_trivial)
  then show ?case by (simp add: word_less_def flip: word_less_nat_alt)
qed simp

declare read_all_loop.simps [simp del]

definition bio_read_all :: "u32 \<Rightarrow> u32 \<Rightarrow> block_reader \<Rightarrow> u32 \<Rightarrow> u32 \<Rightarrow> (int \<times> u8 list) outcome" where
  "bio_read_all sz bs rb offset n = read_all_loop sz bs rb offset n 0 []"

text \<open>\<^verbatim>\<open>read(offset, thing)\<close> of a thing of \<open>n\<close> bytes.\<close>

definition bio_read_thing :: "u32 \<Rightarrow> u32 \<Rightarrow> block_reader \<Rightarrow> u32 \<Rightarrow> u32 \<Rightarrow> u8 list outcome" where
  "bio_read_thing sz bs rb offset n =
     bind_ok (bio_read_all sz bs rb offset n) (\<lambda>(cnt, bytes).
       bind_ok (assert (cnt = uint n)) (\<lambda>_. Inr bytes))"

section \<open>What a block device promises\<close>

locale block_device =
  fixes sz bs :: u32 and rb :: block_reader and contents :: "u8 list"
  assumes bs_pos: "0 < bs"
    and contents_length: "length contents = unat sz"
    and block: "k * unat bs < unat sz \<Longrightarrow> \<exists>bytes. rb (of_nat k) = Inr bytes \<and> length bytes = unat bs
      \<and> (\<forall>i < unat bs. k * unat bs + i < unat sz \<longrightarrow> bytes ! i = contents ! (k * unat bs + i))"

begin

definition chunk :: "nat \<Rightarrow> nat \<Rightarrow> nat" where
  "chunk offset n = min (unat bs - offset mod unat bs) (min n (unat sz - offset))"

lemma chunk_pos: "offset < unat sz \<Longrightarrow> 0 < n \<Longrightarrow> 0 < chunk offset n"
  using bs_pos by (simp add: chunk_def word_less_nat_alt)

lemma read_chunk:
  assumes off: "offset < sz" and n: "0 < n"
  shows "bio_read sz bs rb offset n
    = Inr (int (chunk (unat offset) (unat n)), take (chunk (unat offset) (unat n)) (drop (unat offset) contents))"
proof -
  let ?o = "unat offset" and ?b = "unat bs" and ?s = "unat sz"
  let ?k = "?o div ?b" and ?r = "?o mod ?b" and ?m = "chunk ?o (unat n)"
  have lt: "?o < ?s" "0 < ?b" "0 < unat n" using off n bs_pos by (simp_all add: word_less_nat_alt)
  define actual where "actual = min (bs - offset mod bs) (min n (sz - offset))"
  have rle: "?r < ?b" using lt by simp
  have act: "unat actual = ?m"
    using rle off
    by (simp add: actual_def chunk_def min_def unat_minus_exact word_le_nat_alt unat_mod_distrib
        word_less_nat_alt)
  have in_sz: "unat (offset + actual) = ?o + ?m" "?o + ?m \<le> ?s"
  proof -
    show le: "?o + ?m \<le> ?s" using lt by (simp add: chunk_def)
    show "unat (offset + actual) = ?o + ?m"
      using le_less_trans [OF le unat_u32_less] act by (subst unat_plus_exact) simp_all
  qed
  have in_blk: "unat (offset mod bs + actual) = ?r + ?m" "?r + ?m \<le> ?b"
  proof -
    show le: "?r + ?m \<le> ?b" using rle by (simp add: chunk_def)
    show "unat (offset mod bs + actual) = ?r + ?m"
      using le_less_trans [OF le unat_u32_less] act
      by (subst unat_plus_exact) (simp_all add: unat_mod_distrib)
  qed
  have kb: "?k * ?b + ?r = ?o" by simp
  then have "?k * ?b < ?s" using lt by linarith
  from block [OF this] obtain bytes where bytes: "rb (of_nat ?k) = Inr bytes" "length bytes = ?b"
    "\<And>i. i < ?b \<Longrightarrow> ?k * ?b + i < ?s \<Longrightarrow> bytes ! i = contents ! (?k * ?b + i)" by blast
  have blk: "of_nat ?k = offset div bs"
    by (simp flip: unat_div_distrib)
  have slice: "take ?m (drop ?r bytes) = take ?m (drop ?o contents)"
    using bytes in_sz(2) in_blk(2) contents_length kb by (intro nth_equalityI) (auto simp: add.assoc [symmetric])
  have whole: "actual = bs \<Longrightarrow> offset mod bs = 0 \<and> take ?m (drop ?r bytes) = bytes"
    using act in_blk(2) bytes(2) by (auto simp: word_unat_eq_iff unat_mod_distrib)
  have u: "uint actual = int ?m" using act by (metis uint_nat)
  have "actual \<le> min n (sz - offset)" unfolding actual_def by (rule min.cobounded2)
  moreover have "offset + actual \<le> sz" "offset mod bs + actual \<le> bs"
    using in_sz in_blk by (simp_all add: word_le_nat_alt)
  moreover have "\<not> offset > sz" "offset \<noteq> sz" using off by auto
  ultimately show ?thesis
    unfolding bio_read_def Let_def actual_def [symmetric] blk [symmetric] bytes(1) u
    using whole slice act by (cases "actual = bs") (simp_all add: unat_mod_distrib)
qed

lemma read_all_loop_spec:
  assumes "offset \<le> sz"
  shows "read_all_loop sz bs rb offset n t acc
    = Inr (t + int (min (unat n) (unat sz - unat offset)),
           acc @ take (min (unat n) (unat sz - unat offset)) (drop (unat offset) contents))"
  using assms
proof (induction "unat n" arbitrary: offset n t acc rule: less_induct)
  case less
  show ?case
  proof (cases "0 < n \<and> offset < sz")
    case False
    then have "n = 0 \<or> offset = sz" using less.prems by (auto simp: word_gt_0)
    then show ?thesis by (auto simp: read_all_loop.simps [of sz bs rb offset n] bio_read_def)
  next
    case True
    then have lt: "0 < unat n" "unat offset < unat sz" by (simp_all add: word_less_nat_alt)
    define m where "m = chunk (unat offset) (unat n)"
    have m: "0 < m" "m \<le> unat n" "m \<le> unat sz - unat offset"
      unfolding m_def using chunk_pos [OF lt(2,1)] by (simp_all add: chunk_def)
    let ?w = "word_of_int (int m) :: u32"
    have w: "unat ?w = m" using le_less_trans [OF m(2) unat_u32_less] by (simp add: unat_of_nat_exact)
    have n': "unat (n - ?w) = unat n - m" using w m(2) by (simp add: unat_minus_exact word_le_nat_alt)
    have o': "unat (offset + ?w) = unat offset + m"
      using w m(3) lt(2) le_less_trans [OF _ unat_u32_less, of "unat offset + m" sz]
      by (subst unat_plus_exact) simp_all
    have le: "offset + ?w \<le> sz" using o' m(3) lt(2) by (simp add: word_le_nat_alt)
    have "read_all_loop sz bs rb offset n t acc
        = read_all_loop sz bs rb (offset + ?w) (n - ?w) (t + int m) (acc @ take m (drop (unat offset) contents))"
      using True m(1) read_chunk [of offset n]
      by (simp add: read_all_loop.simps [of sz bs rb offset n] m_def [symmetric])
    also have "\<dots> = Inr (t + int m + int (min (unat n - m) (unat sz - (unat offset + m))),
        acc @ take m (drop (unat offset) contents)
          @ take (min (unat n - m) (unat sz - (unat offset + m))) (drop (unat offset + m) contents))"
      using less.hyps [of "n - ?w" "offset + ?w" "t + int m" "acc @ take m (drop (unat offset) contents)"]
        le n' o' m lt by simp
    moreover have "min (unat n) (unat sz - unat offset)
        = m + min (unat n - m) (unat sz - (unat offset + m))"
      using m by linarith
    ultimately show ?thesis by (simp add: take_add drop_drop add.commute add.left_commute)
  qed
qed

text \<open>What the reads of a device return, whatever the offset.\<close>

lemma read_all_spec:
  "bio_read_all sz bs rb offset n =
     (if offset \<le> sz then
        Inr (int (min (unat n) (unat sz - unat offset)),
             take (min (unat n) (unat sz - unat offset)) (drop (unat offset) contents))
      else Inr (if n = 0 then 0 else -1, []))"
proof (cases "offset \<le> sz")
  case True
  then show ?thesis by (simp add: bio_read_all_def read_all_loop_spec)
next
  case False
  then show ?thesis
    by (auto simp: bio_read_all_def read_all_loop.simps [of sz bs rb offset n] bio_read_def word_gt_0)
qed

lemma read_thing_spec:
  assumes "unat offset + unat n \<le> unat sz"
  shows "bio_read_thing sz bs rb offset n = Inr (take (unat n) (drop (unat offset) contents))"
  using assms by (simp add: bio_read_thing_def read_all_spec word_le_nat_alt)

end



section \<open>The disk\<close>

text \<open>
  The contents of the drive are a function from byte addresses to bytes; reading a sector gives
  its 512 bytes. The driver reports the largest 32-bit number as the size of the drive.
\<close>

definition ide_size_in_bytes :: u32 where "ide_size_in_bytes = NOT 0"
definition ide_block_size :: u32 where "ide_block_size = 512"

definition ide_read_block :: "(nat \<Rightarrow> u8) \<Rightarrow> block_reader" where
  "ide_read_block d sector = Inr (map d [unat sector * 512..<unat sector * 512 + 512])"

definition disk_contents :: "(nat \<Rightarrow> u8) \<Rightarrow> u8 list" where
  "disk_contents d = map d [0..<unat ide_size_in_bytes]"

lemma unat_ide_size: "unat ide_size_in_bytes = 4294967295"
  by (simp add: ide_size_in_bytes_def unsigned_minus_1_eq_mask mask_eq_exp_minus_1)

lemma disk_contents_nth: "i < unat ide_size_in_bytes \<Longrightarrow> disk_contents d ! i = d i"
  by (simp add: disk_contents_def)

lemma disk_contents_length [simp]: "length (disk_contents d) = unat ide_size_in_bytes"
  by (simp add: disk_contents_def)

interpretation ide: block_device ide_size_in_bytes ide_block_size "ide_read_block d" "disk_contents d" for d
proof
  show "0 < ide_block_size" by (simp add: ide_block_size_def)
  show "length (disk_contents d) = unat ide_size_in_bytes" by simp
next
  fix k assume k: "k * unat ide_block_size < unat ide_size_in_bytes"
  have b: "unat ide_block_size = 512" by (simp add: ide_block_size_def)
  have "unat (of_nat k :: u32) = k"
    using k by (intro unat_of_nat_exact) (simp add: b unat_ide_size)
  then show "\<exists>bytes. ide_read_block d (of_nat k) = Inr bytes \<and> length bytes = unat ide_block_size \<and>
      (\<forall>i < unat ide_block_size. k * unat ide_block_size + i < unat ide_size_in_bytes \<longrightarrow>
        bytes ! i = disk_contents d ! (k * unat ide_block_size + i))"
    by (auto simp: ide_read_block_def b disk_contents_nth)
qed

section \<open>The cache\<close>

record cache_entry =
  ce_block :: u32
  ce_data :: "u8 list"

definition CACHE_SIZE :: u32 where "CACHE_SIZE = 32"

text \<open>The new cache; \<open>junk\<close> is what the fresh data array holds.\<close>

definition new_cache :: "(nat \<Rightarrow> u8 list) \<Rightarrow> cache_entry list" where
  "new_cache junk = map (\<lambda>i. \<lparr>ce_block = 0xFFFFFFFF, ce_data = junk i\<rparr>) [0..<unat CACHE_SIZE]"

text \<open>
  The two critical sections of \<^verbatim>\<open>read_block\<close>: looking an entry up and filling it. Between them
  the device is read without a lock, so other cores may look up and fill entries.
\<close>

definition cache_index :: "u32 \<Rightarrow> nat" where
  "cache_index block_number = unat (block_number mod CACHE_SIZE)"

definition cache_lookup :: "u32 \<Rightarrow> cache_entry list \<Rightarrow> u8 list option" where
  "cache_lookup block_number cache =
     (let entry = cache ! cache_index block_number
      in if ce_block entry = block_number then Some (ce_data entry) else None)"

definition cache_fill :: "u32 \<Rightarrow> u8 list \<Rightarrow> cache_entry list \<Rightarrow> cache_entry list" where
  "cache_fill block_number buffer cache =
     cache[cache_index block_number := \<lparr>ce_block = block_number, ce_data = buffer\<rparr>]"

definition cached_read_block ::
    "block_reader \<Rightarrow> u32 \<Rightarrow> cache_entry list \<Rightarrow> (u8 list \<times> cache_entry list) outcome" where
  "cached_read_block device block_number cache =
     (case cache_lookup block_number cache of
        Some bytes \<Rightarrow> Inr (bytes, cache)
      | None \<Rightarrow> bind_ok (device block_number)
          (\<lambda>buffer. Inr (buffer, cache_fill block_number buffer cache)))"

text \<open>The states that cores reach when their calls interleave at the critical sections.\<close>

inductive cache_reachable :: "block_reader \<Rightarrow> cache_entry list \<Rightarrow> bool" where
  start: "cache_reachable device (new_cache junk)"
| fill: "cache_reachable device cache \<Longrightarrow> device block_number = Inr buffer \<Longrightarrow>
    cache_reachable device (cache_fill block_number buffer cache)"

lemma cache_index_less: "cache_index k < unat CACHE_SIZE"
  by (simp add: cache_index_def CACHE_SIZE_def unat_mod_distrib)

lemma cache_inv:
  assumes "cache_reachable device cache"
  shows "length cache = unat CACHE_SIZE
    \<and> (\<forall>i < unat CACHE_SIZE. ce_block (cache ! i) \<noteq> 0xFFFFFFFF \<longrightarrow>
         device (ce_block (cache ! i)) = Inr (ce_data (cache ! i)))"
  using assms
proof (induction rule: cache_reachable.induct)
  case (start device junk)
  then show ?case by (simp add: new_cache_def)
next
  case (fill device cache block_number buffer)
  then show ?case by (auto simp: cache_fill_def nth_list_update_if cache_index_less)
qed

text \<open>
  C33. The block cache is transparent. However the calls of several cores interleave, a lookup
  either misses or returns exactly what the device holds in that block, so a cached read returns
  the device's answer; the only block number this does not hold for is \<^verbatim>\<open>0xFFFFFFFF\<close>, the mark
  of an empty entry, which no 32-bit byte offset reaches.
\<close>

theorem cache_transparent:
  assumes "cache_reachable device cache" "k \<noteq> 0xFFFFFFFF"
  shows "(case cache_lookup k cache of None \<Rightarrow> True | Some bytes \<Rightarrow> device k = Inr bytes)
    \<and> map_sum id fst (cached_read_block device k cache) = device k
    \<and> (\<forall>bytes cache'. cached_read_block device k cache = Inr (bytes, cache') \<longrightarrow>
         cache_reachable device cache')"
proof -
  have hit: "device k = Inr bytes" if "cache_lookup k cache = Some bytes" for bytes
    using that cache_inv [OF assms(1)] cache_index_less [of k] assms(2)
    by (auto simp: cache_lookup_def Let_def split: if_splits)
  then show ?thesis using assms(1)
    by (cases "device k"; cases "cache_lookup k cache")
      (auto simp: cached_read_block_def intro: cache_reachable.fill)
qed

theorem cache_transparent_witness:
  "\<exists>bytes cache. cached_read_block (ide_read_block (\<lambda>i. of_nat i)) 37 (cache_fill 5 (map of_nat [2560..<3072])
       (new_cache (\<lambda>_. []))) = Inr (bytes, cache)
     \<and> bytes ! 3 = of_nat (37 * 512 + 3)"
proof -
  let ?d = "ide_read_block (\<lambda>i. of_nat i)" and ?c = "cache_fill 5 (map of_nat [2560..<3072]) (new_cache (\<lambda>_. []))"
  have "?d 5 = Inr (map of_nat [2560..<3072])" by (simp add: ide_read_block_def)
  then have r: "cache_reachable ?d ?c" by (rule cache_reachable.fill [OF cache_reachable.start])
  have "(37 :: u32) \<noteq> 0xFFFFFFFF" by simp
  from cache_transparent [OF r this] have "map_sum id fst (cached_read_block ?d 37 ?c) = ?d 37" by blast
  moreover obtain bytes where b: "?d 37 = Inr bytes" "bytes ! 3 = of_nat (37 * 512 + 3)"
    by (simp add: ide_read_block_def)
  ultimately show ?thesis by (cases "cached_read_block ?d 37 ?c") auto
qed

end
