(* ===== verification/Ext2.thy ===== *)
theory Ext2
  imports Block_IO
begin

text \<open>
  The file system of \<^verbatim>\<open>kernel/ext2.h\<close> and \<^verbatim>\<open>kernel/ext2.cc\<close>: mounting, i-nodes, the radix tree
  of data blocks, reading a node and searching a directory. The drive is the byte function \<open>d\<close>
  of the disk model; it is read through the block cache, which is transparent, so the model
  reads it directly. A directory scan may not end, when an entry has length zero, and is a
  partial function.
\<close>

section \<open>Little-endian values\<close>

primrec le_nat :: "u8 list \<Rightarrow> nat" where
  "le_nat [] = 0"
| "le_nat (b # bs) = unat b + 256 * le_nat bs"

definition get_u32 :: "u8 list \<Rightarrow> nat \<Rightarrow> u32" where
  "get_u32 buffer offset = of_nat (le_nat (take 4 (drop offset buffer)))"

definition get_u16 :: "u8 list \<Rightarrow> nat \<Rightarrow> u16" where
  "get_u16 buffer offset = of_nat (le_nat (take 2 (drop offset buffer)))"

section \<open>The file system\<close>

type_synonym drive = "nat \<Rightarrow> u8"

definition disk_thing :: "drive \<Rightarrow> u32 \<Rightarrow> u32 \<Rightarrow> u8 list outcome" where
  "disk_thing d offset n =
     bio_read_thing ide_size_in_bytes ide_block_size (ide_read_block d) offset n"

definition disk_read :: "drive \<Rightarrow> u32 \<Rightarrow> u32 \<Rightarrow> (int \<times> u8 list) outcome" where
  "disk_read d offset n = bio_read ide_size_in_bytes ide_block_size (ide_read_block d) offset n"

definition disk_read_all :: "drive \<Rightarrow> u32 \<Rightarrow> u32 \<Rightarrow> (int \<times> u8 list) outcome" where
  "disk_read_all d offset n =
     bio_read_all ide_size_in_bytes ide_block_size (ide_read_block d) offset n"

record ext2 =
  n_block_groups :: u32
  n_inodes_per_block_group :: u32
  fs_block_size :: u32
  inode_size :: u16
  group_inode_start_blocks :: "u32 list"

definition get_block_offset :: "u32 \<Rightarrow> u32 \<Rightarrow> u32" where
  "get_block_offset block_size block_number = block_number * block_size"

definition get_inode_offset :: "ext2 \<Rightarrow> u32 \<Rightarrow> u32 outcome" where
  "get_inode_offset fs inode_number =
     (let number = inode_number - 1
      in bind_ok (udivide number (n_inodes_per_block_group fs)) (\<lambda>block_group.
         bind_ok (read_at (group_inode_start_blocks fs) (unat block_group)) (\<lambda>block_group_offset.
           let local_index = number - block_group * n_inodes_per_block_group fs
           in Inr (block_group_offset * fs_block_size fs + local_index * ucast (inode_size fs)))))"

text \<open>
  The loop over the block group descriptors; \<open>k\<close> is the number of groups left, \<open>buffer\<close> what
  the last read of the descriptor table left in the buffer.
\<close>

fun bgdt_loop :: "drive \<Rightarrow> u32 \<Rightarrow> nat \<Rightarrow> u32 \<Rightarrow> u32 \<Rightarrow> u8 list \<Rightarrow> u32 list outcome" where
  "bgdt_loop d bgdt_start 0 i processed buffer = Inr []"
| "bgdt_loop d bgdt_start (Suc k) i processed buffer =
     (let bgd_offset = i * 32
      in bind_ok
           (if processed mod ide_block_size = 0
            then bind_ok (disk_read d (bgdt_start + bgd_offset) ide_block_size)
                   (\<lambda>(cnt, bytes). Inr (bytes @ drop (length bytes) buffer))
            else Inr buffer)
           (\<lambda>buf. bind_ok (bgdt_loop d bgdt_start k (i + 1) (processed + 32) buf)
             (\<lambda>starts. Inr (get_u32 buf (unat (bgd_offset - processed + 8)) # starts))))"

text \<open>Mounting, without the root node; \<open>junk\<close> is the fresh buffer.\<close>

definition ext2_mount :: "drive \<Rightarrow> u8 list \<Rightarrow> ext2 outcome" where
  "ext2_mount d junk =
     bind_ok (disk_thing d 1024 90) (\<lambda>buffer.
       let n_inodes = get_u32 buffer 0;
           per_group = get_u32 buffer 40;
           block_size = push_bit (unat (get_u32 buffer 24)) 1024
       in bind_ok (udivide (n_inodes + per_group - 1) per_group) (\<lambda>groups.
          bind_ok (udivide 1024 block_size) (\<lambda>superblock.
          bind_ok (bgdt_loop d (get_block_offset block_size (superblock + 1)) (unat groups) 0 0 junk)
            (\<lambda>starts.
               Inr \<lparr>n_block_groups = groups, n_inodes_per_block_group = per_group,
                    fs_block_size = block_size, inode_size = get_u16 buffer 88,
                    group_inode_start_blocks = starts\<rparr>))))"

section \<open>Nodes\<close>

record node =
  node_number :: u32
  node_type :: u16
  link_count :: u16
  node_size :: u32
  block_pointers :: "u32 list"
  saved_entry_count :: u32

definition node_new :: "drive \<Rightarrow> ext2 \<Rightarrow> u32 \<Rightarrow> node outcome" where
  "node_new d fs number =
     bind_ok (get_inode_offset fs number) (\<lambda>offset.
     bind_ok (disk_thing d offset 100) (\<lambda>data.
       Inr \<lparr>node_number = number, node_type = drop_bit 12 (get_u16 data 0),
            link_count = get_u16 data 26, node_size = get_u32 data 4,
            block_pointers = map (\<lambda>i. get_u32 data (40 + 4 * i)) [0..<15],
            saved_entry_count = 0xFFFFFFFF\<rparr>))"

definition get_node :: "drive \<Rightarrow> ext2 \<Rightarrow> u32 \<Rightarrow> node option outcome" where
  "get_node d fs number =
     (if number = 0 then Inr None else bind_ok (node_new d fs number) (\<lambda>n. Inr (Some n)))"

definition is_dir :: "node \<Rightarrow> bool" where "is_dir n \<longleftrightarrow> node_type n = 0x4"
definition is_file :: "node \<Rightarrow> bool" where "is_file n \<longleftrightarrow> node_type n = 0x8"
definition is_symlink :: "node \<Rightarrow> bool" where "is_symlink n \<longleftrightarrow> node_type n = 0xA"

text \<open>The entry of an indirect block, and the walk down the tree.\<close>

fun power_loop :: "u32 \<Rightarrow> nat \<Rightarrow> u32" where
  "power_loop p 0 = 1"
| "power_loop p (Suc depth) = power_loop p depth * p"

fun recurse_radix_tree :: "drive \<Rightarrow> u32 \<Rightarrow> u32 \<Rightarrow> u32 \<Rightarrow> nat \<Rightarrow> u32 outcome" where
  "recurse_radix_tree d block_size block start depth =
     (if start = 0 then Inr 0
      else
        let counter = power_loop (block_size div 4) depth
        in bind_ok (udivide block counter) (\<lambda>entry.
           bind_ok (disk_thing d (get_block_offset block_size start + entry * 4) 4)
             (\<lambda>bytes. let result = get_u32 bytes 0 in
               (case depth of
                  0 \<Rightarrow> Inr result
                | Suc depth' \<Rightarrow> recurse_radix_tree d block_size (block mod counter) result depth'))))"

declare recurse_radix_tree.simps [simp del]

text \<open>The loop over the levels of indirection, from \<open>index\<close> on; \<open>fuel\<close> levels are left.\<close>

fun indirect_loop :: "drive \<Rightarrow> u32 \<Rightarrow> u32 list \<Rightarrow> nat \<Rightarrow> nat \<Rightarrow> u32 \<Rightarrow> u32 \<Rightarrow> u32 outcome" where
  "indirect_loop d block_size pointers 0 index block counter = Inr 0"
| "indirect_loop d block_size pointers (Suc fuel) index block counter =
     (if block < counter then
        bind_ok (read_at pointers (index + 12)) (\<lambda>start. recurse_radix_tree d block_size block start index)
      else indirect_loop d block_size pointers fuel (Suc index) (block - counter)
             (counter * (block_size div 4)))"

definition get_data_block :: "drive \<Rightarrow> u32 \<Rightarrow> u32 list \<Rightarrow> u32 \<Rightarrow> u32 outcome" where
  "get_data_block d block_size pointers block =
     (if block < 12 then read_at pointers (unat block)
      else indirect_loop d block_size pointers 3 0 (block - 12) (block_size div 4))"

definition node_read_block :: "drive \<Rightarrow> u32 \<Rightarrow> node \<Rightarrow> block_reader" where
  "node_read_block d block_size n number =
     bind_ok (get_data_block d block_size (block_pointers n) number) (\<lambda>real_number.
       if real_number \<noteq> 0 then
         bind_ok (disk_read_all d (get_block_offset block_size real_number) block_size)
           (\<lambda>(cnt, bytes). Inr bytes)
       else Inr (replicate (unat block_size) 0))"

definition node_read_all :: "drive \<Rightarrow> u32 \<Rightarrow> node \<Rightarrow> u32 \<Rightarrow> u32 \<Rightarrow> (int \<times> u8 list) outcome" where
  "node_read_all d block_size n = bio_read_all (node_size n) block_size (node_read_block d block_size n)"

text \<open>The bytes of the block pointer array, as the target of a short symbolic link.\<close>

definition le_bytes :: "nat \<Rightarrow> 'w::len word \<Rightarrow> u8 list" where
  "le_bytes n w = map (\<lambda>i. ucast (drop_bit (8 * i) w)) [0..<n]"

definition get_symbol :: "drive \<Rightarrow> u32 \<Rightarrow> node \<Rightarrow> u8 list outcome" where
  "get_symbol d block_size n =
     bind_ok (assert (is_symlink n)) (\<lambda>_.
       if node_size n \<ge> 60 then
         bind_ok (node_read_all d block_size n 0 (node_size n)) (\<lambda>(cnt, bytes). Inr bytes)
       else Inr (take (unat (node_size n)) (concat (map (le_bytes 4) (block_pointers n)))))"

section \<open>Directories\<close>

record folder_entry =
  fe_inode :: u32
  fe_node_length :: u16
  fe_name_length :: u16

text \<open>\<^verbatim>\<open>get_val(buffer, local_processed, node)\<close>\<close>

definition get_entry :: "u8 list \<Rightarrow> nat \<Rightarrow> folder_entry outcome" where
  "get_entry buffer offset =
     (if offset + 8 \<le> length buffer then
        Inr \<lparr>fe_inode = get_u32 buffer offset, fe_node_length = get_u16 buffer (offset + 4),
             fe_name_length = get_u16 buffer (offset + 6)\<rparr>
      else Inl OutOfBounds)"

text \<open>The comparison loop, which stops at the first difference.\<close>

fun name_matches :: "u8 list \<Rightarrow> nat \<Rightarrow> u8 list \<Rightarrow> bool outcome" where
  "name_matches buffer offset [] = Inr True"
| "name_matches buffer offset (c # name) =
     bind_ok (read_at buffer offset) (\<lambda>b.
       if b \<noteq> c then Inr False else name_matches buffer (Suc offset) name)"

text \<open>
  What the scan of one block gives: the i-node of the entry that matches, or the bytes processed
  so far and the number of entries. \<open>name\<close> is \<open>None\<close> when the entries are only counted.
\<close>

datatype scan = Found u32 | Scanned u32 u32

definition entry_matches :: "u8 list option \<Rightarrow> u8 list \<Rightarrow> nat \<Rightarrow> folder_entry \<Rightarrow> bool outcome" where
  "entry_matches name buffer offset e =
     (case name of None \<Rightarrow> Inr False
      | Some nm \<Rightarrow>
          if ucast (fe_name_length e) = (of_nat (length nm) :: u32) then name_matches buffer (offset + 8) nm
          else Inr False)"

partial_function (option) scan_block ::
    "u8 list option \<Rightarrow> u8 list \<Rightarrow> u32 \<Rightarrow> u32 \<Rightarrow> u32 \<Rightarrow> u32 \<Rightarrow> u32 \<Rightarrow> scan outcome option" where
  "scan_block name buffer block_size dsize local_processed processed entries =
     (if local_processed < block_size \<and> processed < dsize then
        (case get_entry buffer (unat local_processed) of
           Inl p \<Rightarrow> Some (Inl p)
         | Inr e \<Rightarrow>
             if fe_inode e = 0 then
               scan_block name buffer block_size dsize (local_processed + ucast (fe_node_length e))
                 (processed + ucast (fe_node_length e)) entries
             else
               (case entry_matches name buffer (unat local_processed) e of
                  Inl p \<Rightarrow> Some (Inl p)
                | Inr found \<Rightarrow>
                    if found then Some (Inr (Found (fe_inode e)))
                    else scan_block name buffer block_size dsize
                           (local_processed + ucast (fe_node_length e))
                           (processed + ucast (fe_node_length e)) (entries + 1)))
      else Some (Inr (Scanned processed entries)))"

partial_function (option) scan_blocks ::
    "u8 list option \<Rightarrow> block_reader \<Rightarrow> u32 \<Rightarrow> u32 \<Rightarrow> u32 \<Rightarrow> u32 \<Rightarrow> u32 \<Rightarrow> scan outcome option" where
  "scan_blocks name read_block block_size dsize i processed entries =
     (if processed < dsize then
        (case read_block i of
           Inl p \<Rightarrow> Some (Inl p)
         | Inr buffer \<Rightarrow>
             Option.bind (scan_block name buffer block_size dsize 0 processed entries) (\<lambda>r.
               case r of
                 Inl p \<Rightarrow> Some (Inl p)
               | Inr (Found inode) \<Rightarrow> Some (Inr (Found inode))
               | Inr (Scanned processed' entries') \<Rightarrow>
                   scan_blocks name read_block block_size dsize (i + 1) processed' entries'))
      else Some (Inr (Scanned processed entries)))"

text \<open>\<^verbatim>\<open>Node::find\<close>: the result and the node with its saved entry count.\<close>

definition node_find ::
    "block_reader \<Rightarrow> u32 \<Rightarrow> u8 list option \<Rightarrow> node \<Rightarrow> (u32 \<times> node) outcome option" where
  "node_find read_block block_size name n =
     (if is_dir n then
        Option.bind (scan_blocks name read_block block_size (node_size n) 0 0 0) (\<lambda>r. Some
          (case r of
             Inl p \<Rightarrow> Inl p
           | Inr (Found inode) \<Rightarrow> Inr (inode, n)
           | Inr (Scanned processed entries) \<Rightarrow>
               Inr (if name \<noteq> None then 0 else entries, n\<lparr>saved_entry_count := entries\<rparr>)))
      else Some (Inl Assertion))"

definition entry_count :: "block_reader \<Rightarrow> u32 \<Rightarrow> node \<Rightarrow> (u32 \<times> node) outcome option" where
  "entry_count read_block block_size n =
     (if saved_entry_count n = 0xFFFFFFFF then
        Option.bind (node_find read_block block_size None n) (\<lambda>r. Some
          (bind_ok r (\<lambda>(x, n'). Inr (saved_entry_count n', n'))))
      else Some (Inr (saved_entry_count n, n)))"

text \<open>\<^verbatim>\<open>Ext2::find\<close>\<close>

definition ext2_find :: "drive \<Rightarrow> ext2 \<Rightarrow> node \<Rightarrow> u8 list \<Rightarrow> node option outcome option" where
  "ext2_find d fs dir name =
     Option.bind (node_find (node_read_block d (fs_block_size fs) dir) (fs_block_size fs) (Some name) dir)
       (\<lambda>r. Some (bind_ok r (\<lambda>(inode, n). get_node d fs inode)))"

section \<open>Reading the drive\<close>

lemma disk_slice:
  assumes "off + n \<le> unat ide_size_in_bytes"
  shows "take n (drop off (disk_contents d)) = map d [off..<off + n]"
  using assms by (intro nth_equalityI) (simp_all add: disk_contents_nth)

lemma disk_thing_spec:
  assumes "unat off + unat n \<le> unat ide_size_in_bytes"
  shows "disk_thing d off n = Inr (map d [unat off..<unat off + unat n])"
  using assms ide.read_thing_spec [OF assms, of d] by (simp add: disk_thing_def disk_slice)

lemma disk_read_all_spec:
  assumes "unat off + unat n \<le> unat ide_size_in_bytes"
  shows "disk_read_all d off n = Inr (int (unat n), map d [unat off..<unat off + unat n])"
  using assms ide.read_all_spec [of d off n]
  by (simp add: disk_read_all_def disk_slice word_le_nat_alt)

lemma disk_read_sector:
  assumes "unat off mod 512 = 0" "unat off + 512 \<le> unat ide_size_in_bytes"
  shows "disk_read d off ide_block_size = Inr (512, map d [unat off..<unat off + 512])"
proof -
  have b: "unat ide_block_size = 512" by (simp add: ide_block_size_def)
  have "ide.chunk (unat off) (unat ide_block_size) = 512"
    using assms by (simp add: ide.chunk_def b)
  moreover have "off < ide_size_in_bytes" "0 < ide_block_size"
    using assms(2) by (simp_all add: word_less_nat_alt b)
  ultimately show ?thesis
    using ide.read_chunk [of off ide_block_size d] assms(2) by (simp add: disk_read_def disk_slice)
qed

text \<open>The 32-bit value at an address of the drive.\<close>

definition disk_u32 :: "drive \<Rightarrow> nat \<Rightarrow> u32" where
  "disk_u32 d a = of_nat (le_nat (map d [a..<a + 4]))"

lemma get_u32_map: "j + 4 \<le> n \<Longrightarrow> get_u32 (map d [a..<a + n]) j = disk_u32 d (a + j)"
  by (simp add: get_u32_def disk_u32_def take_map drop_map add.assoc)

section \<open>Block group descriptors\<close>

lemma bgdt_loop_spec:
  assumes "unat bgdt_start mod 512 = 0" "unat bgdt_start + 32 * (i + k) + 512 \<le> unat ide_size_in_bytes"
    and "i mod 16 \<noteq> 0 \<longrightarrow> buffer = map d [unat bgdt_start + 512 * (i div 16)..<unat bgdt_start + 512 * (i div 16) + 512]"
    and "i mod 16 = 0 \<longrightarrow> length buffer = 512"
  shows "bgdt_loop d bgdt_start k (of_nat i) (of_nat i * 32) buffer
    = Inr (map (\<lambda>j. disk_u32 d (unat bgdt_start + 512 * (j div 16) + 8)) [i..<i + k])"
  using assms
proof (induction k arbitrary: i buffer)
  case 0
  then show ?case by simp
next
  case (Suc k)
  let ?b = "map d [unat bgdt_start + 512 * (i div 16)..<unat bgdt_start + 512 * (i div 16) + 512]"
  have small: "32 * i < 2 ^ 32" using Suc.prems(2) by (simp add: unat_ide_size)
  have pr: "unat (of_nat i * 32 :: u32) = 32 * i"
    using small by (simp add: unat_word_ariths unat_of_nat mult.commute)
  have block: "unat ide_block_size = 512" by (simp add: ide_block_size_def)
  have m: "32 * i mod 512 = 32 * (i mod 16)" using mult_mod_right [of 32 i 16] by simp
  have dvd: "(of_nat i * 32 :: u32) mod ide_block_size = 0 \<longleftrightarrow> i mod 16 = 0"
    by (simp add: word_unat_eq_iff unat_mod_distrib pr block m)
  have off: "unat (bgdt_start + of_nat i * 32) = unat bgdt_start + 32 * i"
    using Suc.prems(2) pr by (subst unat_plus_exact) (simp_all add: unat_ide_size)
  have buf: "(if (of_nat i * 32 :: u32) mod ide_block_size = 0
      then bind_ok (disk_read d (bgdt_start + of_nat i * 32) ide_block_size)
             (\<lambda>(cnt, bytes). Inr (bytes @ drop (length bytes) buffer))
      else Inr buffer) = Inr ?b"
  proof (cases "i mod 16 = 0")
    case True
    then have "i = 16 * (i div 16)" using mult_div_mod_eq [of 16 i] by simp
    then have e: "32 * i = 512 * (i div 16)" by linarith
    have "(unat bgdt_start + 32 * i) mod 512 = 0"
      unfolding e using Suc.prems(1) by simp
    with disk_read_sector [of "bgdt_start + of_nat i * 32" d] Suc.prems(2)
    have "disk_read d (bgdt_start + of_nat i * 32) ide_block_size = Inr (512, ?b)"
      by (simp add: off e [symmetric])
    with True Suc.prems(4) dvd show ?thesis by simp
  next
    case False
    with Suc.prems(3) dvd show ?thesis by simp
  qed
  have next_: "Suc i mod 16 \<noteq> 0 \<longrightarrow> Suc i div 16 = i div 16" by (simp add: div_Suc)
  have "bgdt_loop d bgdt_start k (of_nat (Suc i)) (of_nat (Suc i) * 32) ?b
      = Inr (map (\<lambda>j. disk_u32 d (unat bgdt_start + 512 * (j div 16) + 8)) [Suc i..<Suc i + k])"
    using Suc.prems next_ by (intro Suc.IH) simp_all
  then have "bgdt_loop d bgdt_start k (of_nat i + 1) (of_nat i * 32 + 32) ?b
      = Inr (map (\<lambda>j. disk_u32 d (unat bgdt_start + 512 * (j div 16) + 8)) [Suc i..<Suc i + k])"
    by (simp add: algebra_simps)
  with buf show ?case
    using upt_conv_Cons [of i "i + Suc k"] by (simp add: get_u32_map del: upt_Suc)
qed

text \<open>
  C40. Mounting gives every block group the i-node table of the first group of its sector of the
  descriptor table. The entry the constructor stores for group \<open>j\<close> is the i-node table field of
  descriptor \<open>16 * (j div 16)\<close>, because the offset into the buffer subtracts the bytes processed
  so far from the descriptor's offset, and the two are always equal; from the second group on it
  is right only where that field happens to agree with the group's own descriptor.
\<close>

theorem block_groups_share_descriptor:
  assumes "unat bgdt_start mod 512 = 0" "unat bgdt_start + 32 * k + 512 \<le> unat ide_size_in_bytes"
    and "length junk = 512"
  shows "bgdt_loop d bgdt_start k 0 0 junk
    = Inr (map (\<lambda>j. disk_u32 d (unat bgdt_start + 32 * (16 * (j div 16)) + 8)) [0..<k])"
  using bgdt_loop_spec [OF assms(1), of 0 k junk d] assms by simp

theorem block_groups_share_descriptor_witness:
  "bgdt_loop (\<lambda>a. of_nat (a div 32)) 2048 2 0 0 (replicate 512 0) = Inr [0x40404040, 0x40404040]"
proof -
  have h: "unat (2048 :: u32) mod 512 = 0" "unat (2048 :: u32) + 32 * 2 + 512 \<le> unat ide_size_in_bytes"
    "length (replicate 512 (0 :: u8)) = 512"
    by (simp_all add: unat_ide_size)
  have v: "disk_u32 (\<lambda>a. of_nat (a div 32)) 2056 = 0x40404040"
    unfolding disk_u32_def by (simp add: upt_rec)
  have u: "unat (2048 :: u32) = 2048" by simp
  have "map (\<lambda>j. disk_u32 (\<lambda>a. of_nat (a div 32)) (unat (2048 :: u32) + 32 * (16 * (j div 16)) + 8)) [0..<2]
      = [0x40404040, 0x40404040]"
    unfolding u by (simp add: v upt_conv_Cons)
  with block_groups_share_descriptor [OF h, of "\<lambda>a. of_nat (a div 32)"] show ?thesis
    by metis
qed

section \<open>The radix tree\<close>

text \<open>
  The reference: the path to a data block is its number in base \<open>p\<close>, most significant digit
  first, and each digit selects a pointer of an indirect block; a null pointer is a hole.
\<close>

fun digits :: "nat \<Rightarrow> nat \<Rightarrow> nat \<Rightarrow> nat list" where
  "digits p 0 b = []"
| "digits p (Suc n) b = b div p ^ n # digits p n (b mod p ^ n)"

fun follow :: "drive \<Rightarrow> nat \<Rightarrow> nat \<Rightarrow> nat list \<Rightarrow> nat" where
  "follow d bs start [] = start"
| "follow d bs start (x # xs) =
     (if start = 0 then 0 else follow d bs (unat (disk_u32 d (start * bs + 4 * x))) xs)"

text \<open>Every indirect block on the path lies on the drive.\<close>

fun on_drive :: "drive \<Rightarrow> nat \<Rightarrow> nat \<Rightarrow> nat list \<Rightarrow> bool" where
  "on_drive d bs start [] \<longleftrightarrow> True"
| "on_drive d bs start (x # xs) \<longleftrightarrow>
     (start = 0 \<or> (start + 1) * bs \<le> unat ide_size_in_bytes
        \<and> on_drive d bs (unat (disk_u32 d (start * bs + 4 * x))) xs)"

lemma power_loop_exact:
  assumes "unat p ^ n < 2 ^ 32"
  shows "unat (power_loop p n) = unat p ^ n"
  using assms
proof (induction n)
  case 0
  then show ?case by simp
next
  case (Suc n)
  show ?case
  proof (cases "unat p = 0")
    case True
    then show ?thesis by (simp add: unat_eq_0)
  next
    case False
    then have "unat p ^ n \<le> unat p ^ Suc n" by simp
    with Suc have "unat (power_loop p n) = unat p ^ n" by linarith
    with Suc.prems show ?thesis by (simp add: unat_times_exact mult.commute)
  qed
qed

lemma radix_hole: "recurse_radix_tree d bs block 0 depth = Inr 0"
  by (simp add: recurse_radix_tree.simps)

lemma indirect_entry:
  assumes s: "(unat start + 1) * unat bs \<le> unat ide_size_in_bytes" and x: "unat x < unat (bs div 4)"
  shows "disk_thing d (get_block_offset bs start + x * 4) 4
    = Inr (map d [unat start * unat bs + 4 * unat x..<unat start * unat bs + 4 * unat x + 4])"
proof -
  have x4: "4 * unat x + 4 \<le> unat bs" using x by (simp add: unat_div_distrib)
  have fit: "unat start * unat bs + 4 * unat x + 4 \<le> unat ide_size_in_bytes"
    using s x4 by (simp add: algebra_simps)
  then have lt: "unat start * unat bs + 4 * unat x < 2 ^ 32" by (simp add: unat_ide_size)
  have "unat (start * bs) = unat start * unat bs" using lt by (intro unat_times_exact) simp
  moreover have "unat (x * 4) = 4 * unat x" using lt by (subst unat_times_exact) simp_all
  ultimately have off: "unat (get_block_offset bs start + x * 4) = unat start * unat bs + 4 * unat x"
    using lt by (simp add: get_block_offset_def unat_plus_exact)
  show ?thesis using disk_thing_spec [of "get_block_offset bs start + x * 4" 4 d] fit
    unfolding off by simp
qed

lemma radix_step:
  assumes "start \<noteq> 0" "(unat start + 1) * unat bs \<le> unat ide_size_in_bytes"
    and "unat (bs div 4) ^ Suc depth < 2 ^ 32" "unat block < unat (bs div 4) ^ Suc depth"
  shows "recurse_radix_tree d bs block start depth =
    (let r = disk_u32 d (unat start * unat bs + 4 * (unat block div unat (bs div 4) ^ depth))
     in case depth of 0 \<Rightarrow> Inr r
        | Suc k \<Rightarrow> recurse_radix_tree d bs (block mod power_loop (bs div 4) depth) r k)"
proof -
  let ?p = "unat (bs div 4)" and ?x = "block div power_loop (bs div 4) depth"
  have "?p ^ depth \<le> ?p ^ Suc depth" using assms(4) by (cases "?p = 0") auto
  with assms(3) have c: "unat (power_loop (bs div 4) depth) = ?p ^ depth"
    by (intro power_loop_exact) linarith
  have x: "unat ?x = unat block div ?p ^ depth" by (simp add: unat_div_distrib c)
  then have "unat ?x < ?p"
    using assms(4) by (simp add: less_mult_imp_div_less mult.commute)
  note entry = indirect_entry [OF assms(2) this, of d]
  have "?p ^ depth \<noteq> 0" using assms(4) by (cases "?p = 0") auto
  with c have "power_loop (bs div 4) depth \<noteq> 0" by (metis unat_0)
  with entry x assms(1) show ?thesis
    by (subst recurse_radix_tree.simps)
      (simp add: get_u32_map [of 0 4] Let_def del: power_loop.simps split: nat.split)
qed

lemma radix_tree_follow:
  assumes "unat (bs div 4) ^ Suc depth < 2 ^ 32" "unat block < unat (bs div 4) ^ Suc depth"
    and "on_drive d (unat bs) (unat start) (digits (unat (bs div 4)) (Suc depth) (unat block))"
  shows "\<exists>r. recurse_radix_tree d bs block start depth = Inr r
    \<and> unat r = follow d (unat bs) (unat start) (digits (unat (bs div 4)) (Suc depth) (unat block))"
  using assms
proof (induction depth arbitrary: block start)
  case (0 block start)
  then show ?case
    by (cases "start = 0") (auto simp: radix_step radix_hole unat_eq_0)
next
  case (Suc depth block start)
  let ?p = "unat (bs div 4)" and ?c = "power_loop (bs div 4) (Suc depth)"
  show ?case
  proof (cases "start = 0")
    case False
    then have s: "unat start \<noteq> 0" by (simp add: unat_eq_0)
    have pos: "0 < ?p" using Suc.prems(2) by (cases "?p = 0") auto
    have le: "?p ^ Suc depth \<le> ?p ^ Suc (Suc depth)" using pos by simp
    have small: "?p ^ Suc depth < 2 ^ 32" using le Suc.prems(1) by linarith
    have c: "unat ?c = ?p ^ Suc depth" using small by (rule power_loop_exact)
    have m: "unat (block mod ?c) = unat block mod ?p ^ Suc depth" by (simp only: unat_mod_distrib c)
    let ?r = "disk_u32 d (unat start * unat bs + 4 * (unat block div ?p ^ Suc depth))"
    have "recurse_radix_tree d bs block start (Suc depth) = recurse_radix_tree d bs (block mod ?c) ?r depth"
      using radix_step [OF False, of bs "Suc depth" block d] Suc.prems s by simp
    moreover have "\<exists>r. recurse_radix_tree d bs (block mod ?c) ?r depth = Inr r \<and>
        unat r = follow d (unat bs) (unat ?r) (digits ?p (Suc depth) (unat block mod ?p ^ Suc depth))"
      using Suc.prems s pos small unfolding m [symmetric]
      by (intro Suc.IH) (simp_all add: m del: power_loop.simps)
    moreover have "follow d (unat bs) (unat start) (digits ?p (Suc (Suc depth)) (unat block))
        = follow d (unat bs) (unat ?r) (digits ?p (Suc depth) (unat block mod ?p ^ Suc depth))"
      by (simp only: digits.simps(2) [of ?p "Suc depth"] follow.simps s if_False)
    ultimately show ?thesis by (simp only: ex_simps)
  qed (simp add: radix_hole)
qed

text \<open>
  The pointer at which the path to a block of the file starts, and the path: the levels of
  indirection hold \<open>p\<close>, \<open>p ^ 2\<close> and \<open>p ^ 3\<close> blocks after the twelve direct ones.
\<close>

fun level_path :: "nat \<Rightarrow> u32 list \<Rightarrow> nat \<Rightarrow> nat \<Rightarrow> nat \<Rightarrow> nat \<times> nat list" where
  "level_path p pointers 0 index b = (0, [])"
| "level_path p pointers (Suc levels) index b =
     (if b < p ^ Suc index then (unat (pointers ! (index + 12)), digits p (Suc index) b)
      else level_path p pointers levels (Suc index) (b - p ^ Suc index))"

definition file_path :: "nat \<Rightarrow> u32 list \<Rightarrow> nat \<Rightarrow> nat \<times> nat list" where
  "file_path p pointers b =
     (if b < 12 then (unat (pointers ! b), []) else level_path p pointers 3 0 (b - 12))"

definition file_block :: "drive \<Rightarrow> u32 \<Rightarrow> u32 list \<Rightarrow> nat \<Rightarrow> nat" where
  "file_block d bs pointers b =
     (let (start, path) = file_path (unat (bs div 4)) pointers b in follow d (unat bs) start path)"

definition file_block_on_drive :: "drive \<Rightarrow> u32 \<Rightarrow> u32 list \<Rightarrow> nat \<Rightarrow> bool" where
  "file_block_on_drive d bs pointers b \<longleftrightarrow>
     (let (start, path) = file_path (unat (bs div 4)) pointers b in on_drive d (unat bs) start path)"

lemma indirect_loop_follow:
  assumes "length pointers = 15" "levels + index = 3" "0 < unat (bs div 4)" "unat (bs div 4) ^ 3 < 2 ^ 32"
    and "levels = 0 \<or> unat counter = unat (bs div 4) ^ Suc index"
    and "level_path (unat (bs div 4)) pointers levels index (unat block) = (start, path)"
    and "on_drive d (unat bs) start path"
  shows "\<exists>r. indirect_loop d bs pointers levels index block counter = Inr r
    \<and> unat r = follow d (unat bs) start path"
  using assms
proof (induction levels arbitrary: index block counter)
  case 0
  then show ?case by auto
next
  case (Suc levels)
  let ?p = "unat (bs div 4)"
  have "?p ^ Suc index \<le> ?p ^ 3" using Suc.prems(2,3) by (intro power_increasing) auto
  with Suc.prems(4) have small: "?p ^ Suc index < 2 ^ 32" by linarith
  have c: "unat counter = ?p ^ Suc index" using Suc.prems(5) by simp
  show ?case
  proof (cases "unat block < ?p ^ Suc index")
    case True
    then have "start = unat (pointers ! (index + 12))" "path = digits ?p (Suc index) (unat block)"
      using Suc.prems(6) by auto
    with radix_tree_follow [OF small True, of d "pointers ! (index + 12)"] Suc.prems True c
    show ?thesis by (simp add: word_less_nat_alt)
  next
    case False
    have next_: "levels = 0 \<or> unat (counter * (bs div 4)) = ?p ^ Suc (Suc index)"
    proof (cases "levels = 0")
      case False
      then have "?p ^ Suc (Suc index) \<le> ?p ^ 3" using Suc.prems(2,3) by (intro power_increasing) auto
      with Suc.prems(4) c show ?thesis by (simp add: unat_times_exact mult.commute)
    qed simp
    have b: "unat (block - counter) = unat block - ?p ^ Suc index"
      using False c by (simp add: unat_minus_exact word_le_nat_alt)
    have "\<exists>r. indirect_loop d bs pointers levels (Suc index) (block - counter) (counter * (bs div 4)) = Inr r
        \<and> unat r = follow d (unat bs) start path"
      using Suc.prems False next_ by (intro Suc.IH) (simp_all add: b)
    with False c show ?thesis by (simp add: word_less_nat_alt)
  qed
qed

lemma get_data_block_follow:
  assumes "length pointers = 15" "4 \<le> bs" "bs \<le> 4096"
    and "file_block_on_drive d bs pointers (unat block)"
  shows "\<exists>r. get_data_block d bs pointers block = Inr r \<and> unat r = file_block d bs pointers (unat block)"
proof -
  let ?p = "unat (bs div 4)"
  have u: "4 \<le> unat bs" "unat bs \<le> 4096" using assms(2,3) by (simp_all add: word_le_nat_alt)
  then have p: "0 < ?p" "?p \<le> 1024" by (simp_all add: unat_div_distrib)
  have "?p ^ 3 \<le> 1024 ^ 3" using p(2) by (rule power_mono) simp
  then have cube: "?p ^ 3 < 2 ^ 32" by simp
  show ?thesis
  proof (cases "unat block < 12")
    case True
    then show ?thesis using assms(1)
      by (simp add: get_data_block_def file_block_def file_path_def word_less_nat_alt)
  next
    case False
    then have b: "unat (block - 12) = unat block - 12" by (simp add: unat_minus_exact word_le_nat_alt)
    obtain start path where sp: "level_path ?p pointers 3 0 (unat block - 12) = (start, path)" by fastforce
    have "on_drive d (unat bs) start path"
      using assms(4) False sp by (simp add: file_block_on_drive_def file_path_def)
    from indirect_loop_follow [OF assms(1) _ p(1) cube, of 3 0 "bs div 4" "block - 12", OF _ _ _ this]
    show ?thesis using False sp b
      by (simp add: get_data_block_def file_block_def file_path_def word_less_nat_alt)
  qed
qed

text \<open>
  C16. The block map of a node is the radix tree that its fifteen pointers describe: for every
  logical block number, \<^verbatim>\<open>get_data_block\<close> finishes and returns the direct pointer, or the pointer
  that the digits of the number in base \<open>block_size / 4\<close> lead to through one, two or three levels
  of indirect blocks, zero for a hole and for a number beyond the tree. The only conditions are
  that the indirect blocks on the way lie on the drive and that the block size is at most 4096
  bytes, so that no counter overflows.
\<close>

theorem get_data_block_radix:
  assumes "length pointers = 15" "4 \<le> bs" "bs \<le> 4096"
    and "file_block_on_drive d bs pointers (unat block)"
  shows "\<exists>r. get_data_block d bs pointers block = Inr r \<and> unat r = file_block d bs pointers (unat block)"
  using assms by (rule get_data_block_follow)

theorem get_data_block_radix_witness:
  "get_data_block (\<lambda>a. if a = 5152 then 7 else 0) 1024 ((replicate 15 0)[12 := 5]) 20 = Inr 7"
proof -
  let ?d = "\<lambda>a :: nat. if a = 5152 then 7 else 0 :: u8" and ?ps = "(replicate 15 0)[12 := 5 :: u32]"
  have v: "disk_u32 ?d 5152 = 7" unfolding disk_u32_def by (simp add: upt_rec)
  have path: "file_path 256 ?ps 20 = (5, [8])" by (simp add: file_path_def numeral_3_eq_3)
  have h: "length ?ps = 15" "(4 :: u32) \<le> 1024" "(1024 :: u32) \<le> 4096"
    "file_block_on_drive ?d 1024 ?ps (unat (20 :: u32))"
    by (simp_all add: file_block_on_drive_def path unat_ide_size)
  have "file_block ?d 1024 ?ps 20 = 7" by (simp add: file_block_def path v)
  with get_data_block_radix [OF h] obtain r where
    "get_data_block ?d 1024 ?ps 20 = Inr r" "unat r = unat (7 :: u32)" by auto
  then show ?thesis by (simp add: word_unat_eq_iff)
qed

section \<open>Reading a node\<close>

text \<open>The byte at a position of the file: zero in a hole.\<close>

definition file_byte :: "drive \<Rightarrow> u32 \<Rightarrow> node \<Rightarrow> nat \<Rightarrow> u8" where
  "file_byte d bs n i =
     (let b = file_block d bs (block_pointers n) (i div unat bs)
      in if b = 0 then 0 else d (b * unat bs + i mod unat bs))"

definition file_bytes :: "drive \<Rightarrow> u32 \<Rightarrow> node \<Rightarrow> u8 list" where
  "file_bytes d bs n = map (file_byte d bs n) [0..<unat (node_size n)]"

text \<open>The blocks of the node, and the indirect blocks that lead to them, lie on the drive.\<close>

definition node_on_drive :: "drive \<Rightarrow> u32 \<Rightarrow> node \<Rightarrow> bool" where
  "node_on_drive d bs n \<longleftrightarrow> length (block_pointers n) = 15 \<and> 4 \<le> bs \<and> bs \<le> 4096
     \<and> (\<forall>k. k * unat bs < unat (node_size n) \<longrightarrow> file_block_on_drive d bs (block_pointers n) k
          \<and> (file_block d bs (block_pointers n) k + 1) * unat bs \<le> unat ide_size_in_bytes)"

lemma node_block_device:
  assumes "node_on_drive d bs n"
  shows "block_device (node_size n) bs (node_read_block d bs n) (file_bytes d bs n)"
proof
  have "0 < unat bs" using assms by (simp add: node_on_drive_def word_le_nat_alt)
  then show "0 < bs" by (simp add: word_less_nat_alt)
  show "length (file_bytes d bs n) = unat (node_size n)" by (simp add: file_bytes_def)
  fix k assume k: "k * unat bs < unat (node_size n)"
  have "k \<le> k * unat bs" using \<open>0 < unat bs\<close> by simp
  then have "k < 4294967296"
    using k less_trans [OF _ unat_u32_less [of "node_size n"]] by (meson le_less_trans)
  then have kw: "unat (of_nat k :: u32) = k" by (intro unat_of_nat_exact) simp
  let ?b = "file_block d bs (block_pointers n) k"
  have "\<exists>r. get_data_block d bs (block_pointers n) (of_nat k) = Inr r \<and> unat r = ?b"
    using get_data_block_follow [of "block_pointers n" bs d "of_nat k"] assms k kw
    by (simp add: node_on_drive_def)
  then obtain r where r: "get_data_block d bs (block_pointers n) (of_nat k) = Inr r" "unat r = ?b" by blast
  have byte: "file_bytes d bs n ! (k * unat bs + i) = (if ?b = 0 then 0 else d (?b * unat bs + i))"
    if "i < unat bs" "k * unat bs + i < unat (node_size n)" for i
    using that by (simp add: file_bytes_def file_byte_def Let_def)
  show "\<exists>bytes. node_read_block d bs n (of_nat k) = Inr bytes \<and> length bytes = unat bs \<and>
      (\<forall>i < unat bs. k * unat bs + i < unat (node_size n) \<longrightarrow>
         bytes ! i = file_bytes d bs n ! (k * unat bs + i))"
  proof (cases "r = 0")
    case True
    then show ?thesis using r byte by (simp add: node_read_block_def)
  next
    case False
    then have "?b \<noteq> 0" using r(2) by (metis unat_eq_0)
    have fit: "(?b + 1) * unat bs \<le> unat ide_size_in_bytes" using assms k by (simp add: node_on_drive_def)
    have "unat (get_block_offset bs r) = ?b * unat bs"
      unfolding get_block_offset_def using fit r(2)
      by (subst unat_times_exact) (simp_all add: unat_ide_size)
    with disk_read_all_spec [of "get_block_offset bs r" bs d] fit
    have "disk_read_all d (get_block_offset bs r) bs
        = Inr (int (unat bs), map d [?b * unat bs..<?b * unat bs + unat bs])"
      by (simp add: add.commute)
    with False r(1) byte \<open>?b \<noteq> 0\<close> show ?thesis by (simp add: node_read_block_def)
  qed
qed

text \<open>
  C17. Reading a node returns its bytes: for every offset and length, \<^verbatim>\<open>read_all\<close> on a node whose
  blocks lie on the drive finishes without a failed assertion and delivers exactly the bytes of
  the file from that offset on, up to its size, each taken from the block that the radix tree
  assigns to it, or zero in a hole.
\<close>

theorem node_read_all_bytes:
  assumes "node_on_drive d bs n" "offset \<le> node_size n"
  shows "node_read_all d bs n offset cnt
    = Inr (int (min (unat cnt) (unat (node_size n) - unat offset)),
           map (file_byte d bs n) [unat offset..<unat offset + min (unat cnt) (unat (node_size n) - unat offset)])"
proof -
  have "take m (drop (unat offset) (file_bytes d bs n)) = map (file_byte d bs n) [unat offset..<unat offset + m]"
    if "unat offset + m \<le> unat (node_size n)" for m
    using that by (intro nth_equalityI) (simp_all add: file_bytes_def)
  moreover have "unat offset \<le> unat (node_size n)" using assms(2) by (simp add: word_le_nat_alt)
  ultimately show ?thesis
    using block_device.read_all_spec [OF node_block_device [OF assms(1)], of offset cnt] assms(2)
    by (simp add: node_read_all_def)
qed

text \<open>Small files in block 5 of a drive, and one of ten bytes on an otherwise empty drive.\<close>

definition small_file :: "u32 \<Rightarrow> node" where
  "small_file sz = \<lparr>node_number = 2, node_type = 8, link_count = 1, node_size = sz, block_pointers = 5 # replicate 14 0,
      saved_entry_count = 0\<rparr>"

lemma small_block: "file_block d 1024 (block_pointers (small_file sz)) 0 = 5"
  by (simp add: file_block_def file_path_def small_file_def)

lemma small_on_drive: "sz \<le> 1024 \<Longrightarrow> node_on_drive d 1024 (small_file sz)"
  unfolding node_on_drive_def
proof (intro conjI allI impI)
  fix k assume "k * unat (1024 :: u32) < unat (node_size (small_file sz))" "sz \<le> 1024"
  then have "k * 1024 < 1024" by (simp add: small_file_def word_le_nat_alt)
  then have "k = 0" by simp
  then show "file_block_on_drive d 1024 (block_pointers (small_file sz)) k"
    and "(file_block d 1024 (block_pointers (small_file sz)) k + 1) * unat (1024 :: u32) \<le> unat ide_size_in_bytes"
    using small_block by (simp_all add: unat_ide_size file_block_on_drive_def file_path_def)
qed (simp_all add: small_file_def)

lemma small_bytes: "sz \<le> 1024 \<Longrightarrow> file_bytes d 1024 (small_file sz) = map (\<lambda>i. d (5120 + i)) [0..<unat sz]"
proof -
  assume "sz \<le> 1024"
  then have "unat sz \<le> 1024" by (simp add: word_le_nat_alt)
  then have "file_byte d 1024 (small_file sz) i = d (5120 + i)" if "i < unat sz" for i
    using small_block [of d sz] that by (simp add: file_byte_def Let_def)
  then show ?thesis by (simp add: file_bytes_def) (simp add: small_file_def)
qed

definition tiny_file :: node where
  "tiny_file = small_file 10"

definition tiny_drive :: drive where
  "tiny_drive a = (if a = 5123 then 9 else 0)"

lemma tiny_on_drive: "node_on_drive tiny_drive 1024 tiny_file"
  by (simp add: tiny_file_def small_on_drive)

lemma tiny_bytes: "file_bytes tiny_drive 1024 tiny_file = [0, 0, 0, 9, 0, 0, 0, 0, 0, 0]"
  by (simp add: tiny_file_def small_bytes upt_rec) (simp add: tiny_drive_def)

theorem node_read_all_bytes_witness: "node_read_all tiny_drive 1024 tiny_file 2 3 = Inr (3, [0, 9, 0])"
proof -
  have sz: "node_size tiny_file = 10" by (simp add: tiny_file_def small_file_def)
  then have "file_byte tiny_drive 1024 tiny_file i = file_bytes tiny_drive 1024 tiny_file ! i" if "i < 10" for i
    using that by (simp add: file_bytes_def)
  then show ?thesis using node_read_all_bytes [OF tiny_on_drive, of 2 3] sz by (simp add: upt_rec tiny_bytes)
qed

section \<open>Searching a directory\<close>

record dirent =
  de_inode :: u32
  de_length :: u16
  de_name :: "u8 list"

definition live :: "dirent \<Rightarrow> bool" where "live e \<longleftrightarrow> de_inode e \<noteq> 0"

text \<open>
  The entry \<open>e\<close> is stored at an offset of a block; the entries of the list fill the block from an
  offset to its end; the blocks of a directory hold the lists of entries \<open>ess\<close>.
\<close>

definition stored_at :: "u8 list \<Rightarrow> nat \<Rightarrow> dirent \<Rightarrow> bool" where
  "stored_at buffer off e \<longleftrightarrow>
     get_u32 buffer off = de_inode e \<and> get_u16 buffer (off + 4) = de_length e
     \<and> get_u16 buffer (off + 6) = of_nat (length (de_name e)) \<and> length (de_name e) < 65536
     \<and> 8 + length (de_name e) \<le> unat (de_length e) \<and> off + unat (de_length e) \<le> length buffer
     \<and> take (length (de_name e)) (drop (off + 8) buffer) = de_name e"

fun chain :: "u8 list \<Rightarrow> nat \<Rightarrow> dirent list \<Rightarrow> bool" where
  "chain buffer off [] \<longleftrightarrow> off = length buffer"
| "chain buffer off (e # es) \<longleftrightarrow> stored_at buffer off e \<and> chain buffer (off + unat (de_length e)) es"

definition dir_blocks :: "block_reader \<Rightarrow> u32 \<Rightarrow> u32 \<Rightarrow> dirent list list \<Rightarrow> bool" where
  "dir_blocks rb bs dsize ess \<longleftrightarrow> 0 < bs \<and> unat dsize = length ess * unat bs
     \<and> (\<forall>k < length ess. \<exists>buffer. rb (of_nat k) = Inr buffer \<and> length buffer = unat bs \<and> chain buffer 0 (ess ! k))"

text \<open>The entry a search looks for: the first live one with the name; a count looks for none.\<close>

definition wanted :: "u8 list option \<Rightarrow> dirent \<Rightarrow> bool" where
  "wanted name e \<longleftrightarrow> live e \<and> name = Some (de_name e)"

definition scan_result :: "u8 list option \<Rightarrow> dirent list \<Rightarrow> u32 \<Rightarrow> u32 \<Rightarrow> scan" where
  "scan_result name es processed entries =
     (case List.find (wanted name) es of
        Some e \<Rightarrow> Found (de_inode e)
      | None \<Rightarrow> Scanned processed (entries + of_nat (length (filter live es))))"

lemma chain_le: "chain buffer off es \<Longrightarrow> off \<le> length buffer"
  by (induction es arbitrary: off) (auto simp: stored_at_def)

lemma name_matches_spec:
  "off + length name \<le> length buffer \<Longrightarrow>
     name_matches buffer off name = Inr (take (length name) (drop off buffer) = name)"
proof (induction name arbitrary: off)
  case Nil
  then show ?case by simp
next
  case (Cons c name)
  then have "drop off buffer = buffer ! off # drop (Suc off) buffer" by (simp add: Cons_nth_drop_Suc)
  with Cons show ?case by simp
qed

lemma entry_matches_spec:
  assumes "stored_at buffer off e" "live e" "\<And>nm. name = Some nm \<Longrightarrow> length nm < 4294967296"
  shows "entry_matches name buffer off
      \<lparr>fe_inode = de_inode e, fe_node_length = de_length e, fe_name_length = of_nat (length (de_name e))\<rparr>
    = Inr (wanted name e)"
proof (cases name)
  case None
  then show ?thesis by (simp add: entry_matches_def wanted_def)
next
  case (Some nm)
  have n: "unat (of_nat (length (de_name e)) :: u16) = length (de_name e)"
    using assms(1) by (intro unat_of_nat_exact) (simp add: stored_at_def)
  have c: "ucast (of_nat (length (de_name e)) :: u16) = (of_nat (length (de_name e)) :: u32)"
    using assms(1) n by (simp add: word_unat_eq_iff unat_ucast_small unat_of_nat stored_at_def)
  have same: "(of_nat (length (de_name e)) :: u32) = of_nat (length nm) \<longleftrightarrow> length (de_name e) = length nm"
    using assms(1) assms(3) [OF Some]
    by (simp add: stored_at_def word_unat_eq_iff unat_of_nat)
  show ?thesis
  proof (cases "length (de_name e) = length nm")
    case True
    then show ?thesis using assms(1,2) Some same c
      by (auto simp: entry_matches_def wanted_def stored_at_def name_matches_spec)
  next
    case False
    then show ?thesis using Some same c by (auto simp: entry_matches_def wanted_def)
  qed
qed


lemma scan_block_step:
  assumes "stored_at buffer (unat lp) e" "length buffer = unat bs"
    and "unat processed + (unat bs - unat lp) \<le> unat dsize"
    and "\<And>nm. name = Some nm \<Longrightarrow> length nm < 4294967296"
  shows "scan_block name buffer bs dsize lp processed entries =
    (if wanted name e then Some (Inr (Found (de_inode e)))
     else scan_block name buffer bs dsize (lp + ucast (de_length e)) (processed + ucast (de_length e))
            (if live e then entries + 1 else entries))"
proof -
  have "unat lp + 8 \<le> unat bs" using assms(1,2) by (simp add: stored_at_def)
  then have run: "lp < bs" "processed < dsize" using assms(3) by (simp_all add: word_less_nat_alt)
  have entry: "get_entry buffer (unat lp) = Inr \<lparr>fe_inode = de_inode e, fe_node_length = de_length e,
      fe_name_length = of_nat (length (de_name e))\<rparr>"
    using assms(1) by (simp add: get_entry_def stored_at_def)
  show ?thesis
  proof (cases "live e")
    case True
    then show ?thesis
      using run entry entry_matches_spec [OF assms(1) True assms(4)]
      by (subst scan_block.simps) (simp add: live_def)
  next
    case False
    then show ?thesis using run entry
      by (subst scan_block.simps) (simp add: live_def wanted_def)
  qed
qed

lemma scan_block_spec:
  assumes "chain buffer (unat lp) es" "length buffer = unat bs"
    and "unat processed + (unat bs - unat lp) \<le> unat dsize"
    and "\<And>nm. name = Some nm \<Longrightarrow> length nm < 4294967296"
  shows "scan_block name buffer bs dsize lp processed entries
    = Some (Inr (scan_result name es (processed + (bs - lp)) entries))"
  using assms(1-3)
proof (induction es arbitrary: lp processed entries)
  case Nil
  then have "lp = bs" by (simp add: word_unat_eq_iff)
  then show ?case by (subst scan_block.simps) (simp add: scan_result_def)
next
  case (Cons e es)
  let ?l = "ucast (de_length e) :: u32"
  have st: "stored_at buffer (unat lp) e" and ch: "chain buffer (unat lp + unat (de_length e)) es"
    using Cons.prems(1) by simp_all
  have l: "unat ?l = unat (de_length e)"
    by (rule unat_ucast_small) (rule less_trans [OF unat_u16_less], simp)
  have fits: "unat lp + unat (de_length e) \<le> unat bs" using chain_le [OF ch] Cons.prems(2) by simp
  have lp: "unat (lp + ?l) = unat lp + unat (de_length e)"
    using fits l le_less_trans [OF fits unat_u32_less] by (subst unat_plus_exact) simp_all
  have "unat processed + unat (de_length e) \<le> unat dsize" using fits Cons.prems(3) by simp
  from le_less_trans [OF this unat_u32_less]
  have pr: "unat (processed + ?l) = unat processed + unat (de_length e)"
    using l by (subst unat_plus_exact) simp_all
  have "scan_block name buffer bs dsize (lp + ?l) (processed + ?l) (if live e then entries + 1 else entries)
      = Some (Inr (scan_result name es (processed + ?l + (bs - (lp + ?l))) (if live e then entries + 1 else entries)))"
    using ch fits Cons.prems lp pr by (intro Cons.IH) simp_all
  moreover have "processed + ?l + (bs - (lp + ?l)) = processed + (bs - lp)" by simp
  ultimately show ?case
    using scan_block_step [OF st Cons.prems(2,3) assms(4), where entries = entries]
    by (auto simp: scan_result_def wanted_def algebra_simps split: option.splits)
qed

lemma scan_result_append:
  "scan_result name (es @ es') processed entries =
     (case scan_result name es 0 entries of
        Found i \<Rightarrow> Found i
      | Scanned p c \<Rightarrow> scan_result name es' processed c)"
  by (induction es arbitrary: entries)
    (auto simp: scan_result_def algebra_simps split: option.splits)

lemma scan_blocks_spec:
  assumes "dir_blocks rb bs dsize ess" "k \<le> length ess"
    and "\<And>nm. name = Some nm \<Longrightarrow> length nm < 4294967296"
  shows "scan_blocks name rb bs dsize (of_nat k) (of_nat (k * unat bs)) entries
    = Some (Inr (scan_result name (concat (drop k ess)) dsize entries))"
  using assms(2)
proof (induction "length ess - k" arbitrary: k entries)
  case 0
  then have "k = length ess" by simp
  then have "(of_nat (k * unat bs) :: u32) = of_nat (unat dsize)" using assms(1) by (simp add: dir_blocks_def)
  then have "of_nat (k * unat bs) = dsize" by (simp only: of_nat_unat ucast_id)
  with 0 show ?case by (subst scan_blocks.simps) (simp add: scan_result_def)
next
  case (Suc m)
  let ?p = "of_nat (k * unat bs) :: u32"
  have k: "k < length ess" using Suc.hyps(2) by simp
  then obtain buffer where b: "rb (of_nat k) = Inr buffer" "length buffer = unat bs" "chain buffer 0 (ess ! k)"
    using assms(1) by (auto simp: dir_blocks_def)
  have "Suc k * unat bs \<le> length ess * unat bs" using k by (intro mult_le_mono1) simp
  then have le: "k * unat bs + unat bs \<le> unat dsize" using assms(1) by (simp add: dir_blocks_def)
  have "k * unat bs < 2 ^ LENGTH(32)" using le le_less_trans [OF _ unat_u32_less [of dsize]] by simp
  then have p: "unat ?p = k * unat bs" by (rule unat_of_nat_exact)
  have pos: "0 < unat bs" using assms(1) by (simp add: dir_blocks_def word_less_nat_alt)
  have blk: "scan_block name buffer bs dsize 0 ?p entries
      = Some (Inr (scan_result name (ess ! k) (?p + bs) entries))"
    using scan_block_spec [of buffer 0 "ess ! k" bs ?p dsize name entries] b p le assms(3) by simp
  have step: "?p + bs = of_nat (Suc k * unat bs)" "of_nat k + 1 = (of_nat (Suc k) :: u32)" by simp_all
  have next_: "scan_blocks name rb bs dsize (of_nat k + 1) (?p + bs) c
      = Some (Inr (scan_result name (concat (drop (Suc k) ess)) dsize c))" for c
    unfolding step using k Suc.hyps(2) by (intro Suc.hyps(1)) simp_all
  have "?p < dsize" using p le pos by (simp add: word_less_nat_alt)
  then have "scan_blocks name rb bs dsize (of_nat k) ?p entries
      = Some (Inr (scan_result name (ess ! k @ concat (drop (Suc k) ess)) dsize entries))"
    using b(1) blk next_
    by (subst scan_blocks.simps)
      (simp add: scan_result_append, auto simp: scan_result_def split: option.splits)
  then show ?case using k by (simp add: Cons_nth_drop_Suc [symmetric])
qed

text \<open>
  C18. Searching a directory whose blocks are filled with entries, as ext2 stores them, always
  finishes, reads inside its buffer only and returns the i-node of the first live entry with the
  name, or zero when there is none; after a search that found nothing, and for \<^verbatim>\<open>entry_count\<close>, the
  saved count is the number of live entries of the directory.
\<close>

theorem directory_search:
  assumes "dir_blocks rb bs (node_size n) ess" "is_dir n" "length name < 4294967296"
  shows "node_find rb bs (Some name) n = Some (Inr
      (case List.find (\<lambda>e. live e \<and> de_name e = name) (concat ess) of
         Some e \<Rightarrow> (de_inode e, n)
       | None \<Rightarrow> (0, n\<lparr>saved_entry_count := of_nat (length (filter live (concat ess)))\<rparr>)))
    \<and> (saved_entry_count n = 0xFFFFFFFF \<longrightarrow>
        entry_count rb bs n = Some (Inr (of_nat (length (filter live (concat ess))),
          n\<lparr>saved_entry_count := of_nat (length (filter live (concat ess)))\<rparr>)))"
proof -
  have w: "wanted (Some name) = (\<lambda>e. live e \<and> de_name e = name)" "wanted None = (\<lambda>_. False)"
    by (auto simp: wanted_def fun_eq_iff)
  have none: "List.find (\<lambda>_ :: dirent. False) es = None" for es by (induction es) simp_all
  have f: "node_find rb bs (Some name) n = Some (Inr
      (case List.find (\<lambda>e. live e \<and> de_name e = name) (concat ess) of
         Some e \<Rightarrow> (de_inode e, n)
       | None \<Rightarrow> (0, n\<lparr>saved_entry_count := of_nat (length (filter live (concat ess)))\<rparr>)))"
    using scan_blocks_spec [OF assms(1), of 0 "Some name" 0] assms(2,3)
    by (auto simp: node_find_def scan_result_def w split: option.splits)
  have "node_find rb bs None n = Some (Inr (of_nat (length (filter live (concat ess))),
      n\<lparr>saved_entry_count := of_nat (length (filter live (concat ess)))\<rparr>))"
    using scan_blocks_spec [OF assms(1), of 0 None 0] assms(2)
    by (simp add: node_find_def scan_result_def w none)
  then show ?thesis using f by (simp add: entry_count_def)
qed

definition sample_block :: "u8 list" where
  "sample_block = [5, 0, 0, 0, 12, 0, 1, 0, 97, 0, 0, 0,  7, 0, 0, 0, 12, 0, 1, 0, 98, 0, 0, 0]"

theorem directory_search_witness:
  "node_find (\<lambda>_. Inr sample_block) 24 (Some [98])
     \<lparr>node_number = 2, node_type = 4, link_count = 1, node_size = 24, block_pointers = replicate 15 0,
      saved_entry_count = 0xFFFFFFFF\<rparr> = Some (Inr (7,
     \<lparr>node_number = 2, node_type = 4, link_count = 1, node_size = 24, block_pointers = replicate 15 0,
      saved_entry_count = 0xFFFFFFFF\<rparr>))"
proof -
  let ?n = "\<lparr>node_number = 2, node_type = 4, link_count = 1, node_size = 24, block_pointers = replicate 15 0,
      saved_entry_count = 0xFFFFFFFF\<rparr>"
  let ?e = "[\<lparr>de_inode = 5, de_length = 12, de_name = [97]\<rparr>, \<lparr>de_inode = 7, de_length = 12, de_name = [98]\<rparr>]"
  have "stored_at sample_block 0 (?e ! 0)" "stored_at sample_block 12 (?e ! 1)"
    by (simp_all add: stored_at_def sample_block_def get_u32_def get_u16_def)
  then have "chain sample_block 0 ?e" by (simp add: sample_block_def)
  then have "dir_blocks (\<lambda>_. Inr sample_block) 24 (node_size ?n) [?e]"
    by (simp add: dir_blocks_def sample_block_def)
  from directory_search [OF this, of "[98]"] show ?thesis by (simp add: is_dir_def live_def)
qed

end
