(* ===== verification/User_Memory.thy ===== *)
theory User_Memory
  imports Prelude
begin

text \<open>
  The address checks of \<^verbatim>\<open>kernel/kernel.h\<close>, \<^verbatim>\<open>kernel/kernel.cc\<close> and \<^verbatim>\<open>kernel/utils.h\<close>, through
  which every pointer of a system call passes, and the string functions of \<^verbatim>\<open>kernel/libk.cc\<close>.
  Every call of \<^verbatim>\<open>check_bounds\<close> passes a positive constant as its scale.
\<close>

section \<open>Constants\<close>

definition FRAME_SIZE :: u32 where "FRAME_SIZE = 4096"
definition USER_MEM_START :: u32 where "USER_MEM_START = 0x80000000"
definition SHARED_ADDRESS :: u32 where "SHARED_ADDRESS = 0xF0000000"
definition FAULT_ADDRESS :: u32 where "FAULT_ADDRESS = SHARED_ADDRESS + 0x800"
definition USER_MEM_END :: u32 where "USER_MEM_END = SHARED_ADDRESS + FRAME_SIZE"
definition USER_STACK_SIZE :: u32 where "USER_STACK_SIZE = 1 * 1024 * 1024"
definition USER_STACK_START :: u32 where "USER_STACK_START = SHARED_ADDRESS"
definition USER_STACK_END :: u32 where "USER_STACK_END = USER_STACK_START - USER_STACK_SIZE"

lemmas user_constants = FRAME_SIZE_def USER_MEM_START_def SHARED_ADDRESS_def FAULT_ADDRESS_def
  USER_MEM_END_def USER_STACK_SIZE_def USER_STACK_START_def USER_STACK_END_def

section \<open>Checks\<close>

definition check_bounds :: "u32 \<Rightarrow> u32 \<Rightarrow> u32 \<Rightarrow> u32 \<Rightarrow> u32 \<Rightarrow> bool" where
  "check_bounds base index scale lower_bound upper_bound =
     (let scaled = index * scale
      in if scaled div scale \<noteq> index then False
         else let final_value = base + scaled
              in if final_value < base then False
                 else final_value \<ge> lower_bound \<and> final_value < upper_bound)"

text \<open>The call with the default arguments, then the function; it calls itself with them only.\<close>

definition validate_address_only :: "u32 \<Rightarrow> bool" where
  "validate_address_only address = check_bounds address 0 1 USER_MEM_START USER_MEM_END"

definition validate_address :: "u32 \<Rightarrow> u32 \<Rightarrow> u32 \<Rightarrow> bool" where
  "validate_address address offset scale =
     (if offset > 0 \<and> \<not> validate_address_only address then False
      else check_bounds address offset scale USER_MEM_START USER_MEM_END)"

text \<open>The template on pointers; \<open>sz\<close> is the size of the type pointed to.\<close>

definition validate_pointer :: "u32 \<Rightarrow> u32 \<Rightarrow> u32 \<Rightarrow> bool" where
  "validate_pointer sz address offset =
     (validate_address address 0 1 \<and>
      (offset = 0 \<or> validate_address (address + sz - 1) (offset - 1) sz))"

section \<open>Counting a zero-terminated array\<close>

text \<open>
  User memory is read through the page tables: a read gives the value, or a page fault that ends
  the system call. The array is scanned until a zero; with \<open>skip_validation\<close> the scan need not end.
\<close>

datatype page_fault = PageFault

type_synonym user_reader = "u32 \<Rightarrow> u32 option"

partial_function (option) count_loop ::
    "user_reader \<Rightarrow> u32 \<Rightarrow> bool \<Rightarrow> u32 \<Rightarrow> u32 \<Rightarrow> (page_fault + int) option" where
  "count_loop rd sz skip_validation arr n =
     (case rd (arr + n * sz) of
        None \<Rightarrow> Some (Inl PageFault)
      | Some v \<Rightarrow>
          if v \<noteq> 0 then
            if \<not> skip_validation \<and> \<not> validate_pointer sz (arr + (n + 1) * sz) 1 then Some (Inr (-1))
            else count_loop rd sz skip_validation arr (n + 1)
          else Some (Inr (sint n)))"

definition validate_and_count ::
    "user_reader \<Rightarrow> u32 \<Rightarrow> u32 \<Rightarrow> bool \<Rightarrow> (page_fault + int) option" where
  "validate_and_count rd sz arr skip_validation =
     (if \<not> skip_validation \<and> \<not> validate_pointer sz arr 1 then Some (Inr (-1))
      else count_loop rd sz skip_validation arr 0)"

section \<open>The string functions\<close>

text \<open>A C string is its bytes up to the zero; reading past the array is \<open>OutOfBounds\<close>.\<close>

fun strlen :: "u8 list \<Rightarrow> nat outcome" where
  "strlen [] = Inl OutOfBounds"
| "strlen (c # str) = (if c \<noteq> 0 then bind_ok (strlen str) (\<lambda>n. Inr (Suc n)) else Inr 0)"

definition isdigit :: "int \<Rightarrow> bool" where
  "isdigit c \<longleftrightarrow> c \<ge> 48 \<and> c \<le> 57"

fun streq :: "u8 list \<Rightarrow> u8 list \<Rightarrow> bool outcome" where
  "streq (x # a) (y # b) =
     (if x \<noteq> y then Inr False else if x = 0 then Inr True else streq a b)"
| "streq _ _ = Inl OutOfBounds"

fun min_of :: "'a::linorder \<Rightarrow> 'a list \<Rightarrow> 'a" where
  "min_of v [] = v"
| "min_of a (b # more) = (let rest = min_of b more in if a < rest then a else rest)"

section \<open>What the checks accept\<close>

text \<open>An overflow of the product or of the sum is always noticed.\<close>

lemma check_bounds_iff:
  assumes "scale \<noteq> 0"
  shows "check_bounds base index scale lo hi \<longleftrightarrow>
    unat base + unat index * unat scale < 2 ^ 32
    \<and> unat lo \<le> unat base + unat index * unat scale
    \<and> unat base + unat index * unat scale < unat hi"
proof -
  let ?m = "unat index * unat scale"
  have s: "0 < unat scale" using assms by (simp add: unat_gt_0)
  have div: "index * scale div scale = index \<longleftrightarrow> ?m < 2 ^ 32"
  proof
    assume "?m < 2 ^ 32"
    then have "unat (index * scale) = ?m" by (intro unat_times_exact) simp
    then show "index * scale div scale = index"
      using s by (simp add: word_unat_eq_iff unat_div_distrib)
  next
    assume "index * scale div scale = index"
    then have "unat (index * scale) div unat scale = unat index" by (metis unat_div_distrib)
    then have "?m \<le> unat (index * scale)" by (metis div_times_less_eq_dividend)
    also have "\<dots> < 2 ^ 32" using unat_u32_less by simp
    finally show "?m < 2 ^ 32" .
  qed
  show ?thesis
  proof (cases "?m < 2 ^ 32")
    case True
    then have m: "unat (index * scale) = ?m" by (intro unat_times_exact) simp
    have sum: "unat (base + index * scale) = (unat base + ?m) mod 2 ^ 32"
      using m by (simp add: unat_word_ariths)
    show ?thesis
    proof (cases "unat base + ?m < 2 ^ 32")
      case fits: True
      then show ?thesis using True sum div
        by (auto simp: check_bounds_def word_less_nat_alt word_le_nat_alt)
    next
      case False
      have "unat base < 2 ^ 32" by simp
      then have "unat base + ?m < 2 * 2 ^ 32" using True by linarith
      from mod_below_twice [OF this] have "(unat base + ?m) mod 2 ^ 32 = unat base + ?m - 2 ^ 32"
        using False by simp
      then have "unat (base + index * scale) < unat base"
        using False True \<open>unat base < 2 ^ 32\<close> sum by linarith
      then show ?thesis using False div True
        by (simp add: check_bounds_def word_less_nat_alt)
    qed
  next
    case False
    then show ?thesis using div by (auto simp: check_bounds_def)
  qed
qed

lemma validate_address_iff:
  assumes "scale \<noteq> 0"
  shows "validate_address address offset scale \<longleftrightarrow>
    0x80000000 \<le> unat address \<and> unat address + unat offset * unat scale < 0xF0001000"
  using assms
  by (auto simp: validate_address_def validate_address_only_def check_bounds_iff user_constants
      word_less_nat_alt)

lemma validate_pointer_iff:
  assumes "0 < sz" "sz \<le> 4096"
  shows "validate_pointer sz address n \<longleftrightarrow>
    unat USER_MEM_START \<le> unat address \<and> unat address < unat USER_MEM_END
    \<and> unat address + unat n * unat sz \<le> unat USER_MEM_END"
proof (cases "0x80000000 \<le> unat address \<and> unat address < 0xF0001000")
  case False
  then show ?thesis by (auto simp: validate_pointer_def validate_address_iff user_constants)
next
  case True
  have z: "0 < unat sz" "unat sz \<le> 4096"
    using assms by (simp_all add: word_less_nat_alt word_le_nat_alt)
  have p: "unat (address + sz) = unat address + unat sz" using True z by (intro unat_plus_exact) simp
  then have "(1 :: u32) \<le> address + sz" using z by (simp add: word_le_nat_alt)
  then have e: "unat (address + sz - 1) = unat address + unat sz - 1" using p by (simp add: unat_minus_exact)
  show ?thesis
  proof (cases "n = 0")
    case False
    then have n: "0 < unat n" by (simp add: unat_gt_0)
    then have n1: "unat (n - 1) = unat n - 1" by (simp add: unat_minus_exact word_le_nat_alt)
    have "(unat n - 1) * unat sz + unat sz = unat n * unat sz"
      using n by (simp add: diff_mult_distrib)
    then have "unat (address + sz - 1) + unat (n - 1) * unat sz = unat address + unat n * unat sz - 1"
      using e n1 z by simp
    moreover have "sz \<noteq> 0" using assms by auto
    ultimately show ?thesis using True False e n1 z
      by (auto simp: validate_pointer_def validate_address_iff user_constants)
  qed (use True in \<open>simp add: validate_pointer_def validate_address_iff user_constants\<close>)
qed

text \<open>
  C20. The pointer check is exact: for every element size up to a page, address and number of
  elements it accepts precisely the arrays that lie inside user memory, from \<^verbatim>\<open>USER_MEM_START\<close> to
  \<^verbatim>\<open>USER_MEM_END\<close>; no product or sum that wraps around is accepted.
\<close>

theorem validate_pointer_exact:
  assumes "0 < sz" "sz \<le> 4096"
  shows "validate_pointer sz address n \<longleftrightarrow>
    unat USER_MEM_START \<le> unat address \<and> unat address < unat USER_MEM_END
    \<and> unat address + unat n * unat sz \<le> unat USER_MEM_END"
  using assms by (rule validate_pointer_iff)

theorem validate_pointer_exact_witness:
  "validate_pointer 4 0xF0000FFC 1 \<and> \<not> validate_pointer 4 0xF0000FFC 0x40000001"
  using validate_pointer_exact [of 4 "0xF0000FFC" 1] validate_pointer_exact [of 4 "0xF0000FFC" "0x40000001"]
  by (simp add: user_constants)

text \<open>The element at an index of an array, and whether it lies in user memory.\<close>

definition element :: "u32 \<Rightarrow> u32 \<Rightarrow> nat \<Rightarrow> u32" where
  "element arr sz j = of_nat (unat arr + j * unat sz)"

definition in_user :: "u32 \<Rightarrow> u32 \<Rightarrow> nat \<Rightarrow> bool" where
  "in_user arr sz j \<longleftrightarrow>
     unat USER_MEM_START \<le> unat arr \<and> unat arr + Suc j * unat sz \<le> unat USER_MEM_END"

definition scan_stops :: "user_reader \<Rightarrow> u32 \<Rightarrow> u32 \<Rightarrow> nat \<Rightarrow> page_fault + int \<Rightarrow> bool" where
  "scan_stops rd arr sz k r \<longleftrightarrow>
     (if \<not> in_user arr sz k then r = Inr (-1)
      else (case rd (element arr sz k) of
              None \<Rightarrow> r = Inl PageFault
            | Some v \<Rightarrow> v = 0 \<and> r = Inr (int k)))"

definition scan_passes :: "user_reader \<Rightarrow> u32 \<Rightarrow> u32 \<Rightarrow> nat \<Rightarrow> bool" where
  "scan_passes rd arr sz j \<longleftrightarrow>
     in_user arr sz j \<and> (case rd (element arr sz j) of None \<Rightarrow> False | Some v \<Rightarrow> v \<noteq> 0)"

lemma in_user_less: "in_user arr sz (Suc j) \<Longrightarrow> in_user arr sz j"
  by (simp add: in_user_def)

lemma element_word: "arr + of_nat j * sz = element arr sz j"
  by (simp add: element_def)

lemma validate_element:
  assumes "0 < sz" "sz \<le> 4096" "in_user arr sz j"
  shows "validate_pointer sz (element arr sz (Suc j)) 1 \<longleftrightarrow> in_user arr sz (Suc j)"
proof -
  have le: "unat arr + Suc j * unat sz \<le> 0xF0001000" "0x80000000 \<le> unat arr"
    using assms(3) by (simp_all add: in_user_def user_constants)
  then have "unat (element arr sz (Suc j)) = unat arr + Suc j * unat sz"
    unfolding element_def by (intro unat_of_nat_exact) simp
  moreover have "0 < unat sz" using assms(1) by (simp add: word_less_nat_alt)
  ultimately show ?thesis using le validate_pointer_iff [OF assms(1,2)]
    by (auto simp: in_user_def user_constants)
qed

lemma count_loop_stops:
  assumes "0 < sz" "sz \<le> 4096" "in_user arr sz n"
  shows "\<exists>k\<ge>n. \<exists>r. count_loop rd sz False arr (of_nat n) = Some r
    \<and> (\<forall>j. n \<le> j \<and> j < k \<longrightarrow> scan_passes rd arr sz j) \<and> scan_stops rd arr sz k r"
  using assms(3)
proof (induction "unat USER_MEM_END - n" arbitrary: n rule: less_induct)
  case less
  have sz: "0 < unat sz" using assms(1) by (simp add: word_less_nat_alt)
  have "Suc n \<le> Suc n * unat sz" using sz by (cases "unat sz") auto
  then have n: "n < 0x70001000" using less.prems by (simp add: in_user_def user_constants)
  then have s: "sint (of_nat n :: u32) = int n" by (subst sint_small) (simp_all add: unat_of_nat)
  have next_: "of_nat n + 1 = (of_nat (Suc n) :: u32)" by simp
  consider "rd (element arr sz n) = None" | "rd (element arr sz n) = Some 0"
    | v where "rd (element arr sz n) = Some v" "v \<noteq> 0" by (cases "rd (element arr sz n)") auto
  then show ?case
  proof cases
    case 1
    then show ?thesis using less.prems
      by (intro exI [of _ n]) (subst count_loop.simps, auto simp: element_word scan_stops_def)
  next
    case 2
    then show ?thesis using less.prems s
      by (intro exI [of _ n]) (subst count_loop.simps, auto simp: element_word scan_stops_def)
  next
    case 3
    have pass: "scan_passes rd arr sz n" using 3 less.prems by (simp add: scan_passes_def)
    show ?thesis
    proof (cases "in_user arr sz (Suc n)")
      case True
      have "count_loop rd sz False arr (of_nat n) = count_loop rd sz False arr (of_nat (Suc n))"
        using 3 validate_element [OF assms(1,2) less.prems] True
        by (subst count_loop.simps) (simp only: element_word next_, simp)
      moreover have "unat USER_MEM_END - Suc n < unat USER_MEM_END - n" using n by (simp add: user_constants)
      ultimately show ?thesis using less.hyps [of "Suc n", OF _ True] pass
        by (metis Suc_leD le_antisym not_less_eq_eq not_le)
    next
      case False
      then have "count_loop rd sz False arr (of_nat n) = Some (Inr (-1))"
        using 3 validate_element [OF assms(1,2) less.prems]
        by (subst count_loop.simps) (simp only: element_word next_, simp)
      then show ?thesis using False pass
        by (intro exI [of _ "Suc n"]) (auto simp: scan_stops_def less_Suc_eq)
    qed
  qed
qed

text \<open>
  C28. Counting a zero-terminated array of the user always ends, and stops at the first element
  that is zero, unmapped or outside user memory: the result is the index of the zero, the page
  fault, or \<open>-1\<close>. All elements before it lie in user memory, are mapped and are not zero, so the
  kernel reads no element that it has not checked.
\<close>

theorem validate_and_count_stops:
  assumes "0 < sz" "sz \<le> 4096"
  shows "\<exists>k r. validate_and_count rd sz arr False = Some r
    \<and> (\<forall>j<k. scan_passes rd arr sz j) \<and> scan_stops rd arr sz k r"
proof (cases "in_user arr sz 0")
  case True
  then have "validate_pointer sz arr 1"
    using validate_pointer_iff [OF assms] assms(1) by (auto simp: in_user_def word_less_nat_alt)
  then show ?thesis using count_loop_stops [OF assms True, of rd]
    by (auto simp: validate_and_count_def)
next
  case False
  then have "\<not> validate_pointer sz arr 1"
    using validate_pointer_iff [OF assms] by (auto simp: in_user_def)
  then show ?thesis using False by (intro exI [of _ 0]) (simp add: validate_and_count_def scan_stops_def)
qed

theorem validate_and_count_stops_witness:
  "validate_and_count (\<lambda>a. if a = 0x80000002 then Some 0 else Some 7) 1 0x80000000 False = Some (Inr 2)"
proof -
  let ?rd = "\<lambda>a :: u32. if a = 0x80000002 then Some 0 else Some 7 :: u32 option"
  obtain k r where k: "validate_and_count ?rd 1 0x80000000 False = Some r"
    "\<forall>j<k. scan_passes ?rd 0x80000000 1 j" "scan_stops ?rd 0x80000000 1 k r"
    using validate_and_count_stops [of 1 ?rd "0x80000000"] by auto
  have e: "element 0x80000000 1 2 = 0x80000002" by (simp add: element_def)
  have "\<not> scan_passes ?rd 0x80000000 1 2" by (simp add: scan_passes_def e)
  with k(2) have "k \<le> 2" by (meson not_le)
  moreover have "\<not> scan_stops ?rd 0x80000000 1 k r" if "k < 2"
    using that by (auto simp: less_2_cases_iff scan_stops_def element_def in_user_def user_constants)
  ultimately have "k = 2" using k(3) by linarith
  with k(1,3) show ?thesis by (simp add: scan_stops_def in_user_def user_constants e)
qed

end
