(* ===== verification/Descriptor_List.thy ===== *)
theory Descriptor_List
  imports Prelude
begin

text \<open>
  The fixed-size table of \<^verbatim>\<open>kernel/descriptor_list.h\<close> that holds the file descriptors and the
  semaphores of a process. A slot is \<open>None\<close> when it holds the null pointer \<^verbatim>\<open>T{}\<close>; the size of the
  table is the length of its list.
\<close>

record 'a descriptor_list =
  dl_data :: "'a option list"
  open_slots :: u32

definition dl_new :: "u32 \<Rightarrow> 'a descriptor_list" where
  "dl_new sz = \<lparr>dl_data = replicate (unat sz) None, open_slots = sz\<rparr>"

function dl_copy_loop :: "nat \<Rightarrow> 'a option list \<Rightarrow> 'a option list \<Rightarrow> 'a option list" where
  "dl_copy_loop i other data =
     (if i < length other then dl_copy_loop (Suc i) other (data[i := other ! i]) else data)"
  by pat_completeness auto
termination by (relation "measure (\<lambda>(i, other, data). length other - i)") auto

declare dl_copy_loop.simps [simp del]

definition dl_copy :: "'a descriptor_list \<Rightarrow> 'a descriptor_list" where
  "dl_copy other = \<lparr>dl_data = dl_copy_loop 0 (dl_data other) (replicate (length (dl_data other)) None),
     open_slots = open_slots other\<rparr>"

text \<open>The result of \<^verbatim>\<open>get\<close> is the null pointer, or the address of a slot: its contents.\<close>

definition dl_get :: "u32 \<Rightarrow> 'a descriptor_list \<Rightarrow> 'a option option" where
  "dl_get index dl = (if unat index \<ge> length (dl_data dl) then None else Some (dl_data dl ! unat index))"

definition dl_set :: "u32 \<Rightarrow> 'a option \<Rightarrow> 'a descriptor_list \<Rightarrow> 'a descriptor_list" where
  "dl_set index v dl =
     (if unat index \<ge> length (dl_data dl) then dl
      else
        let old = dl_data dl ! unat index;
            slots = (if v \<noteq> None \<and> old = None then open_slots dl - 1
                     else if v = None \<and> old \<noteq> None then open_slots dl + 1
                     else open_slots dl)
        in \<lparr>dl_data = (dl_data dl)[unat index := v], open_slots = slots\<rparr>)"

definition dl_remove :: "u32 \<Rightarrow> 'a descriptor_list \<Rightarrow> bool \<times> 'a descriptor_list" where
  "dl_remove index dl =
     (case dl_get index dl of
        None \<Rightarrow> (False, dl)
      | Some None \<Rightarrow> (False, dl)
      | Some (Some _) \<Rightarrow> (True, dl_set index None dl))"

definition can_alloc :: "u32 \<Rightarrow> 'a descriptor_list \<Rightarrow> bool" where
  "can_alloc n dl \<longleftrightarrow> open_slots dl \<ge> n"

fun dl_alloc_loop :: "nat \<Rightarrow> nat \<Rightarrow> 'a option \<Rightarrow> 'a descriptor_list \<Rightarrow> (u32 \<times> 'a descriptor_list) outcome" where
  "dl_alloc_loop 0 i v dl = Inl Missing"
| "dl_alloc_loop (Suc k) i v dl =
     (if dl_data dl ! i = None then Inr (of_nat i, dl_set (of_nat i) v dl)
      else dl_alloc_loop k (Suc i) v dl)"

definition dl_alloc :: "'a option \<Rightarrow> 'a descriptor_list \<Rightarrow> (u32 \<times> 'a descriptor_list) outcome" where
  "dl_alloc v dl =
     bind_ok (assert (can_alloc 1 dl)) (\<lambda>_. dl_alloc_loop (length (dl_data dl)) 0 v dl)"

text \<open>The tables that a process can reach from a new one.\<close>

inductive dl_reachable :: "'a descriptor_list \<Rightarrow> bool" where
  new: "dl_reachable (dl_new sz)"
| set_slot: "dl_reachable dl \<Longrightarrow> dl_reachable (dl_set i v dl)"
| remove: "dl_reachable dl \<Longrightarrow> dl_reachable (snd (dl_remove i dl))"
| alloc: "dl_reachable dl \<Longrightarrow> dl_alloc v dl = Inr (i, dl') \<Longrightarrow> dl_reachable dl'"
| copy: "dl_reachable dl \<Longrightarrow> dl_reachable (dl_copy dl)"

section \<open>The count of free slots\<close>

definition free_slots :: "'a option list \<Rightarrow> nat" where
  "free_slots data = length (filter (\<lambda>x. x = None) data)"

definition dl_inv :: "'a descriptor_list \<Rightarrow> bool" where
  "dl_inv dl \<longleftrightarrow> length (dl_data dl) < 2 ^ 32 \<and> unat (open_slots dl) = free_slots (dl_data dl)"

lemma free_slots_update:
  "i < length data \<Longrightarrow> free_slots (data[i := v]) + (if data ! i = None then 1 else 0)
     = free_slots data + (if v = None then 1 else 0)"
proof (induction data arbitrary: i)
  case (Cons a data)
  show ?case
  proof (cases i)
    case (Suc j)
    then have "j < length data" using Cons.prems by simp
    from Cons.IH [OF this] show ?thesis using Suc by (simp add: free_slots_def split: if_splits)
  qed (auto simp: free_slots_def)
qed simp

lemma free_slots_le: "free_slots data \<le> length data"
  by (simp add: free_slots_def)

lemma set_inv [inv_intros]: "dl_inv dl \<Longrightarrow> dl_inv (dl_set i v dl)"
proof -
  assume inv: "dl_inv dl"
  show ?thesis
  proof (cases "unat i < length (dl_data dl)")
    case True
    note upd = free_slots_update [OF True, of v]
    have lt: "free_slots (dl_data dl) < 2 ^ 32"
      using inv free_slots_le [of "dl_data dl"] by (simp add: dl_inv_def)
    have le: "free_slots ((dl_data dl)[unat i := v]) < 2 ^ 32"
      using inv free_slots_le [of "(dl_data dl)[unat i := v]"] by (simp add: dl_inv_def)
    have "1 \<le> open_slots dl" if "0 < free_slots (dl_data dl)"
      using that inv by (simp add: dl_inv_def word_le_nat_alt)
    moreover have "unat (open_slots dl + 1) = unat (open_slots dl) + 1"
      if "free_slots (dl_data dl) + 1 < 2 ^ 32"
      using that inv by (subst unat_plus_exact) (simp_all add: dl_inv_def)
    ultimately show ?thesis using True upd inv le
      by (auto simp: dl_inv_def dl_set_def Let_def unat_minus_exact)
  qed (use inv in \<open>simp add: dl_set_def\<close>)
qed

lemma copy_loop_spec:
  "length data = length other \<Longrightarrow> take i data = take i other \<Longrightarrow> dl_copy_loop i other data = other"
proof (induction i other data rule: dl_copy_loop.induct)
  case (1 i other data)
  show ?case
  proof (cases "i < length other")
    case True
    then have "take (Suc i) (data[i := other ! i]) = take (Suc i) other"
      using 1(2,3) by (simp add: take_Suc_conv_app_nth)
    then show ?thesis using 1(1) [OF True] 1(2) True by (subst dl_copy_loop.simps) simp
  next
    case False
    then show ?thesis using 1(2,3) by (subst dl_copy_loop.simps) simp
  qed
qed

lemma dl_copy_same: "dl_copy dl = dl"
  by (simp add: dl_copy_def copy_loop_spec)

lemma alloc_loop_spec:
  assumes "i + k = length (dl_data dl)" "\<forall>j<i. dl_data dl ! j \<noteq> None"
  shows "dl_alloc_loop k i v dl =
    (case List.find (\<lambda>j. dl_data dl ! j = None) [0..<length (dl_data dl)] of
       None \<Rightarrow> Inl Missing
     | Some j \<Rightarrow> Inr (of_nat j, dl_set (of_nat j) v dl))"
  using assms
proof (induction k arbitrary: i)
  case 0
  then have "List.find (\<lambda>j. dl_data dl ! j = None) [0..<length (dl_data dl)] = None"
    by (simp add: find_None_iff)
  then show ?case by simp
next
  case (Suc k)
  show ?case
  proof (cases "dl_data dl ! i = None")
    case True
    have "[0..<length (dl_data dl)] = [0..<i] @ i # [Suc i..<length (dl_data dl)]"
      using Suc.prems(1) upt_add_eq_append [of 0 i "Suc k"] upt_conv_Cons [of i "length (dl_data dl)"] by simp
    moreover have "List.find (\<lambda>j. dl_data dl ! j = None) ([0..<i] @ i # xs) = Some i" for xs
      using Suc.prems(2) True by (auto simp: find_Some_iff nth_append intro!: exI [of _ i])
    ultimately show ?thesis using True by simp
  next
    case False
    then have "\<forall>j<Suc i. dl_data dl ! j \<noteq> None" using Suc.prems(2) by (simp add: less_Suc_eq)
    from Suc.IH [OF _ this] show ?thesis using Suc.prems(1) False by (simp only: dl_alloc_loop.simps) simp
  qed
qed

lemma free_slot_exists: "0 < free_slots data \<longleftrightarrow> (\<exists>j<length data. data ! j = None)"
  by (auto simp: free_slots_def length_greater_0_conv filter_empty_conv in_set_conv_nth)

lemma reachable_inv: "dl_reachable dl \<Longrightarrow> dl_inv dl"
proof (induction rule: dl_reachable.induct)
  case (new sz)
  have "unat sz < 2 ^ 32" by simp
  then show ?case by (simp add: dl_new_def dl_inv_def free_slots_def)
next
  case (remove dl i)
  then show ?case by (auto simp: dl_remove_def set_inv split: option.splits)
next
  case (alloc dl v i dl')
  then have "dl_alloc_loop (length (dl_data dl)) 0 v dl = Inr (i, dl')"
    by (simp add: dl_alloc_def bind_ok_Inr_iff)
  then show ?case using alloc.IH set_inv
    by (subst (asm) alloc_loop_spec) (auto split: option.splits)
qed (simp_all add: set_inv dl_copy_same)

text \<open>
  C31. The table of descriptors keeps its count: after any history of \<^verbatim>\<open>set\<close>, \<^verbatim>\<open>remove\<close>, \<^verbatim>\<open>alloc\<close> and
  copies, \<^verbatim>\<open>can_alloc(n)\<close> holds exactly when \<open>n\<close> slots are free, and then \<^verbatim>\<open>alloc\<close> returns the
  lowest free index and fills that slot only; without a free slot its assertion fails, and the
  \<^verbatim>\<open>MISSING()\<close> after its loop is never reached.
\<close>

theorem descriptor_slots:
  assumes "dl_reachable dl"
  shows "(can_alloc n dl \<longleftrightarrow> unat n \<le> free_slots (dl_data dl))
    \<and> (case List.find (\<lambda>j. dl_data dl ! j = None) [0..<length (dl_data dl)] of
         None \<Rightarrow> dl_alloc (Some v) dl = Inl Assertion
       | Some j \<Rightarrow> dl_alloc (Some v) dl = Inr (of_nat j,
           \<lparr>dl_data = (dl_data dl)[j := Some v], open_slots = open_slots dl - 1\<rparr>))"
proof -
  have inv: "dl_inv dl" using assms by (rule reachable_inv)
  have one: "can_alloc 1 dl \<longleftrightarrow> (\<exists>j<length (dl_data dl). dl_data dl ! j = None)"
    using inv free_slot_exists [of "dl_data dl"] by (simp add: can_alloc_def dl_inv_def word_le_nat_alt Suc_le_eq)
  show ?thesis
  proof (cases "List.find (\<lambda>j. dl_data dl ! j = None) [0..<length (dl_data dl)]")
    case None
    then have "\<not> can_alloc 1 dl" using one by (auto simp: find_None_iff)
    then show ?thesis using inv None
      by (simp add: dl_alloc_def can_alloc_def dl_inv_def word_le_nat_alt)
  next
    case (Some j)
    then have j: "j < length (dl_data dl)" "dl_data dl ! j = None" by (auto simp: find_Some_iff)
    then have u: "unat (of_nat j :: u32) = j" using inv by (simp add: dl_inv_def unat_of_nat)
    have "can_alloc 1 dl" using one j by blast
    then have "dl_alloc (Some v) dl = Inr (of_nat j, dl_set (of_nat j) (Some v) dl)"
      using Some by (simp add: dl_alloc_def alloc_loop_spec)
    then show ?thesis using inv Some j u
      by (simp add: dl_set_def can_alloc_def dl_inv_def word_le_nat_alt)
  qed
qed

theorem descriptor_slots_witness:
  "dl_alloc (Some (1 :: nat)) (snd (dl_remove 0 (dl_set 1 (Some (1 :: nat)) (dl_set 0 (Some 7) (dl_new 3)))))
   = Inr (0, \<lparr>dl_data = [Some (1 :: nat), Some (1 :: nat), None], open_slots = 1\<rparr>)"
proof -
  let ?dl = "snd (dl_remove 0 (dl_set 1 (Some (1 :: nat)) (dl_set 0 (Some 7) (dl_new 3))))"
  have "dl_reachable ?dl" by (intro dl_reachable.intros)
  have three: "replicate 3 None = [None, None, None :: nat option]" by (simp add: numeral_3_eq_3)
  have "?dl = \<lparr>dl_data = [None, Some (1 :: nat), None], open_slots = 2\<rparr>"
    by (simp add: dl_remove_def dl_get_def dl_set_def dl_new_def three)
  with \<open>dl_reachable ?dl\<close> show ?thesis using descriptor_slots [of ?dl 1 1] by (simp add: upt_rec)
qed

end
