(* ===== verification/Heap_Allocator.thy ===== *)
theory Heap_Allocator
  imports Prelude
begin

text \<open>
  The kernel heap of \<^verbatim>\<open>kernel/heap.cc\<close>: an array of ints divided into blocks. A block starts and
  ends with its size in ints, negated while the block is taken; a free block links to the next and
  the previous free block in its second and third int. The array is a function on its indices; an
  access outside it is \<open>OutOfBounds\<close>. The ints are unbounded here: all values that the functions
  compute lie between \<open>- len\<close> and \<open>2 * len + 2 ^ 30\<close>, and \<open>len\<close> is below \<open>2 ^ 30\<close>. The operations run
  under the lock of the heap and are atomic.
\<close>

section \<open>Blocks\<close>

record heap =
  h_base :: u32
  h_array :: "int \<Rightarrow> int"
  h_len :: int
  h_safe :: bool
  h_avail :: int
  h_lock :: u32
  heap_count :: u32

definition hget :: "heap \<Rightarrow> int \<Rightarrow> int outcome" where
  "hget h i = (if 0 \<le> i \<and> i < h_len h then Inr (h_array h i) else Inl OutOfBounds)"

definition hset :: "int \<Rightarrow> int \<Rightarrow> heap \<Rightarrow> heap outcome" where
  "hset i v h =
     (if 0 \<le> i \<and> i < h_len h then Inr (h\<lparr>h_array := (h_array h)(i := v)\<rparr>) else Inl OutOfBounds)"

definition size_of :: "heap \<Rightarrow> int \<Rightarrow> int outcome" where
  "size_of h i = bind_ok (hget h i) (\<lambda>x. Inr (if x < 0 then - x else x))"

definition headerFromFooter :: "heap \<Rightarrow> int \<Rightarrow> int outcome" where
  "headerFromFooter h i = bind_ok (size_of h i) (\<lambda>s. Inr (i - s + 1))"

definition footerFromHeader :: "heap \<Rightarrow> int \<Rightarrow> int outcome" where
  "footerFromHeader h i = bind_ok (size_of h i) (\<lambda>s. Inr (i + s - 1))"

definition sanity :: "heap \<Rightarrow> int \<Rightarrow> int outcome" where
  "sanity h i =
     (if h_safe h then
        if i = 0 then Inr 0
        else if i < 0 \<or> i \<ge> h_len h then Inl Panic
        else bind_ok (footerFromHeader h i) (\<lambda>footer.
          if footer < 0 \<or> footer \<ge> h_len h then Inl Panic
          else bind_ok (hget h i) (\<lambda>hv. bind_ok (hget h footer) (\<lambda>fv.
            if hv \<noteq> fv then Inl Panic else Inr i)))
      else Inr i)"

definition left_of :: "heap \<Rightarrow> int \<Rightarrow> int outcome" where
  "left_of h i = bind_ok (headerFromFooter h (i - 1)) (sanity h)"

definition right_of :: "heap \<Rightarrow> int \<Rightarrow> int outcome" where
  "right_of h i = bind_ok (size_of h i) (\<lambda>s. sanity h (i + s))"

definition next_of :: "heap \<Rightarrow> int \<Rightarrow> int outcome" where
  "next_of h i = bind_ok (hget h (i + 1)) (sanity h)"

definition prev_of :: "heap \<Rightarrow> int \<Rightarrow> int outcome" where
  "prev_of h i = bind_ok (hget h (i + 2)) (sanity h)"

definition setNext :: "int \<Rightarrow> int \<Rightarrow> heap \<Rightarrow> heap outcome" where
  "setNext i x h = hset (i + 1) x h"

definition setPrev :: "int \<Rightarrow> int \<Rightarrow> heap \<Rightarrow> heap outcome" where
  "setPrev i x h = hset (i + 2) x h"

definition remove_block :: "int \<Rightarrow> heap \<Rightarrow> heap outcome" where
  "remove_block i h =
     bind_ok (prev_of h i) (\<lambda>prevIndex. bind_ok (next_of h i) (\<lambda>nextIndex.
       bind_ok (if prevIndex = 0 then Inr (h\<lparr>h_avail := nextIndex\<rparr>) else setNext prevIndex nextIndex h)
         (\<lambda>h. if nextIndex \<noteq> 0 then setPrev nextIndex prevIndex h else Inr h)))"

definition makeAvail :: "int \<Rightarrow> int \<Rightarrow> heap \<Rightarrow> heap outcome" where
  "makeAvail i ints h =
     bind_ok (hset i ints h) (\<lambda>h. bind_ok (footerFromHeader h i) (\<lambda>footer.
     bind_ok (hset footer ints h) (\<lambda>h.
     bind_ok (setNext i (h_avail h) h) (\<lambda>h.
     bind_ok (setPrev i 0 h) (\<lambda>h.
     bind_ok (if h_avail h \<noteq> 0 then setPrev (h_avail h) i h else Inr h) (\<lambda>h.
       Inr (h\<lparr>h_avail := i\<rparr>)))))))"

definition makeTaken :: "int \<Rightarrow> int \<Rightarrow> heap \<Rightarrow> heap outcome" where
  "makeTaken i ints h =
     bind_ok (hset i (- ints) h) (\<lambda>h. bind_ok (footerFromHeader h i) (\<lambda>footer. hset footer (- ints) h))"

definition isAvail :: "heap \<Rightarrow> int \<Rightarrow> bool outcome" where
  "isAvail h i = bind_ok (hget h i) (\<lambda>x. Inr (x > 0))"

definition isTaken :: "heap \<Rightarrow> int \<Rightarrow> bool outcome" where
  "isTaken h i = bind_ok (hget h i) (\<lambda>x. Inr (x < 0))"

section \<open>Allocation\<close>

text \<open>The search for a block: the smallest of the first twenty that are large enough.\<close>

partial_function (option) malloc_loop ::
    "heap \<Rightarrow> int \<Rightarrow> int \<Rightarrow> int \<Rightarrow> int \<Rightarrow> int \<Rightarrow> (int \<times> int) outcome option" where
  "malloc_loop h ints mx it countDown p =
     (if p = 0 then Some (Inr (mx, it))
      else
        (case isAvail h p of
           Inl e \<Rightarrow> Some (Inl e)
         | Inr av \<Rightarrow>
             if \<not> av then Some (Inl Panic)
             else
               (case size_of h p of
                  Inl e \<Rightarrow> Some (Inl e)
                | Inr sz \<Rightarrow>
                    let fits = sz \<ge> ints;
                        mx' = (if fits \<and> sz < mx then sz else mx);
                        it' = (if fits \<and> sz < mx then p else it);
                        countDown' = (if fits then countDown - 1 else countDown)
                    in if fits \<and> countDown' = 0 then Some (Inr (mx', it'))
                       else (case next_of h p of
                               Inl e \<Rightarrow> Some (Inl e)
                             | Inr q \<Rightarrow> malloc_loop h ints mx' it' countDown' q))))"

text \<open>The number of ints of the block for a request; the sum is computed in 32 bits.\<close>

definition request_ints :: "u32 \<Rightarrow> int" where
  "request_ints bytes = max 4 (uint ((bytes + 3) div 4 + 2))"

definition block_pointer :: "heap \<Rightarrow> int \<Rightarrow> u32" where
  "block_pointer h it = h_base h + 4 * of_int (it + 1)"

definition take_block :: "int \<Rightarrow> int \<Rightarrow> int \<Rightarrow> heap \<Rightarrow> heap outcome" where
  "take_block it mx ints h =
     bind_ok (remove_block it h) (\<lambda>h.
       let extra = mx - ints
       in if extra \<ge> 4 then bind_ok (makeTaken it ints h) (makeAvail (it + ints) extra)
          else makeTaken it mx h)"

text \<open>The result is the pointer, \<open>0\<close> when there is no block, and the heap.\<close>

definition malloc :: "u32 \<Rightarrow> heap \<Rightarrow> (u32 \<times> heap) outcome option" where
  "malloc bytes h =
     (if bytes = 0 then Some (Inr (h_base h, h))
      else
        let ints = request_ints bytes
        in Option.bind (malloc_loop h ints 0x7FFFFFFF 0 20 (h_avail h)) (\<lambda>r. Some
             (bind_ok r (\<lambda>(mx, it).
                if it \<noteq> 0 then
                  bind_ok (take_block it mx ints h) (\<lambda>h.
                    let res = block_pointer h it
                    in Inr (res, if res \<noteq> 0 then h\<lparr>heap_count := heap_count h + 1\<rparr> else h))
                else Inr (0, h)))))"

definition block_index :: "heap \<Rightarrow> u32 \<Rightarrow> int" where
  "block_index h p = sint ((p - h_base h) div 4 - 1)"

text \<open>Merging a block with its free neighbours and putting it on the free list.\<close>

definition release_block :: "int \<Rightarrow> heap \<Rightarrow> heap outcome" where
  "release_block idx h =
     bind_ok (size_of h idx) (\<lambda>sz.
     bind_ok (left_of h idx) (\<lambda>leftIndex. bind_ok (right_of h idx) (\<lambda>rightIndex.
     bind_ok (isAvail h leftIndex) (\<lambda>left_free.
     bind_ok (if left_free
              then bind_ok (remove_block leftIndex h) (\<lambda>h.
                     bind_ok (size_of h leftIndex) (\<lambda>s. Inr (leftIndex, sz + s, h)))
              else Inr (idx, sz, h)) (\<lambda>(idx, sz, h).
     bind_ok (isAvail h rightIndex) (\<lambda>right_free.
     bind_ok (if right_free
              then bind_ok (remove_block rightIndex h) (\<lambda>h.
                     bind_ok (size_of h rightIndex) (\<lambda>s. Inr (sz + s, h)))
              else Inr (sz, h)) (\<lambda>(sz, h). makeAvail idx sz h)))))))"

definition free :: "u32 \<Rightarrow> heap \<Rightarrow> heap outcome" where
  "free p h =
     (if p = 0 then Inr h
      else if p = h_base h then Inr h
      else
        let h = h\<lparr>heap_count := heap_count h - 1\<rparr>; idx = block_index h p
        in bind_ok (sanity h idx) (\<lambda>_. bind_ok (isTaken h idx) (\<lambda>taken.
             if \<not> taken then Inl Panic else release_block idx h)))"

definition operator_new :: "u32 \<Rightarrow> heap \<Rightarrow> (u32 \<times> heap) outcome option" where
  "operator_new bytes h =
     Option.bind (malloc bytes h) (\<lambda>r. Some
       (bind_ok r (\<lambda>(p, h). if p = 0 then Inl Panic else Inr (p, h))))"

definition operator_delete :: "u32 \<Rightarrow> heap \<Rightarrow> heap outcome" where
  "operator_delete p h = free p h"

definition operator_new_array :: "u32 \<Rightarrow> heap \<Rightarrow> (u32 \<times> heap) outcome option" where
  "operator_new_array bytes h =
     Option.bind (malloc bytes h) (\<lambda>r. Some
       (bind_ok r (\<lambda>(p, h). if p = 0 then Inl Panic else Inr (p, h))))"

definition operator_delete_array :: "u32 \<Rightarrow> heap \<Rightarrow> heap outcome" where
  "operator_delete_array p h = free p h"

text \<open>
  Initialization: the array before its first allocation, which is that of the lock. \<open>junk\<close> is what
  the memory of the heap holds and \<open>lock_size\<close> the size of the lock object.
\<close>

definition heap_setup :: "u32 \<Rightarrow> u32 \<Rightarrow> (int \<Rightarrow> int) \<Rightarrow> bool \<Rightarrow> heap outcome" where
  "heap_setup base bytes junk safe =
     (let len = uint (bytes div 4);
          h = \<lparr>h_base = base, h_array = junk, h_len = len, h_safe = safe, h_avail = 0, h_lock = 0,
               heap_count = 0\<rparr>
      in bind_ok (makeTaken 0 2 h) (\<lambda>h. bind_ok (makeAvail 2 (len - 4) h) (makeTaken (len - 2) 2)))"

definition heapInit :: "u32 \<Rightarrow> u32 \<Rightarrow> u32 \<Rightarrow> (int \<Rightarrow> int) \<Rightarrow> bool \<Rightarrow> heap outcome option" where
  "heapInit base bytes lock_size junk safe =
     (case heap_setup base bytes junk safe of
        Inl e \<Rightarrow> Some (Inl e)
      | Inr h \<Rightarrow> Option.bind (operator_new lock_size h) (\<lambda>r. Some
          (bind_ok r (\<lambda>(p, h). Inr (h\<lparr>h_lock := p\<rparr>)))))"

section \<open>Blocks of the array\<close>

text \<open>
  The blocks that a list of signed sizes describes, each with its start; the sizes of a heap are
  the ghost state of the proofs.
\<close>

definition tot :: "int list \<Rightarrow> int" where
  "tot bl = (\<Sum>b\<leftarrow>bl. \<bar>b\<bar>)"

fun blocks :: "int \<Rightarrow> int list \<Rightarrow> (int \<times> int) list" where
  "blocks i [] = []"
| "blocks i (b # bl) = (i, b) # blocks (i + \<bar>b\<bar>) bl"

definition frees :: "(int \<times> int) list \<Rightarrow> int set" where
  "frees T = {p. \<exists>b>0. (p, b) \<in> set T}"

text \<open>The tags of the blocks are in place; they lie in the array, apart from each other.\<close>

definition tiled :: "(int \<Rightarrow> int) \<Rightarrow> (int \<times> int) list \<Rightarrow> bool" where
  "tiled a T \<longleftrightarrow> (\<forall>(p, b) \<in> set T. a p = b \<and> a (p + \<bar>b\<bar> - 1) = b)"

definition sized :: "int list \<Rightarrow> bool" where
  "sized bl \<longleftrightarrow> (\<forall>b \<in> set bl. 2 \<le> \<bar>b\<bar> \<and> (0 < b \<longrightarrow> 4 \<le> b))"

definition region :: "(int \<times> int) list \<Rightarrow> int \<Rightarrow> bool" where
  "region T n \<longleftrightarrow>
     (\<forall>p b. (p, b) \<in> set T \<longrightarrow>
        0 \<le> p \<and> p + \<bar>b\<bar> \<le> n \<and> 2 \<le> \<bar>b\<bar> \<and> (0 < b \<longrightarrow> 4 \<le> b \<and> 0 < p))
     \<and> (\<forall>p b q c. (p, b) \<in> set T \<longrightarrow> (q, c) \<in> set T \<longrightarrow>
          (p, b) = (q, c) \<or> p + \<bar>b\<bar> \<le> q \<or> q + \<bar>c\<bar> \<le> p)"

definition keeps_taken :: "(int \<Rightarrow> int) \<Rightarrow> (int \<Rightarrow> int) \<Rightarrow> (int \<times> int) list \<Rightarrow> bool" where
  "keeps_taken a a' T \<longleftrightarrow>
     (\<forall>(p, b) \<in> set T. b < 0 \<longrightarrow> (\<forall>k. p \<le> k \<and> k < p + \<bar>b\<bar> \<longrightarrow> a' k = a k))"

lemma tot_simps [simp]:
  "tot [] = 0" "tot (b # bl) = \<bar>b\<bar> + tot bl" "tot (xs @ ys) = tot xs + tot ys"
  by (simp_all add: tot_def)

lemma tot_nonneg [simp]: "0 \<le> tot bl"
  by (induction bl) simp_all

lemma blocks_append [simp]: "blocks i (xs @ ys) = blocks i xs @ blocks (i + tot xs) ys"
  by (induction xs arbitrary: i) (simp_all add: algebra_simps)

lemma blocks_split: "(p, b) \<in> set (blocks i bl) \<longleftrightarrow> (\<exists>xs ys. bl = xs @ b # ys \<and> p = i + tot xs)"
proof (induction bl arbitrary: i)
  case (Cons c bl)
  have "(\<exists>xs ys. c # bl = xs @ b # ys \<and> p = i + tot xs) \<longleftrightarrow>
    (c = b \<and> p = i) \<or> (\<exists>xs ys. bl = xs @ b # ys \<and> p = i + \<bar>c\<bar> + tot xs)"
  proof
    assume "\<exists>xs ys. c # bl = xs @ b # ys \<and> p = i + tot xs"
    then show "c = b \<and> p = i \<or> (\<exists>xs ys. bl = xs @ b # ys \<and> p = i + \<bar>c\<bar> + tot xs)"
      by (auto simp: Cons_eq_append_conv)
  next
    assume "c = b \<and> p = i \<or> (\<exists>xs ys. bl = xs @ b # ys \<and> p = i + \<bar>c\<bar> + tot xs)"
    then show "\<exists>xs ys. c # bl = xs @ b # ys \<and> p = i + tot xs"
    proof
      assume "c = b \<and> p = i"
      then have "c # bl = [] @ b # bl \<and> p = i + tot []" by simp
      then show ?thesis by blast
    next
      assume "\<exists>xs ys. bl = xs @ b # ys \<and> p = i + \<bar>c\<bar> + tot xs"
      then obtain xs ys where "bl = xs @ b # ys" "p = i + \<bar>c\<bar> + tot xs" by blast
      then have "c # bl = (c # xs) @ b # ys \<and> p = i + tot (c # xs)" by simp
      then show ?thesis by blast
    qed
  qed
  then show ?case using Cons by auto
qed simp

lemma blocks_range: "(p, b) \<in> set (blocks i bl) \<Longrightarrow> i \<le> p \<and> p + \<bar>b\<bar> \<le> i + tot bl \<and> b \<in> set bl"
  by (auto simp: blocks_split)

lemma blocks_apart:
  assumes "sized bl" "(p, b) \<in> set (blocks i bl)" "(q, c) \<in> set (blocks i bl)"
  shows "(p, b) = (q, c) \<or> p + \<bar>b\<bar> \<le> q \<or> q + \<bar>c\<bar> \<le> p"
  using assms
proof (induction bl arbitrary: i)
  case (Cons d bl)
  then show ?case by (auto simp: sized_def dest: blocks_range)
qed simp

lemma regionD:
  assumes "region T n" "(p, b) \<in> set T"
  shows "0 \<le> p" "p + \<bar>b\<bar> \<le> n" "2 \<le> \<bar>b\<bar>" "0 < b \<Longrightarrow> 4 \<le> b" "0 < b \<Longrightarrow> 0 < p"
    "(q, c) \<in> set T \<Longrightarrow> (p, b) = (q, c) \<or> p + \<bar>b\<bar> \<le> q \<or> q + \<bar>c\<bar> \<le> p"
  using assms unfolding region_def by blast+

section \<open>The free list\<close>

text \<open>
  The list from \<open>p\<close>, whose predecessor is \<open>pr\<close>, runs through the blocks \<open>fl\<close> and goes on at \<open>q\<close>;
  \<open>r\<close> is its last block.
\<close>

fun seg :: "(int \<Rightarrow> int) \<Rightarrow> int \<Rightarrow> int \<Rightarrow> int list \<Rightarrow> int \<Rightarrow> int \<Rightarrow> bool" where
  "seg a pr p [] q r \<longleftrightarrow> p = q \<and> pr = r"
| "seg a pr p (x # xs) q r \<longleftrightarrow> p = x \<and> a (x + 2) = pr \<and> seg a x (a (x + 1)) xs q r"

definition linked :: "(int \<Rightarrow> int) \<Rightarrow> int \<Rightarrow> int list \<Rightarrow> bool" where
  "linked a p fl \<longleftrightarrow> (\<exists>r. seg a 0 p fl 0 r)"

definition spaced :: "int list \<Rightarrow> bool" where
  "spaced fl \<longleftrightarrow> distinct fl \<and> (\<forall>x \<in> set fl. 0 < x \<and> (\<forall>y \<in> set fl. x = y \<or> x + 4 \<le> y \<or> y + 4 \<le> x))"

lemma seg_append:
  "seg a pr p (xs @ ys) q r \<longleftrightarrow> (\<exists>m s. seg a pr p xs m s \<and> seg a s m ys q r)"
  by (induction xs arbitrary: pr p) auto

lemma seg_frame:
  "(\<And>x. x \<in> set xs \<Longrightarrow> a' (x + 1) = a (x + 1) \<and> a' (x + 2) = a (x + 2)) \<Longrightarrow>
     seg a' pr p xs q r = seg a pr p xs q r"
  by (induction xs arbitrary: pr p) simp_all

lemma linked_frame:
  "(\<And>x. x \<in> set xs \<Longrightarrow> a' (x + 1) = a (x + 1) \<and> a' (x + 2) = a (x + 2)) \<Longrightarrow>
     linked a' p xs = linked a p xs"
  using seg_frame [of xs a' a] by (simp only: linked_def)

text \<open>What unlinking a block writes, and what pushing one does.\<close>

definition unlink :: "(int \<Rightarrow> int) \<Rightarrow> int \<Rightarrow> int \<Rightarrow> int" where
  "unlink a z = (let pv = a (z + 2); nx = a (z + 1);
      a1 = (if pv = 0 then a else a(pv + 1 := nx))
    in if nx \<noteq> 0 then a1(nx + 2 := pv) else a1)"

definition push_free :: "(int \<Rightarrow> int) \<Rightarrow> int \<Rightarrow> int \<Rightarrow> int \<Rightarrow> int \<Rightarrow> int" where
  "push_free a v i s = (let a1 = a(i := s, i + s - 1 := s, i + 1 := v, i + 2 := 0)
    in if v \<noteq> 0 then a1(v + 2 := i) else a1)"

lemma seg_first: "seg a pr p xs q r \<Longrightarrow> (if xs = [] then q else hd xs) = p"
  by (cases xs) auto

lemma seg_last: "seg a pr p xs q r \<Longrightarrow> (if xs = [] then pr else last xs) = r"
  by (induction xs arbitrary: pr p) auto

lemma unlink_linked:
  assumes "linked a p (xs @ z # ys)" "spaced (xs @ z # ys)"
  shows "linked (unlink a z) (if a (z + 2) = 0 then a (z + 1) else p) (xs @ ys)"
proof -
  obtain s r where s: "seg a 0 p xs z s" "a (z + 2) = s" "seg a z (a (z + 1)) ys 0 r"
    using assms(1) by (auto simp: linked_def seg_append)
  let ?nx = "a (z + 1)" and ?a = "unlink a z"
  have pos: "\<forall>x \<in> set (xs @ z # ys). 0 < x" using assms(2) by (simp add: spaced_def)
  have nx: "?nx = (if ys = [] then 0 else hd ys)" using seg_first [OF s(3)] by simp
  have sv: "s = (if xs = [] then 0 else last xs)" using seg_last [OF s(1)] by simp
  have gap: "x = y \<or> x + 4 \<le> y \<or> y + 4 \<le> x" if "x \<in> set (xs @ z # ys)" "y \<in> set (xs @ z # ys)" for x y
    using assms(2) that by (auto simp: spaced_def)
  have val: "?a k = (if ?nx \<noteq> 0 \<and> k = ?nx + 2 then s else if s \<noteq> 0 \<and> k = s + 1 then ?nx else a k)" for k
    using s(2) by (simp add: unlink_def Let_def)
  have nx_in: "?nx \<noteq> 0 \<Longrightarrow> ?nx \<in> set (xs @ z # ys)" and s_in: "s \<noteq> 0 \<Longrightarrow> s \<in> set (xs @ z # ys)"
    using nx sv by (auto split: if_splits)
  have u1: "?a (w + 1) = (if s \<noteq> 0 \<and> w = s then ?nx else a (w + 1))" if "w \<in> set (xs @ z # ys)" for w
    using gap [OF that nx_in] by (cases "?nx = 0") (auto simp: val)
  have u2: "?a (w + 2) = (if ?nx \<noteq> 0 \<and> w = ?nx then s else a (w + 2))" if "w \<in> set (xs @ z # ys)" for w
    using gap [OF that s_in] by (cases "s = 0") (auto simp: val)
  have dist: "distinct (xs @ z # ys)" using assms(2) by (simp add: spaced_def)
  have left: "seg ?a 0 (if s = 0 then ?nx else p) xs ?nx s"
  proof (cases xs rule: rev_cases)
    case Nil
    then show ?thesis using s sv by simp
  next
    case (snoc xs' x)
    have x: "s = x" "x \<noteq> 0" using sv snoc pos by auto
    have nxy: "w \<noteq> ?nx" if "w \<in> set xs" "?nx \<noteq> 0" for w
      using that nx dist by (cases ys) auto
    have f: "?a (y + 1) = a (y + 1) \<and> ?a (y + 2) = a (y + 2)" if "y \<in> set xs'" for y
      using that u1 [of y] u2 [of y] nxy [of y] snoc x dist by auto
    have "seg a 0 p xs' x (a (x + 2))" using s(1) snoc by (auto simp: seg_append)
    then have "seg ?a 0 p xs' x (a (x + 2))" using seg_frame [of xs' ?a a] f by (simp only:)
    moreover have "?a (x + 1) = ?nx" "?a (x + 2) = a (x + 2)"
      using u1 [of x] u2 [of x] nxy [of x] snoc x by auto
    ultimately show ?thesis using snoc x by (simp add: seg_append)
  qed
  have right: "\<exists>r. seg ?a s ?nx ys 0 r"
  proof (cases ys)
    case Nil
    then show ?thesis using s(3) by auto
  next
    case (Cons y ys')
    have y: "?nx = y" "y \<noteq> 0" using nx Cons pos by auto
    have sy: "w \<noteq> s" if "w \<in> set ys" "s \<noteq> 0" for w
      using that sv dist by (cases xs rule: rev_cases) auto
    have f: "?a (w + 1) = a (w + 1) \<and> ?a (w + 2) = a (w + 2)" if "w \<in> set ys'" for w
      using that u1 [of w] u2 [of w] sy [of w] Cons y dist by auto
    have "seg a y (a (y + 1)) ys' 0 r" using s(3) Cons by simp
    then have "seg ?a y (a (y + 1)) ys' 0 r" using seg_frame [of ys' ?a a] f by (simp only:)
    moreover have "?a (y + 1) = a (y + 1)" "?a (y + 2) = s"
      using u1 [of y] u2 [of y] sy [of y] Cons y by auto
    ultimately show ?thesis using Cons y by auto
  qed
  from left right obtain r' where "seg ?a 0 (if s = 0 then ?nx else p) (xs @ ys) 0 r'"
    unfolding seg_append by blast
  then show ?thesis using s(2) by (auto simp: linked_def)
qed

section \<open>The operations on blocks\<close>

lemma hget_ok [simp]: "0 \<le> i \<Longrightarrow> i < h_len h \<Longrightarrow> hget h i = Inr (h_array h i)"
  by (simp add: hget_def)

lemma hset_ok [simp]: "0 \<le> i \<Longrightarrow> i < h_len h \<Longrightarrow> hset i v h = Inr (h\<lparr>h_array := (h_array h)(i := v)\<rparr>)"
  by (simp add: hset_def)

lemma size_of_ok [simp]: "0 \<le> i \<Longrightarrow> i < h_len h \<Longrightarrow> size_of h i = Inr \<bar>h_array h i\<bar>"
  by (simp add: size_of_def abs_if)

lemma tiledD: "tiled a T \<Longrightarrow> (p, b) \<in> set T \<Longrightarrow> a p = b \<and> a (p + \<bar>b\<bar> - 1) = b"
  by (auto simp: tiled_def)

lemma sanity_block:
  assumes "region T (h_len h)" "tiled (h_array h) T" "(p, b) \<in> set T"
  shows "sanity h p = Inr p"
  using tiledD [OF assms(2,3)] regionD(1-3) [OF assms(1,3)]
  by (auto simp: sanity_def footerFromHeader_def)

lemma sanity_zero: "sanity h 0 = Inr 0"
  by (simp add: sanity_def)

lemma remove_block_eq:
  assumes "\<And>x. x \<in> {z, h_array h (z + 1), h_array h (z + 2)} \<Longrightarrow>
      sanity h x = Inr x \<and> (x \<noteq> 0 \<longrightarrow> 0 < x \<and> x + 2 < h_len h)"
    and "z \<noteq> 0"
  shows "remove_block z h = Inr (h\<lparr>h_array := unlink (h_array h) z,
    h_avail := if h_array h (z + 2) = 0 then h_array h (z + 1) else h_avail h\<rparr>)"
  using assms(1) [of z] assms(1) [of "h_array h (z + 1)"] assms(1) [of "h_array h (z + 2)"] assms(2)
  by (auto simp: remove_block_def prev_of_def next_of_def setNext_def setPrev_def unlink_def Let_def)

lemma makeAvail_eq:
  assumes "0 \<le> i" "4 \<le> s" "i + s \<le> h_len h" "h_avail h \<noteq> 0 \<longrightarrow> 0 < h_avail h \<and> h_avail h + 2 < h_len h"
  shows "makeAvail i s h = Inr (h\<lparr>h_array := push_free (h_array h) (h_avail h) i s, h_avail := i\<rparr>)"
  using assms
  by (auto simp: makeAvail_def footerFromHeader_def setNext_def setPrev_def push_free_def Let_def)

lemma makeTaken_eq:
  assumes "0 \<le> i" "2 \<le> s" "i + s \<le> h_len h"
  shows "makeTaken i s h = Inr (h\<lparr>h_array := (h_array h)(i := - s, i + s - 1 := - s)\<rparr>)"
  using assms by (auto simp: makeTaken_def footerFromHeader_def)

text \<open>Writing link words of free blocks keeps the tags and the taken blocks.\<close>

lemma links_keep:
  assumes "region T n" "tiled a T"
    and "\<And>k. a' k \<noteq> a k \<Longrightarrow> \<exists>x \<in> frees T. k = x + 1 \<or> k = x + 2"
  shows "tiled a' T" "keeps_taken a a' T"
proof -
  have off: "a' k = a k" if "(p, b) \<in> set T" "k = p \<or> k = p + \<bar>b\<bar> - 1 \<or> (b < 0 \<and> p \<le> k \<and> k < p + \<bar>b\<bar>)" for p b k
  proof (rule ccontr)
    assume "a' k \<noteq> a k"
    then obtain x c where x: "0 < c" "(x, c) \<in> set T" "k = x + 1 \<or> k = x + 2"
      using assms(3) [of k] unfolding frees_def by blast
    show False
      using regionD(3) [OF assms(1) that(1)] regionD(4) [OF assms(1) x(2) x(1)]
        regionD(6) [OF assms(1) that(1) x(2)] that(2) x(1,3) by auto
  qed
  have "a' p = b \<and> a' (p + \<bar>b\<bar> - 1) = b" if "(p, b) \<in> set T" for p b
    using off [OF that, of p] off [OF that, of "p + \<bar>b\<bar> - 1"] tiledD [OF assms(2) that] by simp
  then show "tiled a' T" by (auto simp: tiled_def)
  show "keeps_taken a a' T" using off by (auto simp: keeps_taken_def)
qed

lemma frees_spaced:
  assumes "region T n" "distinct fl" "set fl = frees T"
  shows "spaced fl"
proof -
  have "0 < x \<and> (x = y \<or> x + 4 \<le> y \<or> y + 4 \<le> x)" if xy: "x \<in> frees T" "y \<in> frees T" for x y
  proof -
    obtain b c where "0 < b" "(x, b) \<in> set T" "0 < c" "(y, c) \<in> set T"
      using xy by (auto simp: frees_def)
    then show ?thesis
      using regionD(4,5) [OF assms(1)] regionD(6) [OF assms(1), of x b y c] by fastforce
  qed
  then show ?thesis using assms(2,3) by (auto simp: spaced_def)
qed

lemma linked_links:
  assumes "linked a p (xs @ z # ys)"
  shows "a (z + 2) \<in> insert 0 (set xs)" "a (z + 1) \<in> insert 0 (set ys)"
proof -
  obtain s r where "seg a 0 p xs z s" "a (z + 2) = s" "seg a z (a (z + 1)) ys 0 r"
    using assms by (auto simp: linked_def seg_append)
  then show "a (z + 2) \<in> insert 0 (set xs)" "a (z + 1) \<in> insert 0 (set ys)"
    using seg_last [of a 0 p xs z s] seg_first [of a z "a (z + 1)" ys 0 r]
    by (metis insertCI last_in_set) (metis \<open>seg a z (a (z + 1)) ys 0 r\<close> insertCI hd_in_set seg_first)
qed

lemma linked_head: "linked a p fl \<Longrightarrow> p \<in> insert 0 (set fl)"
  by (cases fl) (auto simp: linked_def)

text \<open>Taking a block off the free list.\<close>

lemma remove_ok:
  assumes "region T (h_len h)" "tiled (h_array h) T" "linked (h_array h) (h_avail h) fl"
    and "distinct fl" "set fl = frees T" "z \<in> set fl"
  shows "\<exists>a v. remove_block z h = Inr (h\<lparr>h_array := a, h_avail := v\<rparr>) \<and> tiled a T
    \<and> linked a v (remove1 z fl) \<and> keeps_taken (h_array h) a T"
proof -
  let ?a = "h_array h"
  obtain xs ys where fl: "fl = xs @ z # ys" using assms(6) by (meson split_list)
  have in_fl: "0 < x \<and> x + 2 < h_len h \<and> sanity h x = Inr x" if x: "x \<in> set fl" for x
  proof -
    obtain b where "0 < b" "(x, b) \<in> set T" using x assms(5) by (auto simp: frees_def)
    then show ?thesis using sanity_block [OF assms(1,2)] regionD(2,4,5) [OF assms(1)] by fastforce
  qed
  note links = linked_links [OF assms(3) [unfolded fl]]
  have eq: "remove_block z h = Inr (h\<lparr>h_array := unlink ?a z,
      h_avail := if ?a (z + 2) = 0 then ?a (z + 1) else h_avail h\<rparr>)"
    using in_fl links assms(6) unfolding fl
    by (intro remove_block_eq) (auto simp: sanity_zero)
  have lk: "linked (unlink ?a z) (if ?a (z + 2) = 0 then ?a (z + 1) else h_avail h) (remove1 z fl)"
    using unlink_linked [OF assms(3) [unfolded fl]] frees_spaced [OF assms(1,4,5)] assms(4) fl
    by (simp add: remove1_append)
  have "\<exists>x \<in> frees T. k = x + 1 \<or> k = x + 2" if "unlink ?a z k \<noteq> ?a k" for k
    using that links assms(5) fl by (auto simp: unlink_def Let_def split: if_splits)
  from links_keep [OF assms(1,2) this] eq lk show ?thesis by blast
qed

section \<open>Opening and closing a hole\<close>

text \<open>
  While an operation works on a stretch of \<open>s\<close> ints, everything else is in order: the blocks \<open>xs\<close>
  before the stretch and \<open>ys\<close> after it are tiled and the free list \<open>fl\<close> runs through their free
  ones.
\<close>

definition outside :: "int list \<Rightarrow> int \<Rightarrow> int list \<Rightarrow> (int \<times> int) list" where
  "outside xs s ys = blocks 0 xs @ blocks (tot xs + s) ys"

definition hole :: "heap \<Rightarrow> int list \<Rightarrow> int \<Rightarrow> int list \<Rightarrow> int list \<Rightarrow> bool" where
  "hole h xs s ys fl \<longleftrightarrow> sized xs \<and> sized ys \<and> xs \<noteq> [] \<and> hd xs < 0 \<and> 0 \<le> s
     \<and> tot xs + s + tot ys = h_len h \<and> tiled (h_array h) (outside xs s ys)
     \<and> linked (h_array h) (h_avail h) fl \<and> distinct fl \<and> set fl = frees (outside xs s ys)"

lemma sized_simps [simp]:
  "sized []" "sized (b # bl) \<longleftrightarrow> 2 \<le> \<bar>b\<bar> \<and> (0 < b \<longrightarrow> 4 \<le> b) \<and> sized bl"
  "sized (xs @ ys) \<longleftrightarrow> sized xs \<and> sized ys"
  by (auto simp: sized_def)

lemma frees_simps [simp]:
  "frees [] = {}" "frees ((p, b) # T) = (if 0 < b then insert p (frees T) else frees T)"
  "frees (T @ U) = frees T \<union> frees U"
  by (auto simp: frees_def)

lemma tiled_simps [simp]:
  "tiled a []" "tiled a ((p, b) # T) \<longleftrightarrow> a p = b \<and> a (p + \<bar>b\<bar> - 1) = b \<and> tiled a T"
  "tiled a (T @ U) \<longleftrightarrow> tiled a T \<and> tiled a U"
  by (simp_all add: tiled_def ball_Un)

lemma outside_append:
  "outside (xs @ [b]) s ys = blocks 0 xs @ (tot xs, b) # blocks (tot xs + \<bar>b\<bar> + s) ys"
  "outside xs s (b # ys) = blocks 0 xs @ (tot xs + s, b) # blocks (tot xs + s + \<bar>b\<bar>) ys"
  by (simp_all add: outside_def)

lemma first_taken: "xs \<noteq> [] \<Longrightarrow> hd xs < 0 \<Longrightarrow> sized xs \<Longrightarrow> (p, b) \<in> set (blocks 0 xs) \<Longrightarrow> 0 < b \<Longrightarrow> 0 < p"
  by (cases xs) (auto dest: blocks_range)

lemma tot_pos:
  assumes "sized xs" "xs \<noteq> []"
  shows "0 < tot xs"
proof (cases xs)
  case (Cons x xs')
  have "2 \<le> \<bar>x\<bar>" "0 \<le> tot xs'" using assms(1) Cons by simp_all
  then show ?thesis unfolding Cons tot_simps by linarith
qed (use assms in simp)

lemma outside_region:
  assumes "sized xs" "sized ys" "xs \<noteq> []" "hd xs < 0" "0 \<le> s"
  shows "region (outside xs s ys) (tot xs + s + tot ys)"
proof -
  have pos: "0 < tot xs" using tot_pos [OF assms(1,3)] .
  have one: "0 \<le> p \<and> p + \<bar>b\<bar> \<le> tot xs + s + tot ys \<and> 2 \<le> \<bar>b\<bar> \<and> (0 < b \<longrightarrow> 4 \<le> b \<and> 0 < p)"
    if "(p, b) \<in> set (outside xs s ys)" for p b
  proof (cases "(p, b) \<in> set (blocks 0 xs)")
    case True
    have b: "2 \<le> \<bar>b\<bar> \<and> (0 < b \<longrightarrow> 4 \<le> b)" using blocks_range [OF True] assms(1) by (simp add: sized_def)
    have "0 \<le> tot ys" by simp
    with blocks_range [OF True] first_taken [OF assms(3,4,1) True] assms(5) b show ?thesis by linarith
  next
    case False
    then have "(p, b) \<in> set (blocks (tot xs + s) ys)" using that by (simp add: outside_def)
    note ran = blocks_range [OF this]
    then have "2 \<le> \<bar>b\<bar> \<and> (0 < b \<longrightarrow> 4 \<le> b)" using assms(2) by (simp add: sized_def)
    with ran pos assms(5) show ?thesis by linarith
  qed
  have two: "(p, b) = (q, c) \<or> p + \<bar>b\<bar> \<le> q \<or> q + \<bar>c\<bar> \<le> p"
    if "(p, b) \<in> set (outside xs s ys)" "(q, c) \<in> set (outside xs s ys)" for p b q c
    using that assms(5) blocks_apart [OF assms(1), of p b 0 q c]
      blocks_apart [OF assms(2), of p b "tot xs + s" q c]
      blocks_range [of p b 0 xs] blocks_range [of q c 0 xs]
      blocks_range [of p b "tot xs + s" ys] blocks_range [of q c "tot xs + s" ys]
    unfolding outside_def set_append Un_iff by linarith
  show ?thesis using one two unfolding region_def by blast
qed

lemma hole_region: "hole h xs s ys fl \<Longrightarrow> region (outside xs s ys) (h_len h)"
  using outside_region [of xs ys s] by (simp add: hole_def)

lemma hole_shift:
  assumes "xs \<noteq> []"
  shows "hole h (xs @ ys) 0 [] fl \<longleftrightarrow> hole h xs 0 ys fl"
  using assms by (auto simp: hole_def outside_def)

lemma hole_taken:
  assumes "hole h xs 0 (b # ys) fl" "b < 0"
  shows "hole h xs \<bar>b\<bar> ys fl"
  using assms by (auto simp: hole_def outside_def)

text \<open>Outside the hole nothing depends on what it holds.\<close>

lemma outside_apart:
  assumes "0 \<le> s" "(p, b) \<in> set (outside xs s ys)"
  shows "p + \<bar>b\<bar> \<le> tot xs \<or> tot xs + s \<le> p"
  using assms by (auto simp: outside_def dest: blocks_range)

lemma inside_keep:
  assumes "hole h xs s ys fl" "\<And>k. a k \<noteq> h_array h k \<Longrightarrow> tot xs \<le> k \<and> k < tot xs + s"
  shows "tiled a (outside xs s ys)" "linked a (h_avail h) fl" "keeps_taken (h_array h) a (outside xs s ys)"
proof -
  let ?T = "outside xs s ys"
  have reg: "region ?T (h_len h)" using hole_region [OF assms(1)] .
  have s: "0 \<le> s" "tiled (h_array h) ?T" "set fl = frees ?T" using assms(1) by (auto simp: hole_def)
  have off: "a k = h_array h k" if "(p, b) \<in> set ?T" "p \<le> k" "k < p + \<bar>b\<bar>" for p b k
    using outside_apart [OF s(1) that(1)] assms(2) [of k] that(2,3) by linarith
  have "a p = b \<and> a (p + \<bar>b\<bar> - 1) = b" if "(p, b) \<in> set ?T" for p b
    using off [OF that, of p] off [OF that, of "p + \<bar>b\<bar> - 1"] regionD(3) [OF reg that]
      tiledD [OF s(2) that] by linarith
  then show "tiled a ?T" by (auto simp: tiled_def)
  have "a (x + 1) = h_array h (x + 1) \<and> a (x + 2) = h_array h (x + 2)" if x: "x \<in> set fl" for x
  proof -
    obtain b where b: "0 < b" "(x, b) \<in> set ?T" using x s(3) by (auto simp: frees_def)
    then show ?thesis using off [OF b(2), of "x + 1"] off [OF b(2), of "x + 2"] regionD(4) [OF reg b(2,1)] by simp
  qed
  then show "linked a (h_avail h) fl"
    using linked_frame [of fl a "h_array h"] assms(1) by (simp only: hole_def)
  show "keeps_taken (h_array h) a ?T" using off by (auto simp: keeps_taken_def)
qed

text \<open>Growing the hole over a free block on either side, shrinking it by a taken one, closing it.\<close>

lemma hole_extend_right:
  assumes "hole h xs s (r # ys) fl" "0 < r"
  shows "\<exists>a v. remove_block (tot xs + s) h = Inr (h\<lparr>h_array := a, h_avail := v\<rparr>)
    \<and> hole (h\<lparr>h_array := a, h_avail := v\<rparr>) xs (s + r) ys (remove1 (tot xs + s) fl)
    \<and> a (tot xs + s) = r \<and> keeps_taken (h_array h) a (outside xs (s + r) ys)"
proof -
  let ?z = "tot xs + s"
  have hl: "sized xs" "sized (r # ys)" "xs \<noteq> []" "hd xs < 0" "0 \<le> s" "tot xs + s + tot (r # ys) = h_len h"
    "tiled (h_array h) (outside xs s (r # ys))" "linked (h_array h) (h_avail h) fl" "distinct fl"
    "set fl = frees (outside xs s (r # ys))"
    using assms(1) by (simp_all add: hole_def)
  have z: "?z \<in> set fl" using hl(10) assms(2) by (simp add: outside_append)
  obtain a v where av: "remove_block ?z h = Inr (h\<lparr>h_array := a, h_avail := v\<rparr>)"
    "tiled a (outside xs s (r # ys))" "linked a v (remove1 ?z fl)"
    "keeps_taken (h_array h) a (outside xs s (r # ys))"
    using remove_ok [OF hole_region [OF assms(1)] hl(7-10) z] by blast
  have sub: "outside xs s (r # ys) = blocks 0 xs @ (?z, r) # blocks (tot xs + (s + r)) ys"
    using assms(2) by (simp add: outside_append add.assoc)
  have "?z \<notin> frees (outside xs (s + r) ys)"
    using outside_apart [of "s + r" ?z _ xs ys] hl(2,5) assms(2)
      regionD(3) [OF outside_region [OF hl(1) _ hl(3,4), of ys "s + r"]]
    by (fastforce simp: frees_def)
  then have fr: "set (remove1 ?z fl) = frees (outside xs (s + r) ys)"
    using hl(9,10) assms(2) unfolding sub by (auto simp: outside_def)
  have "tiled a (outside xs (s + r) ys)" "a ?z = r" using av(2) unfolding sub by (simp_all add: outside_def)
  moreover have "keeps_taken (h_array h) a (outside xs (s + r) ys)"
    using av(4) unfolding sub by (auto simp: keeps_taken_def outside_def)
  ultimately show ?thesis using av hl fr assms(2) by (intro exI [of _ a] exI [of _ v]) (simp add: hole_def)
qed

lemma hole_extend_left:
  assumes "hole h (xs @ [l]) s ys fl" "0 < l" "xs \<noteq> []"
  shows "\<exists>a v. remove_block (tot xs) h = Inr (h\<lparr>h_array := a, h_avail := v\<rparr>)
    \<and> hole (h\<lparr>h_array := a, h_avail := v\<rparr>) xs (l + s) ys (remove1 (tot xs) fl)
    \<and> a (tot xs) = l \<and> keeps_taken (h_array h) a (outside xs (l + s) ys)"
proof -
  let ?z = "tot xs"
  have hl: "sized (xs @ [l])" "sized ys" "hd xs < 0" "0 \<le> s" "tot (xs @ [l]) + s + tot ys = h_len h"
    "tiled (h_array h) (outside (xs @ [l]) s ys)" "linked (h_array h) (h_avail h) fl" "distinct fl"
    "set fl = frees (outside (xs @ [l]) s ys)"
    using assms(1,3) by (simp_all add: hole_def)
  have z: "?z \<in> set fl" using hl(9) assms(2) by (simp add: outside_append)
  obtain a v where av: "remove_block ?z h = Inr (h\<lparr>h_array := a, h_avail := v\<rparr>)"
    "tiled a (outside (xs @ [l]) s ys)" "linked a v (remove1 ?z fl)"
    "keeps_taken (h_array h) a (outside (xs @ [l]) s ys)"
    using remove_ok [OF hole_region [OF assms(1)] hl(6-9) z] by blast
  have sub: "outside (xs @ [l]) s ys = blocks 0 xs @ (?z, l) # blocks (tot xs + (l + s)) ys"
    using assms(2) by (simp add: outside_append add.assoc)
  have "?z \<notin> frees (outside xs (l + s) ys)"
    using outside_apart [of "l + s" ?z _ xs ys] hl(1,4) assms(2,3)
      regionD(3) [OF outside_region [of xs ys "l + s"]] hl(2,3)
    by (fastforce simp: frees_def)
  then have fr: "set (remove1 ?z fl) = frees (outside xs (l + s) ys)"
    using hl(8,9) assms(2) unfolding sub by (auto simp: outside_def)
  have "tiled a (outside xs (l + s) ys)" "a ?z = l" using av(2) unfolding sub by (simp_all add: outside_def)
  moreover have "keeps_taken (h_array h) a (outside xs (l + s) ys)"
    using av(4) unfolding sub by (auto simp: keeps_taken_def outside_def)
  ultimately show ?thesis using av hl fr assms(2,3) by (intro exI [of _ a] exI [of _ v]) (simp add: hole_def)
qed

lemma hole_take:
  assumes "hole h xs (s1 + s2) ys fl" "2 \<le> s1" "0 \<le> s2"
  defines "a \<equiv> (h_array h)(tot xs := - s1, tot xs + s1 - 1 := - s1)"
  shows "makeTaken (tot xs) s1 h = Inr (h\<lparr>h_array := a\<rparr>)"
    "hole (h\<lparr>h_array := a\<rparr>) (xs @ [- s1]) s2 ys fl"
    "keeps_taken (h_array h) a (outside xs (s1 + s2) ys)"
proof -
  have hl: "sized xs" "sized ys" "xs \<noteq> []" "hd xs < 0" "tot xs + (s1 + s2) + tot ys = h_len h"
    "distinct fl" "set fl = frees (outside xs (s1 + s2) ys)"
    using assms(1) by (simp_all add: hole_def)
  have "0 \<le> tot ys" "0 \<le> tot xs" by simp_all
  then show "makeTaken (tot xs) s1 h = Inr (h\<lparr>h_array := a\<rparr>)"
    unfolding a_def using hl(5) assms(2,3) by (intro makeTaken_eq) linarith+
  have "tot xs \<le> k \<and> k < tot xs + (s1 + s2)" if "a k \<noteq> h_array h k" for k
    using that assms(2,3) by (auto simp: a_def split: if_splits)
  note keep = inside_keep [OF assms(1) this]
  have sub: "outside (xs @ [- s1]) s2 ys = blocks 0 xs @ (tot xs, - s1) # blocks (tot xs + (s1 + s2)) ys"
    using assms(2) by (simp add: outside_append add.assoc)
  have "a (tot xs) = - s1" "a (tot xs + \<bar>- s1\<bar> - 1) = - s1" using assms(2) by (simp_all add: a_def)
  with keep(1) have "tiled a (outside (xs @ [- s1]) s2 ys)" unfolding sub by (simp add: outside_def)
  moreover have "frees (outside (xs @ [- s1]) s2 ys) = frees (outside xs (s1 + s2) ys)"
    unfolding sub using assms(2) by (simp add: outside_def)
  ultimately show "hole (h\<lparr>h_array := a\<rparr>) (xs @ [- s1]) s2 ys fl"
    using keep(2) hl assms(2,3) by (simp add: hole_def)
  show "keeps_taken (h_array h) a (outside xs (s1 + s2) ys)" by (rule keep(3))
qed

lemma push_free_linked:
  assumes "linked a v fl" "spaced (i # fl)" "4 \<le> s"
    and "\<And>x. x \<in> set fl \<Longrightarrow> x + 4 \<le> i \<or> i + s \<le> x"
  shows "linked (push_free a v i s) i (i # fl)"
proof -
  let ?a = "push_free a v i s"
  have val: "?a k = (if v \<noteq> 0 \<and> k = v + 2 then i else if k = i + 2 then 0 else if k = i + 1 then v
      else if k = i \<or> k = i + s - 1 then s else a k)" for k
    using assms(3) by (simp add: push_free_def Let_def)
  have v: "v \<in> insert 0 (set fl)" using linked_head [OF assms(1)] .
  have i: "?a (i + 1) = v" "?a (i + 2) = 0"
    using v assms(3) assms(4) [of v] unfolding val by auto
  have off: "?a (x + 1) = a (x + 1) \<and> (x \<noteq> v \<longrightarrow> ?a (x + 2) = a (x + 2))" if "x \<in> set fl" for x
  proof -
    have gap: "v \<noteq> 0 \<Longrightarrow> x = v \<or> x + 4 \<le> v \<or> v + 4 \<le> x"
      using v that assms(2) unfolding spaced_def by auto
    have "x + 1 \<noteq> i + 2 \<and> x + 1 \<noteq> i + 1 \<and> x + 1 \<noteq> i \<and> x + 1 \<noteq> i + s - 1
        \<and> x + 2 \<noteq> i + 2 \<and> x + 2 \<noteq> i + 1 \<and> x + 2 \<noteq> i \<and> x + 2 \<noteq> i + s - 1"
      using assms(4) [OF that] assms(3) by linarith
    moreover have "v \<noteq> 0 \<Longrightarrow> x + 1 \<noteq> v + 2" "v \<noteq> 0 \<Longrightarrow> x \<noteq> v \<Longrightarrow> x + 2 \<noteq> v + 2" using gap by auto
    ultimately show ?thesis unfolding val by auto
  qed
  show ?thesis
  proof (cases fl)
    case Nil
    then show ?thesis using assms(1) i by (auto simp: linked_def)
  next
    case (Cons y ys)
    then have y: "v = y" "y \<noteq> 0" "y \<notin> set ys" using assms(1,2) by (auto simp: linked_def spaced_def)
    obtain r where r: "seg a y (a (y + 1)) ys 0 r" using assms(1) Cons by (auto simp: linked_def)
    have "?a (x + 1) = a (x + 1) \<and> ?a (x + 2) = a (x + 2)" if "x \<in> set ys" for x
      using off [of x] that Cons y by auto
    with r have "seg ?a y (a (y + 1)) ys 0 r" using seg_frame [of ys ?a a] by (simp only:)
    moreover have "?a (y + 2) = i" "?a (y + 1) = a (y + 1)"
      using val [of "y + 2"] off [of y] y Cons by simp_all
    ultimately show ?thesis using i y Cons by (auto simp: linked_def)
  qed
qed

lemma hole_free:
  assumes "hole h xs s ys fl" "4 \<le> s"
  defines "a \<equiv> push_free (h_array h) (h_avail h) (tot xs) s"
  shows "makeAvail (tot xs) s h = Inr (h\<lparr>h_array := a, h_avail := tot xs\<rparr>)"
    "hole (h\<lparr>h_array := a, h_avail := tot xs\<rparr>) (xs @ [s]) 0 ys (tot xs # fl)"
    "keeps_taken (h_array h) a (outside xs s ys)"
proof -
  let ?T = "outside xs s ys" and ?i = "tot xs" and ?v = "h_avail h"
  have hl: "sized xs" "sized ys" "xs \<noteq> []" "hd xs < 0" "?i + s + tot ys = h_len h"
    "tiled (h_array h) ?T" "linked (h_array h) ?v fl" "distinct fl" "set fl = frees ?T"
    using assms(1) by (simp_all add: hole_def)
  have reg: "region ?T (h_len h)" using hole_region [OF assms(1)] .
  have far: "x + 4 \<le> ?i \<or> ?i + s \<le> x" "0 < x" "x + 4 \<le> h_len h" if x: "x \<in> set fl" for x
  proof -
    obtain b where b: "0 < b" "(x, b) \<in> set ?T" using x hl(9) by (auto simp: frees_def)
    show "x + 4 \<le> ?i \<or> ?i + s \<le> x" "0 < x" "x + 4 \<le> h_len h"
      using outside_apart [OF _ b(2)] regionD(2,4,5) [OF reg b(2)] b(1) assms(2) by auto
  qed
  have pos: "0 < ?i" using tot_pos [OF hl(1,3)] .
  have v: "?v \<in> insert 0 (set fl)" using linked_head [OF hl(7)] .
  have "?i + s \<le> h_len h" using hl(5) tot_nonneg [of ys] by linarith
  then show "makeAvail ?i s h = Inr (h\<lparr>h_array := a, h_avail := ?i\<rparr>)"
    unfolding a_def using assms(2) v far(2,3) [of ?v] pos by (intro makeAvail_eq) auto
  have sp: "spaced (?i # fl)"
    using frees_spaced [OF reg hl(8,9)] far(1) pos assms(2) by (fastforce simp: spaced_def)
  have lk: "linked a ?i (?i # fl)"
    unfolding a_def using push_free_linked [OF hl(7) sp assms(2)] far(1) by blast
  let ?a1 = "(h_array h)(?i := s, ?i + s - 1 := s, ?i + 1 := ?v, ?i + 2 := 0)"
  have "?i \<le> k \<and> k < ?i + s" if "?a1 k \<noteq> h_array h k" for k
    using that assms(2) by (auto split: if_splits)
  note k1 = inside_keep [OF assms(1) this]
  have "\<exists>x \<in> frees ?T. k = x + 1 \<or> k = x + 2" if "a k \<noteq> ?a1 k" for k
    using that v hl(9) by (auto simp: a_def push_free_def Let_def split: if_splits)
  note k2 = links_keep [OF reg k1(1) this]
  have ai: "a ?i = s" "a (?i + s - 1) = s"
    using v far(1) [of ?v] assms(2) by (auto simp: a_def push_free_def Let_def)
  have sub: "outside (xs @ [s]) 0 ys = blocks 0 xs @ (?i, s) # blocks (?i + s) ys"
    using assms(2) by (simp add: outside_append)
  have "tiled a (outside (xs @ [s]) 0 ys)" using k2(1) ai assms(2) unfolding sub by (simp add: outside_def)
  moreover have "set (?i # fl) = frees (outside (xs @ [s]) 0 ys)"
    using hl(9) assms(2) unfolding sub by (auto simp: outside_def)
  ultimately show "hole (h\<lparr>h_array := a, h_avail := ?i\<rparr>) (xs @ [s]) 0 ys (?i # fl)"
    using hl lk sp assms(2) by (simp add: hole_def spaced_def)
  show "keeps_taken (h_array h) a ?T" using k1(3) k2(2) by (fastforce simp: keeps_taken_def)
qed

section \<open>The invariant of the heap\<close>

text \<open>
  The heap consists of a taken sentinel of two ints at either end and the blocks \<open>mid\<close> between them,
  each of at least four ints; no two neighbouring blocks are free. The allocated blocks are those
  that are taken, with their starts and sizes.
\<close>

abbreviation not_both_free :: "int \<Rightarrow> int \<Rightarrow> bool" where
  "not_both_free x y \<equiv> \<not> (0 < x \<and> 0 < y)"

definition allocated :: "(int \<times> int) list \<Rightarrow> (int \<times> int) set" where
  "allocated T = {(p, - b) |p b. (p, b) \<in> set T \<and> b < 0}"

definition heap_mid :: "heap \<Rightarrow> int list \<Rightarrow> int list \<Rightarrow> bool" where
  "heap_mid h mid fl \<longleftrightarrow> hole h (-2 # mid @ [-2]) 0 [] fl \<and> (\<forall>b \<in> set mid. 4 \<le> \<bar>b\<bar>)
     \<and> successively not_both_free mid"

definition heap_fits :: "heap \<Rightarrow> bool" where
  "heap_fits h \<longleftrightarrow> 8 \<le> h_len h \<and> 0 < uint (h_base h) \<and> uint (h_base h) + 4 * h_len h \<le> 2 ^ 32 \<and> h_len h < 2 ^ 30"

definition heap_inv :: "heap \<Rightarrow> (int \<times> int) set \<Rightarrow> bool" where
  "heap_inv h live \<longleftrightarrow> heap_fits h \<and> (\<exists>mid fl. heap_mid h mid fl \<and> live = allocated (blocks 2 mid))"

lemma allocated_simps [simp]:
  "allocated [] = {}" "allocated ((p, b) # T) = (if b < 0 then insert (p, - b) (allocated T) else allocated T)"
  "allocated (T @ U) = allocated T \<union> allocated U"
  by (auto simp: allocated_def)

lemma hole_split:
  "hole h (-2 # m1 @ b # m2 @ [-2]) 0 [] fl \<longleftrightarrow> hole h (-2 # m1) 0 (b # m2 @ [-2]) fl"
  using hole_shift [of "-2 # m1" h "b # m2 @ [-2]" fl] by simp

lemma outside_nil: "outside xs 0 [] = blocks 0 xs"
  by (simp add: outside_def)

text \<open>What the invariant gives for a block of the heap and for the free list.\<close>

lemma heap_mid_region: "heap_mid h mid fl \<Longrightarrow> region (blocks 0 (-2 # mid @ [-2])) (h_len h)"
  using hole_region [of h "-2 # mid @ [-2]" 0 "[]" fl] by (simp add: heap_mid_def outside_def)

lemma heap_mid_tiled: "heap_mid h mid fl \<Longrightarrow> tiled (h_array h) (blocks 0 (-2 # mid @ [-2]))"
  by (simp only: heap_mid_def hole_def outside_nil)

lemma heap_mid_frees: "heap_mid h mid fl \<Longrightarrow> set fl = frees (blocks 2 mid)"
  by (simp add: heap_mid_def hole_def outside_def)

lemma heap_mid_linked: "heap_mid h mid fl \<Longrightarrow> linked (h_array h) (h_avail h) fl"
  by (simp add: heap_mid_def hole_def)

lemma heap_mid_sanity:
  assumes "heap_mid h mid fl" "x \<in> insert 0 (set fl)"
  shows "sanity h x = Inr x"
proof (cases "x = 0")
  case False
  then obtain b where "(x, b) \<in> set (blocks 2 mid)"
    using assms(2) heap_mid_frees [OF assms(1)] by (auto simp: frees_def)
  then have "(x, b) \<in> set (blocks 0 (-2 # mid @ [-2]))" by simp
  then show ?thesis using sanity_block heap_mid_region [OF assms(1)] heap_mid_tiled [OF assms(1)] by blast
qed (simp add: sanity_zero)

lemma heap_mid_free_block:
  assumes "heap_mid h mid fl" "x \<in> set fl"
  shows "0 < x" "x + 3 < h_len h" "0 < h_array h x" "h_array h x < h_len h" "(x, h_array h x) \<in> set (blocks 2 mid)"
proof -
  obtain b where b: "0 < b" "(x, b) \<in> set (blocks 2 mid)"
    using assms(2) heap_mid_frees [OF assms(1)] by (auto simp: frees_def)
  then have T: "(x, b) \<in> set (blocks 0 (-2 # mid @ [-2]))" by simp
  note R = heap_mid_region [OF assms(1)]
  have "h_array h x = b" using tiledD [OF heap_mid_tiled [OF assms(1)] T] by simp
  then show "0 < x" "x + 3 < h_len h" "0 < h_array h x" "h_array h x < h_len h" "(x, h_array h x) \<in> set (blocks 2 mid)"
    using regionD(2,4,5) [OF R T] b by auto
qed

section \<open>Allocation\<close>

lemma malloc_loop_spec:
  assumes "heap_mid h mid fl" "h_len h < 2 ^ 30" "set xs \<subseteq> set fl" "seg (h_array h) pr p xs 0 r"
    and "it = 0 \<Longrightarrow> 2 ^ 30 \<le> mx" "0 < countDown"
  shows "\<exists>mx' it'. malloc_loop h ints mx it countDown p = Some (Inr (mx', it'))
    \<and> (mx' = mx \<and> it' = it \<or> it' \<in> set xs \<and> mx' = h_array h it' \<and> ints \<le> mx')
    \<and> (it' = 0 \<longrightarrow> (\<forall>x \<in> set xs. h_array h x < ints))"
  using assms(3-6)
proof (induction xs arbitrary: pr p mx it countDown)
  case Nil
  then show ?case by (subst malloc_loop.simps) auto
next
  case (Cons x xs)
  let ?a = "h_array h"
  have x: "x \<in> set fl" "p = x" "seg ?a x (?a (x + 1)) xs 0 r" using Cons.prems(1,2) by auto
  note fb = heap_mid_free_block [OF assms(1) x(1)]
  have nx: "?a (x + 1) \<in> insert 0 (set fl)"
    using seg_first [OF x(3)] Cons.prems(1) by (cases xs) auto
  let ?fits = "ints \<le> ?a x"
  let ?mx = "if ?fits \<and> ?a x < mx then ?a x else mx" and ?it = "if ?fits \<and> ?a x < mx then x else it"
    and ?cd = "if ?fits then countDown - 1 else countDown"
  have big: "?it = 0 \<Longrightarrow> 2 ^ 30 \<le> ?mx" "?it = 0 \<Longrightarrow> \<not> ?fits"
    using Cons.prems(3) fb assms(2) by (auto split: if_splits)
  have step: "malloc_loop h ints mx it countDown p =
      (if ?fits \<and> ?cd = 0 then Some (Inr (?mx, ?it)) else malloc_loop h ints ?mx ?it ?cd (?a (x + 1)))"
    using fb x(2) heap_mid_sanity [OF assms(1) nx]
    by (subst malloc_loop.simps) (simp add: isAvail_def next_of_def Let_def)
  show ?case
  proof (cases "?fits \<and> ?cd = 0")
    case True
    then show ?thesis using step big(2) by (cases "?a x < mx") auto
  next
    case False
    then have "0 < ?cd" using Cons.prems(4) by (auto split: if_splits)
    have sub: "set xs \<subseteq> set fl" using Cons.prems(1) by simp
    obtain mx' it' where "malloc_loop h ints ?mx ?it ?cd (?a (x + 1)) = Some (Inr (mx', it'))"
      "mx' = ?mx \<and> it' = ?it \<or> it' \<in> set xs \<and> mx' = ?a it' \<and> ints \<le> mx'"
      "it' = 0 \<longrightarrow> (\<forall>x \<in> set xs. ?a x < ints)"
      using Cons.IH [where pr = x and p = "?a (x + 1)" and it = ?it and mx = ?mx and countDown = ?cd,
          OF sub x(3) big(1) \<open>0 < ?cd\<close>] by blast
    moreover have "it' = 0 \<Longrightarrow> ?a x < ints"
      using calculation(2) big(2) heap_mid_free_block(1) [OF assms(1)] Cons.prems(1) by fastforce
    ultimately show ?thesis using step False by (cases "?fits \<and> ?a x < mx") auto
  qed
qed

lemma keeps_trans:
  "keeps_taken a b T \<Longrightarrow> keeps_taken b c U \<Longrightarrow> set T \<subseteq> set U \<Longrightarrow> keeps_taken a c T"
  unfolding keeps_taken_def by fastforce

lemma keeps_allocated:
  assumes "keeps_taken a a' T" "allocated U \<subseteq> allocated T" "(q, t) \<in> allocated U" "q \<le> k" "k < q + t"
  shows "a' k = a k"
proof -
  obtain b where "(q, b) \<in> set T" "b < 0" "t = - b" using assms(2,3) by (auto simp: allocated_def)
  then show ?thesis using assms(1,4,5) by (auto simp: keeps_taken_def)
qed

lemma heap_upd: "h\<lparr>h_avail := v, h_array := a\<rparr> = h\<lparr>h_array := a, h_avail := v\<rparr>"
  by (cases h) simp

lemma take_block_ok:
  assumes "heap_mid h (m1 @ mx # m2) fl" "0 < mx" "4 \<le> ints" "ints \<le> mx"
  shows "\<exists>a v mid' fl' s. take_block (2 + tot m1) mx ints h = Inr (h\<lparr>h_array := a, h_avail := v\<rparr>)
    \<and> heap_mid (h\<lparr>h_array := a, h_avail := v\<rparr>) mid' fl'
    \<and> allocated (blocks 2 mid') = insert (2 + tot m1, s) (allocated (blocks 2 (m1 @ mx # m2)))
    \<and> ints \<le> s \<and> keeps_taken (h_array h) a (outside (-2 # m1) mx (m2 @ [-2]))"
proof -
  let ?xs = "-2 # m1" and ?ys = "m2 @ [-2]" and ?it = "2 + tot m1"
  have it: "?it + 0 = ?it" "tot ?xs = ?it" by simp_all
  have mid: "\<forall>b \<in> set (m1 @ mx # m2). 4 \<le> \<bar>b\<bar>" "successively not_both_free (m1 @ mx # m2)"
    using assms(1) by (simp_all add: heap_mid_def)
  have "hole h ?xs 0 (mx # ?ys) fl" using assms(1) by (simp add: heap_mid_def hole_split)
  from hole_extend_right [OF this assms(2), unfolded it] obtain a1 v1 where
    h1: "remove_block ?it h = Inr (h\<lparr>h_array := a1, h_avail := v1\<rparr>)"
    "hole (h\<lparr>h_array := a1, h_avail := v1\<rparr>) ?xs (0 + mx) ?ys (remove1 ?it fl)"
    "keeps_taken (h_array h) a1 (outside ?xs (0 + mx) ?ys)" by blast
  let ?h1 = "h\<lparr>h_array := a1, h_avail := v1\<rparr>" and ?fl = "remove1 ?it fl"
  show ?thesis
  proof (cases "4 \<le> mx - ints")
    case True
    have sum: "0 + mx = ints + (mx - ints)" by simp
    have "hole ?h1 ?xs (ints + (mx - ints)) ?ys ?fl" using h1(2) unfolding sum .
    note h2 = hole_take [OF this, unfolded it]
    let ?a2 = "(h_array ?h1)(?it := - ints, ?it + ints - 1 := - ints)"
    let ?h2 = "?h1\<lparr>h_array := ?a2\<rparr>"
    have it2: "tot (?xs @ [- ints]) = ?it + ints" using assms(3) by simp
    have "hole ?h2 (?xs @ [- ints]) (mx - ints) ?ys ?fl" using h2(2) True assms(3) by simp
    note h3 = hole_free [OF this True, unfolded it2]
    let ?a3 = "push_free (h_array ?h2) (h_avail ?h2) (?it + ints) (mx - ints)"
    let ?mid = "m1 @ - ints # (mx - ints) # m2"
    have take: "take_block ?it mx ints h = Inr (h\<lparr>h_array := ?a3, h_avail := ?it + ints\<rparr>)"
      using h1(1) h2(1) h3(1) True assms(3) by (simp add: take_block_def Let_def)
    have "hole (h\<lparr>h_array := ?a3, h_avail := ?it + ints\<rparr>) (-2 # ?mid @ [-2]) 0 [] ((?it + ints) # ?fl)"
      using h3(2) hole_shift [of "?xs @ [- ints] @ [mx - ints]" _ ?ys] by simp
    then have hm: "heap_mid (h\<lparr>h_array := ?a3, h_avail := ?it + ints\<rparr>) ?mid ((?it + ints) # ?fl)"
      using mid assms(2,3) True
      by (auto simp: heap_mid_def successively_append_iff successively_Cons)
    have al: "allocated (blocks 2 ?mid) = insert (?it, ints) (allocated (blocks 2 (m1 @ mx # m2)))"
      using assms(2,3) True by (auto simp: add.assoc)
    have k1: "keeps_taken (h_array h) a1 (outside ?xs mx ?ys)" using h1(3) by simp
    have k2: "keeps_taken a1 ?a2 (outside ?xs mx ?ys)" using h2(3) True assms(3) by simp
    have "set (outside ?xs mx ?ys) \<subseteq> set (outside (?xs @ [- ints]) (mx - ints) ?ys)"
      using assms(3) by (auto simp: outside_def add.assoc)
    from keeps_trans [OF keeps_trans [OF k1 k2] _ this, of ?a3] h3(3)
    have "keeps_taken (h_array h) ?a3 (outside ?xs mx ?ys)" by simp
    with take hm al show ?thesis by blast
  next
    case False
    have "hole ?h1 ?xs (mx + 0) ?ys ?fl" using h1(2) by simp
    note h2 = hole_take [OF this, unfolded it]
    let ?a2 = "(h_array ?h1)(?it := - mx, ?it + mx - 1 := - mx)"
    let ?mid = "m1 @ - mx # m2"
    have take: "take_block ?it mx ints h = Inr (h\<lparr>h_array := ?a2, h_avail := v1\<rparr>)"
      using h1(1) h2(1) False assms(3,4) by (simp add: take_block_def Let_def)
    have "hole (h\<lparr>h_array := ?a2, h_avail := v1\<rparr>) (-2 # ?mid @ [-2]) 0 [] ?fl"
      using h2(2) hole_shift [of "?xs @ [- mx]" _ ?ys] assms(3,4) by (simp add: heap_upd)
    then have hm: "heap_mid (h\<lparr>h_array := ?a2, h_avail := v1\<rparr>) ?mid ?fl"
      using mid assms(2) by (auto simp: heap_mid_def successively_append_iff successively_Cons)
    have al: "allocated (blocks 2 ?mid) = insert (?it, mx) (allocated (blocks 2 (m1 @ mx # m2)))"
      using assms(2) by auto
    have k1: "keeps_taken (h_array h) a1 (outside ?xs mx ?ys)" using h1(3) by simp
    have k2: "keeps_taken a1 ?a2 (outside ?xs mx ?ys)" using h2(3) assms(3,4) by simp
    have "keeps_taken (h_array h) ?a2 (outside ?xs mx ?ys)" using keeps_trans [OF k1 k2] by simp
    with take hm al assms(4) show ?thesis by blast
  qed
qed

lemma request_ints_bounds:
  assumes "bytes \<le> 0xFFFFFFFC"
  shows "4 \<le> request_ints bytes" "uint bytes \<le> 4 * (request_ints bytes - 2)"
proof -
  have b: "unat bytes \<le> 4294967292" using assms by (simp add: word_le_nat_alt)
  then have "unat (bytes + 3) = unat bytes + 3" by (subst unat_plus_exact) simp_all
  then have d: "unat ((bytes + 3) div 4) = (unat bytes + 3) div 4" by (simp add: unat_div_distrib)
  have "(unat bytes + 3) div 4 \<le> 1073741823" using b by linarith
  then have "unat ((bytes + 3) div 4 + 2) = (unat bytes + 3) div 4 + 2"
    using d by (subst unat_plus_exact) simp_all
  then have e: "int (unat ((bytes + 3) div 4 + 2)) = int ((unat bytes + 3) div 4) + 2" by linarith
  have r: "request_ints bytes = max 4 (int ((unat bytes + 3) div 4) + 2)"
    unfolding request_ints_def uint_nat e ..
  then show "4 \<le> request_ints bytes" by (simp only: max.cobounded1)
  have "unat bytes \<le> 4 * ((unat bytes + 3) div 4)" by linarith
  then have le: "uint bytes \<le> 4 * int ((unat bytes + 3) div 4)" unfolding uint_nat [of bytes] by linarith
  have ge: "int ((unat bytes + 3) div 4) + 2 \<le> request_ints bytes" unfolding r by (simp only: max.cobounded2)
  have "x \<le> 4 * (z - 2)" if "x \<le> 4 * y" "y + 2 \<le> z" for x y z :: int
    using that by presburger
  from this [OF le ge] show "uint bytes \<le> 4 * (request_ints bytes - 2)" .
qed

text \<open>The pointer to a block and back.\<close>

lemma four_times_uint:
  assumes "0 \<le> p" "p + 1 < 2 ^ 30"
  shows "uint (4 * of_int (p + 1) :: u32) = 4 * (p + 1)"
proof -
  have "4 * of_int (p + 1) = (word_of_int (4 * (p + 1)) :: u32)" by simp
  moreover have "uint (word_of_int (4 * (p + 1)) :: u32) = 4 * (p + 1)"
    using assms by (subst uint_word_of_int) (simp add: mod_pos_pos_trivial)
  ultimately show ?thesis by (simp only:)
qed

lemma block_pointer_uint:
  assumes "heap_fits h" "0 \<le> p" "p + 1 < h_len h"
  shows "uint (block_pointer h p) = uint (h_base h) + 4 * (p + 1)"
proof -
  have q: "uint (h_base h) + 4 * (p + 1) < 2 ^ 32" "p + 1 < 2 ^ 30" using assms by (simp_all add: heap_fits_def)
  show ?thesis unfolding block_pointer_def
    using q(1) four_times_uint [OF assms(2) q(2)] by (simp only: uint_plus_if' len_num1 len_of_numeral_defs) simp
qed

lemma block_index_pointer:
  assumes "heap_fits h" "0 \<le> p" "p + 1 < h_len h"
  shows "block_index h (block_pointer h p) = p"
proof -
  have q: "p + 1 < 2 ^ 30" using assms by (simp add: heap_fits_def)
  have "uint ((4 * of_int (p + 1) :: u32) div 4) = p + 1"
    using four_times_uint [OF assms(2) q] by (simp add: uint_div_distrib)
  then have "(4 * of_int (p + 1) :: u32) div 4 = of_int (p + 1)" by (metis word_of_int_uint)
  then have "block_index h (block_pointer h p) = sint (word_of_int p :: u32)"
    by (simp add: block_index_def block_pointer_def)
  also have "\<dots> = p" using assms(2) q by (intro sint_of_int_exact) simp_all
  finally show ?thesis .
qed

text \<open>An allocation on the invariant.\<close>

lemma malloc_ok:
  assumes "heap_fits h" "heap_mid h mid fl" "bytes \<noteq> 0" "4 \<le> request_ints bytes"
  shows "(malloc bytes h = Some (Inr (0, h)) \<and> (\<forall>(p, b) \<in> set (blocks 2 mid). b < request_ints bytes))
    \<or> (\<exists>h' p s. malloc bytes h = Some (Inr (block_pointer h p, h')) \<and> 0 < p \<and> p + 3 < h_len h \<and> 0 < h_array h p
        \<and> heap_inv h' (insert (p, s) (allocated (blocks 2 mid))) \<and> request_ints bytes \<le> s
        \<and> h_base h' = h_base h \<and> h_len h' = h_len h \<and> heap_count h' = heap_count h + 1
        \<and> (\<forall>q t k. (q, t) \<in> allocated (blocks 2 mid) \<longrightarrow> q \<le> k \<longrightarrow> k < q + t \<longrightarrow> h_array h' k = h_array h k))"
proof -
  let ?n = "request_ints bytes"
  obtain r where sg: "seg (h_array h) 0 (h_avail h) fl 0 r"
    using heap_mid_linked [OF assms(2)] by (auto simp: linked_def)
  have len: "h_len h < 2 ^ 30" using assms(1) by (simp add: heap_fits_def)
  obtain mx it where loop: "malloc_loop h ?n 0x7FFFFFFF 0 20 (h_avail h) = Some (Inr (mx, it))"
    "mx = 0x7FFFFFFF \<and> it = 0 \<or> it \<in> set fl \<and> mx = h_array h it \<and> ?n \<le> mx"
    "it = 0 \<longrightarrow> (\<forall>x \<in> set fl. h_array h x < ?n)"
    using malloc_loop_spec [OF assms(2) len order.refl sg, of 0 "0x7FFFFFFF" 20 ?n] by auto
  show ?thesis
  proof (cases "it = 0")
    case True
    have "b < ?n" if pb: "(p, b) \<in> set (blocks 2 mid)" for p b
    proof (cases "0 < b")
      case pos: True
      then have "p \<in> set fl" using pb heap_mid_frees [OF assms(2)] by (auto simp: frees_def)
      moreover have "h_array h p = b"
        using tiledD [OF heap_mid_tiled [OF assms(2)], of p b] pb by simp
      ultimately show ?thesis using loop(3) True by auto
    qed (use assms(4) in simp)
    then show ?thesis using True loop(1) assms(3) by (auto simp: malloc_def)
  next
    case False
    then have it: "it \<in> set fl" "mx = h_array h it" "?n \<le> mx" using loop(2) by auto
    note fb = heap_mid_free_block [OF assms(2) it(1)]
    then obtain m1 m2 where m: "mid = m1 @ mx # m2" "it = 2 + tot m1"
      using it(2) by (auto simp: blocks_split)
    obtain a v mid' fl' s where tk: "take_block it mx ?n h = Inr (h\<lparr>h_array := a, h_avail := v\<rparr>)"
      "heap_mid (h\<lparr>h_array := a, h_avail := v\<rparr>) mid' fl'"
      "allocated (blocks 2 mid') = insert (it, s) (allocated (blocks 2 mid))" "?n \<le> s"
      "keeps_taken (h_array h) a (outside (-2 # m1) mx (m2 @ [-2]))"
      using take_block_ok [of h m1 mx m2 fl ?n] assms(2,4) m it(2,3) fb(3) by (metis (no_types, lifting))
    let ?h1 = "h\<lparr>h_array := a, h_avail := v\<rparr>" and ?h = "h\<lparr>h_array := a, h_avail := v, heap_count := heap_count h + 1\<rparr>"
    have ptr: "block_pointer ?h1 it = block_pointer h it" by (simp add: block_pointer_def)
    have "uint (block_pointer h it) = uint (h_base h) + 4 * (it + 1)"
      using block_pointer_uint [OF assms(1)] fb by simp
    then have "0 < uint (block_pointer h it)" using assms(1) fb by (simp add: heap_fits_def)
    then have nz: "block_pointer h it \<noteq> 0" by auto
    have mal: "malloc bytes h = Some (Inr (block_pointer h it, ?h))"
      using loop(1) tk(1) False assms(3) nz ptr by (simp add: malloc_def Let_def)
    have "heap_mid ?h mid' fl'" using tk(2) by (simp add: heap_mid_def hole_def)
    then have inv: "heap_inv ?h (insert (it, s) (allocated (blocks 2 mid)))"
      using assms(1) tk(3) by (auto simp: heap_inv_def heap_fits_def)
    have "allocated (blocks 2 mid) \<subseteq> allocated (outside (-2 # m1) mx (m2 @ [-2]))"
      using m fb(3) it(2) by (auto simp: outside_def add.assoc)
    from keeps_allocated [OF tk(5) this] have "h_array ?h k = h_array h k"
      if "(q, t) \<in> allocated (blocks 2 mid)" "q \<le> k" "k < q + t" for q t k using that by simp
    with mal inv tk(4) fb show ?thesis by (intro disjI2 exI [of _ ?h] exI [of _ it] exI [of _ s]) auto
  qed
qed

section \<open>Release\<close>

lemma merge_left:
  assumes "hole h (xs @ [l]) s ys fl" "0 < l \<Longrightarrow> xs \<noteq> []"
  shows "\<exists>a v xs1 sz fl1.
    (if 0 < l then bind_ok (remove_block (tot xs) h) (\<lambda>h. bind_ok (size_of h (tot xs)) (\<lambda>t. Inr (tot xs, s + t, h)))
     else Inr (tot xs + \<bar>l\<bar>, s, h)) = Inr (tot xs1, sz, h\<lparr>h_array := a, h_avail := v\<rparr>)
    \<and> hole (h\<lparr>h_array := a, h_avail := v\<rparr>) xs1 sz ys fl1 \<and> xs1 = (if 0 < l then xs else xs @ [l]) \<and> s \<le> sz
    \<and> keeps_taken (h_array h) a (outside xs1 sz ys)"
proof (cases "0 < l")
  case True
  from hole_extend_left [OF assms(1) True assms(2) [OF True]] obtain a v where
    av: "remove_block (tot xs) h = Inr (h\<lparr>h_array := a, h_avail := v\<rparr>)"
    "hole (h\<lparr>h_array := a, h_avail := v\<rparr>) xs (l + s) ys (remove1 (tot xs) fl)"
    "a (tot xs) = l" "keeps_taken (h_array h) a (outside xs (l + s) ys)" by blast
  have "0 \<le> s" "tot xs + l + s + tot ys = h_len h" using assms(1) True by (auto simp: hole_def)
  then have "tot xs < h_len h" using True tot_nonneg [of ys] by linarith
  then have "size_of (h\<lparr>h_array := a, h_avail := v\<rparr>) (tot xs) = Inr l" using av(3) True by simp
  then show ?thesis using av True
    by (intro exI [of _ a] exI [of _ v] exI [of _ xs] exI [of _ "l + s"] exI [of _ "remove1 (tot xs) fl"])
      (simp add: add.commute)
next
  case False
  then show ?thesis using assms(1)
    by (intro exI [of _ "h_array h"] exI [of _ "h_avail h"] exI [of _ "xs @ [l]"] exI [of _ s] exI [of _ fl])
      (simp add: keeps_taken_def)
qed

lemma merge_right:
  assumes "hole h xs s (r # ys) fl"
  shows "\<exists>a v ys1 sz fl1.
    (if 0 < r then bind_ok (remove_block (tot xs + s) h) (\<lambda>h. bind_ok (size_of h (tot xs + s)) (\<lambda>t. Inr (s + t, h)))
     else Inr (s, h)) = Inr (sz, h\<lparr>h_array := a, h_avail := v\<rparr>)
    \<and> hole (h\<lparr>h_array := a, h_avail := v\<rparr>) xs sz ys1 fl1 \<and> ys1 = (if 0 < r then ys else r # ys) \<and> s \<le> sz
    \<and> keeps_taken (h_array h) a (outside xs sz ys1)"
proof (cases "0 < r")
  case True
  from hole_extend_right [OF assms True] obtain a v where
    av: "remove_block (tot xs + s) h = Inr (h\<lparr>h_array := a, h_avail := v\<rparr>)"
    "hole (h\<lparr>h_array := a, h_avail := v\<rparr>) xs (s + r) ys (remove1 (tot xs + s) fl)"
    "a (tot xs + s) = r" "keeps_taken (h_array h) a (outside xs (s + r) ys)" by blast
  have "0 \<le> s" "tot xs + s + r + tot ys = h_len h" using assms True by (auto simp: hole_def)
  then have "tot xs + s < h_len h" "0 \<le> tot xs + s"
    using True tot_nonneg [of ys] tot_nonneg [of xs] by linarith+
  then have "size_of (h\<lparr>h_array := a, h_avail := v\<rparr>) (tot xs + s) = Inr r" using av(3) True by simp
  then show ?thesis using av True
    by (intro exI [of _ a] exI [of _ v] exI [of _ ys] exI [of _ "s + r"] exI [of _ "remove1 (tot xs + s) fl"]) simp
next
  case False
  then show ?thesis using assms
    by (intro exI [of _ "h_array h"] exI [of _ "h_avail h"] exI [of _ "r # ys"] exI [of _ s] exI [of _ fl])
      (simp add: keeps_taken_def)
qed

lemma release_block_hole:
  assumes "hole h (xs @ [l]) 0 (b # r # ys) fl" "b \<le> -4" "0 < l \<Longrightarrow> xs \<noteq> []"
  defines "xs1 \<equiv> if 0 < l then xs else xs @ [l]" and "ys1 \<equiv> if 0 < r then ys else r # ys"
  shows "\<exists>a v sz fl1. release_block (tot xs + \<bar>l\<bar>) h = Inr (h\<lparr>h_array := a, h_avail := v\<rparr>)
    \<and> hole (h\<lparr>h_array := a, h_avail := v\<rparr>) (xs1 @ [sz]) 0 ys1 fl1 \<and> 4 \<le> sz
    \<and> keeps_taken (h_array h) a (outside xs1 sz ys1)"
proof -
  let ?p = "tot xs + \<bar>l\<bar>" and ?s = "- b"
  have hl: "tiled (h_array h) (outside (xs @ [l]) 0 (b # r # ys))" "tot xs + \<bar>l\<bar> - b + \<bar>r\<bar> + tot ys = h_len h"
    "sized (xs @ [l])" "sized (b # r # ys)"
    using assms(1,2) by (auto simp: hole_def)
  have tags: "h_array h (tot xs) = l" "h_array h (?p - 1) = l" "h_array h ?p = b" "h_array h (?p + ?s) = r"
    using hl(1) assms(2) by (simp_all add: outside_def)
  have "0 \<le> tot xs" "2 \<le> \<bar>l\<bar>" "2 \<le> \<bar>r\<bar>" "0 \<le> tot ys" using hl(3,4) by simp_all
  then have bounds: "tot xs < h_len h" "0 \<le> ?p - 1" "?p - 1 < h_len h" "0 \<le> ?p" "?p < h_len h"
    "0 \<le> ?p + ?s" "?p + ?s < h_len h"
    using hl(2) assms(2) by linarith+
  have blk: "(tot xs, l) \<in> set (outside (xs @ [l]) 0 (b # r # ys))"
    "(?p + ?s, r) \<in> set (outside (xs @ [l]) 0 (b # r # ys))"
    using assms(2) by (simp_all add: outside_def)
  note san = sanity_block [OF hole_region [OF assms(1)] hl(1)]
  have lr: "left_of h ?p = Inr (tot xs)" "right_of h ?p = Inr (?p + ?s)" "size_of h ?p = Inr ?s"
    "isAvail h (tot xs) = Inr (0 < l)"
    using tags bounds assms(2) san [OF blk(1)] san [OF blk(2)]
    by (simp_all add: left_of_def headerFromFooter_def right_of_def isAvail_def)
  have "hole h (xs @ [l]) ?s (r # ys) fl" using hole_taken [OF assms(1)] assms(2) by simp
  from merge_left [OF this assms(3)] obtain a1 v1 s1 fl1 where
    h1: "(if 0 < l then bind_ok (remove_block (tot xs) h) (\<lambda>h. bind_ok (size_of h (tot xs)) (\<lambda>t. Inr (tot xs, ?s + t, h)))
     else Inr (?p, ?s, h)) = Inr (tot xs1, s1, h\<lparr>h_array := a1, h_avail := v1\<rparr>)"
    "hole (h\<lparr>h_array := a1, h_avail := v1\<rparr>) xs1 s1 (r # ys) fl1" "?s \<le> s1"
    "keeps_taken (h_array h) a1 (outside xs1 s1 (r # ys))" unfolding xs1_def by blast
  let ?h1 = "h\<lparr>h_array := a1, h_avail := v1\<rparr>"
  have "tot xs1 + s1 + tot (r # ys) = h_len ?h1" using h1(2) by (simp only: hole_def)
  then have next_: "tot xs1 + s1 = ?p + ?s" using hl(2) by simp
  have "h_array ?h1 (tot xs1 + s1) = r" using h1(2) by (simp add: hole_def outside_def)
  then have av: "isAvail ?h1 (?p + ?s) = Inr (0 < r)"
    using bounds by (simp add: isAvail_def next_)
  from merge_right [OF h1(2)] obtain a2 v2 s2 fl2 where
    h2: "(if 0 < r then bind_ok (remove_block (?p + ?s) ?h1) (\<lambda>h. bind_ok (size_of h (?p + ?s)) (\<lambda>t. Inr (s1 + t, h)))
     else Inr (s1, ?h1)) = Inr (s2, h\<lparr>h_array := a2, h_avail := v2\<rparr>)"
    "hole (h\<lparr>h_array := a2, h_avail := v2\<rparr>) xs1 s2 ys1 fl2" "s1 \<le> s2"
    "keeps_taken a1 a2 (outside xs1 s2 ys1)" unfolding ys1_def next_ by (auto simp: heap_upd)
  let ?h2 = "h\<lparr>h_array := a2, h_avail := v2\<rparr>"
  have s2: "4 \<le> s2" using h1(3) h2(3) assms(2) by simp
  note h3 = hole_free [OF h2(2) s2]
  let ?a3 = "push_free (h_array ?h2) (h_avail ?h2) (tot xs1) s2"
  have rel: "release_block ?p h = Inr (h\<lparr>h_array := ?a3, h_avail := tot xs1\<rparr>)"
    by (simp only: release_block_def lr bind_ok_simps h1(1) prod.case av h2(1) h3(1)) simp
  have "tot xs1 + s2 + tot ys1 = h_len h" "tot xs1 + s1 + tot (r # ys) = h_len h"
    using h1(2) h2(2) by (simp_all add: hole_def)
  then have s2_eq: "s2 = (if 0 < r then s1 + r else s1)" by (simp add: ys1_def split: if_splits)
  have "set (outside xs1 s2 ys1) \<subseteq> set (outside xs1 s1 (r # ys))"
  proof (cases "0 < r")
    case True
    then show ?thesis using s2_eq by (auto simp: outside_def ys1_def add.assoc)
  next
    case False
    then show ?thesis using s2_eq by (simp add: ys1_def)
  qed
  then have "keeps_taken (h_array h) a1 (outside xs1 s2 ys1)"
    using h1(4) by (auto simp: keeps_taken_def)
  from keeps_trans [OF keeps_trans [OF this h2(4) order.refl] _ order.refl, of ?a3] h3(3)
  have "keeps_taken (h_array h) ?a3 (outside xs1 s2 ys1)" by simp
  with rel h3(2) s2 show ?thesis by (intro exI [of _ ?a3] exI [of _ "tot xs1"] exI [of _ s2]) (auto simp: heap_upd)
qed

lemma allocated_free: "\<not> b < 0 \<Longrightarrow> allocated (blocks i (xs @ b # ys)) = allocated (blocks i xs) \<union> allocated (blocks (i + tot xs + \<bar>b\<bar>) ys)"
  by auto

lemma allocated_range: "(p, s) \<in> allocated (blocks i xs) \<Longrightarrow> i \<le> p \<and> p + s \<le> i + tot xs \<and> - s \<in> set xs \<and> 0 < s"
  by (auto simp: allocated_def dest: blocks_range)

text \<open>The neighbours that are merged away leave a heap without two adjacent free blocks.\<close>

lemma merge_mid:
  assumes "xs @ [l] = -2 # m1" "r # ys = m2 @ [-2]" "\<forall>x \<in> set (m1 @ b # m2). 4 \<le> \<bar>x\<bar>" "b < 0"
    and "successively not_both_free (m1 @ b # m2)" "4 \<le> sz"
  shows "\<exists>n1 n2. (if 0 < l then xs else xs @ [l]) = -2 # n1 \<and> (if 0 < r then ys else r # ys) = n2 @ [-2]
    \<and> (\<forall>x \<in> set (n1 @ sz # n2). 4 \<le> \<bar>x\<bar>) \<and> successively not_both_free (n1 @ sz # n2)
    \<and> allocated (blocks 2 n1) = allocated (blocks 2 m1)
    \<and> allocated (blocks (k - tot n2) n2) = allocated (blocks (k - tot m2) m2)"
proof -
  obtain n1 where n1: "(if 0 < l then xs else xs @ [l]) = -2 # n1" "m1 = (if 0 < l then n1 @ [l] else n1)"
    "n1 \<noteq> [] \<Longrightarrow> \<not> 0 < last n1"
  proof (cases "0 < l")
    case True
    then obtain n where n: "xs = -2 # n" "m1 = n @ [l]" using assms(1) by (cases xs) auto
    have "n \<noteq> [] \<Longrightarrow> \<not> 0 < last n" using assms(5) True n(2) by (auto simp: successively_append_iff)
    with that [of n] n True show thesis by simp
  next
    case False
    have "m1 \<noteq> [] \<Longrightarrow> last m1 = l" using assms(1) by (metis last_ConsR last_snoc)
    with that [of m1] False assms(1) show thesis by auto
  qed
  obtain n2 where n2: "(if 0 < r then ys else r # ys) = n2 @ [-2]" "m2 = (if 0 < r then r # n2 else n2)"
    "n2 \<noteq> [] \<Longrightarrow> \<not> 0 < hd n2"
  proof (cases "0 < r")
    case True
    then obtain n where n: "m2 = r # n" "ys = n @ [-2]" using assms(2) by (cases m2) auto
    have "n \<noteq> [] \<Longrightarrow> \<not> 0 < hd n" using assms(5) True n(1)
      by (cases n) (auto simp: successively_append_iff successively_Cons)
    with that [of n] n True show thesis by simp
  next
    case False
    have "m2 \<noteq> [] \<Longrightarrow> hd m2 = r" using assms(2) by (cases m2) auto
    with that [of m2] False assms(2) show thesis by auto
  qed
  have "successively not_both_free n1" "successively not_both_free n2"
    using assms(5) n1(2) n2(2) by (auto simp: successively_append_iff successively_Cons split: if_splits)
  then have "successively not_both_free (n1 @ sz # n2)"
    using n1(3) n2(3) by (auto simp: successively_append_iff successively_Cons)
  moreover have "\<forall>x \<in> set (n1 @ sz # n2). 4 \<le> \<bar>x\<bar>"
    using assms(3,6) n1(2) n2(2) by (auto split: if_splits)
  moreover have "allocated (blocks 2 n1) = allocated (blocks 2 m1)" using n1(2) by (simp split: if_splits)
  moreover have "allocated (blocks (k - tot n2) n2) = allocated (blocks (k - tot m2) m2)"
    using n2(2) by (simp split: if_splits)
  ultimately show ?thesis using n1(1) n2(1) by blast
qed

lemma sanity_heap_count: "sanity (h\<lparr>heap_count := c\<rparr>) i = sanity h i"
  by (simp add: sanity_def footerFromHeader_def size_of_def hget_def)

lemma free_ok:
  assumes "heap_inv h live" "(p, s) \<in> live"
  shows "\<exists>h'. free (block_pointer h p) h = Inr h' \<and> heap_inv h' (live - {(p, s)})
    \<and> h_base h' = h_base h \<and> h_len h' = h_len h \<and> heap_count h' = heap_count h - 1
    \<and> (\<forall>q t k. (q, t) \<in> live - {(p, s)} \<longrightarrow> q \<le> k \<longrightarrow> k < q + t \<longrightarrow> h_array h' k = h_array h k)"
proof -
  obtain mid fl where hm: "heap_fits h" "heap_mid h mid fl" "live = allocated (blocks 2 mid)"
    using assms(1) by (auto simp: heap_inv_def)
  obtain b where b: "(p, b) \<in> set (blocks 2 mid)" "b < 0" "s = - b"
    using assms(2) hm(3) by (auto simp: allocated_def)
  then obtain m1 m2 where m: "mid = m1 @ b # m2" "p = 2 + tot m1" by (auto simp: blocks_split)
  have big: "\<forall>x \<in> set (m1 @ b # m2). 4 \<le> \<bar>x\<bar>" "successively not_both_free (m1 @ b # m2)"
    using hm(2) m(1) by (simp_all add: heap_mid_def)
  then have b4: "b \<le> -4" using b(2) by auto
  obtain xs l where xl: "xs @ [l] = -2 # m1" by (metis append_butlast_last_id list.discI)
  obtain r ys where ry: "r # ys = m2 @ [-2]" by (cases m2) auto
  let ?h = "h\<lparr>heap_count := heap_count h - 1\<rparr>"
  have "hole ?h (-2 # m1) 0 (b # m2 @ [-2]) fl"
    using hm(2) m(1) hole_split [of h m1 b m2 fl] by (simp add: heap_mid_def hole_def)
  then have hl: "hole ?h (xs @ [l]) 0 (b # r # ys) fl" using xl ry by simp
  have "0 < l \<Longrightarrow> xs \<noteq> []" using xl by (cases xs) auto
  from release_block_hole [OF hl b4 this] obtain a v sz fl1 where
    rel: "release_block (tot xs + \<bar>l\<bar>) ?h = Inr (?h\<lparr>h_array := a, h_avail := v\<rparr>)"
    "hole (?h\<lparr>h_array := a, h_avail := v\<rparr>) ((if 0 < l then xs else xs @ [l]) @ [sz]) 0 (if 0 < r then ys else r # ys) fl1"
    "4 \<le> sz" "keeps_taken (h_array ?h) a (outside (if 0 < l then xs else xs @ [l]) sz (if 0 < r then ys else r # ys))"
    by blast
  let ?h' = "?h\<lparr>h_array := a, h_avail := v\<rparr>"
  have p: "tot xs + \<bar>l\<bar> = p" using arg_cong [OF xl, of tot] m(2) by simp
  let ?k = "h_len h - 2"
  obtain n1 n2 where n: "(if 0 < l then xs else xs @ [l]) = -2 # n1" "(if 0 < r then ys else r # ys) = n2 @ [-2]"
    "\<forall>x \<in> set (n1 @ sz # n2). 4 \<le> \<bar>x\<bar>" "successively not_both_free (n1 @ sz # n2)"
    "allocated (blocks 2 n1) = allocated (blocks 2 m1)"
    "allocated (blocks (?k - tot n2) n2) = allocated (blocks (?k - tot m2) m2)"
    using merge_mid [OF xl ry big(1) b(2) big(2) rel(3), of ?k] by blast
  have hl2: "hole ?h' (-2 # (n1 @ sz # n2) @ [-2]) 0 [] fl1"
    using rel(2) hole_shift [of "-2 # n1 @ [sz]" ?h' "n2 @ [-2]" fl1] unfolding n(1,2) by simp
  then have hm': "heap_mid ?h' (n1 @ sz # n2) fl1" using n(3,4) by (simp add: heap_mid_def)
  have e1: "?k - tot m2 = p + s" "?k - tot n2 = 2 + tot n1 + sz"
    using hm(2) hl2 m b(2,3) rel(3) by (simp_all add: heap_mid_def hole_def)
  have lv: "live = insert (p, s) (allocated (blocks 2 m1) \<union> allocated (blocks (p + s) m2))"
    using hm(3) m b(2,3) by auto
  have "(p, s) \<notin> allocated (blocks 2 m1) \<union> allocated (blocks (p + s) m2)"
    using m(2) by (auto dest!: allocated_range)
  then have rest: "live - {(p, s)} = allocated (blocks 2 m1) \<union> allocated (blocks (p + s) m2)" using lv by blast
  also have "\<dots> = allocated (blocks 2 (n1 @ sz # n2))"
    using n(5,6) e1 rel(3) by simp
  finally have lv': "live - {(p, s)} = allocated (blocks 2 (n1 @ sz # n2))" .
  have inv: "heap_inv ?h' (live - {(p, s)})"
    using hm' hm(1) lv' by (auto simp: heap_inv_def heap_fits_def)
  have bounds: "0 \<le> p" "p + 1 < h_len h" "h_array h p < 0"
    using regionD(2) [OF heap_mid_region [OF hm(2)], of p b] b tiledD [OF heap_mid_tiled [OF hm(2)], of p b] m(2) b4
    by (simp_all add: add_nonneg_nonneg)
  have idx: "block_index ?h (block_pointer h p) = p"
    using block_index_pointer [OF hm(1) bounds(1,2)] by (simp add: block_index_def)
  have uptr: "uint (block_pointer h p) = uint (h_base h) + 4 * (p + 1)"
    using block_pointer_uint [OF hm(1) bounds(1,2)] .
  then have ptr: "block_pointer h p \<noteq> 0" "block_pointer h p \<noteq> h_base h"
    using hm(1) bounds(1) by (auto simp: heap_fits_def)
  have "(p, b) \<in> set (blocks 0 (-2 # mid @ [-2]))" using b(1) by simp
  then have "sanity h p = Inr p" using sanity_block [OF heap_mid_region [OF hm(2)] heap_mid_tiled [OF hm(2)]] by blast
  then have san: "sanity ?h p = Inr p" by (simp only: sanity_heap_count)
  have "free (block_pointer h p) h = Inr ?h'"
    using ptr idx san rel(1) bounds p by (simp add: free_def Let_def isTaken_def)
  moreover have "h_array ?h' k = h_array h k" if "(q, t) \<in> live - {(p, s)}" "q \<le> k" "k < q + t" for q t k
  proof -
    have "allocated (blocks 2 (n1 @ sz # n2)) \<subseteq> allocated (outside (-2 # n1) sz (n2 @ [-2]))"
      using rel(3) by (auto simp: outside_def)
    with keeps_allocated [OF rel(4) [unfolded n(1,2)], of "blocks 2 (n1 @ sz # n2)" q t k] that lv' show ?thesis by simp
  qed
  ultimately show ?thesis using inv by (intro exI [of _ ?h']) simp
qed

section \<open>Histories of the heap\<close>

text \<open>
  A heap in use, with the blocks \<open>live\<close> that its clients hold, each as the index of its header and
  its size in ints. Clients allocate, release a block they hold, and write between the header and
  the footer of a block they hold; the kernel stores the pointer to the lock.
\<close>

inductive heap_reach :: "heap \<Rightarrow> (int \<times> int) set \<Rightarrow> bool" where
  start: "heap_setup base bytes junk safe = Inr h \<Longrightarrow> 0 < uint base \<Longrightarrow> uint base + uint bytes \<le> 2 ^ 32 \<Longrightarrow>
    32 \<le> uint bytes \<Longrightarrow> heap_reach h {}"
| locked: "heap_reach h live \<Longrightarrow> heap_reach (h\<lparr>h_lock := l\<rparr>) live"
| alloc: "heap_reach h live \<Longrightarrow> bytes \<noteq> 0 \<Longrightarrow> bytes \<le> 0xFFFFFFFC \<Longrightarrow> malloc bytes h = Some (Inr (ptr, h')) \<Longrightarrow> ptr \<noteq> 0 \<Longrightarrow>
    p = block_index h ptr \<Longrightarrow> heap_reach h' (insert (p, - h_array h' p) live)"
| release: "heap_reach h live \<Longrightarrow> (p, s) \<in> live \<Longrightarrow> free (block_pointer h p) h = Inr h' \<Longrightarrow>
    heap_reach h' (live - {(p, s)})"
| store: "heap_reach h live \<Longrightarrow> (p, s) \<in> live \<Longrightarrow> p < k \<Longrightarrow> k < p + s - 1 \<Longrightarrow>
    heap_reach (h\<lparr>h_array := (h_array h)(k := v)\<rparr>) live"

lemma heap_setup_ok:
  assumes "0 < uint base" "uint base + uint bytes \<le> 2 ^ 32" "32 \<le> uint bytes"
  shows "\<exists>h. heap_setup base bytes junk safe = Inr h \<and> heap_inv h {} \<and> h_len h = uint (bytes div 4) \<and> h_base h = base"
proof -
  let ?n = "uint (bytes div 4)"
  have n: "?n = uint bytes div 4" by (simp add: uint_div_distrib)
  have le: "8 \<le> ?n" "uint base + 4 * ?n \<le> 2 ^ 32" "?n < 2 ^ 30" using assms unfolding n by simp_all
  let ?a = "(push_free (junk(0 := -2, 1 := -2)) 0 2 (?n - 4))(?n - 2 := -2, ?n - 1 := -2)"
  let ?h = "\<lparr>h_base = base, h_array = ?a, h_len = ?n, h_safe = safe, h_avail = 2, h_lock = 0, heap_count = 0\<rparr>"
  have "heap_setup base bytes junk safe = Inr ?h"
    using le by (simp add: heap_setup_def Let_def makeTaken_eq makeAvail_eq)
  moreover have "heap_mid ?h [?n - 4] [2]"
    using le by (simp add: heap_mid_def hole_def outside_def linked_def push_free_def Let_def)
  then have "heap_inv ?h {}"
    using le assms(1) unfolding heap_inv_def heap_fits_def
    by (intro conjI exI [of _ "[?n - 4]"] exI [of _ "[2 :: int]"]) simp_all
  ultimately show ?thesis by simp
qed

lemma heap_inv_block:
  assumes "heap_inv h live" "(p, s) \<in> live"
  shows "2 \<le> p" "p + s \<le> h_len h - 2" "4 \<le> s" "h_array h p = - s" "h_array h (p + s - 1) = - s"
    "(q, t) \<in> live \<Longrightarrow> (q, t) = (p, s) \<or> p + s \<le> q \<or> q + t \<le> p"
proof -
  obtain mid fl where m: "heap_mid h mid fl" "live = allocated (blocks 2 mid)"
    using assms(1) by (auto simp: heap_inv_def)
  have b: "(p, - s) \<in> set (blocks 2 mid)" "0 < s" using assms(2) m(2) by (auto simp: allocated_def)
  then have T: "(p, - s) \<in> set (blocks 0 (-2 # mid @ [-2]))" by simp
  have len: "tot mid = h_len h - 4" using m(1) by (simp add: heap_mid_def hole_def)
  show "2 \<le> p" "p + s \<le> h_len h - 2" "4 \<le> s"
    using blocks_range [OF b(1)] len m(1) b(2) by (auto simp: heap_mid_def)
  show "h_array h p = - s" "h_array h (p + s - 1) = - s"
    using tiledD [OF heap_mid_tiled [OF m(1)] T] b(2) by simp_all
  assume "(q, t) \<in> live"
  then have "(q, - t) \<in> set (blocks 0 (-2 # mid @ [-2]))" "0 < t" using m(2) by (auto simp: allocated_def)
  then show "(q, t) = (p, s) \<or> p + s \<le> q \<or> q + t \<le> p"
    using regionD(6) [OF heap_mid_region [OF m(1)] T, of q "- t"] b(2) by auto
qed

lemma heap_inv_store:
  assumes "heap_inv h live" "(p, s) \<in> live" "p < k" "k < p + s - 1"
  shows "heap_inv (h\<lparr>h_array := (h_array h)(k := v)\<rparr>) live"
proof -
  obtain mid fl where hm: "heap_fits h" "heap_mid h mid fl" "live = allocated (blocks 2 mid)"
    using assms(1) by (auto simp: heap_inv_def)
  then have b: "(p, - s) \<in> set (blocks 2 mid)" "0 < s" using assms(2) by (auto simp: allocated_def)
  then obtain m1 m2 where m: "mid = m1 @ (- s) # m2" "p = 2 + tot m1" by (auto simp: blocks_split)
  let ?a = "(h_array h)(k := v)" and ?xs = "-2 # m1" and ?ys = "m2 @ [-2]"
  have hl: "hole h ?xs 0 (- s # ?ys) fl" using hm(2) m(1) hole_split by (simp add: heap_mid_def)
  have "hole h ?xs \<bar>- s\<bar> ?ys fl" using hole_taken [OF hl] b(2) by simp
  note keep = inside_keep [OF this, of ?a]
  have in_hole: "?a i \<noteq> h_array h i \<Longrightarrow> tot ?xs \<le> i \<and> i < tot ?xs + \<bar>- s\<bar>" for i
    using assms(3,4) m(2) b(2) by (auto split: if_splits)
  have "hole (h\<lparr>h_array := ?a\<rparr>) ?xs 0 (- s # ?ys) fl"
    using hl keep [OF in_hole] assms(3,4) m(2) b(2) by (simp add: hole_def outside_def)
  then have "heap_mid (h\<lparr>h_array := ?a\<rparr>) mid fl" using hm(2) m(1) hole_split by (simp add: heap_mid_def)
  then show ?thesis using hm(1,3) by (auto simp: heap_inv_def heap_fits_def)
qed

text \<open>An allocation and a release, in terms of the live blocks.\<close>

lemma malloc_live:
  assumes "heap_inv h live" "bytes \<noteq> 0" "bytes \<le> 0xFFFFFFFC"
  shows "(malloc bytes h = Some (Inr (0, h)) \<and>
        (\<exists>fl. linked (h_array h) (h_avail h) fl \<and> (\<forall>x \<in> set fl. h_array h x < request_ints bytes)))
    \<or> (\<exists>h' p s. malloc bytes h = Some (Inr (block_pointer h p, h')) \<and> block_pointer h p \<noteq> 0
        \<and> block_index h (block_pointer h p) = p \<and> h_array h' p = - s
        \<and> heap_inv h' (insert (p, s) live) \<and> request_ints bytes \<le> s \<and> (p, s) \<notin> live
        \<and> h_base h' = h_base h \<and> h_len h' = h_len h \<and> heap_count h' = heap_count h + 1
        \<and> (\<forall>q t k. (q, t) \<in> live \<longrightarrow> q \<le> k \<longrightarrow> k < q + t \<longrightarrow> h_array h' k = h_array h k))"
proof -
  obtain mid fl where hm: "heap_fits h" "heap_mid h mid fl" "live = allocated (blocks 2 mid)"
    using assms(1) by (auto simp: heap_inv_def)
  from malloc_ok [OF hm(1,2) assms(2) request_ints_bounds(1) [OF assms(3)]] show ?thesis
  proof
    assume none: "malloc bytes h = Some (Inr (0, h)) \<and> (\<forall>(p, b) \<in> set (blocks 2 mid). b < request_ints bytes)"
    have "h_array h x < request_ints bytes" if "x \<in> set fl" for x
      using none heap_mid_free_block(5) [OF hm(2) that] by blast
    with none heap_mid_linked [OF hm(2)] show ?thesis by blast
  next
    assume "\<exists>h' p s. malloc bytes h = Some (Inr (block_pointer h p, h')) \<and> 0 < p \<and> p + 3 < h_len h \<and> 0 < h_array h p
        \<and> heap_inv h' (insert (p, s) (allocated (blocks 2 mid))) \<and> request_ints bytes \<le> s
        \<and> h_base h' = h_base h \<and> h_len h' = h_len h \<and> heap_count h' = heap_count h + 1
        \<and> (\<forall>q t k. (q, t) \<in> allocated (blocks 2 mid) \<longrightarrow> q \<le> k \<longrightarrow> k < q + t \<longrightarrow> h_array h' k = h_array h k)"
    then obtain h' p s where r: "malloc bytes h = Some (Inr (block_pointer h p, h'))" "0 < p" "p + 3 < h_len h"
      "0 < h_array h p" "heap_inv h' (insert (p, s) live)" "request_ints bytes \<le> s" "h_base h' = h_base h \<and> h_len h' = h_len h"
      "heap_count h' = heap_count h + 1"
      "\<forall>q t k. (q, t) \<in> live \<longrightarrow> q \<le> k \<longrightarrow> k < q + t \<longrightarrow> h_array h' k = h_array h k"
      unfolding hm(3) by blast
    have "uint (block_pointer h p) = uint (h_base h) + 4 * (p + 1)"
      using block_pointer_uint [OF hm(1)] r(2,3) by simp
    then have "0 < uint (block_pointer h p)" using hm(1) r(2) by (simp add: heap_fits_def)
    then have "block_pointer h p \<noteq> 0" by auto
    moreover have "block_index h (block_pointer h p) = p" using block_index_pointer [OF hm(1)] r(2,3) by simp
    moreover have "h_array h' p = - s" using heap_inv_block(4) [OF r(5)] by simp
    moreover have "(p, s) \<notin> live" using heap_inv_block(3,4) [OF assms(1), of p s] r(4) by auto
    ultimately show ?thesis using r by (intro disjI2 exI [of _ h'] exI [of _ p] exI [of _ s]) simp
  qed
qed

lemma heap_reach_inv: "heap_reach h live \<Longrightarrow> heap_inv h live"
proof (induction rule: heap_reach.induct)
  case (start base bytes junk safe h)
  then show ?case using heap_setup_ok [of base bytes junk safe] by auto
next
  case (locked h live l)
  then show ?case by (auto simp: heap_inv_def heap_fits_def heap_mid_def hole_def)
next
  case (alloc h live bytes ptr h' p)
  then show ?case using malloc_live [OF alloc.IH alloc.hyps(2,3)] by auto
next
  case (release h live p s h')
  then show ?case using free_ok [OF release.IH release.hyps(2)] by auto
next
  case (store h live p s k v)
  then show ?case using heap_inv_store by blast
qed

lemma heap_inv_empty:
  assumes "heap_inv h {}" "linked (h_array h) (h_avail h) fl"
  shows "fl = [2] \<and> h_array h 2 = h_len h - 4"
proof -
  obtain mid fl' where hm: "heap_fits h" "heap_mid h mid fl'" "allocated (blocks 2 mid) = {}"
    using assms(1) by (auto simp: heap_inv_def)
  have len: "tot mid = h_len h - 4" "8 \<le> h_len h" using hm(1,2) by (simp_all add: heap_mid_def hole_def heap_fits_def)
  have "\<not> b < 0" if "b \<in> set mid" for b
    using split_list [OF that] hm(3) by (auto split: if_splits)
  moreover have "\<forall>b \<in> set mid. 4 \<le> \<bar>b\<bar>" using hm(2) by (auto simp: heap_mid_def)
  ultimately have "\<forall>b \<in> set mid. 0 < b" by fastforce
  moreover have "successively not_both_free mid" using hm(2) by (auto simp: heap_mid_def)
  ultimately obtain b where b: "mid = [b]" "0 < b"
    using len by (cases mid rule: remdups_adj.cases) auto
  have "set fl' = {2}" "distinct fl'" using heap_mid_frees [OF hm(2)] hm(2) b by (simp_all add: heap_mid_def hole_def)
  then have "fl' = [2]" by (cases fl' rule: remdups_adj.cases) auto
  then have head: "h_avail h = 2" "h_array h 3 = 0" using heap_mid_linked [OF hm(2)] by (auto simp: linked_def)
  have tag: "h_array h 2 = b" using tiledD [OF heap_mid_tiled [OF hm(2)], of 2 b] b by simp
  have "b = h_len h - 4" using len(1) b by simp
  moreover have "fl = [2]"
    using assms(2) head tag calculation len(2) by (cases fl rule: remdups_adj.cases) (auto simp: linked_def)
  ultimately show ?thesis using tag by simp
qed

lemma malloc_empty:
  assumes "heap_inv h {}" "bytes \<noteq> 0" "bytes \<le> 0xFFFFFFFC" "request_ints bytes \<le> h_len h - 4"
  shows "\<exists>p h' s. malloc bytes h = Some (Inr (block_pointer h p, h')) \<and> block_pointer h p \<noteq> 0
    \<and> block_index h (block_pointer h p) = p \<and> h_array h' p = - s \<and> h_base h' = h_base h"
  using malloc_live [OF assms(1-3)]
proof (elim disjE exE conjE, goal_cases)
  case (1 fl)
  then show ?case using heap_inv_empty [OF assms(1), of fl] assms(4) by simp
qed blast

text \<open>The start of the heap: the lock is the first block.\<close>

lemma heapInit_ok:
  assumes "0 < uint base" "uint base + uint bytes \<le> 2 ^ 32" "32 \<le> uint bytes"
    and "lock_size \<noteq> 0" "lock_size \<le> 0xFFFFFFFC" "request_ints lock_size \<le> uint (bytes div 4) - 4"
  shows "\<exists>h p s. heapInit base bytes lock_size junk safe = Some (Inr h) \<and> h_lock h = block_pointer h p
    \<and> heap_reach h {(p, s)}"
proof -
  obtain h where h: "heap_setup base bytes junk safe = Inr h" "heap_inv h {}" "h_len h = uint (bytes div 4)"
    using heap_setup_ok [OF assms(1-3)] by blast
  have r: "heap_reach h {}" using heap_reach.start [OF h(1) assms(1-3)] .
  obtain p h' s where m: "malloc lock_size h = Some (Inr (block_pointer h p, h'))" "block_pointer h p \<noteq> 0"
    "block_index h (block_pointer h p) = p" "h_array h' p = - s" "h_base h' = h_base h"
    using malloc_empty [OF h(2) assms(4,5)] assms(6) h(3) by auto
  let ?h = "h'\<lparr>h_lock := block_pointer h p\<rparr>"
  have "heapInit base bytes lock_size junk safe = Some (Inr ?h)"
    using h(1) m(1,2) by (simp add: heapInit_def operator_new_def)
  moreover have "h_lock ?h = block_pointer ?h p" using m(5) by (simp add: block_pointer_def)
  moreover have "heap_reach ?h {(p, s)}"
    using heap_reach.locked [OF heap_reach.alloc [OF r assms(4,5) m(1,2) refl]] m(3,4) by simp
  ultimately show ?thesis by blast
qed

text \<open>C5. Allocation from a heap in use. \<open>malloc\<close> of any size up to \<open>0xFFFFFFFC\<close> returns. A null result means
  that no block on the free list is large enough, and the heap is unchanged. Otherwise the pointer
  points one int behind the header of a block inside the array that overlaps no live block, whose
  payload holds the requested bytes; every live block keeps its contents and the new block is live.\<close>

theorem malloc_fresh_block:
  assumes "heap_reach h live" "bytes \<noteq> 0" "bytes \<le> 0xFFFFFFFC"
  shows "\<exists>ptr h'. malloc bytes h = Some (Inr (ptr, h')) \<and>
    (if ptr = 0
     then h' = h \<and> (\<exists>fl. linked (h_array h) (h_avail h) fl \<and> (\<forall>x \<in> set fl. h_array h x < request_ints bytes))
     else \<exists>p s. uint ptr = uint (h_base h) + 4 * (p + 1) \<and> 2 \<le> p \<and> p + s \<le> h_len h - 2
       \<and> uint bytes \<le> 4 * (s - 2)
       \<and> (\<forall>(q, t) \<in> live. p + s \<le> q \<or> q + t \<le> p)
       \<and> (\<forall>(q, t) \<in> live. \<forall>k \<in> {q..<q + t}. h_array h' k = h_array h k)
       \<and> heap_reach h' (insert (p, s) live))"
proof -
  note inv = heap_reach_inv [OF assms(1)]
  from malloc_live [OF inv assms(2,3)] show ?thesis
  proof (elim disjE exE conjE, goal_cases)
    case (2 h' p s)
    note inv' = heap_inv_block [OF 2(5), of p s]
    have reach: "heap_reach h' (insert (p, s) live)"
      using heap_reach.alloc [OF assms 2(1,2) refl] 2(3,4) by simp
    have ptr: "uint (block_pointer h p) = uint (h_base h) + 4 * (p + 1)"
      using block_pointer_uint [of h p] inv inv'(1-3) 2(9) by (simp add: heap_inv_def)
    have "p + s \<le> q \<or> q + t \<le> p" if "(q, t) \<in> live" for q t
      using inv'(6) [of q t] that 2(7) by auto
    moreover have "uint bytes \<le> 4 * (s - 2)" using 2(6) by (intro order_trans [OF request_ints_bounds(2) [OF assms(3)]]) simp
    ultimately show ?case
      using 2 reach ptr inv'(1-3) by (intro exI [of _ "block_pointer h p"] exI [of _ h']) (auto intro!: exI [of _ p] exI [of _ s])
  qed auto
qed

theorem malloc_fresh_block_witness:
  "\<exists>h ptr h'. heap_reach h {} \<and> malloc 100 h = Some (Inr (ptr, h')) \<and> uint (100 :: u32) \<le> 400
    \<and> (ptr = 0 \<or> (\<exists>p s. uint ptr = uint (h_base h) + 4 * (p + 1) \<and> 100 \<le> 4 * (s - 2) \<and> heap_reach h' {(p, s)}))"
proof -
  obtain h where "heap_setup 0x200000 0x1000 (\<lambda>_. 7) True = Inr h" using heap_setup_ok [of "0x200000" "0x1000"] by auto
  then have r: "heap_reach h {}" by (rule heap_reach.start) simp_all
  from malloc_fresh_block [OF r, of 100] show ?thesis using r by (simp split: if_splits) blast
qed

text \<open>C6. Releasing a block. For every block that a client of a heap in use holds, \<open>free\<close> of the pointer that
  \<open>malloc\<close> returned for it returns without a panic or an access outside the array; the block is no
  longer live and every other live block keeps its contents.\<close>

theorem free_live_block:
  assumes "heap_reach h live" "(p, s) \<in> live"
  shows "\<exists>h'. free (block_pointer h p) h = Inr h' \<and> heap_reach h' (live - {(p, s)})
    \<and> heap_count h' = heap_count h - 1
    \<and> (\<forall>(q, t) \<in> live - {(p, s)}. \<forall>k \<in> {q..<q + t}. h_array h' k = h_array h k)"
proof -
  obtain h' where "free (block_pointer h p) h = Inr h'" "heap_count h' = heap_count h - 1"
    and keep: "\<forall>q t k. (q, t) \<in> live - {(p, s)} \<longrightarrow> q \<le> k \<longrightarrow> k < q + t \<longrightarrow> h_array h' k = h_array h k"
    using free_ok [OF heap_reach_inv [OF assms(1)] assms(2)] by blast
  moreover have "\<forall>(q, t) \<in> live - {(p, s)}. \<forall>k \<in> {q..<q + t}. h_array h' k = h_array h k"
    using keep unfolding Ball_def split_paired_All by simp
  ultimately show ?thesis using heap_reach.release [OF assms] by blast
qed

theorem free_live_block_witness:
  "\<exists>h p s h'. heapInit 0x200000 0x1000 12 (\<lambda>_. 7) True = Some (Inr h) \<and> heap_reach h {(p, s)}
    \<and> free (block_pointer h p) h = Inr h' \<and> heap_reach h' {} \<and> heap_count h' = heap_count h - 1"
proof -
  obtain h p s where h: "heapInit 0x200000 0x1000 12 (\<lambda>_. 7) True = Some (Inr h)" "heap_reach h {(p, s)}"
    using heapInit_ok [of "0x200000" "0x1000" 12 "\<lambda>_. 7" True] by (auto simp: request_ints_def)
  from free_live_block [OF h(2), of p s] show ?thesis using h by auto
qed

text \<open>C23. The heap does not fragment for good. Whatever was allocated, written and released before: once no block
  is live, \<open>malloc\<close> again serves every request of up to the whole array less its two sentinels.\<close>

theorem heap_whole_again:
  assumes "heap_reach h {}" "bytes \<noteq> 0" "bytes \<le> 0xFFFFFFFC" "request_ints bytes \<le> h_len h - 4"
  shows "\<exists>p s h'. malloc bytes h = Some (Inr (block_pointer h p, h')) \<and> block_pointer h p \<noteq> 0
    \<and> heap_reach h' {(p, s)}"
proof -
  obtain p h' s where m: "malloc bytes h = Some (Inr (block_pointer h p, h'))" "block_pointer h p \<noteq> 0"
    "block_index h (block_pointer h p) = p" "h_array h' p = - s"
    using malloc_empty [OF heap_reach_inv [OF assms(1)] assms(2-4)] by blast
  then show ?thesis using heap_reach.alloc [OF assms(1-3) m(1,2) refl] by auto
qed

theorem heap_whole_again_witness:
  "\<exists>h p s h'. heap_setup 0x200000 0x1000 (\<lambda>_. 7) True = Inr h \<and> malloc 4072 h = Some (Inr (block_pointer h p, h'))
    \<and> block_pointer h p \<noteq> 0 \<and> heap_reach h' {(p, s)}"
proof -
  obtain h where h: "heap_setup 0x200000 0x1000 (\<lambda>_. 7) True = Inr h" "h_len h = 1024"
    using heap_setup_ok [of "0x200000" "0x1000"] by auto
  then have r: "heap_reach h {}" by (intro heap_reach.start [OF h(1)]) simp_all
  from heap_whole_again [OF r, of 4072] show ?thesis using h by (simp add: request_ints_def)
qed

end
