(* ===== verification/Idt.thy ===== *)
theory Idt
  imports Prelude
begin

text \<open>
  The interrupt descriptor table of \<^verbatim>\<open>kernel/idt.cc\<close>: an array of words in which gate \<open>i\<close> occupies
  the words \<open>2 * i\<close> and \<open>2 * i + 1\<close>. The table is a function on its word indices and the selector of
  the kernel's code segment, which the boot code defines, is a parameter.
\<close>

section \<open>Gates\<close>

type_synonym idt = "int \<Rightarrow> u32"

definition idt_interrupt :: "u32 \<Rightarrow> int \<Rightarrow> u32 \<Rightarrow> idt \<Rightarrow> idt" where
  "idt_interrupt kernelCS index handler t =
     (let i0 = 2 * index; i1 = i0 + 1
      in t(i0 := push_bit 16 kernelCS + (handler AND 0xffff),
           i1 := (handler AND 0xffff0000) OR 0x8e00))"

definition idt_trap :: "u32 \<Rightarrow> int \<Rightarrow> u32 \<Rightarrow> u32 \<Rightarrow> idt \<Rightarrow> idt" where
  "idt_trap kernelCS index handler dpl t =
     (let i0 = 2 * index; i1 = i0 + 1
      in t(i0 := push_bit 16 kernelCS + (handler AND 0xffff),
           i1 := (handler AND 0xffff0000) OR 0x8f00 OR push_bit 13 dpl))"

section \<open>What the processor reads from a gate\<close>

text \<open>
  The format of a 32-bit gate: the halves of the handler's address at either end, the selector, and
  between them the present bit, the privilege level and the type (14 for an interrupt gate, 15 for a
  trap gate).
\<close>

definition gate_offset :: "idt \<Rightarrow> int \<Rightarrow> u32" where
  "gate_offset t i = (t (2 * i + 1) AND 0xffff0000) OR (t (2 * i) AND 0xffff)"

definition gate_selector :: "idt \<Rightarrow> int \<Rightarrow> u32" where
  "gate_selector t i = drop_bit 16 (t (2 * i))"

definition gate_present :: "idt \<Rightarrow> int \<Rightarrow> bool" where
  "gate_present t i = bit (t (2 * i + 1)) 15"

definition gate_dpl :: "idt \<Rightarrow> int \<Rightarrow> u32" where
  "gate_dpl t i = drop_bit 13 (t (2 * i + 1)) AND 3"

definition gate_type :: "idt \<Rightarrow> int \<Rightarrow> u32" where
  "gate_type t i = drop_bit 8 (t (2 * i + 1)) AND 15"

definition same_gate :: "idt \<Rightarrow> idt \<Rightarrow> int \<Rightarrow> bool" where
  "same_gate t t' i \<longleftrightarrow> t (2 * i) = t' (2 * i) \<and> t (2 * i + 1) = t' (2 * i + 1)"

lemma low_half: "bit (0xffff :: u32) n \<longleftrightarrow> n < 16"
proof -
  have "(0xffff :: u32) = mask 16" by (simp add: mask_eq_exp_minus_1)
  then show ?thesis by (simp only: bit_mask_iff) auto
qed

lemma high_half: "bit (0xffff0000 :: u32) n \<longleftrightarrow> 16 \<le> n \<and> n < 32"
proof -
  have "(0xffff0000 :: u32) = push_bit 16 (mask 16)" by (simp add: mask_eq_exp_minus_1 push_bit_eq_mult)
  then show ?thesis by (simp only: bit_mask_iff bit_push_bit_iff) auto
qed

lemma selector_word: "push_bit 16 cs + (h AND 0xffff) = push_bit 16 cs OR (h AND (0xffff :: u32))"
  by (rule disjunctive_add) (simp only: bit_push_bit_iff bit_and_iff low_half, linarith)

lemma handler_halves: "(h AND 0xffff0000) OR (h AND 0xffff) = (h :: u32)"
proof (rule bit_word_eqI)
  fix n assume "n < LENGTH(32)"
  then show "bit ((h AND 0xffff0000) OR (h AND 0xffff)) n = bit h n"
    by (simp only: bit_or_iff bit_and_iff low_half high_half) auto
qed

lemma low_flags: "(f :: u32) < 0x10000 \<Longrightarrow> bit f n \<Longrightarrow> n < 16"
proof (rule ccontr)
  assume f: "f < 0x10000" "bit f n" "\<not> n < 16"
  have "unat f < 2 ^ 16" using f(1) by (simp add: word_less_nat_alt)
  also have "(2 :: nat) ^ 16 \<le> 2 ^ n" using f(3) by (intro power_increasing) simp_all
  finally have "unat (drop_bit n f) = 0" by (simp only: unat_drop_bit_eq) (simp add: drop_bit_eq_div)
  then have "drop_bit n f = 0" by (simp only: unat_eq_zero)
  then show False using f(2) by (simp add: bit_iff_odd_drop_bit)
qed

lemma high_of_word: "(f :: u32) < 0x10000 \<Longrightarrow> ((h AND 0xffff0000) OR f) AND 0xffff0000 = h AND 0xffff0000"
  by (rule bit_word_eqI) (simp only: bit_or_iff bit_and_iff high_half, auto dest!: low_flags)

lemma low_of_word: "(push_bit 16 cs OR (h AND 0xffff)) AND 0xffff = h AND (0xffff :: u32)"
  by (rule bit_word_eqI) (simp only: bit_or_iff bit_and_iff low_half bit_push_bit_iff, linarith)

lemma selector_of_word: "drop_bit 16 (push_bit 16 cs OR (h AND 0xffff)) = take_bit 16 (cs :: u32)"
  by (rule bit_word_eqI) (auto simp: bit_or_iff bit_and_iff low_half bit_push_bit_iff bit_drop_bit_eq bit_take_bit_iff)

text \<open>A field below bit 16 of the second word does not see the handler.\<close>

lemma field_of_word:
  fixes h f :: u32
  assumes "a + b \<le> 16"
  shows "drop_bit a ((h AND 0xffff0000) OR f) AND mask b = drop_bit a f AND mask b"
  by (rule bit_word_eqI)
    (use assms in \<open>auto simp only: bit_or_iff bit_and_iff high_half bit_drop_bit_eq o_def bit_mask_iff\<close>)

lemma masks: "(15 :: u32) = mask 4" "(3 :: u32) = mask 2"
  by (simp_all add: mask_eq_exp_minus_1)

lemma present_of_word: "bit ((h AND 0xffff0000) OR f) 15 \<longleftrightarrow> bit f 15" for h f :: u32
  by (simp only: bit_or_iff bit_and_iff high_half) simp

lemmas gate_defs = gate_offset_def gate_selector_def gate_present_def gate_dpl_def gate_type_def same_gate_def

lemma gate_written:
  assumes "f < 0x10000" "t' = t(2 * i := push_bit 16 cs + (h AND 0xffff), 2 * i + 1 := (h AND 0xffff0000) OR f)"
  shows "gate_offset t' i = h" "gate_selector t' i = take_bit 16 cs" "gate_present t' i = bit f 15"
    "gate_dpl t' i = drop_bit 13 f AND 3" "gate_type t' i = drop_bit 8 f AND 15" "j \<noteq> i \<Longrightarrow> same_gate t' t j"
proof -
  show "gate_offset t' i = h"
    using assms by (simp add: gate_offset_def selector_word high_of_word low_of_word handler_halves)
  show "gate_selector t' i = take_bit 16 cs"
  proof -
    have "t' (2 * i) = push_bit 16 cs OR (h AND 0xffff)" using assms(2) by (simp add: selector_word)
    then show ?thesis by (simp only: gate_selector_def selector_of_word)
  qed
  show "gate_present t' i = bit f 15" using assms by (simp add: gate_present_def present_of_word)
  show "gate_dpl t' i = drop_bit 13 f AND 3" "gate_type t' i = drop_bit 8 f AND 15"
    using assms(2) field_of_word [of 13 2 h f] field_of_word [of 8 4 h f] by (simp_all add: gate_defs masks)
  assume "j \<noteq> i"
  moreover have "2 * j \<noteq> 2 * i + 1" "2 * i \<noteq> 2 * j + 1" by presburger+
  ultimately show "same_gate t' t j" using assms(2) by (simp add: same_gate_def)
qed

lemma four_levels: "(dpl :: u32) < 4 \<Longrightarrow> dpl = 0 \<or> dpl = 1 \<or> dpl = 2 \<or> dpl = 3"
  by (auto simp: word_less_nat_alt word_unat_eq_iff)

text \<open>Interrupt gates round trip. After registering a handler the processor finds in its gate the handler's
  full address, the kernel's selector, the present bit, the gate's type and its privilege level, which
  is \<open>0\<close> for an interrupt and the requested one for a trap; no other gate changes.\<close>

theorem idt_gates_roundtrip:
  assumes "dpl < 4"
  shows "gate_offset (idt_interrupt cs i h t) i = h \<and> gate_selector (idt_interrupt cs i h t) i = take_bit 16 cs
      \<and> gate_present (idt_interrupt cs i h t) i \<and> gate_dpl (idt_interrupt cs i h t) i = 0
      \<and> gate_type (idt_interrupt cs i h t) i = 14
    \<and> gate_offset (idt_trap cs i h dpl t) i = h \<and> gate_selector (idt_trap cs i h dpl t) i = take_bit 16 cs
      \<and> gate_present (idt_trap cs i h dpl t) i \<and> gate_dpl (idt_trap cs i h dpl t) i = dpl
      \<and> gate_type (idt_trap cs i h dpl t) i = 15
    \<and> (j \<noteq> i \<longrightarrow> same_gate (idt_interrupt cs i h t) t j \<and> same_gate (idt_trap cs i h dpl t) t j)"
proof -
  let ?f = "0x8f00 OR push_bit 13 dpl"
  have f: "?f < 0x10000" "bit ?f 15" "drop_bit 13 ?f AND 3 = dpl" "drop_bit 8 ?f AND 15 = 15"
    using four_levels [OF assms] by auto
  have e: "(0x8e00 :: u32) < 0x10000" by simp
  have "idt_interrupt cs i h t = t(2 * i := push_bit 16 cs + (h AND 0xffff), 2 * i + 1 := (h AND 0xffff0000) OR 0x8e00)"
    by (simp add: idt_interrupt_def Let_def)
  note int = gate_written [OF e this]
  have "idt_trap cs i h dpl t = t(2 * i := push_bit 16 cs + (h AND 0xffff), 2 * i + 1 := (h AND 0xffff0000) OR ?f)"
    by (simp add: idt_trap_def Let_def or.assoc)
  note trp = gate_written [OF f(1) this]
  show ?thesis using int trp f by simp
qed

theorem idt_gates_roundtrip_witness:
  "gate_offset (idt_trap 8 14 0x12345678 3 (\<lambda>_. 0)) 14 = 0x12345678
    \<and> gate_dpl (idt_trap 8 14 0x12345678 3 (\<lambda>_. 0)) 14 = 3
    \<and> same_gate (idt_trap 8 14 0x12345678 3 (\<lambda>_. 0)) (\<lambda>_. 0) 40"
  using idt_gates_roundtrip [of 3 8 14 "0x12345678" "\<lambda>_. 0" 40] by simp

end
