(* ===== verification/Physical_Memory.thy ===== *)
theory Physical_Memory
  imports User_Memory Idt
begin

text \<open>
  Physical memory and the allocator of frames of \<^verbatim>\<open>kernel/physmem.cc\<close>. Memory is a function from
  addresses to bytes; words are little-endian. The free frames form a list through their first
  words. \<open>alloc_frame\<close> and \<open>dealloc_frame\<close> run under the lock of the allocator and are atomic.
\<close>

section \<open>Memory\<close>

type_synonym memory = "u32 \<Rightarrow> u8"

definition load32 :: "memory \<Rightarrow> u32 \<Rightarrow> u32" where
  "load32 m a = ucast (m a) OR push_bit 8 (ucast (m (a + 1))) OR push_bit 16 (ucast (m (a + 2)))
     OR push_bit 24 (ucast (m (a + 3)))"

definition store32 :: "u32 \<Rightarrow> u32 \<Rightarrow> memory \<Rightarrow> memory" where
  "store32 a v m = m(a := ucast v, a + 1 := ucast (drop_bit 8 v), a + 2 := ucast (drop_bit 16 v),
     a + 3 := ucast (drop_bit 24 v))"

text \<open>\<open>bzero\<close> and \<open>memcpy\<close> of the machine layer, for ranges that do not wrap around.\<close>

definition bzero :: "u32 \<Rightarrow> u32 \<Rightarrow> memory \<Rightarrow> memory" where
  "bzero p n m = (\<lambda>a. if unat p \<le> unat a \<and> unat a < unat p + unat n then 0 else m a)"

definition memcpy :: "u32 \<Rightarrow> u32 \<Rightarrow> u32 \<Rightarrow> memory \<Rightarrow> memory" where
  "memcpy d s n m = (\<lambda>a. if unat d \<le> unat a \<and> unat a < unat d + unat n then m (s + (a - d)) else m a)"

section \<open>Frames\<close>

definition offset :: "u32 \<Rightarrow> u32" where
  "offset pa = pa AND 0xFFF"

definition ppn :: "u32 \<Rightarrow> u32" where
  "ppn pa = drop_bit 12 pa"

definition framedown :: "u32 \<Rightarrow> u32" where
  "framedown pa = (pa div FRAME_SIZE) * FRAME_SIZE"

definition frameup :: "u32 \<Rightarrow> u32" where
  "frameup pa = framedown (pa + FRAME_SIZE - 1)"

record phys =
  pm_mem :: memory
  firstFree :: u32
  avail :: u32
  limit :: u32
  leak_count :: u32

definition alloc_frame :: "phys \<Rightarrow> (u32 \<times> phys) outcome" where
  "alloc_frame s =
     bind_ok
       (if firstFree s \<noteq> 0 then
          let p = firstFree s
          in Inr (p, s\<lparr>firstFree := load32 (pm_mem s) p\<rparr>)
        else if avail s = limit s then Inl Panic
        else Inr (avail s, s\<lparr>avail := avail s + FRAME_SIZE\<rparr>))
       (\<lambda>(p, s). bind_ok (assert (offset p = 0)) (\<lambda>_.
          Inr (p, s\<lparr>pm_mem := bzero p FRAME_SIZE (pm_mem s), leak_count := leak_count s + 1\<rparr>)))"

definition dealloc_frame :: "u32 \<Rightarrow> phys \<Rightarrow> phys outcome" where
  "dealloc_frame p s =
     bind_ok (assert (offset p = 0)) (\<lambda>_.
       Inr (s\<lparr>pm_mem := store32 p (firstFree s) (pm_mem s), firstFree := p, leak_count := leak_count s - 1\<rparr>))"

text \<open>Initialization also registers the handler of page faults.\<close>

definition physmem_init :: "u32 \<Rightarrow> u32 \<Rightarrow> u32 \<Rightarrow> u32 \<Rightarrow> phys \<times> idt \<Rightarrow> (phys \<times> idt) outcome" where
  "physmem_init kernelCS pageFaultHandler start bytes = (\<lambda>(s, t).
     bind_ok (assert (offset start = 0)) (\<lambda>_. bind_ok (assert (offset bytes = 0)) (\<lambda>_.
       Inr (s\<lparr>avail := start, limit := start + bytes\<rparr>, idt_trap kernelCS 14 pageFaultHandler 3 t))))"

section \<open>Words in memory\<close>

lemma store_bytes [simp]:
  "store32 a v m a = ucast v" "store32 a v m (a + 1) = ucast (drop_bit 8 v)"
  "store32 a v m (a + 2) = ucast (drop_bit 16 v)" "store32 a v m (a + 3) = ucast (drop_bit 24 v)"
  by (simp_all add: store32_def)

lemma load_store_same [simp]: "load32 (store32 a v m) a = v"
proof (rule bit_word_eqI)
  fix n assume "n < LENGTH(32)"
  then consider "n < 8" | "8 \<le> n" "n < 16" | "16 \<le> n" "n < 24" | "24 \<le> n" "n < 32" by fastforce
  then show "bit (load32 (store32 a v m) a) n = bit v n"
    by cases (auto simp: load32_def bit_or_iff bit_push_bit_iff bit_ucast_iff bit_drop_bit_eq)
qed

text \<open>Addresses of words and of frames.\<close>

definition word_aligned :: "u32 \<Rightarrow> bool" where
  "word_aligned a \<longleftrightarrow> unat a mod 4 = 0"

definition in_frame :: "u32 \<Rightarrow> u32 \<Rightarrow> bool" where
  "in_frame p a \<longleftrightarrow> unat p \<le> unat a \<and> unat a < unat p + 4096"

lemma unat_FRAME_SIZE [simp]: "unat FRAME_SIZE = 4096"
  by (simp add: FRAME_SIZE_def)

lemma offset_unat: "unat (offset p) = unat p mod 4096"
proof -
  have "offset p = take_bit 12 p" by (simp add: offset_def take_bit_eq_mask mask_eq_exp_minus_1)
  then show ?thesis by (simp add: take_bit_eq_mod unat_mod_distrib)
qed

lemma offset_zero: "offset p = 0 \<longleftrightarrow> unat p mod 4096 = 0"
  by (simp only: offset_unat [symmetric] unat_eq_zero)

lemma frame_number: "offset p = 0 \<Longrightarrow> \<exists>k. unat p = 4096 * k"
  using dvd_def [of 4096 "unat p"] by (simp only: offset_zero mod_0_imp_dvd)

lemma frame_room:
  assumes "offset p = 0"
  shows "unat p + 4096 \<le> 4294967296"
proof -
  obtain k where k: "unat p = 4096 * k" using frame_number [OF assms] by blast
  have "4096 * k < 4096 * 1048576" unfolding k [symmetric] using unat_u32_less [of p] by simp
  then have "k < 1048576" by simp
  then show ?thesis unfolding k by linarith
qed

lemma unat_word_byte:
  assumes "word_aligned a" "i < 4"
  shows "unat (a + of_nat i) = unat a + i"
proof -
  obtain k where k: "unat a = 4 * k" using assms(1) by (auto simp: word_aligned_def)
  have "4 * k < 4 * 1073741824" unfolding k [symmetric] using unat_u32_less [of a] by simp
  then have "unat a + 4 \<le> 4294967296" unfolding k by simp
  then show ?thesis using assms(2) by (subst unat_plus_exact) (simp_all add: unat_of_nat_exact)
qed


lemma store_elsewhere:
  assumes "word_aligned a" "\<not> (unat a \<le> unat b \<and> unat b < unat a + 4)"
  shows "store32 a v m b = m b"
proof -
  have "b \<noteq> a + of_nat i" if "i < 4" for i using unat_word_byte [OF assms(1) that] assms(2) that by auto
  from this [of 0] this [of 1] this [of 2] this [of 3] show ?thesis by (simp add: store32_def)
qed

lemma load_cong:
  assumes "word_aligned a" "\<And>b. unat a \<le> unat b \<Longrightarrow> unat b < unat a + 4 \<Longrightarrow> m b = m' b"
  shows "load32 m a = load32 m' a"
proof -
  have "m (a + of_nat i) = m' (a + of_nat i)" if "i < 4" for i
    using assms(2) [of "a + of_nat i"] unat_word_byte [OF assms(1) that] that by simp
  from this [of 0] this [of 1] this [of 2] this [of 3] show ?thesis by (simp add: load32_def)
qed

lemma load_store_other: "word_aligned a \<Longrightarrow> word_aligned b \<Longrightarrow> a \<noteq> b \<Longrightarrow> load32 (store32 a v m) b = load32 m b"
proof (rule load_cong)
  fix c :: u32 assume a: "word_aligned a" "word_aligned b" "a \<noteq> b" and c: "unat b \<le> unat c" "unat c < unat b + 4"
  have "unat a \<noteq> unat b" using a(3) by (simp only: word_unat_eq_iff) simp
  then have "\<not> (unat a \<le> unat c \<and> unat c < unat a + 4)" using a(1,2) c unfolding word_aligned_def by presburger
  then show "store32 a v m c = m c" by (rule store_elsewhere [OF a(1)])
qed

lemma frame_word_aligned: "offset p = 0 \<Longrightarrow> word_aligned p"
  by (auto dest!: frame_number simp: word_aligned_def)

lemma in_frame_iff:
  assumes "offset p = 0"
  shows "in_frame p a \<longleftrightarrow> unat a div 4096 = unat p div 4096"
proof -
  obtain k where "unat p = 4096 * k" using frame_number [OF assms] by blast
  then show ?thesis by (auto simp: in_frame_def div_nat_eqI)
qed

lemma frames_apart:
  assumes "offset p = 0" "offset q = 0" "p \<noteq> q" "in_frame p a"
  shows "\<not> in_frame q a"
proof -
  obtain i j where "unat p = 4096 * i" "unat q = 4096 * j" using frame_number assms(1,2) by meson
  moreover have "unat p \<noteq> unat q" using assms(3) by (simp only: word_unat_eq_iff) simp
  ultimately show ?thesis using assms(4) by (simp add: in_frame_iff assms(1,2))
qed

section \<open>The list of free frames\<close>

fun pm_list :: "memory \<Rightarrow> u32 \<Rightarrow> u32 list \<Rightarrow> bool" where
  "pm_list m p [] \<longleftrightarrow> p = 0"
| "pm_list m p (x # xs) \<longleftrightarrow> p = x \<and> pm_list m (load32 m x) xs"

lemma pm_list_frame:
  assumes "\<forall>x \<in> set fl. offset x = 0" "\<forall>x \<in> set fl. \<forall>a. in_frame x a \<longrightarrow> m' a = m a"
  shows "pm_list m' p fl = pm_list m p fl"
  using assms
proof (induction fl arbitrary: p)
  case (Cons x fl)
  have "load32 m' x = load32 m x"
    using Cons.prems by (intro load_cong) (auto simp: in_frame_def frame_word_aligned)
  with Cons show ?case by simp
qed simp

definition frames :: "u32 \<Rightarrow> nat \<Rightarrow> u32 set" where
  "frames lo n = (\<lambda>i. lo + of_nat (4096 * i)) ` {..<n}"

lemma frame_unat:
  fixes lo :: u32
  assumes "unat lo + 4096 * n < 4294967296" "i \<le> n"
  shows "unat (lo + of_nat (4096 * i)) = unat lo + 4096 * i"
proof -
  define x where "x = (of_nat (4096 * i) :: u32)"
  have le: "4096 * i \<le> 4096 * n" using assms(2) by simp
  then have x: "unat x = 4096 * i" unfolding x_def using assms(1) by (intro unat_of_nat_exact) simp
  have "unat (lo + x) = unat lo + 4096 * i" using x le assms(1) by (subst unat_plus_exact) simp_all
  then show ?thesis by (simp only: x_def)
qed

lemma frames_card:
  assumes "unat lo + 4096 * n < 4294967296"
  shows "card (frames lo n) = n" "finite (frames lo n)"
proof -
  have "inj_on (\<lambda>i. lo + of_nat (4096 * i)) {..<n}"
  proof (rule inj_onI)
    fix i j assume ij: "i \<in> {..<n}" "j \<in> {..<n}" "lo + of_nat (4096 * i) = lo + of_nat (4096 * j)"
    then have "unat lo + 4096 * i = unat lo + 4096 * j" by (metis frame_unat [OF assms] lessThan_iff less_imp_le)
    then show "i = j" by simp
  qed
  then show "card (frames lo n) = n" "finite (frames lo n)" by (simp_all add: frames_def card_image)
qed

lemma frames_Suc: "frames lo (Suc n) = insert (lo + of_nat (4096 * n)) (frames lo n)"
  by (simp add: frames_def lessThan_Suc)

lemma frames_range:
  assumes "unat lo + 4096 * n < 4294967296" "offset lo = 0" "p \<in> frames lo n"
  shows "offset p = 0" "unat lo \<le> unat p" "unat p + 4096 \<le> unat lo + 4096 * n"
proof -
  obtain i where i: "i < n" "p = lo + of_nat (4096 * i)" using assms(3) by (auto simp: frames_def)
  then have u: "unat p = unat lo + 4096 * i" using frame_unat [OF assms(1)] by simp
  then show "offset p = 0" using assms(2) by (simp only: offset_zero) simp
  show "unat lo \<le> unat p" "unat p + 4096 \<le> unat lo + 4096 * n" using u i(1) by simp_all
qed

section \<open>Histories of the allocator\<close>

text \<open>
  The allocator in use, with the frames \<open>out\<close> that its clients hold: they allocate, release a frame
  they hold, and write to the frames they hold and to memory that the allocator does not manage.
\<close>

inductive pm_reach :: "u32 \<Rightarrow> u32 \<Rightarrow> phys \<Rightarrow> u32 set \<Rightarrow> bool" for start bytes where
  pm_start: "physmem_init cs handler start bytes (s0, t0) = Inr (s, t) \<Longrightarrow> firstFree s0 = 0 \<Longrightarrow> leak_count s0 = 0 \<Longrightarrow>
    0 < unat start \<Longrightarrow> unat start + unat bytes < 4294967296 \<Longrightarrow> pm_reach start bytes s {}"
| pm_alloc: "pm_reach start bytes s out \<Longrightarrow> alloc_frame s = Inr (p, s') \<Longrightarrow> pm_reach start bytes s' (insert p out)"
| pm_dealloc: "pm_reach start bytes s out \<Longrightarrow> p \<in> out \<Longrightarrow> dealloc_frame p s = Inr s' \<Longrightarrow>
    pm_reach start bytes s' (out - {p})"
| pm_write: "pm_reach start bytes s out \<Longrightarrow>
    (\<And>a. unat start \<le> unat a \<Longrightarrow> unat a < unat start + unat bytes \<Longrightarrow> (\<forall>p \<in> out. \<not> in_frame p a) \<Longrightarrow> m a = pm_mem s a) \<Longrightarrow>
    pm_reach start bytes (s\<lparr>pm_mem := m\<rparr>) out"

definition pm_inv :: "u32 \<Rightarrow> u32 \<Rightarrow> phys \<Rightarrow> u32 set \<Rightarrow> bool" where
  "pm_inv start bytes s out \<longleftrightarrow> offset start = 0 \<and> offset bytes = 0 \<and> 0 < unat start
     \<and> unat start + unat bytes < 4294967296 \<and> limit s = start + bytes
     \<and> leak_count s = of_nat (card out)
     \<and> (\<exists>fl k. pm_list (pm_mem s) (firstFree s) fl \<and> distinct fl \<and> set fl \<inter> out = {} \<and> 4096 * k \<le> unat bytes
          \<and> avail s = start + of_nat (4096 * k) \<and> set fl \<union> out = frames start k)"

lemma pm_inv_range:
  assumes "pm_inv start bytes s out" "p \<in> out"
  shows "offset p = 0" "unat start \<le> unat p" "unat p + 4096 \<le> unat start + unat bytes" "finite out"
proof -
  obtain fl k where k: "4096 * k \<le> unat bytes" "set fl \<union> out = frames start k"
    and st: "offset start = 0" "unat start + unat bytes < 4294967296"
    using assms(1) by (auto simp: pm_inv_def)
  have lt: "unat start + 4096 * k < 4294967296" using k(1) st(2) by linarith
  have "p \<in> frames start k" using assms(2) k(2) by blast
  from frames_range [OF lt st(1) this] k(1)
  show "offset p = 0" "unat start \<le> unat p" "unat p + 4096 \<le> unat start + unat bytes" by simp_all
  show "finite out" using frames_card(2) [OF lt] k(2) by (metis finite_Un)
qed

lemma bzero_frame: "bzero p FRAME_SIZE m a = (if in_frame p a then 0 else m a)"
  by (simp add: bzero_def in_frame_def)

lemma alloc_frame_ok:
  assumes "pm_inv start bytes s out"
  shows "if card out = unat bytes div 4096 then alloc_frame s = Inl Panic
    else \<exists>p s'. alloc_frame s = Inr (p, s') \<and> p \<notin> out \<and> offset p = 0 \<and> pm_inv start bytes s' (insert p out)
      \<and> pm_mem s' = bzero p FRAME_SIZE (pm_mem s)"
proof -
  obtain fl k where k: "4096 * k \<le> unat bytes" "set fl \<union> out = frames start k" "distinct fl" "set fl \<inter> out = {}"
      "pm_list (pm_mem s) (firstFree s) fl" "avail s = start + of_nat (4096 * k)"
    and st: "offset start = 0" "offset bytes = 0" "0 < unat start" "unat start + unat bytes < 4294967296"
      "limit s = start + bytes" "leak_count s = of_nat (card out)"
    using assms(1) by (auto simp: pm_inv_def)
  obtain n where n: "unat bytes = 4096 * n" using frame_number [OF st(2)] by blast
  have lt: "unat start + 4096 * k < 4294967296" using k(1) st(4) by linarith
  note rng = frames_range [OF lt st(1)]
  have fin: "finite out" using frames_card(2) [OF lt] k(2) by (metis finite_Un)
  have cnt: "length fl + card out = k"
    using frames_card(1) [OF lt] k(2-4) fin by (metis card_Un_disjoint distinct_card finite_set)
  have bytes: "bytes = of_nat (4096 * n)" 
  proof -
    have "of_nat (unat bytes) = bytes" by (simp only: of_nat_unat ucast_id)
    then show ?thesis by (simp only: n)
  qed
  show ?thesis
  proof (cases fl)
    case (Cons x xs)
    then have "x \<in> frames start k" using k(2) by auto
    then have x: "offset x = 0" "x \<noteq> 0" "x \<notin> out" using rng [of x] k(4) st(3) Cons by auto
    have ff: "firstFree s = x" "pm_list (pm_mem s) (load32 (pm_mem s) x) xs" using k(5) Cons by auto
    let ?s = "s\<lparr>firstFree := load32 (pm_mem s) x, pm_mem := bzero x FRAME_SIZE (pm_mem s), leak_count := leak_count s + 1\<rparr>"
    have al: "alloc_frame s = Inr (x, ?s)" using ff(1) x by (simp add: alloc_frame_def)
    have "pm_list (bzero x FRAME_SIZE (pm_mem s)) (load32 (pm_mem s) x) xs"
    proof (subst pm_list_frame)
      show "\<forall>y \<in> set xs. offset y = 0" using rng(1) k(2) Cons by auto
      show "\<forall>y \<in> set xs. \<forall>a. in_frame y a \<longrightarrow> bzero x FRAME_SIZE (pm_mem s) a = pm_mem s a"
        using frames_apart [OF _ x(1)] rng(1) k(2,3) Cons by (auto simp: bzero_frame)
    qed (rule ff(2))
    then have "pm_inv start bytes ?s (insert x out)"
      using k st x fin Cons unfolding pm_inv_def by (auto intro!: exI [of _ xs] exI [of _ k])
    then show ?thesis using al x cnt Cons n k(1) by auto
  next
    case Nil
    then have ff: "firstFree s = 0" "card out = k" "out = frames start k" using k(2,5) cnt by auto
    show ?thesis
    proof (cases "k = n")
      case True
      then have "alloc_frame s = Inl Panic" using ff k(6) st(5) bytes by (simp add: alloc_frame_def)
      then show ?thesis using True ff(2) n by simp
    next
      case False
      let ?p = "start + of_nat (4096 * k)"
      have kn: "k < n" using False k(1) n by simp
      then have "4096 * Suc k \<le> unat bytes" using n by simp
      then have lt': "unat start + 4096 * Suc k < 4294967296" "k \<le> n" "k \<le> Suc k" using kn st(4) by linarith+
      have up: "unat ?p = unat start + 4096 * k" using frame_unat [OF lt'(1), of k] by (simp only: lt'(3))
      have p: "offset ?p = 0" "?p \<notin> out" "?p \<noteq> limit s"
      proof -
        show "offset ?p = 0" using st(1) up by (simp only: offset_zero) simp
        show "?p \<notin> out" using rng(3) [of ?p] up ff(3) by auto
        have "unat (limit s) = unat start + unat bytes" using st(4,5) by (simp add: unat_plus_exact)
        then show "?p \<noteq> limit s" using up n False by auto
      qed
      let ?s = "s\<lparr>avail := ?p + FRAME_SIZE, pm_mem := bzero ?p FRAME_SIZE (pm_mem s), leak_count := leak_count s + 1\<rparr>"
      have "alloc_frame s = Inr (?p, ?s)" using ff(1) p k(6) by (simp add: alloc_frame_def)
      moreover have "pm_inv start bytes ?s (insert ?p out)"
        using st ff n kn fin p(2) unfolding pm_inv_def
        by (intro conjI exI [of _ "[]"] exI [of _ "Suc k"]) (simp_all add: frames_Suc FRAME_SIZE_def)
      ultimately show ?thesis using p(1,2) ff(2) n False by auto
    qed
  qed
qed


lemma store_in_frame: "offset p = 0 \<Longrightarrow> \<not> in_frame p a \<Longrightarrow> store32 p v m a = m a"
  by (rule store_elsewhere) (auto simp: frame_word_aligned in_frame_def)

lemma dealloc_frame_ok:
  assumes "pm_inv start bytes s out" "p \<in> out"
  shows "\<exists>s'. dealloc_frame p s = Inr s' \<and> pm_inv start bytes s' (out - {p})
    \<and> (\<forall>a. \<not> in_frame p a \<longrightarrow> pm_mem s' a = pm_mem s a)"
proof -
  obtain fl k where k: "4096 * k \<le> unat bytes" "set fl \<union> out = frames start k" "distinct fl" "set fl \<inter> out = {}"
      "pm_list (pm_mem s) (firstFree s) fl" "avail s = start + of_nat (4096 * k)"
    and st: "offset start = 0" "offset bytes = 0" "0 < unat start" "unat start + unat bytes < 4294967296"
      "limit s = start + bytes" "leak_count s = of_nat (card out)"
    using assms(1) by (auto simp: pm_inv_def)
  have lt: "unat start + 4096 * k < 4294967296" using k(1) st(4) by linarith
  note p = pm_inv_range [OF assms]
  let ?m = "store32 p (firstFree s) (pm_mem s)"
  let ?s = "s\<lparr>pm_mem := ?m, firstFree := p, leak_count := leak_count s - 1\<rparr>"
  have "pm_list ?m (firstFree s) fl"
  proof (subst pm_list_frame)
    show al: "\<forall>y \<in> set fl. offset y = 0" using frames_range(1) [OF lt st(1)] k(2) by auto
    show "\<forall>y \<in> set fl. \<forall>a. in_frame y a \<longrightarrow> ?m a = pm_mem s a"
      using frames_apart [OF _ p(1)] store_in_frame [OF p(1)] al k(4) assms(2) by blast
  qed (rule k(5))
  then have "pm_list ?m p (p # fl)" "distinct (p # fl)" "set (p # fl) \<inter> (out - {p}) = {}"
    "set (p # fl) \<union> (out - {p}) = frames start k" using k(2-4) assms(2) by auto
  moreover have "card out = Suc (card (out - {p}))" using card_Suc_Diff1 [OF p(4) assms(2)] by simp
  then have "leak_count ?s = of_nat (card (out - {p}))" using st(6) by simp
  ultimately have "pm_inv start bytes ?s (out - {p})"
    using st k(1,6) unfolding pm_inv_def by (intro conjI exI [of _ "p # fl"] exI [of _ k]) simp_all
  then show ?thesis using store_in_frame [OF p(1)] p(1) by (auto simp: dealloc_frame_def)
qed

lemma pm_inv_write:
  assumes "pm_inv start bytes s out"
    and "\<And>a. unat start \<le> unat a \<Longrightarrow> unat a < unat start + unat bytes \<Longrightarrow> (\<forall>p \<in> out. \<not> in_frame p a) \<Longrightarrow> m a = pm_mem s a"
  shows "pm_inv start bytes (s\<lparr>pm_mem := m\<rparr>) out"
proof -
  obtain fl k where k: "4096 * k \<le> unat bytes" "set fl \<union> out = frames start k" "distinct fl" "set fl \<inter> out = {}"
      "pm_list (pm_mem s) (firstFree s) fl" "avail s = start + of_nat (4096 * k)"
    and st: "offset start = 0" "unat start + unat bytes < 4294967296"
    using assms(1) by (auto simp: pm_inv_def)
  have lt: "unat start + 4096 * k < 4294967296" using k(1) st(2) by linarith
  note rng = frames_range [OF lt st(1)]
  have "pm_list m (firstFree s) fl"
  proof (subst pm_list_frame)
    show al: "\<forall>y \<in> set fl. offset y = 0" using rng(1) k(2) by auto
    have "m a = pm_mem s a" if "y \<in> set fl" "in_frame y a" for y a
    proof (rule assms(2))
      have "y \<in> frames start k" using that(1) k(2) by blast
      then show "unat start \<le> unat a" "unat a < unat start + unat bytes"
        using rng(2,3) [of y] that(2) k(1) by (simp_all add: in_frame_def)
      show "\<forall>p \<in> out. \<not> in_frame p a"
        using frames_apart [of y _ a] that al k(4) pm_inv_range(1) [OF assms(1)] by blast
    qed
    then show "\<forall>y \<in> set fl. \<forall>a. in_frame y a \<longrightarrow> m a = pm_mem s a" by blast
  qed (rule k(5))
  then show ?thesis using assms(1) k unfolding pm_inv_def by (auto intro!: exI [of _ fl] exI [of _ k])
qed

lemma pm_reach_inv: "pm_reach start bytes s out \<Longrightarrow> pm_inv start bytes s out"
proof (induction rule: pm_reach.induct)
  case (pm_start cs handler s0 t0 s t)
  have "frames start 0 = {}" by (simp add: frames_def)
  then show ?case using pm_start unfolding pm_inv_def
    by (auto simp: physmem_init_def bind_ok_Inr_iff intro!: exI [of _ "[]"] exI [of _ 0])
next
  case (pm_alloc s out p s')
  then show ?case using alloc_frame_ok [OF pm_alloc.IH] by (auto split: if_splits)
next
  case (pm_dealloc s out p s')
  then show ?case using dealloc_frame_ok [OF pm_dealloc.IH pm_dealloc.hyps(2)] by auto
next
  case (pm_write s out m)
  then show ?case by (intro pm_inv_write)
qed

text \<open>C7. The allocator of frames. In every history the leak counter is the number of frames that clients hold;
  allocation halts the processor exactly when they hold all of them, and otherwise returns an aligned
  frame of the managed range that no client holds, filled with zeros, without changing any other
  memory; releasing a held frame never fails and changes no other frame.\<close>

theorem frames_exclusive:
  assumes "pm_reach start bytes s out"
  shows "leak_count s = of_nat (card out)
    \<and> (if card out = unat bytes div 4096 then alloc_frame s = Inl Panic
       else \<exists>p s'. alloc_frame s = Inr (p, s') \<and> p \<notin> out \<and> offset p = 0 \<and> unat start \<le> unat p
         \<and> unat p + 4096 \<le> unat start + unat bytes
         \<and> (\<forall>a. pm_mem s' a = (if in_frame p a then 0 else pm_mem s a)))
    \<and> (\<forall>p \<in> out. \<exists>s'. dealloc_frame p s = Inr s' \<and> (\<forall>a. \<not> in_frame p a \<longrightarrow> pm_mem s' a = pm_mem s a))"
proof -
  note inv = pm_reach_inv [OF assms]
  have "leak_count s = of_nat (card out)" using inv by (simp add: pm_inv_def)
  moreover have "if card out = unat bytes div 4096 then alloc_frame s = Inl Panic
       else \<exists>p s'. alloc_frame s = Inr (p, s') \<and> p \<notin> out \<and> offset p = 0 \<and> unat start \<le> unat p
         \<and> unat p + 4096 \<le> unat start + unat bytes \<and> (\<forall>a. pm_mem s' a = (if in_frame p a then 0 else pm_mem s a))"
    using alloc_frame_ok [OF inv] pm_inv_range(2,3) by (auto simp: bzero_frame split: if_splits)
  ultimately show ?thesis using dealloc_frame_ok [OF inv] by blast
qed

theorem frames_exclusive_witness:
  "\<exists>s t p s'. physmem_init 8 0x1234 0x600000 0x200000 (\<lparr>pm_mem = \<lambda>_. 7, firstFree = 0, avail = 0, limit = 0, leak_count = 0\<rparr>,
      \<lambda>_. 0) = Inr (s, t) \<and> leak_count s = 0 \<and> alloc_frame s = Inr (p, s') \<and> unat p + 4096 \<le> 0x800000 \<and> pm_mem s' p = 0"
proof -
  let ?s0 = "\<lparr>pm_mem = \<lambda>_. 7, firstFree = 0, avail = 0, limit = 0, leak_count = 0\<rparr> :: phys"
  obtain s t where st: "physmem_init 8 0x1234 0x600000 0x200000 (?s0, \<lambda>_. 0) = Inr (s, t)"
    by (simp add: physmem_init_def offset_def)
  have "pm_reach 0x600000 0x200000 s {}" by (rule pm_reach.pm_start [OF st]) simp_all
  from frames_exclusive [OF this] st show ?thesis by (auto simp: in_frame_def)
qed

end
