(* ===== verification/Snprintf.thy ===== *)
theory Snprintf
  imports Complex_Main User_Memory
begin

text \<open>
  The formatter of \<^verbatim>\<open>kernel/snprintf.cc\<close> behind \<^verbatim>\<open>Debug::printf\<close>: a state machine over the format
  string and the conversions of integers, strings and floating-point numbers. \<^verbatim>\<open>int\<close>, \<^verbatim>\<open>long\<close> and
  pointers are words of 32 bits and the arguments are the words on the stack, so that the variants of
  \<^verbatim>\<open>va_arg\<close> for \<^verbatim>\<open>int\<close>, \<^verbatim>\<open>long\<close> and their unsigned versions read the same word. Reading behind the
  format or behind the arguments is \<open>OutOfBounds\<close>. The arithmetic of the floating-point unit and the
  strings in memory are parameters. The loops that pad are written with \<open>replicate\<close>.
\<close>

section \<open>The output stream\<close>

record sink =
  currlen :: int
  written :: string

definition dopr_outch :: "char \<Rightarrow> sink \<Rightarrow> sink" where
  "dopr_outch c s = s\<lparr>currlen := currlen s + 1, written := written s @ [c]\<rparr>"

definition outs :: "string \<Rightarrow> sink \<Rightarrow> sink" where
  "outs cs s = fold dopr_outch cs s"

definition DP_F_MINUS :: u32 where "DP_F_MINUS = 1"
definition DP_F_PLUS :: u32 where "DP_F_PLUS = 2"
definition DP_F_SPACE :: u32 where "DP_F_SPACE = 4"
definition DP_F_NUM :: u32 where "DP_F_NUM = 8"
definition DP_F_ZERO :: u32 where "DP_F_ZERO = 16"
definition DP_F_UP :: u32 where "DP_F_UP = 32"
definition DP_F_UNSIGNED :: u32 where "DP_F_UNSIGNED = 64"

abbreviation has_flag :: "u32 \<Rightarrow> u32 \<Rightarrow> bool" where
  "has_flag flags f \<equiv> flags AND f \<noteq> 0"

section \<open>Strings\<close>

text \<open>A null pointer prints as \<open><NULL>\<close>.\<close>

definition fmtstr :: "string option \<Rightarrow> u32 \<Rightarrow> int \<Rightarrow> int \<Rightarrow> sink \<Rightarrow> sink" where
  "fmtstr str flags mn mx s =
     (let value' = (case str of None \<Rightarrow> ''<NULL>'' | Some v \<Rightarrow> v);
          strln = int (length value');
          padlen = (if mn - strln < 0 then 0 else mn - strln);
          padlen = (if has_flag flags DP_F_MINUS then - padlen else padlen);
          lead = min (max 0 padlen) (max 0 mx);
          body = min strln (max 0 (mx - lead));
          trail = min (max 0 (- padlen)) (max 0 (mx - lead - body))
      in outs (replicate (nat trail) CHR '' '')
           (outs (take (nat body) value') (outs (replicate (nat lead) CHR '' '') s)))"

section \<open>Integers\<close>

definition digit_table :: "bool \<Rightarrow> string" where
  "digit_table caps = (if caps then ''0123456789ABCDEF'' else ''0123456789abcdef'')"

text \<open>The digits from the lowest one; the buffer has 20 places.\<close>

function convert_loop :: "string \<Rightarrow> u32 \<Rightarrow> u32 \<Rightarrow> string \<Rightarrow> string" where
  "convert_loop table base uvalue convert =
     (let convert' = convert @ [table ! unat (uvalue mod base)]; uvalue' = uvalue div base
      in if uvalue' \<noteq> 0 \<and> length convert' < 20 then convert_loop table base uvalue' convert' else convert')"
  by pat_completeness auto
termination
  by (relation "measure (\<lambda>(table, base, uvalue, convert). 20 - length convert)") auto

declare convert_loop.simps [simp del]

definition fmtint :: "u32 \<Rightarrow> u32 \<Rightarrow> int \<Rightarrow> int \<Rightarrow> u32 \<Rightarrow> sink \<Rightarrow> sink" where
  "fmtint v base mn mx flags s =
     (let mx = (if mx < 0 then 0 else mx);
          negative = (\<not> has_flag flags DP_F_UNSIGNED \<and> sint v < 0);
          uvalue = (if negative then - v else v);
          signvalue =
            (if has_flag flags DP_F_UNSIGNED then ''''
             else if sint v < 0 then ''-''
             else if has_flag flags DP_F_PLUS then ''+''
             else if has_flag flags DP_F_SPACE then '' ''
             else '''');
          convert = convert_loop (digit_table (has_flag flags DP_F_UP)) base uvalue '''';
          place = (if length convert = 20 then 19 else length convert);
          zpadlen = mx - int place;
          spadlen = mn - max mx (int place) - int (length signvalue);
          zpadlen = (if zpadlen < 0 then 0 else zpadlen);
          spadlen = (if spadlen < 0 then 0 else spadlen);
          (zpadlen, spadlen) = (if has_flag flags DP_F_ZERO then (max zpadlen spadlen, 0) else (zpadlen, spadlen));
          spadlen = (if has_flag flags DP_F_MINUS then - spadlen else spadlen)
      in outs (replicate (nat (- spadlen)) CHR '' '')
           (outs (rev (take place convert))
             (outs (replicate (nat zpadlen) CHR ''0'')
               (outs signvalue
                 (outs (replicate (nat spadlen) CHR '' '') s)))))"

section \<open>Floating-point numbers\<close>

text \<open>
  The operations of the floating-point unit that the code uses, and the numbers that the words of a
  \<^verbatim>\<open>double\<close> and of a \<^verbatim>\<open>long double\<close> hold.
\<close>

record 'f fpu =
  fp_of_int :: "int \<Rightarrow> 'f"
  fp_half :: 'f
  fp_less :: "'f \<Rightarrow> 'f \<Rightarrow> bool"
  fp_neg :: "'f \<Rightarrow> 'f"
  fp_mul :: "'f \<Rightarrow> 'f \<Rightarrow> 'f"
  fp_sub :: "'f \<Rightarrow> 'f \<Rightarrow> 'f"
  fp_trunc :: "'f \<Rightarrow> u32"
  fp_double :: "u32 \<Rightarrow> u32 \<Rightarrow> 'f"
  fp_ldouble :: "u32 \<Rightarrow> u32 \<Rightarrow> u32 \<Rightarrow> 'f"

definition abs_val :: "'f fpu \<Rightarrow> 'f \<Rightarrow> 'f" where
  "abs_val F v = (if fp_less F v (fp_of_int F 0) then fp_neg F v else v)"

fun pow10 :: "'f fpu \<Rightarrow> nat \<Rightarrow> 'f \<Rightarrow> 'f" where
  "pow10 F 0 r = r"
| "pow10 F (Suc e) r = pow10 F e (fp_mul F r (fp_of_int F 10))"

definition xround :: "'f fpu \<Rightarrow> 'f \<Rightarrow> u32" where
  "xround F v =
     (let intpart = fp_trunc F v; v = fp_sub F v (fp_of_int F (sint intpart))
      in if \<not> fp_less F v (fp_half F) then intpart + 1 else intpart)"

text \<open>The digits of a \<^verbatim>\<open>long\<close>: the remainder of a negative number indexes outside the table.\<close>

function fconvert_loop :: "u32 \<Rightarrow> string \<Rightarrow> string outcome" where
  "fconvert_loop part convert =
     (let d = sint part - 10 * (if sint part < 0 then - (- sint part div 10) else sint part div 10);
          part' = word_of_int (if sint part < 0 then - (- sint part div 10) else sint part div 10)
      in if d < 0 then Inl OutOfBounds
         else
           let convert' = convert @ [''0123456789abcdef'' ! nat d]
           in if part' \<noteq> 0 \<and> length convert' < 20 then fconvert_loop part' convert' else Inr convert')"
  by pat_completeness auto
termination
  by (relation "measure (\<lambda>(part, convert). 20 - length convert)") auto

declare fconvert_loop.simps [simp del]

definition fmtfp_parts :: "'f fpu \<Rightarrow> 'f \<Rightarrow> nat \<Rightarrow> u32 \<times> u32" where
  "fmtfp_parts F fvalue mx =
     (let ufvalue = abs_val F fvalue;
          intpart = fp_trunc F ufvalue;
          scale = pow10 F mx (fp_of_int F 1);
          fracpart = xround F (fp_mul F scale (fp_sub F ufvalue (fp_of_int F (sint intpart))))
      in if \<not> fp_less F (fp_of_int F (sint fracpart)) scale
         then (intpart + 1, fp_trunc F (fp_sub F (fp_of_int F (sint fracpart)) scale))
         else (intpart, fracpart))"

definition fmtfp :: "'f fpu \<Rightarrow> 'f \<Rightarrow> int \<Rightarrow> int \<Rightarrow> u32 \<Rightarrow> sink \<Rightarrow> sink outcome" where
  "fmtfp F fvalue mn mx flags s =
     (let mx = (if mx < 0 then 6 else mx);
          signvalue =
            (if fp_less F fvalue (fp_of_int F 0) then ''-''
             else if has_flag flags DP_F_PLUS then ''+''
             else if has_flag flags DP_F_SPACE then '' ''
             else '''');
          mx = (if mx > 9 then 9 else mx);
          (intpart, fracpart) = fmtfp_parts F fvalue (nat mx)
      in bind_ok (fconvert_loop intpart '''') (\<lambda>iconvert. bind_ok (fconvert_loop fracpart '''') (\<lambda>fconvert.
           let iplace = (if length iconvert = 20 then 19 else length iconvert);
               fplace = (if length fconvert = 20 then 19 else length fconvert);
               padlen = mn - int iplace - mx - 1 - int (length signvalue);
               zpadlen = mx - int fplace;
               zpadlen = (if zpadlen < 0 then 0 else zpadlen);
               padlen = (if padlen < 0 then 0 else padlen);
               padlen = (if has_flag flags DP_F_MINUS then - padlen else padlen);
               (s, padlen, signvalue) =
                 (if has_flag flags DP_F_ZERO \<and> padlen > 0 then
                    let (s, padlen) = (if signvalue \<noteq> '''' then (outs signvalue s, padlen - 1) else (s, padlen))
                    in (outs (replicate (nat padlen) CHR ''0'') s, min 0 padlen, '''')
                  else (s, padlen, signvalue));
               s = outs (replicate (nat padlen) CHR '' '') s;
               s = outs signvalue s;
               s = outs (rev (take iplace iconvert)) s;
               s = (if mx > 0 then outs (rev (take fplace fconvert)) (outs ''.'' s) else s);
               s = outs (replicate (nat zpadlen) CHR ''0'') s
           in Inr (outs (replicate (nat (- padlen)) CHR '' '') s))))"

section \<open>The state machine\<close>

datatype dp_state = DP_S_DEFAULT | DP_S_FLAGS | DP_S_MIN | DP_S_DOT | DP_S_MAX | DP_S_MOD | DP_S_CONV | DP_S_DONE

text \<open>
  The variables of \<open>dopr\<close>: the current character, the rest of the format with its terminating zero,
  the unread arguments, and the stores that \<^verbatim>\<open>%n\<close> makes, each with its address, its size in bytes
  and its contents. The stream counts the characters.
\<close>

record dopr_state =
  dp_ch :: char
  dp_format :: string
  dp_state :: dp_state
  dp_flags :: u32
  dp_cflags :: nat
  dp_min :: int
  dp_max :: int
  dp_args :: "u32 list"
  dp_sink :: sink
  dp_stores :: "(u32 \<times> nat \<times> int) list"

abbreviation NUL :: char where "NUL \<equiv> CHR 0x00"

definition next_ch :: "dopr_state \<Rightarrow> dopr_state outcome" where
  "next_ch d = (case dp_format d of [] \<Rightarrow> Inl OutOfBounds | c # cs \<Rightarrow> Inr (d\<lparr>dp_ch := c, dp_format := cs\<rparr>))"

definition va_word :: "dopr_state \<Rightarrow> (u32 \<times> dopr_state) outcome" where
  "va_word d = (case dp_args d of [] \<Rightarrow> Inl OutOfBounds | a # as \<Rightarrow> Inr (a, d\<lparr>dp_args := as\<rparr>))"

definition va_fp :: "'f fpu \<Rightarrow> dopr_state \<Rightarrow> ('f \<times> dopr_state) outcome" where
  "va_fp F d =
     bind_ok (va_word d) (\<lambda>(a, d). bind_ok (va_word d) (\<lambda>(b, d).
       if dp_cflags d = 3 then bind_ok (va_word d) (\<lambda>(c, d). Inr (fp_ldouble F a b c, d))
       else Inr (fp_double F a b, d)))"

definition int32 :: "int \<Rightarrow> int" where
  "int32 i = sint (word_of_int i :: u32)"

definition char_to_int :: "char \<Rightarrow> int" where
  "char_to_int c = of_char c - of_char CHR ''0''"

definition is_digit :: "char \<Rightarrow> bool" where
  "is_digit c = isdigit (sint (of_char c :: u8))"

text \<open>One directive: the conversion character with the flags and sizes read before it.\<close>

definition dopr_int :: "u32 \<Rightarrow> u32 \<Rightarrow> dopr_state \<Rightarrow> dopr_state outcome" where
  "dopr_int base extra d =
     bind_ok (va_word d) (\<lambda>(v, d).
       let d = d\<lparr>dp_flags := dp_flags d OR extra\<rparr>
       in Inr (d\<lparr>dp_sink := fmtint v base (dp_min d) (dp_max d) (dp_flags d) (dp_sink d)\<rparr>))"

definition dopr_conv :: "'f fpu \<Rightarrow> (u32 \<Rightarrow> string) \<Rightarrow> int \<Rightarrow> dopr_state \<Rightarrow> dopr_state outcome" where
  "dopr_conv F strings maxlen d =
     (let c = dp_ch d
      in if c = CHR ''d'' \<or> c = CHR ''i'' then dopr_int 10 0 d
         else if c = CHR ''o'' then dopr_int 8 DP_F_UNSIGNED d
         else if c = CHR ''u'' then dopr_int 10 DP_F_UNSIGNED d
         else if c = CHR ''X'' then dopr_int 16 (DP_F_UP OR DP_F_UNSIGNED) d
         else if c = CHR ''x'' then dopr_int 16 DP_F_UNSIGNED d
         else if c = CHR ''f'' then
           bind_ok (va_fp F d) (\<lambda>(v, d).
             bind_ok (fmtfp F v (dp_min d) (dp_max d) (dp_flags d) (dp_sink d)) (\<lambda>s. Inr (d\<lparr>dp_sink := s\<rparr>)))
         else if c = CHR ''E'' \<or> c = CHR ''e'' \<or> c = CHR ''G'' \<or> c = CHR ''g'' then
           bind_ok (va_fp F d) (\<lambda>(v, d). Inr d)
         else if c = CHR ''c'' then
           bind_ok (va_word d) (\<lambda>(v, d). Inr (d\<lparr>dp_sink := dopr_outch (char_of (unat v)) (dp_sink d)\<rparr>))
         else if c = CHR ''s'' then
           bind_ok (va_word d) (\<lambda>(v, d).
             let mx = (if dp_max d < 0 then maxlen else dp_max d)
             in Inr (d\<lparr>dp_sink := fmtstr (if v = 0 then None else Some (strings v)) (dp_flags d) (dp_min d) mx (dp_sink d)\<rparr>))
         else if c = CHR ''p'' then dopr_int 16 0 d
         else if c = CHR ''n'' then
           bind_ok (va_word d) (\<lambda>(v, d).
             Inr (d\<lparr>dp_stores := dp_stores d @ [(v, if dp_cflags d = 1 then 2 else 4, currlen (dp_sink d))]\<rparr>))
         else if c = CHR ''%'' then Inr (d\<lparr>dp_sink := dopr_outch c (dp_sink d)\<rparr>)
         else if c = CHR ''w'' then next_ch d
         else Inr d)"

definition dopr_flag :: "char \<Rightarrow> u32 option" where
  "dopr_flag c =
     (if c = CHR ''-'' then Some DP_F_MINUS
      else if c = CHR ''+'' then Some DP_F_PLUS
      else if c = CHR '' '' then Some DP_F_SPACE
      else if c = CHR ''#'' then Some DP_F_NUM
      else if c = CHR ''0'' then Some DP_F_ZERO
      else None)"

definition dopr_step :: "'f fpu \<Rightarrow> (u32 \<Rightarrow> string) \<Rightarrow> int \<Rightarrow> dopr_state \<Rightarrow> dopr_state outcome" where
  "dopr_step F strings maxlen d =
     (let d = (if dp_ch d = NUL \<or> currlen (dp_sink d) \<ge> maxlen then d\<lparr>dp_state := DP_S_DONE\<rparr> else d);
          ch = dp_ch d
      in case dp_state d of
           DP_S_DEFAULT \<Rightarrow>
             next_ch (if ch = CHR ''%'' then d\<lparr>dp_state := DP_S_FLAGS\<rparr>
                      else d\<lparr>dp_sink := dopr_outch ch (dp_sink d)\<rparr>)
         | DP_S_FLAGS \<Rightarrow>
             (case dopr_flag ch of
                Some f \<Rightarrow> next_ch (d\<lparr>dp_flags := dp_flags d OR f\<rparr>)
              | None \<Rightarrow> Inr (d\<lparr>dp_state := DP_S_MIN\<rparr>))
         | DP_S_MIN \<Rightarrow>
             if is_digit ch then next_ch (d\<lparr>dp_min := int32 (10 * dp_min d + char_to_int ch)\<rparr>)
             else if ch = CHR ''*'' then
               bind_ok (va_word d) (\<lambda>(v, d). next_ch (d\<lparr>dp_min := sint v, dp_state := DP_S_DOT\<rparr>))
             else Inr (d\<lparr>dp_state := DP_S_DOT\<rparr>)
         | DP_S_DOT \<Rightarrow>
             if ch = CHR ''.'' then next_ch (d\<lparr>dp_state := DP_S_MAX\<rparr>) else Inr (d\<lparr>dp_state := DP_S_MOD\<rparr>)
         | DP_S_MAX \<Rightarrow>
             if is_digit ch then
               next_ch (d\<lparr>dp_max := int32 (10 * (if dp_max d < 0 then 0 else dp_max d) + char_to_int ch)\<rparr>)
             else if ch = CHR ''*'' then
               bind_ok (va_word d) (\<lambda>(v, d). next_ch (d\<lparr>dp_max := sint v, dp_state := DP_S_MOD\<rparr>))
             else Inr (d\<lparr>dp_state := DP_S_MOD\<rparr>)
         | DP_S_MOD \<Rightarrow>
             bind_ok
               (if ch = CHR ''h'' then next_ch (d\<lparr>dp_cflags := 1\<rparr>)
                else if ch = CHR ''l'' then next_ch (d\<lparr>dp_cflags := 2\<rparr>)
                else if ch = CHR ''L'' then next_ch (d\<lparr>dp_cflags := 3\<rparr>)
                else Inr d)
               (\<lambda>d. Inr (d\<lparr>dp_state := DP_S_CONV\<rparr>))
         | DP_S_CONV \<Rightarrow>
             bind_ok (dopr_conv F strings maxlen d) (\<lambda>d. bind_ok (next_ch d) (\<lambda>d.
               Inr (d\<lparr>dp_state := DP_S_DEFAULT, dp_flags := 0, dp_cflags := 0, dp_min := 0, dp_max := -1\<rparr>)))
         | DP_S_DONE \<Rightarrow> Inr d)"

primrec dp_rank :: "dp_state \<Rightarrow> nat" where
  "dp_rank DP_S_DEFAULT = 7"
| "dp_rank DP_S_FLAGS = 6"
| "dp_rank DP_S_MIN = 5"
| "dp_rank DP_S_DOT = 4"
| "dp_rank DP_S_MAX = 3"
| "dp_rank DP_S_MOD = 2"
| "dp_rank DP_S_CONV = 1"
| "dp_rank DP_S_DONE = 0"

lemma next_ch_shorter: "next_ch d = Inr d' \<Longrightarrow> length (dp_format d') < length (dp_format d)"
  by (auto simp: next_ch_def split: list.splits)

lemma va_word_format: "va_word d = Inr (v, d') \<Longrightarrow> dp_format d' = dp_format d"
  by (auto simp: va_word_def split: list.splits)

lemma va_fp_format: "va_fp F d = Inr (v, d') \<Longrightarrow> dp_format d' = dp_format d"
  by (auto simp: va_fp_def bind_ok_Inr_iff dest!: va_word_format split: if_splits)

definition format_within :: "nat \<Rightarrow> dopr_state outcome \<Rightarrow> bool" where
  "format_within n r \<longleftrightarrow> (\<forall>d. r = Inr d \<longrightarrow> length (dp_format d) \<le> n)"

lemma format_within_if: "format_within n r \<Longrightarrow> format_within n r' \<Longrightarrow> format_within n (if b then r else r')"
  by simp

lemma format_within_bind:
  "(\<And>x. m = Inr x \<Longrightarrow> format_within n (f x)) \<Longrightarrow> format_within n (bind_ok m f)"
  by (cases m) (auto simp: format_within_def)

lemma format_within_int: "format_within (length (dp_format d)) (dopr_int base extra d)"
  by (auto simp: dopr_int_def format_within_def bind_ok_Inr_iff Let_def dest!: va_word_format)

lemma dopr_conv_format: "format_within (length (dp_format d)) (dopr_conv F strings maxlen d)"
  unfolding dopr_conv_def Let_def
  by (intro format_within_if format_within_int format_within_bind)
    (auto simp: format_within_def bind_ok_Inr_iff dest!: va_word_format va_fp_format next_ch_shorter)

lemma dopr_step_decreases:
  assumes "dopr_step F strings maxlen d = Inr d'" "dp_state d \<noteq> DP_S_DONE"
  shows "length (dp_format d') < length (dp_format d)
    \<or> length (dp_format d') = length (dp_format d) \<and> dp_rank (dp_state d') < dp_rank (dp_state d)"
proof (cases "dp_ch d = NUL \<or> currlen (dp_sink d) \<ge> maxlen")
  case True
  then show ?thesis using assms by (cases "dp_state d") (auto simp: dopr_step_def)
next
  case False
  then show ?thesis using assms
    by (cases "dp_state d")
      (auto simp: dopr_step_def Let_def bind_ok_Inr_iff dest!: next_ch_shorter va_word_format
          dopr_conv_format [unfolded format_within_def, rule_format] split: if_splits option.splits)
qed

function dopr_loop :: "'f fpu \<Rightarrow> (u32 \<Rightarrow> string) \<Rightarrow> int \<Rightarrow> dopr_state \<Rightarrow> dopr_state outcome" where
  "dopr_loop F strings maxlen d =
     (if dp_state d = DP_S_DONE then Inr d
      else bind_ok (dopr_step F strings maxlen d) (dopr_loop F strings maxlen))"
  by pat_completeness auto
termination
  by (relation "inv_image (less_than <*lex*> less_than)
      (\<lambda>(F, strings, maxlen, d). (length (dp_format d), dp_rank (dp_state d)))")
    (auto dest!: dopr_step_decreases)

declare dopr_loop.simps [simp del]

definition dopr :: "'f fpu \<Rightarrow> (u32 \<Rightarrow> string) \<Rightarrow> int \<Rightarrow> string \<Rightarrow> u32 list \<Rightarrow> sink \<Rightarrow> dopr_state outcome" where
  "dopr F strings maxlen format args s =
     bind_ok
       (next_ch \<lparr>dp_ch = NUL, dp_format = format @ [NUL], dp_state = DP_S_DEFAULT, dp_flags = 0, dp_cflags = 0,
          dp_min = 0, dp_max = -1, dp_args = args, dp_sink = s\<lparr>currlen := 0\<rparr>, dp_stores = []\<rparr>)
       (dopr_loop F strings maxlen)"

definition vsnprintf :: "'f fpu \<Rightarrow> (u32 \<Rightarrow> string) \<Rightarrow> int \<Rightarrow> string \<Rightarrow> u32 list \<Rightarrow> sink \<Rightarrow> dopr_state outcome" where
  "vsnprintf F strings maxlen format args s = dopr F strings maxlen format args s"

definition snprintf :: "'f fpu \<Rightarrow> (u32 \<Rightarrow> string) \<Rightarrow> int \<Rightarrow> string \<Rightarrow> u32 list \<Rightarrow> sink \<Rightarrow> dopr_state outcome" where
  "snprintf F strings maxlen format args s = vsnprintf F strings maxlen format args s"

section \<open>Numbers in a base\<close>

lemma outs_simps [simp]:
  "outs [] s = s" "outs (xs @ ys) s = outs ys (outs xs s)"
  "currlen (outs cs s) = currlen s + int (length cs)" "written (outs cs s) = written s @ cs"
proof -
  show "outs [] s = s" "outs (xs @ ys) s = outs ys (outs xs s)" by (simp_all add: outs_def)
  show "currlen (outs cs s) = currlen s + int (length cs)" "written (outs cs s) = written s @ cs"
    unfolding outs_def by (induction cs arbitrary: s) (simp_all add: dopr_outch_def)
qed

lemma outs_one: "dopr_outch c s = outs [c] s"
  by (simp add: outs_def)

text \<open>The digits of a number and their value, the reference for the conversion loop.\<close>

function digits_of :: "string \<Rightarrow> nat \<Rightarrow> nat \<Rightarrow> string" where
  "digits_of t b n = (if n < b \<or> b < 2 then [t ! n] else digits_of t b (n div b) @ [t ! (n mod b)])"
  by pat_completeness auto
termination
  by (relation "measure (\<lambda>(t, b, n). n)") (auto simp: div_less_dividend)

declare digits_of.simps [simp del]

definition digit_value :: "char \<Rightarrow> nat" where
  "digit_value c =
     (let n = of_char c :: nat
      in if n \<le> of_char CHR ''9'' then n - of_char CHR ''0''
         else if n \<le> of_char CHR ''F'' then n - of_char CHR ''A'' + 10
         else n - of_char CHR ''a'' + 10)"

definition number_value :: "nat \<Rightarrow> string \<Rightarrow> nat" where
  "number_value b cs = foldl (\<lambda>n c. n * b + digit_value c) 0 cs"

lemma digit_value_table: "d < 16 \<Longrightarrow> digit_value (digit_table caps ! d) = d"
proof -
  have "list_all (\<lambda>d. digit_value (digit_table True ! d) = d \<and> digit_value (digit_table False ! d) = d) [0..<16]"
    by code_simp
  then show "d < 16 \<Longrightarrow> ?thesis" by (cases caps) (auto simp: list_all_iff)
qed

lemma number_value_digits:
  assumes "2 \<le> b" "b \<le> 16"
  shows "number_value b (digits_of (digit_table caps) b n) = n"
  using assms
proof (induction "digit_table caps" b n rule: digits_of.induct)
  case (1 b n)
  note assms = 1(2,3)
  show ?case
  proof (cases "n < b")
    case True
    then have "n < 16" using assms by linarith
    then show ?thesis using True by (subst digits_of.simps) (simp add: number_value_def digit_value_table)
  next
    case False
    have "n mod b < b" using assms by simp
    then have "n mod b < 16" using assms by linarith
    then show ?thesis using 1 False assms
      by (subst digits_of.simps) (simp add: number_value_def digit_value_table)
  qed
qed

lemma convert_loop_last:
  assumes "unat u < unat base"
  shows "convert_loop t base u convert = convert @ [t ! unat u]" "digits_of t (unat base) (unat u) = [t ! unat u]"
proof -
  have "u div base = 0" "u mod base = u"
    using assms by (simp_all add: word_unat_eq_iff unat_div_distrib unat_mod_distrib)
  then show "convert_loop t base u convert = convert @ [t ! unat u]" by (subst convert_loop.simps) simp
  show "digits_of t (unat base) (unat u) = [t ! unat u]" using assms by (subst digits_of.simps) simp
qed

lemma convert_loop_digits:
  assumes "2 \<le> unat base" "unat u < unat base ^ Suc k" "length convert + k < 19"
  shows "rev (convert_loop t base u convert) = digits_of t (unat base) (unat u) @ rev convert
    \<and> length (convert_loop t base u convert) \<le> length convert + Suc k"
  using assms(2,3)
proof (induction k arbitrary: u convert)
  case 0
  then show ?case by (simp add: convert_loop_last)
next
  case (Suc k)
  let ?c = "convert @ [t ! unat (u mod base)]"
  show ?case
  proof (cases "unat u < unat base")
    case True
    then show ?thesis by (simp add: convert_loop_last)
  next
    case False
    have "unat (u div base) < unat base ^ Suc k"
      using Suc.prems(1) assms(1) by (simp add: unat_div_distrib less_mult_imp_div_less mult.commute)
    from Suc.IH [OF this, of ?c] Suc.prems(2)
    have ih: "rev (convert_loop t base (u div base) ?c) = digits_of t (unat base) (unat u div unat base) @ rev ?c"
      "length (convert_loop t base (u div base) ?c) \<le> length convert + Suc (Suc k)"
      by (simp_all add: unat_div_distrib)
    have "unat (u div base) \<noteq> 0" using False assms(1) by (simp add: unat_div_distrib div_greater_zero_iff)
    then have "u div base \<noteq> 0" by auto
    then have "convert_loop t base u convert = convert_loop t base (u div base) ?c"
      using Suc.prems(2) by (subst convert_loop.simps) (simp add: Let_def)
    moreover have "digits_of t (unat base) (unat u) = digits_of t (unat base) (unat u div unat base) @ [t ! (unat u mod unat base)]"
      using False assms(1) by (subst digits_of.simps) simp
    ultimately show ?thesis using ih by (simp add: unat_mod_distrib)
  qed
qed

lemma unat_neg_sint:
  fixes v :: u32
  assumes "sint v < 0"
  shows "unat (- v) = nat (- sint v)"
proof -
  have "- v = word_of_int (- sint v)" by simp
  moreover have "- (2 ^ 31) \<le> sint v" using sint_greater_eq [of v] by simp
  then have "- sint v mod 2 ^ 32 = - sint v" using assms by (intro mod_pos_pos_trivial) simp_all
  ultimately have "uint (- v) = - sint v" by (simp only: uint_word_of_int) simp
  then show ?thesis by (simp only: unat_eq_nat_uint)
qed

lemma convert_digits:
  assumes "unat base \<in> {8, 10, 16}"
  shows "rev (convert_loop t base u []) = digits_of t (unat base) (unat u)"
    "length (convert_loop t base u []) = length (digits_of t (unat base) (unat u))"
    "length (digits_of t (unat base) (unat u)) < 20"
proof -
  have "unat u < 8 ^ 11" using unat_u32_less [of u] by (rule less_trans) simp
  also have "(8 :: nat) ^ 11 \<le> unat base ^ 11" using assms by (intro power_mono) auto
  finally have "unat u < unat base ^ Suc 10" by simp
  with convert_loop_digits [of base u 10 "[]" t] assms
  have r: "rev (convert_loop t base u []) = digits_of t (unat base) (unat u)"
    "length (convert_loop t base u []) < 20" by auto
  show "rev (convert_loop t base u []) = digits_of t (unat base) (unat u)" by (rule r(1))
  show l: "length (convert_loop t base u []) = length (digits_of t (unat base) (unat u))" using arg_cong [OF r(1), of length] by simp
  show "length (digits_of t (unat base) (unat u)) < 20" using r(2) l by simp
qed

section \<open>Integer conversions\<close>

definition sign_text :: "u32 \<Rightarrow> u32 \<Rightarrow> string" where
  "sign_text flags v =
     (if has_flag flags DP_F_UNSIGNED then ''''
      else if sint v < 0 then ''-''
      else if has_flag flags DP_F_PLUS then ''+''
      else if has_flag flags DP_F_SPACE then '' ''
      else '''')"

definition magnitude :: "u32 \<Rightarrow> u32 \<Rightarrow> nat" where
  "magnitude flags v = (if has_flag flags DP_F_UNSIGNED then unat v else nat \<bar>sint v\<bar>)"

definition digits_text :: "u32 \<Rightarrow> u32 \<Rightarrow> u32 \<Rightarrow> string" where
  "digits_text base flags v = digits_of (digit_table (has_flag flags DP_F_UP)) (unat base) (magnitude flags v)"

lemma magnitude_unat:
  "magnitude flags v = unat (if \<not> has_flag flags DP_F_UNSIGNED \<and> sint v < 0 then - v else v)"
proof -
  have "nat (sint v) = unat v" if "\<not> sint v < 0"
  proof -
    have "sint v < 2 ^ 31" using sint_less [of v] by simp
    then have "sint v mod 2 ^ 32 = sint v" using that by (intro mod_pos_pos_trivial) simp_all
    then have "uint v = sint v" using uint_sint [of v] by (simp add: take_bit_eq_mod)
    then show ?thesis by (simp only: unat_eq_nat_uint)
  qed
  then show ?thesis using unat_neg_sint [of v] by (auto simp: magnitude_def)
qed

definition zero_pad :: "int \<Rightarrow> int \<Rightarrow> u32 \<Rightarrow> nat \<Rightarrow> nat \<Rightarrow> nat" where
  "zero_pad mn mx flags n sn =
     (if has_flag flags DP_F_ZERO then max (nat mx - n) (nat (mn - int (max (nat mx) n) - int sn)) else nat mx - n)"

definition space_pad :: "int \<Rightarrow> int \<Rightarrow> u32 \<Rightarrow> nat \<Rightarrow> nat \<Rightarrow> nat" where
  "space_pad mn mx flags n sn =
     (if has_flag flags DP_F_ZERO then 0 else nat (mn - int (max (nat mx) n) - int sn))"

definition int_text :: "u32 \<Rightarrow> u32 \<Rightarrow> int \<Rightarrow> int \<Rightarrow> u32 \<Rightarrow> string" where
  "int_text v base mn mx flags =
     (let ds = digits_text base flags v; sg = sign_text flags v;
          zs = replicate (zero_pad mn mx flags (length ds) (length sg)) CHR ''0'';
          sp = replicate (space_pad mn mx flags (length ds) (length sg)) CHR '' ''
      in if has_flag flags DP_F_MINUS then sg @ zs @ ds @ sp else sp @ sg @ zs @ ds)"

lemma nat_pad: "\<not> mx < int n \<Longrightarrow> nat (max (mx - int n) y) = max (nat mx - n) (nat y)"
  by (auto simp: max_def)

lemma fmtint_text:
  assumes "unat base \<in> {8, 10, 16}"
  shows "fmtint v base mn mx flags s = outs (int_text v base mn mx flags) s"
proof -
  let ?u = "if \<not> has_flag flags DP_F_UNSIGNED \<and> sint v < 0 then - v else v"
  let ?c = "convert_loop (digit_table (has_flag flags DP_F_UP)) base ?u ''''"
  let ?ds = "digits_text base flags v" and ?sg = "sign_text flags v"
  note c = convert_digits [OF assms, of "digit_table (has_flag flags DP_F_UP)" ?u, folded magnitude_unat, folded digits_text_def]
  have place: "(if length ?c = 20 then 19 else length ?c) = length ?ds" using c(2,3) by simp
  have digits: "rev (take (length ?ds) ?c) = ?ds" using c(1) c(2) [symmetric] by simp
  show ?thesis
    unfolding fmtint_def Let_def place digits sign_text_def [symmetric] split_def int_text_def zero_pad_def space_pad_def
    by (cases "has_flag flags DP_F_ZERO"; cases "has_flag flags DP_F_MINUS") (auto simp: nat_pad)
qed

lemma digits_of_nonempty: "digits_of t b n \<noteq> []"
  by (subst digits_of.simps) simp

lemma digits_of_head:
  assumes "2 \<le> b" "b \<le> 16" "0 < n"
  shows "hd (digits_of (digit_table caps) b n) \<noteq> CHR ''0''"
  using assms
proof (induction "digit_table caps" b n rule: digits_of.induct)
  case (1 b n)
  show ?case
  proof (cases "n < b")
    case True
    then have "n < 16" using 1(3) by linarith
    have "digit_value CHR ''0'' = 0" by (simp add: digit_value_def)
    with digit_value_table [OF \<open>n < 16\<close>, of caps] 1(4) have "digit_table caps ! n \<noteq> CHR ''0''" by auto
    then show ?thesis using True by (subst digits_of.simps) simp
  next
    case False
    then have "0 < n div b" using 1(2) by (simp add: div_greater_zero_iff)
    then have "hd (digits_of (digit_table caps) b (n div b)) \<noteq> CHR ''0''" using 1 False by simp
    then show ?thesis using False 1(2) digits_of_nonempty by (subst digits_of.simps) simp
  qed
qed

lemma number_value_zeros: "number_value b (replicate z CHR ''0'' @ ds) = number_value b ds"
proof -
  have "foldl (\<lambda>n c. n * b + digit_value c) 0 (replicate z CHR ''0'') = 0"
    by (induction z) (simp_all add: digit_value_def)
  then show ?thesis by (simp add: number_value_def)
qed

text \<open>C25. Integers print and read back. For the bases that the conversions use, the text of an integer is its
  sign, zeros, and the digits of its magnitude, whose value is the magnitude and which have no leading
  zero; the precision is a minimum for the digits, spaces pad on one side only, and the whole field is
  as wide as the minimal width unless a precision is combined with zero padding.\<close>

theorem fmtint_roundtrip:
  assumes "unat base \<in> {8, 10, 16}"
  shows "\<exists>l z ds r. written (fmtint v base mn mx flags s) =
      written s @ replicate l CHR '' '' @ sign_text flags v @ replicate z CHR ''0'' @ ds @ replicate r CHR '' ''
    \<and> currlen (fmtint v base mn mx flags s) = currlen s + int (l + length (sign_text flags v) + z + length ds + r)
    \<and> number_value (unat base) (replicate z CHR ''0'' @ ds) = magnitude flags v
    \<and> ds \<noteq> [] \<and> (magnitude flags v = 0 \<or> hd ds \<noteq> CHR ''0'') \<and> nat mx \<le> z + length ds \<and> (l = 0 \<or> r = 0)
    \<and> (mx \<le> int (length ds) \<or> \<not> has_flag flags DP_F_ZERO \<longrightarrow>
        l + length (sign_text flags v) + z + length ds + r
          = max (nat mn) (length (sign_text flags v) + max (nat mx) (length ds)))"
proof -
  let ?ds = "digits_text base flags v" and ?sg = "sign_text flags v"
  let ?z = "zero_pad mn mx flags (length ?ds) (length ?sg)" and ?p = "space_pad mn mx flags (length ?ds) (length ?sg)"
  let ?l = "if has_flag flags DP_F_MINUS then 0 else ?p" and ?r = "if has_flag flags DP_F_MINUS then ?p else 0"
  have b: "2 \<le> unat base" "unat base \<le> 16" using assms by auto
  have val: "number_value (unat base) (replicate ?z CHR ''0'' @ ?ds) = magnitude flags v"
    using number_value_digits [OF b] by (simp only: number_value_zeros digits_text_def)
  have hd: "?ds \<noteq> []" "magnitude flags v = 0 \<or> hd ?ds \<noteq> CHR ''0''"
    using digits_of_nonempty digits_of_head [OF b] by (auto simp: digits_text_def)
  have "nat mx \<le> ?z + length ?ds" by (auto simp: zero_pad_def max_def)
  moreover have "mx \<le> int (length ?ds) \<or> \<not> has_flag flags DP_F_ZERO \<longrightarrow>
      ?l + length ?sg + ?z + length ?ds + ?r = max (nat mn) (length ?sg + max (nat mx) (length ?ds))"
    by (auto simp: zero_pad_def space_pad_def max_def)
  ultimately show ?thesis using val hd
    by (intro exI [of _ ?l] exI [of _ ?z] exI [of _ ?ds] exI [of _ ?r])
      (simp add: fmtint_text [OF assms] int_text_def Let_def)
qed

theorem fmtint_roundtrip_witness:
  "\<exists>l z ds r. written (fmtint (- 42) 10 8 0 0 \<lparr>currlen = 0, written = ''''\<rparr>) =
      replicate l CHR '' '' @ ''-'' @ replicate z CHR ''0'' @ ds @ replicate r CHR '' ''
    \<and> number_value 10 (replicate z CHR ''0'' @ ds) = 42 \<and> l + 1 + z + length ds + r = max 8 (1 + length ds)"
proof -
  have "sign_text 0 (- 42) = ''-''" "magnitude 0 (- 42) = 42" by (simp_all add: sign_text_def magnitude_def)
  then show ?thesis using fmtint_roundtrip [of 10 "- 42" 8 0 0 "\<lparr>currlen = 0, written = ''''\<rparr>"] by auto
qed

section \<open>Runs of the state machine\<close>

text \<open>The machine with the text \<open>cs\<close> still to read, and its variables between directives.\<close>

definition reading :: "string \<Rightarrow> dopr_state \<Rightarrow> dopr_state" where
  "reading cs d = d\<lparr>dp_ch := hd cs, dp_format := tl cs\<rparr>"

definition between :: "u32 list \<Rightarrow> sink \<Rightarrow> dopr_state" where
  "between as s = \<lparr>dp_ch = NUL, dp_format = [], dp_state = DP_S_DEFAULT, dp_flags = 0, dp_cflags = 0, dp_min = 0,
     dp_max = -1, dp_args = as, dp_sink = s, dp_stores = []\<rparr>"

lemma reading_simps [simp]:
  "dp_ch (reading (c # cs) d) = c" "dp_format (reading (c # cs) d) = cs" "dp_state (reading cs d) = dp_state d"
  "dp_sink (reading cs d) = dp_sink d" "dp_args (reading cs d) = dp_args d" "dp_flags (reading cs d) = dp_flags d"
  "dp_min (reading cs d) = dp_min d" "dp_max (reading cs d) = dp_max d" "dp_cflags (reading cs d) = dp_cflags d"
  "dp_stores (reading cs d) = dp_stores d"
  "(reading (c # cs) d)\<lparr>dp_ch := c', dp_format := cs'\<rparr> = reading (c' # cs') d"
  by (simp_all add: reading_def)

lemma reading_update [simp]:
  "(reading cs d)\<lparr>dp_state := st\<rparr> = reading cs (d\<lparr>dp_state := st\<rparr>)" "(reading cs d)\<lparr>dp_flags := fl\<rparr> = reading cs (d\<lparr>dp_flags := fl\<rparr>)"
  "(reading cs d)\<lparr>dp_min := mn\<rparr> = reading cs (d\<lparr>dp_min := mn\<rparr>)" "(reading cs d)\<lparr>dp_sink := s\<rparr> = reading cs (d\<lparr>dp_sink := s\<rparr>)"
  "(reading cs d)\<lparr>dp_args := as\<rparr> = reading cs (d\<lparr>dp_args := as\<rparr>)"
  by (cases d; simp add: reading_def)+

lemma update_order [simp]:
  "d\<lparr>dp_flags := fl, dp_state := st\<rparr> = d\<lparr>dp_state := st, dp_flags := fl\<rparr>"
  "d\<lparr>dp_min := mn, dp_state := st\<rparr> = d\<lparr>dp_state := st, dp_min := mn\<rparr>"
  "d\<lparr>dp_min := mn, dp_flags := fl\<rparr> = d\<lparr>dp_flags := fl, dp_min := mn\<rparr>"
  by (cases d; simp)+

lemma next_ch_reading: "cs \<noteq> [] \<Longrightarrow> next_ch (reading (c # cs) d) = Inr (reading cs d)"
  by (cases cs) (simp_all add: next_ch_def)

lemma run_step:
  assumes "dp_state d \<noteq> DP_S_DONE" "dopr_step F strings m d = Inr d'"
  shows "dopr_loop F strings m d = dopr_loop F strings m d'"
  using assms by (subst dopr_loop.simps) simp


lemma run_text:
  assumes "dp_state d = DP_S_DEFAULT" "c \<noteq> NUL" "c \<noteq> CHR ''%''" "currlen (dp_sink d) < m" "cs \<noteq> []"
  shows "dopr_loop F strings m (reading (c # cs) d) = dopr_loop F strings m (reading cs (d\<lparr>dp_sink := outs [c] (dp_sink d)\<rparr>))"
  using assms by (intro run_step) (simp_all add: dopr_step_def next_ch_reading outs_one)

lemma run_percent:
  assumes "dp_state d = DP_S_DEFAULT" "currlen (dp_sink d) < m" "cs \<noteq> []"
  shows "dopr_loop F strings m (reading (CHR ''%'' # cs) d) = dopr_loop F strings m (reading cs (d\<lparr>dp_state := DP_S_FLAGS\<rparr>))"
  using assms by (intro run_step) (simp_all add: dopr_step_def next_ch_reading)

lemma run_flags:
  assumes "dp_state d = DP_S_FLAGS" "c \<noteq> NUL" "currlen (dp_sink d) < m" "cs \<noteq> []"
  shows "dopr_loop F strings m (reading (c # cs) d) =
    (case dopr_flag c of
       Some f \<Rightarrow> dopr_loop F strings m (reading cs (d\<lparr>dp_flags := dp_flags d OR f\<rparr>))
     | None \<Rightarrow> dopr_loop F strings m (reading (c # cs) (d\<lparr>dp_state := DP_S_MIN\<rparr>)))"
  using assms by (cases "dopr_flag c") (auto intro!: run_step simp: dopr_step_def next_ch_reading)

lemma run_min:
  assumes "dp_state d = DP_S_MIN" "c \<noteq> NUL" "c \<noteq> CHR ''*''" "currlen (dp_sink d) < m" "cs \<noteq> []"
  shows "dopr_loop F strings m (reading (c # cs) d) =
    (if is_digit c then dopr_loop F strings m (reading cs (d\<lparr>dp_min := int32 (10 * dp_min d + char_to_int c)\<rparr>))
     else dopr_loop F strings m (reading (c # cs) (d\<lparr>dp_state := DP_S_DOT\<rparr>)))"
  using assms by (cases "is_digit c") (auto intro!: run_step simp: dopr_step_def next_ch_reading)

lemma run_dot_mod:
  assumes "dp_state d = DP_S_DOT" "c \<noteq> NUL" "c \<notin> set ''.hlL''" "currlen (dp_sink d) < m"
  shows "dopr_loop F strings m (reading (c # cs) d) = dopr_loop F strings m (reading (c # cs) (d\<lparr>dp_state := DP_S_CONV\<rparr>))"
proof -
  have "dopr_loop F strings m (reading (c # cs) d) = dopr_loop F strings m (reading (c # cs) (d\<lparr>dp_state := DP_S_MOD\<rparr>))"
    using assms by (intro run_step) (simp_all add: dopr_step_def)
  also have "\<dots> = dopr_loop F strings m (reading (c # cs) (d\<lparr>dp_state := DP_S_CONV\<rparr>))"
    using assms by (intro run_step) (simp_all add: dopr_step_def)
  finally show ?thesis .
qed

lemma run_conv:
  assumes "dp_state d = DP_S_CONV" "c \<noteq> NUL" "currlen (dp_sink d) < m" "cs \<noteq> []" "dp_stores d = []"
    and "dopr_conv F strings m (reading (c # cs) d) = Inr (reading (c # cs) (d\<lparr>dp_flags := fl, dp_args := as, dp_sink := s\<rparr>))"
  shows "dopr_loop F strings m (reading (c # cs) d) = dopr_loop F strings m (reading cs (between as s))"
proof (rule run_step)
  have "(reading cs (d\<lparr>dp_flags := fl, dp_args := as, dp_sink := s\<rparr>))\<lparr>dp_state := DP_S_DEFAULT, dp_flags := 0, dp_cflags := 0,
      dp_min := 0, dp_max := -1\<rparr> = reading cs (between as s)"
    using assms(5) by (cases d) (simp add: reading_def between_def)
  then show "dopr_step F strings m (reading (c # cs) d) = Inr (reading cs (between as s))"
    using assms by (simp add: dopr_step_def next_ch_reading)
qed (use assms in simp)

lemma run_done: "dp_state d \<noteq> DP_S_DONE \<Longrightarrow> dopr_loop F strings m (reading [NUL] d) = Inr (reading [NUL] (d\<lparr>dp_state := DP_S_DONE\<rparr>))"
  by (subst run_step [where d' = "reading [NUL] (d\<lparr>dp_state := DP_S_DONE\<rparr>)"])
    (simp_all add: dopr_step_def, simp add: dopr_loop.simps)

text \<open>The width of a directive.\<close>

definition width :: "int \<Rightarrow> string \<Rightarrow> int" where
  "width n w = foldl (\<lambda>n c. 10 * n + char_to_int c) n w"

lemma digit_range: "is_digit c \<Longrightarrow> 0 \<le> char_to_int c \<and> char_to_int c \<le> 9 \<and> c \<noteq> NUL \<and> c \<noteq> CHR ''*''"
proof -
  have "list_all (\<lambda>c. is_digit c \<longrightarrow> 0 \<le> char_to_int c \<and> char_to_int c \<le> 9 \<and> c \<noteq> NUL \<and> c \<noteq> CHR ''*'') Enum.enum"
    by code_simp
  then show "is_digit c \<Longrightarrow> ?thesis" by (simp add: list_all_iff enum_UNIV)
qed

lemma width_mono:
  assumes "list_all is_digit w" "0 \<le> n"
  shows "n \<le> width n w"
  using assms
proof (induction w arbitrary: n)
  case (Cons c w)
  have d: "0 \<le> char_to_int c" using Cons.prems(1) digit_range by simp
  have "n \<le> 10 * n + char_to_int c" using d Cons.prems(2) by linarith
  also have "\<dots> \<le> width (10 * n + char_to_int c) w" using Cons d by simp
  finally show ?case by (simp add: width_def)
qed (simp add: width_def)

lemma int32_small: "0 \<le> n \<Longrightarrow> n < 2 ^ 31 \<Longrightarrow> int32 n = n"
  unfolding int32_def by (rule sint_of_int_exact) simp_all

lemma run_width:
  assumes "list_all is_digit w" "0 \<le> dp_min d" "width (dp_min d) w < 2 ^ 31"
    and "dp_state d = DP_S_MIN" "currlen (dp_sink d) < m" "c \<noteq> NUL" "c \<noteq> CHR ''*''" "\<not> is_digit c" "cs \<noteq> []"
  shows "dopr_loop F strings m (reading (w @ c # cs) d) =
    dopr_loop F strings m (reading (c # cs) (d\<lparr>dp_min := width (dp_min d) w, dp_state := DP_S_DOT\<rparr>))"
  using assms(1-5)
proof (induction w arbitrary: d)
  case Nil
  then show ?case using run_min [of d c m cs F strings] assms(6-9) by (simp add: width_def)
next
  case (Cons a w)
  let ?n = "10 * dp_min d + char_to_int a"
  have a: "is_digit a" "0 \<le> char_to_int a" "a \<noteq> NUL" "a \<noteq> CHR ''*''" using Cons.prems(1) digit_range [of a] by auto
  have w: "width (dp_min d) (a # w) = width ?n w" by (simp add: width_def)
  have n: "0 \<le> ?n" "?n \<le> width ?n w" using a(2) Cons.prems(1,2) width_mono [of w ?n] by auto
  then have i: "int32 ?n = ?n" using Cons.prems(3) w by (intro int32_small) simp_all
  have "dopr_loop F strings m (reading ((a # w) @ c # cs) d) = dopr_loop F strings m (reading (w @ c # cs) (d\<lparr>dp_min := ?n\<rparr>))"
    using run_min [of d a m "w @ c # cs" F strings] a Cons.prems(4,5) i by simp
  also have "\<dots> = dopr_loop F strings m (reading (c # cs) (d\<lparr>dp_min := width ?n w, dp_state := DP_S_DOT\<rparr>))"
    using Cons.IH [of "d\<lparr>dp_min := ?n\<rparr>"] Cons.prems n w by simp
  finally show ?case by (simp only: w)
qed

section \<open>Formats as lists of directives\<close>

text \<open>
  A format made of plain characters and of directives, each with its zero flag, the digits of its
  width and its conversion, and what it should print: the reference for the state machine.
\<close>

datatype item = Plain char | Directive bool string char

fun item_format :: "item \<Rightarrow> string" where
  "item_format (Plain c) = [c]"
| "item_format (Directive z w c) = CHR ''%'' # (if z then ''0'' else '''') @ w @ [c]"

fun item_ok :: "item \<Rightarrow> bool" where
  "item_ok (Plain c) \<longleftrightarrow> c \<noteq> NUL \<and> c \<noteq> CHR ''%''"
| "item_ok (Directive z w c) \<longleftrightarrow> c \<in> set ''diuoxXcsp%'' \<and> list_all is_digit w \<and> (w = '''' \<or> hd w \<noteq> CHR ''0'')
     \<and> width 0 w < 2 ^ 31"

definition conv_text :: "(u32 \<Rightarrow> string) \<Rightarrow> u32 \<Rightarrow> int \<Rightarrow> char \<Rightarrow> u32 \<Rightarrow> string" where
  "conv_text strings fl mn c v =
     (if c = CHR ''u'' then int_text v 10 mn (-1) (fl OR DP_F_UNSIGNED)
      else if c = CHR ''o'' then int_text v 8 mn (-1) (fl OR DP_F_UNSIGNED)
      else if c = CHR ''x'' then int_text v 16 mn (-1) (fl OR DP_F_UNSIGNED)
      else if c = CHR ''X'' then int_text v 16 mn (-1) (fl OR (DP_F_UP OR DP_F_UNSIGNED))
      else if c = CHR ''p'' then int_text v 16 mn (-1) fl
      else if c = CHR ''c'' then [char_of (unat v)]
      else if c = CHR ''s'' then
        let cs = (if v = 0 then ''<NULL>'' else strings v) in replicate (nat (mn - int (length cs))) CHR '' '' @ cs
      else int_text v 10 mn (-1) fl)"

fun render :: "(u32 \<Rightarrow> string) \<Rightarrow> item list \<Rightarrow> u32 list \<Rightarrow> (string \<times> u32 list) option" where
  "render strings [] as = Some ('''', as)"
| "render strings (Plain c # is) as = map_option (\<lambda>(cs, as). (c # cs, as)) (render strings is as)"
| "render strings (Directive z w c # is) as =
     (if c = CHR ''%'' then map_option (\<lambda>(cs, as). (CHR ''%'' # cs, as)) (render strings is as)
      else case as of
        [] \<Rightarrow> None
      | v # as \<Rightarrow> map_option (\<lambda>(cs, as). (conv_text strings (if z then DP_F_ZERO else 0) (width 0 w) c v @ cs, as))
                   (render strings is as))"

lemma fmtstr_text:
  assumes "fl AND DP_F_MINUS = 0" "int (length (replicate (nat (mn - int (length cs))) CHR '' '' @ cs)) \<le> mx"
    and "cs = (case str of None \<Rightarrow> ''<NULL>'' | Some v \<Rightarrow> v)"
  shows "fmtstr str fl mn mx s = outs (replicate (nat (mn - int (length cs))) CHR '' '' @ cs) s"
proof -
  have "min (max 0 (if mn - int (length cs) < 0 then 0 else mn - int (length cs))) (max 0 mx) = max 0 (mn - int (length cs))"
    "min (int (length cs)) (max 0 (mx - max 0 (mn - int (length cs)))) = int (length cs)"
    using assms(2) by (auto simp: max_def split: if_splits)
  then show ?thesis using assms(1) unfolding fmtstr_def Let_def assms(3) [symmetric] by (simp add: nat_0_le)
qed

lemma dopr_int_reading:
  assumes "unat base \<in> {8, 10, 16}" "dp_args d = v # as'"
  shows "dopr_int base extra (reading cs d) = Inr (reading cs (d\<lparr>dp_flags := dp_flags d OR extra, dp_args := as',
    dp_sink := outs (int_text v base (dp_min d) (dp_max d) (dp_flags d OR extra)) (dp_sink d)\<rparr>))"
  using assms by (cases d) (simp add: dopr_int_def va_word_def fmtint_text reading_def)

definition int_conv :: "char \<Rightarrow> u32 \<times> u32" where
  "int_conv c =
     (if c = CHR ''o'' then (8, DP_F_UNSIGNED)
      else if c = CHR ''u'' then (10, DP_F_UNSIGNED)
      else if c = CHR ''X'' then (16, DP_F_UP OR DP_F_UNSIGNED)
      else if c = CHR ''x'' then (16, DP_F_UNSIGNED)
      else if c = CHR ''p'' then (16, 0)
      else (10, 0))"

lemma int_conv_ok:
  assumes "c \<in> set ''diuoxXp''"
  shows "unat (fst (int_conv c)) \<in> {8, 10, 16}"
    "conv_text strings fl mn c v = int_text v (fst (int_conv c)) mn (-1) (fl OR snd (int_conv c))"
    "dopr_conv F strings m (reading (c # cs) d) = dopr_int (fst (int_conv c)) (snd (int_conv c)) (reading (c # cs) d)"
proof -
  consider "c = CHR ''d''" | "c = CHR ''i''" | "c = CHR ''u''" | "c = CHR ''o''" | "c = CHR ''x''" | "c = CHR ''X''"
    | "c = CHR ''p''" using assms by auto
  then show "unat (fst (int_conv c)) \<in> {8, 10, 16}"
    "conv_text strings fl mn c v = int_text v (fst (int_conv c)) mn (-1) (fl OR snd (int_conv c))"
    "dopr_conv F strings m (reading (c # cs) d) = dopr_int (fst (int_conv c)) (snd (int_conv c)) (reading (c # cs) d)"
    by (cases; simp add: int_conv_def conv_text_def dopr_conv_def)+
qed

lemma run_conversion:
  assumes "c \<in> set ''diuoxXcsp''" "as = v # as'" "fl \<in> {0, DP_F_ZERO}"
    and "currlen s + int (length (conv_text strings fl mn c v)) < m" "0 \<le> currlen s" "cs \<noteq> []"
  shows "dopr_loop F strings m (reading (c # cs) ((between as s)\<lparr>dp_state := DP_S_CONV, dp_flags := fl, dp_min := mn\<rparr>)) =
    dopr_loop F strings m (reading cs (between as' (outs (conv_text strings fl mn c v) s)))"
proof -
  let ?d = "(between as s)\<lparr>dp_state := DP_S_CONV, dp_flags := fl, dp_min := mn\<rparr>"
  have len: "currlen s < m" using assms(4) by linarith
  have "\<exists>fl'. dopr_conv F strings m (reading (c # cs) ?d) =
      Inr (reading (c # cs) (?d\<lparr>dp_flags := fl', dp_args := as', dp_sink := outs (conv_text strings fl mn c v) s\<rparr>))"
  proof (cases "c \<in> set ''diuoxXp''")
    case True
    have d: "dp_args ?d = v # as'" "dp_flags ?d = fl" "dp_min ?d = mn" "dp_max ?d = -1" "dp_sink ?d = s"
      using assms(2) by (simp_all add: between_def)
    show ?thesis
      unfolding int_conv_ok(2,3) [OF True] dopr_int_reading [OF int_conv_ok(1) [OF True] d(1)] d(2-5) by blast
  next
    case False
    then have "c = CHR ''c'' \<or> c = CHR ''s''" using assms(1) by auto
    then show ?thesis
    proof
      assume "c = CHR ''c''"
      then show ?thesis using assms(2)
        by (intro exI [of _ fl]) (simp add: dopr_conv_def conv_text_def va_word_def between_def reading_def outs_one)
    next
      assume s: "c = CHR ''s''"
      have "fl AND DP_F_MINUS = 0" using assms(3) by (auto simp: DP_F_ZERO_def DP_F_MINUS_def)
      let ?cs = "if v = 0 then ''<NULL>'' else strings v"
      let ?str = "if v = 0 then None else Some (strings v)"
      have ct: "conv_text strings fl mn c v = replicate (nat (mn - int (length ?cs))) CHR '' '' @ ?cs"
        using s by (simp add: conv_text_def Let_def)
      have "fmtstr ?str fl mn m s = outs (conv_text strings fl mn c v) s"
        unfolding ct using assms(4,5) by (intro fmtstr_text [OF \<open>fl AND DP_F_MINUS = 0\<close>]) (simp_all only: ct, simp_all)
      then show ?thesis using assms(2) s
        by (intro exI [of _ fl]) (simp add: dopr_conv_def va_word_def between_def reading_def Let_def)
    qed
  qed
  then show ?thesis using assms(1,6) len run_conv [of ?d c m cs F strings _ as'] by (auto simp: between_def)
qed

text \<open>A directive from its percent sign to the conversion.\<close>

lemma conv_letter:
  assumes "c \<in> set ''diuoxXcsp%''"
  shows "c \<noteq> NUL \<and> c \<noteq> CHR ''*'' \<and> \<not> is_digit c \<and> c \<notin> set ''.hlL'' \<and> dopr_flag c = None"
proof -
  have "list_all (\<lambda>c. c \<noteq> NUL \<and> c \<noteq> CHR ''*'' \<and> \<not> is_digit c \<and> c \<notin> set ''.hlL'' \<and> dopr_flag c = None) ''diuoxXcsp%''"
    by code_simp
  then show ?thesis using assms unfolding list_all_iff by blast
qed

lemma digit_flag:
  assumes "is_digit c" "c \<noteq> CHR ''0''"
  shows "dopr_flag c = None"
proof -
  have "list_all (\<lambda>c. is_digit c \<and> c \<noteq> CHR ''0'' \<longrightarrow> dopr_flag c = None) Enum.enum" by code_simp
  then show ?thesis using assms by (simp add: list_all_iff enum_UNIV)
qed

lemma run_directive:
  assumes "item_ok (Directive z w c)" "currlen s < m" "cs \<noteq> []"
  shows "dopr_loop F strings m (reading (item_format (Directive z w c) @ cs) (between as s)) =
    dopr_loop F strings m (reading (c # cs) ((between as s)\<lparr>dp_state := DP_S_CONV, dp_flags := if z then DP_F_ZERO else 0,
      dp_min := width 0 w\<rparr>))"
proof -
  let ?fl = "if z then DP_F_ZERO else 0" and ?d = "between as s"
  have ok: "c \<in> set ''diuoxXcsp%''" "list_all is_digit w" "w = '''' \<or> hd w \<noteq> CHR ''0''" "width 0 w < 2 ^ 31"
    using assms(1) by simp_all
  note letter = conv_letter [OF ok(1)]
  have d: "dp_state ?d = DP_S_DEFAULT" "dp_flags ?d = 0" "dp_sink ?d = s" "dp_min ?d = 0" by (simp_all add: between_def)
  obtain a rest where a: "w @ c # cs = a # rest" by (cases w) auto
  have nf: "dopr_flag a = None" "a \<noteq> NUL" "rest \<noteq> []"
    using a ok(2,3) letter digit_flag [of a] digit_range [of a] assms(3) by (cases w; force)+
  have "dopr_loop F strings m (reading (item_format (Directive z w c) @ cs) ?d) =
      dopr_loop F strings m (reading ((if z then ''0'' else '''') @ w @ c # cs) (?d\<lparr>dp_state := DP_S_FLAGS\<rparr>))"
    using run_percent [of ?d m "(if z then ''0'' else '''') @ w @ c # cs" F strings] d assms(2) by simp
  also have "\<dots> = dopr_loop F strings m (reading (w @ c # cs) (?d\<lparr>dp_state := DP_S_FLAGS, dp_flags := ?fl\<rparr>))"
  proof (cases z)
    case True
    then show ?thesis
      using run_flags [of "?d\<lparr>dp_state := DP_S_FLAGS\<rparr>" "CHR ''0''" m "w @ c # cs" F strings] d assms(2)
      by (simp add: dopr_flag_def)
  next
    case False
    then show ?thesis using d by (cases ?d) simp
  qed
  also have "\<dots> = dopr_loop F strings m (reading (w @ c # cs) (?d\<lparr>dp_state := DP_S_MIN, dp_flags := ?fl\<rparr>))"
    using run_flags [of "?d\<lparr>dp_state := DP_S_FLAGS, dp_flags := ?fl\<rparr>" a m rest F strings] d assms(2) nf
    unfolding a by simp
  also have "\<dots> = dopr_loop F strings m (reading (c # cs) (?d\<lparr>dp_state := DP_S_DOT, dp_flags := ?fl, dp_min := width 0 w\<rparr>))"
    using run_width [of w "?d\<lparr>dp_state := DP_S_MIN, dp_flags := ?fl\<rparr>" m c cs F strings] ok d assms(2,3) letter by simp
  also have "\<dots> = dopr_loop F strings m (reading (c # cs) (?d\<lparr>dp_state := DP_S_CONV, dp_flags := ?fl, dp_min := width 0 w\<rparr>))"
    using run_dot_mod [of "?d\<lparr>dp_state := DP_S_DOT, dp_flags := ?fl, dp_min := width 0 w\<rparr>" c m F strings cs] d assms(2) letter
    by simp
  finally show ?thesis .
qed

lemma run_percent_sign:
  assumes "currlen s < m" "cs \<noteq> []"
  shows "dopr_loop F strings m (reading (CHR ''%'' # cs) ((between as s)\<lparr>dp_state := DP_S_CONV, dp_flags := fl, dp_min := mn\<rparr>)) =
    dopr_loop F strings m (reading cs (between as (outs ''%'' s)))"
proof (rule run_conv)
  show "dopr_conv F strings m (reading (CHR ''%'' # cs) ((between as s)\<lparr>dp_state := DP_S_CONV, dp_flags := fl, dp_min := mn\<rparr>)) =
      Inr (reading (CHR ''%'' # cs) (((between as s)\<lparr>dp_state := DP_S_CONV, dp_flags := fl, dp_min := mn\<rparr>)
        \<lparr>dp_flags := fl, dp_args := as, dp_sink := outs ''%'' s\<rparr>))"
    by (simp add: dopr_conv_def between_def reading_def outs_one Let_def)
qed (use assms in \<open>simp_all add: between_def\<close>)

lemma run_items:
  assumes "list_all item_ok items" "render strings items as = Some (out, as')" "0 \<le> currlen s"
    and "currlen s + int (length out) < m"
  shows "dopr_loop F strings m (reading (concat (map item_format items) @ [NUL]) (between as s)) =
    Inr (reading [NUL] ((between as' (outs out s))\<lparr>dp_state := DP_S_DONE\<rparr>))"
  using assms
proof (induction strings items as arbitrary: out s rule: render.induct)
  case (1 strings as)
  then show ?case using run_done [of "between as s" F strings m] by (simp add: between_def)
next
  case (2 strings c "is" as)
  then obtain out1 where o: "render strings is as = Some (out1, as')" "out = c # out1" by auto
  let ?rest = "concat (map item_format is) @ [NUL]"
  have "dopr_loop F strings m (reading (c # ?rest) (between as s)) = dopr_loop F strings m (reading ?rest (between as (outs [c] s)))"
    using run_text [of "between as s" c m ?rest F strings] 2 o by (simp add: between_def)
  also have "\<dots> = Inr (reading [NUL] ((between as' (outs out1 (outs [c] s)))\<lparr>dp_state := DP_S_DONE\<rparr>))"
    using 2 o by (intro "2.IH") simp_all
  finally show ?case using o(2) by (simp add: outs_def)
next
  case (3 strings z w c "is" as)
  let ?rest = "concat (map item_format is) @ [NUL]" and ?fl = "if z then DP_F_ZERO else 0"
  have dir: "dopr_loop F strings m (reading (item_format (Directive z w c) @ ?rest) (between as s)) =
      dopr_loop F strings m (reading (c # ?rest) ((between as s)\<lparr>dp_state := DP_S_CONV, dp_flags := ?fl, dp_min := width 0 w\<rparr>))"
    using 3 by (intro run_directive) simp_all
  show ?case
  proof (cases "c = CHR ''%''")
    case True
    then obtain out1 where o: "render strings is as = Some (out1, as')" "out = CHR ''%'' # out1" using 3 by auto
    have "dopr_loop F strings m (reading ?rest (between as (outs ''%'' s))) =
        Inr (reading [NUL] ((between as' (outs out1 (outs ''%'' s)))\<lparr>dp_state := DP_S_DONE\<rparr>))"
      using 3 o True by (intro "3.IH"(1)) simp_all
    then show ?thesis using dir run_percent_sign [of s m ?rest F strings "width 0 w" ?fl as] 3(5,6) o(2) True
      by (simp add: outs_def)
  next
    case False
    then obtain v as1 out1 where o: "as = v # as1" "render strings is as1 = Some (out1, as')"
      "out = conv_text strings ?fl (width 0 w) c v @ out1" using 3 by (auto split: list.splits)
    have "dopr_loop F strings m (reading (c # ?rest) ((between as s)\<lparr>dp_state := DP_S_CONV, dp_flags := ?fl, dp_min := width 0 w\<rparr>)) =
        dopr_loop F strings m (reading ?rest (between as1 (outs (conv_text strings ?fl (width 0 w) c v) s)))"
      using 3(3,5,6) o False by (intro run_conversion) auto
    also have "\<dots> = Inr (reading [NUL] ((between as' (outs out1 (outs (conv_text strings ?fl (width 0 w) c v) s)))\<lparr>dp_state := DP_S_DONE\<rparr>))"
      using 3 o False by (intro "3.IH"(2)) simp_all
    finally show ?thesis using dir o(3) by simp
  qed
qed

lemma vsnprintf_items:
  assumes "list_all item_ok items" "render strings items as = Some (out, as')" "int (length out) < m"
  shows "vsnprintf F strings m (concat (map item_format items)) as s =
    Inr (reading [NUL] ((between as' (outs out (s\<lparr>currlen := 0\<rparr>)))\<lparr>dp_state := DP_S_DONE\<rparr>))"
proof -
  let ?f = "concat (map item_format items) @ [NUL]" and ?s = "s\<lparr>currlen := 0\<rparr>"
  have "vsnprintf F strings m (concat (map item_format items)) as s = dopr_loop F strings m (reading ?f (between as ?s))"
    by (cases ?f) (simp_all add: vsnprintf_def dopr_def next_ch_def reading_def between_def)
  also have "\<dots> = Inr (reading [NUL] ((between as' (outs out ?s))\<lparr>dp_state := DP_S_DONE\<rparr>))"
    using assms by (intro run_items) simp_all
  finally show ?thesis .
qed

text \<open>C24. The formatter prints what its format says. For every format made of plain characters and of directives
  for integers, characters, strings and the percent sign, with an optional zero flag and width, and
  enough arguments, printing below the length limit ends and appends exactly the concatenation of the
  texts of the parts, each conversion taking the next argument.\<close>

theorem vsnprintf_renders:
  assumes "list_all item_ok items" "render strings items as = Some (out, as')" "int (length out) < m"
  shows "\<exists>d. vsnprintf F strings m (concat (map item_format items)) as s = Inr d
    \<and> written (dp_sink d) = written s @ out \<and> currlen (dp_sink d) = int (length out) \<and> dp_args d = as' \<and> dp_stores d = []"
  using vsnprintf_items [OF assms, of F s] by (simp add: between_def)

text \<open>A floating-point unit with exact rational arithmetic, to run the conversions on examples.\<close>

definition rational_fpu :: "rat fpu" where
  "rational_fpu = \<lparr>fp_of_int = of_int, fp_half = 1 / 2, fp_less = (<), fp_neg = uminus, fp_mul = (*), fp_sub = (-),
     fp_trunc = (\<lambda>x. word_of_int (if x < 0 then - floor (- x) else floor x)), fp_double = (\<lambda>a b. of_int (sint a)),
     fp_ldouble = (\<lambda>a b c. of_int (sint a))\<rparr>"

lemmas flag_values = DP_F_ZERO_def DP_F_UP_def DP_F_UNSIGNED_def DP_F_MINUS_def DP_F_PLUS_def DP_F_SPACE_def

lemmas text_values = width_def char_to_int_def conv_text_def int_text_def digits_text_def digits_of.simps
  digit_table_def magnitude_def sign_text_def zero_pad_def space_pad_def flag_values

theorem vsnprintf_renders_witness:
  "\<exists>d. vsnprintf rational_fpu (\<lambda>_. ''ok'') 1000 ''a=%08x %s%%'' [0xBEEF, 4096] \<lparr>currlen = 0, written = ''> ''\<rparr> = Inr d
    \<and> written (dp_sink d) = ''> a=0000beef ok%''"
proof -
  let ?items = "[Plain CHR ''a'', Plain CHR ''='', Directive True ''8'' CHR ''x'', Plain CHR '' '',
    Directive False '''' CHR ''s'', Directive False '''' CHR ''%'']"
  have "list_all item_ok ?items" by (simp add: width_def char_to_int_def is_digit_def isdigit_def)
  moreover have "render (\<lambda>_. ''ok'') ?items [0xBEEF, 4096] = Some (''a=0000beef ok%'', [])"
    by (simp add: text_values) (simp add: numeral_eq_Suc)
  ultimately show ?thesis
    using vsnprintf_renders [of ?items "\<lambda>_. ''ok''" "[0xBEEF, 4096]" "''a=0000beef ok%''" "[]" 1000 rational_fpu
        "\<lparr>currlen = 0, written = ''> ''\<rparr>"] by auto
qed

text \<open>
  Two conversions do not print what a reader expects. \<^verbatim>\<open>%p\<close> treats an address as a signed number, and
  a fraction whose first digits are zero is printed without them, with the zeros behind it.
\<close>

lemma pointer_prints_sign:
  "conv_text strings 0 0 CHR ''p'' 0xF0000000 = ''-10000000''"
  by (simp add: text_values)

lemma fraction_loses_zeros:
  "fmtfp rational_fpu (105 / 100) 0 2 0 \<lparr>currlen = 0, written = ''''\<rparr> = Inr \<lparr>currlen = 4, written = ''1.50''\<rparr>"
proof -
  have fl: "\<lfloor>21 / 20 :: rat\<rfloor> = 1" by (simp add: floor_eq_iff)
  have "fmtfp_parts rational_fpu (105 / 100) 2 = (1, 5)"
    by (simp add: fmtfp_parts_def rational_fpu_def abs_val_def xround_def Let_def numeral_2_eq_2 fl)
  moreover have "fconvert_loop 1 '''' = Inr ''1''" "fconvert_loop 5 '''' = Inr ''5''"
    by (subst fconvert_loop.simps, simp)+
  ultimately show ?thesis
    by (simp add: fmtfp_def rational_fpu_def flag_values outs_def dopr_outch_def)
qed

end
