(* ===== verification/Console.thy ===== *)
theory Console
  imports Snprintf
begin

text \<open>
  The console of \<^verbatim>\<open>kernel/debug.h\<close> and \<^verbatim>\<open>kernel/debug.cc\<close>. Its stream is the text written to it. The
  lock around a line makes a call of \<^verbatim>\<open>vprintf\<close> atomic. \<^verbatim>\<open>shutdown\<close> and \<^verbatim>\<open>vpanic\<close> never return: the
  result is the state in which the processor stays, writing to the exit port of the emulator for ever. The
  floating-point unit, the strings in memory and the number of the processor are arguments, as for the
  formatter.
\<close>

record console =
  con_sink :: "string option"
  con_source :: bool
  con_stores :: "(u32 \<times> nat \<times> int) list"
  checks :: u32
  showed_checks :: bool
  shutdown_called :: bool
  debugAll :: bool

text \<open>Setting the streams: what was printed so far stays printed.\<close>

definition debug_init :: "console \<Rightarrow> console" where
  "debug_init c = c\<lparr>con_sink := Some (case con_sink c of None \<Rightarrow> '''' | Some t \<Rightarrow> t), con_source := True\<rparr>"

definition debug_vprintf :: "'f fpu \<Rightarrow> (u32 \<Rightarrow> string) \<Rightarrow> string \<Rightarrow> u32 list \<Rightarrow> console \<Rightarrow> console outcome" where
  "debug_vprintf F strings fmt ap c =
     (case con_sink c of
        None \<Rightarrow> Inr c
      | Some t \<Rightarrow>
          bind_ok (vsnprintf F strings 1000 fmt ap \<lparr>currlen = 0, written = t\<rparr>) (\<lambda>d.
            Inr (c\<lparr>con_sink := Some (written (dp_sink d)), con_stores := con_stores c @ dp_stores d\<rparr>)))"

definition debug_printf :: "'f fpu \<Rightarrow> (u32 \<Rightarrow> string) \<Rightarrow> string \<Rightarrow> u32 list \<Rightarrow> console \<Rightarrow> console outcome" where
  "debug_printf F strings fmt ap c = debug_vprintf F strings fmt ap c"

definition newline :: string where "newline = [CHR 0x0A]"

definition debug_shutdown :: "'f fpu \<Rightarrow> (u32 \<Rightarrow> string) \<Rightarrow> u32 \<Rightarrow> u32 \<Rightarrow> u32 \<Rightarrow> console \<Rightarrow> console outcome" where
  "debug_shutdown F strings heap_count leak_count me c =
     bind_ok (debug_printf F strings (''leaks %d'' @ newline) [heap_count] c) (\<lambda>c.
     bind_ok (debug_printf F strings (''frame leaks %d'' @ newline) [leak_count] c) (\<lambda>c.
     let shown = showed_checks c; c = c\<lparr>showed_checks := True\<rparr>
     in bind_ok
          (if \<not> shown \<and> checks c > 0 then debug_printf F strings (''passed %d checks'' @ newline) [checks c] c else Inr c) (\<lambda>c.
        bind_ok (debug_printf F strings (''shutdown'' @ newline) [me] c) (\<lambda>c.
          Inr (c\<lparr>shutdown_called := True\<rparr>)))))"

definition debug_vpanic :: "'f fpu \<Rightarrow> (u32 \<Rightarrow> string) \<Rightarrow> u32 \<Rightarrow> string \<Rightarrow> u32 list \<Rightarrow> console \<Rightarrow> console outcome" where
  "debug_vpanic F strings me fmt ap c =
     bind_ok (debug_vprintf F strings fmt ap c) (\<lambda>c.
     bind_ok (debug_printf F strings (''| processor %d halting'' @ newline) [me] c) (\<lambda>c.
       Inr (c\<lparr>shutdown_called := True\<rparr>)))"

definition debug_panic :: "'f fpu \<Rightarrow> (u32 \<Rightarrow> string) \<Rightarrow> u32 \<Rightarrow> string \<Rightarrow> u32 list \<Rightarrow> console \<Rightarrow> console outcome" where
  "debug_panic F strings me fmt ap c = debug_vpanic F strings me fmt ap c"

definition debug_missing :: "'f fpu \<Rightarrow> (u32 \<Rightarrow> string) \<Rightarrow> u32 \<Rightarrow> u32 \<Rightarrow> u32 \<Rightarrow> console \<Rightarrow> console outcome" where
  "debug_missing F strings me file line c = debug_panic F strings me (''*** Missing code at %s:%d'' @ newline) [file, line] c"

text \<open>A check or an assertion either lets the caller go on, or leaves the processor halted.\<close>

datatype 'a run_state = Running 'a | Halted 'a

definition debug_check ::
    "'f fpu \<Rightarrow> (u32 \<Rightarrow> string) \<Rightarrow> u32 \<Rightarrow> bool \<Rightarrow> u32 \<Rightarrow> u32 \<Rightarrow> u32 \<Rightarrow> console \<Rightarrow> console run_state outcome" where
  "debug_check F strings me invariant invariant_text file line c =
     (let c = c\<lparr>checks := checks c + 1\<rparr>
      in if \<not> invariant then
           bind_ok (debug_panic F strings me (''*** Check [%s] failed at %s:%d'' @ newline) [invariant_text, file, line] c)
             (\<lambda>c. Inr (Halted c))
         else Inr (Running c))"

definition debug_assert ::
    "'f fpu \<Rightarrow> (u32 \<Rightarrow> string) \<Rightarrow> u32 \<Rightarrow> bool \<Rightarrow> u32 \<Rightarrow> u32 \<Rightarrow> u32 \<Rightarrow> console \<Rightarrow> console run_state outcome" where
  "debug_assert F strings me invariant invariant_text file line c =
     (if \<not> invariant then
        bind_ok (debug_panic F strings me (''*** Assertion [%s] failed at %s:%d'' @ newline) [invariant_text, file, line] c)
          (\<lambda>c. Inr (Halted c))
      else Inr (Running c))"

text \<open>The instances of the class: a name, as a string in memory, and a flag.\<close>

record debug =
  debug_what :: u32
  debug_flag :: bool

definition debug_new :: "u32 \<Rightarrow> debug" where "debug_new w = \<lparr>debug_what = w, debug_flag = False\<rparr>"
definition debug_on :: "debug \<Rightarrow> debug" where "debug_on ob = ob\<lparr>debug_flag := True\<rparr>"
definition debug_off :: "debug \<Rightarrow> debug" where "debug_off ob = ob\<lparr>debug_flag := False\<rparr>"

definition vdebug :: "'f fpu \<Rightarrow> (u32 \<Rightarrow> string) \<Rightarrow> debug \<Rightarrow> string \<Rightarrow> u32 list \<Rightarrow> console \<Rightarrow> console outcome" where
  "vdebug F strings ob fmt ap c =
     (if debugAll c \<or> debug_flag ob then
        bind_ok (debug_printf F strings ''[%s] '' [debug_what ob] c) (\<lambda>c.
        bind_ok (debug_vprintf F strings fmt ap c) (debug_printf F strings newline []))
      else Inr c)"

definition debug_debug :: "'f fpu \<Rightarrow> (u32 \<Rightarrow> string) \<Rightarrow> debug \<Rightarrow> string \<Rightarrow> u32 list \<Rightarrow> console \<Rightarrow> console outcome" where
  "debug_debug F strings ob fmt ap c = (if debugAll c \<or> debug_flag ob then vdebug F strings ob fmt ap c else Inr c)"

definition debug_getchar :: "('s \<Rightarrow> (u8 \<times> 's) option) \<Rightarrow> 's \<Rightarrow> (u8 \<times> 's) option" where
  "debug_getchar source_get s = source_get s"

section \<open>What is printed\<close>

lemma outs_written: "written (outs cs s) = written s @ cs"
  by (induction cs arbitrary: s) (simp_all add: outs_def dopr_outch_def)

lemma debug_printf_items:
  assumes "con_sink c = Some t" "fmt = concat (map item_format items)" "list_all item_ok items"
    and "render strings items as = Some (out, as')" "length out < 1000"
  shows "debug_printf F strings fmt as c = Inr (c\<lparr>con_sink := Some (t @ out)\<rparr>)"
  using vsnprintf_items [OF assms(3,4), of 1000 F "\<lparr>currlen = 0, written = t\<rparr>"] assms(1,2,5)
  by (simp add: debug_printf_def debug_vprintf_def between_def reading_def outs_written)

definition plain :: "string \<Rightarrow> item list" where "plain cs = map Plain cs"

lemma plain_simps [simp]:
  "concat (map item_format (plain cs)) = cs"
  "list_all item_ok (plain cs) \<longleftrightarrow> list_all (\<lambda>c. c \<noteq> NUL \<and> c \<noteq> CHR ''%'') cs"
  by (induction cs) (simp_all add: plain_def)

lemma render_plain [simp]:
  "render strings (plain cs @ is) as = map_option (\<lambda>(out, as). (cs @ out, as)) (render strings is as)"
  "render strings (plain cs) as = Some (cs, as)"
  by (induction cs) (auto simp: plain_def map_option_case split: option.splits)

definition decimal :: "u32 \<Rightarrow> string" where "decimal v = int_text v 10 0 (-1) 0"

lemma print_decimal:
  assumes "con_sink c = Some t" "list_all (\<lambda>c. c \<noteq> NUL \<and> c \<noteq> CHR ''%'') (a @ b)" "length (a @ decimal v @ b) < 1000"
  shows "debug_printf F strings (a @ ''%d'' @ b) (v # as) c = Inr (c\<lparr>con_sink := Some (t @ a @ decimal v @ b)\<rparr>)"
proof (rule debug_printf_items)
  let ?items = "plain a @ Directive False '''' CHR ''d'' # plain b"
  show "a @ ''%d'' @ b = concat (map item_format ?items)" "list_all item_ok ?items"
    using assms(2) by (simp_all add: width_def)
  show "render strings ?items (v # as) = Some (a @ decimal v @ b, as)"
    by (simp add: conv_text_def decimal_def width_def)
qed (use assms in simp_all)

lemma print_plain:
  assumes "con_sink c = Some t" "list_all (\<lambda>c. c \<noteq> NUL \<and> c \<noteq> CHR ''%'') a" "length a < 1000"
  shows "debug_printf F strings a as c = Inr (c\<lparr>con_sink := Some (t @ a)\<rparr>)"
  using debug_printf_items [of c t a "plain a" strings as a as F] assms by simp

lemma digits_length: "n < 10 ^ k \<Longrightarrow> 0 < k \<Longrightarrow> length (digits_of t 10 n) \<le> k"
proof (induction k arbitrary: n)
  case (Suc k)
  show ?case
  proof (cases "n < 10")
    case False
    then have "0 < k" "n div 10 < 10 ^ k" using Suc.prems by (cases k, auto)
    from Suc.IH [OF this(2,1)] False show ?thesis by (simp add: digits_of.simps [of t 10 n])
  qed (simp add: digits_of.simps)
qed simp

lemma decimal_length: "length (decimal v) \<le> 11"
proof -
  have "magnitude 0 v \<le> 2 ^ 32"
    using sint_ge [of v] sint_lt [of v] by (simp add: magnitude_def)
  then have "magnitude 0 v < 10 ^ 10" by simp
  from digits_length [OF this] have "length (digits_text 10 0 v) \<le> 10" by (simp add: digits_text_def)
  moreover have "length (sign_text 0 v) \<le> 1" by (simp add: sign_text_def)
  ultimately show ?thesis by (simp add: decimal_def int_text_def Let_def zero_pad_def space_pad_def)
qed

text \<open>
  The report of a shutdown: the leaks of the heap and of the frames, the number of checks passed, which
  only the first shutdown prints and only if there were any, and the farewell.
\<close>

lemma debug_shutdown_report:
  assumes "con_sink c = Some t"
  shows "debug_shutdown F strings heap_count leak_count me c =
    Inr (c\<lparr>con_sink := Some (t @ ''leaks '' @ decimal heap_count @ newline @ ''frame leaks '' @ decimal leak_count @ newline
        @ (if showed_checks c \<or> checks c = 0 then '''' else ''passed '' @ decimal (checks c) @ '' checks'' @ newline)
        @ ''shutdown'' @ newline),
      showed_checks := True, shutdown_called := True\<rparr>)"
proof -
  have plain: "list_all (\<lambda>c. c \<noteq> NUL \<and> c \<noteq> CHR ''%'') newline" "length newline = 1" by (simp_all add: newline_def)
  note len = decimal_length [of heap_count] decimal_length [of leak_count] decimal_length [of "checks c"]
  note p = print_decimal [where F = F and strings = strings and as = "[]"]
  have 1: "debug_printf F strings (''leaks %d'' @ newline) [heap_count] c
      = Inr (c\<lparr>con_sink := Some (t @ ''leaks '' @ decimal heap_count @ newline)\<rparr>)"
    using p [of c t "''leaks ''" newline heap_count] assms plain len by simp
  have 2: "debug_printf F strings (''frame leaks %d'' @ newline) [leak_count] c'
      = Inr (c'\<lparr>con_sink := Some (t' @ ''frame leaks '' @ decimal leak_count @ newline)\<rparr>)" if "con_sink c' = Some t'" for c' t'
    using p [of c' t' "''frame leaks ''" newline leak_count] that plain len by simp
  have 3: "debug_printf F strings (''passed %d checks'' @ newline) [checks c] c'
      = Inr (c'\<lparr>con_sink := Some (t' @ ''passed '' @ decimal (checks c) @ '' checks'' @ newline)\<rparr>)" if "con_sink c' = Some t'" for c' t'
    using p [of c' t' "''passed ''" "'' checks'' @ newline" "checks c"] that plain len by simp
  have 4: "debug_printf F strings (''shutdown'' @ newline) [me] c' = Inr (c'\<lparr>con_sink := Some (t' @ ''shutdown'' @ newline)\<rparr>)"
    if "con_sink c' = Some t'" for c' t'
    using print_plain [of c' t' "''shutdown'' @ newline"] that plain by simp
  show ?thesis
    using assms by (simp add: debug_shutdown_def Let_def 1 2 3 4 word_gt_0 del: append_Cons append.simps)
qed

end
