(* ===== verification/Port_Devices.thy ===== *)
theory Port_Devices
  imports Ext2
begin

text \<open>
  The devices the kernel drives through I/O ports: the serial line of \<^verbatim>\<open>kernel/u8250.cc\<close> and the
  disk of \<^verbatim>\<open>kernel/ide.h\<close> and \<^verbatim>\<open>kernel/ide.cc\<close>. The instructions \<^verbatim>\<open>in\<close> and \<^verbatim>\<open>out\<close> of
  \<^verbatim>\<open>kernel/machine.S\<close> reach hardware, which is a parameter: its state and what reading and writing a
  port do to it. The loops that poll a status register are partial functions; that they end on a
  device that eventually becomes ready is proved.
\<close>

section \<open>Ports\<close>

record 'd ports =
  inb :: "u16 \<Rightarrow> 'd \<Rightarrow> u8 \<times> 'd"
  inl :: "u16 \<Rightarrow> 'd \<Rightarrow> u32 \<times> 'd"
  outb :: "u16 \<Rightarrow> u8 \<Rightarrow> 'd \<Rightarrow> 'd"

text \<open>Read a port until its value satisfies the condition.\<close>

partial_function (option) poll :: "'d ports \<Rightarrow> u16 \<Rightarrow> (u8 \<Rightarrow> bool) \<Rightarrow> 'd \<Rightarrow> 'd option" where
  "poll P port ok d = (let (status, d') = inb P port d in if ok status then Some d' else poll P port ok d')"

text \<open>The device after \<open>n\<close> reads of a port, and the value of the next read.\<close>

primrec after_reads :: "'d ports \<Rightarrow> u16 \<Rightarrow> nat \<Rightarrow> 'd \<Rightarrow> 'd" where
  "after_reads P port 0 d = d"
| "after_reads P port (Suc n) d = after_reads P port n (snd (inb P port d))"

definition shows_after :: "'d ports \<Rightarrow> u16 \<Rightarrow> (u8 \<Rightarrow> bool) \<Rightarrow> nat \<Rightarrow> 'd \<Rightarrow> bool" where
  "shows_after P port ok n d \<longleftrightarrow> ok (fst (inb P port (after_reads P port n d)))"





section \<open>The serial line\<close>

definition u8250_put :: "'d ports \<Rightarrow> u8 \<Rightarrow> 'd \<Rightarrow> 'd option" where
  "u8250_put P c d =
     Option.bind (poll P (0x3F8 + 5) (\<lambda>s. s AND 0x20 \<noteq> 0) d) (\<lambda>d. Some (outb P 0x3F8 c d))"

definition u8250_get :: "'d ports \<Rightarrow> 'd \<Rightarrow> (u8 \<times> 'd) option" where
  "u8250_get P d = Option.bind (poll P (0x3F8 + 5) (\<lambda>s. s AND 0x01 \<noteq> 0) d) (\<lambda>d. Some (inb P 0x3F8 d))"

section \<open>The disk\<close>

text \<open>The drive number encodes the controller in bit 1 and the channel in bit 0.\<close>

definition controller :: "u32 \<Rightarrow> u32" where "controller drive = drop_bit 1 drive AND 1"

definition ide_ports :: "u16 list" where "ide_ports = [0x1f0, 0x170]"

definition ide_port :: "u32 \<Rightarrow> u16" where "ide_port drive = ide_ports ! unat (controller drive)"


definition ERR :: u8 where "ERR = 0x01"
definition DRQ :: u8 where "DRQ = 0x08"
definition DF :: u8 where "DF = 0x20"
definition DRDY :: u8 where "DRDY = 0x40"
definition BSY :: u8 where "BSY = 0x80"





section \<open>Reading a sector\<close>


text \<open>
  What the driver relies on, as the specification of programmed input from an ATA drive has it. A drive
  that is \<open>ready\<close> and a drive that has \<open>accepted\<close> a command for a sector show no error, and \<^verbatim>\<open>BSY\<close>
  clears after finitely many reads of the status. The six register writes select a sector by its 28-bit
  address. Once \<^verbatim>\<open>DRQ\<close> shows, the buffer is \<open>filled\<close> and each read of the data register gives the
  next four bytes; after the last one the drive is ready again.
\<close>

definition status_fine :: "u8 \<Rightarrow> bool" where
  "status_fine s \<longleftrightarrow> s AND (ERR OR DF) = 0 \<and> s AND DRDY \<noteq> 0"

definition polls_fine :: "'d ports \<Rightarrow> u16 \<Rightarrow> ('d \<Rightarrow> bool) \<Rightarrow> bool" where
  "polls_fine P base I \<longleftrightarrow> (\<forall>d. I d \<longrightarrow> status_fine (fst (inb P (base + 7) d)) \<and> I (snd (inb P (base + 7) d))
     \<and> (\<exists>n. shows_after P (base + 7) (\<lambda>s. s AND BSY = 0) n d))"

definition lba :: "u8 \<Rightarrow> u8 \<Rightarrow> u8 \<Rightarrow> u8 \<Rightarrow> nat" where
  "lba b0 b1 b2 dh = unat b0 + 2 ^ 8 * unat b1 + 2 ^ 16 * unat b2 + 2 ^ 24 * (unat dh mod 16)"

definition ata_drive ::
    "'d ports \<Rightarrow> u32 \<Rightarrow> (nat \<Rightarrow> u8) \<Rightarrow> ('d \<Rightarrow> bool) \<Rightarrow> (nat \<Rightarrow> 'd \<Rightarrow> bool) \<Rightarrow> (nat \<Rightarrow> nat \<Rightarrow> 'd \<Rightarrow> bool) \<Rightarrow> bool" where
  "ata_drive P drive content ready accepted filled \<longleftrightarrow>
     (let base = ide_port drive
      in polls_fine P base ready \<and> (\<forall>s. polls_fine P base (accepted s))
       \<and> (\<forall>d b0 b1 b2 dh. ready d \<longrightarrow> bit dh 6 \<longrightarrow> bit dh 4 = bit drive 0 \<longrightarrow>
            accepted (lba b0 b1 b2 dh) (outb P (base + 7) 0x20 (outb P (base + 6) dh (outb P (base + 5) b2
              (outb P (base + 4) b1 (outb P (base + 3) b0 (outb P (base + 2) 1 d)))))))
       \<and> (\<forall>s d. accepted s d \<longrightarrow> (\<exists>n. shows_after P (base + 7) (\<lambda>s. s AND DRQ \<noteq> 0) n d))
       \<and> (\<forall>s d. accepted s d \<longrightarrow> fst (inb P (base + 7) d) AND DRQ \<noteq> 0 \<longrightarrow> filled s 0 (snd (inb P (base + 7) d)))
       \<and> (\<forall>s k d. filled s k d \<longrightarrow> k < 128 \<longrightarrow>
            le_bytes 4 (fst (inl P base d)) = map content [512 * s + 4 * k..<512 * s + 4 * k + 4]
            \<and> filled s (Suc k) (snd (inl P base d)))
       \<and> (\<forall>s d. filled s 128 d \<longrightarrow> ready d))"










text \<open>
  A drive that follows the protocol: its registers, the number of status reads for which it stays busy and
  the position in its buffer. Every group of four bytes on it is 0, 1, 2, 3.
\<close>

type_synonym sample_drive = "(u16 \<Rightarrow> u8) \<times> nat \<times> nat"

definition sample_ports :: "sample_drive ports" where
  "sample_ports =
     \<lparr>inb = (\<lambda>p (r, busy, k). if busy > 0 then (0xC0, r, busy - 1, k)
        else (if k < 128 then 0x48 else 0x40, r, busy, k)),
      inl = (\<lambda>p (r, busy, k). (0x03020100, r, busy, Suc k)),
      outb = (\<lambda>p v (r, busy, k). if p = 0x1F7 then (r, 2, 0) else (r(p := v), busy, k))\<rparr>"

definition sample_lba :: "(u16 \<Rightarrow> u8) \<Rightarrow> nat" where
  "sample_lba r = lba (r 0x1F3) (r 0x1F4) (r 0x1F5) (r 0x1F6)"

definition sample_accepted :: "nat \<Rightarrow> sample_drive \<Rightarrow> bool" where
  "sample_accepted s d \<longleftrightarrow> (case d of (r, busy, k) \<Rightarrow> sample_lba r = s \<and> k = 0)"

definition sample_filled :: "nat \<Rightarrow> nat \<Rightarrow> sample_drive \<Rightarrow> bool" where
  "sample_filled s k d \<longleftrightarrow> (case d of (r, busy, k') \<Rightarrow> sample_lba r = s \<and> k' = k)"

definition sample_ready :: "sample_drive \<Rightarrow> bool" where
  "sample_ready d \<longleftrightarrow> (case d of (r, busy, k) \<Rightarrow> k = 128)"

lemmas sample_defs = sample_ports_def sample_accepted_def sample_filled_def sample_ready_def

lemma sample_reads: "after_reads sample_ports p n (r, busy, k) = (r, busy - n, k)"
proof (induction n arbitrary: busy)
  case (Suc n)
  then show ?case by (cases busy) (simp_all add: sample_ports_def)
qed simp

lemma sample_drive: "ata_drive sample_ports 0 (\<lambda>i. of_nat (i mod 4)) sample_ready sample_accepted sample_filled"
proof -
  have port: "ide_port 0 = 0x1F0" by (simp add: ide_port_def controller_def ide_ports_def)
  have seen: "shows_after sample_ports p ok busy (r, busy, k) = ok (if k < 128 then 0x48 else 0x40)" for p ok busy r k
    by (simp add: shows_after_def sample_reads) (simp add: sample_ports_def)
  have polls: "polls_fine sample_ports 0x1F0 I" if "\<And>r b k b'. I (r, b, k) = I (r, b', k)" for I
    unfolding polls_fine_def
  proof (intro allI impI conjI)
    fix d assume d: "I d"
    obtain r b k where eq: "d = (r, b, k)" by (cases d)
    show "status_fine (fst (inb sample_ports (0x1F0 + 7) d))"
      by (simp add: eq sample_ports_def status_fine_def ERR_def DF_def DRDY_def)
    show "I (snd (inb sample_ports (0x1F0 + 7) d))" using d that [of r b k "b - 1"] by (auto simp: eq sample_ports_def)
    show "\<exists>n. shows_after sample_ports (0x1F0 + 7) (\<lambda>s. s AND BSY = 0) n d"
      unfolding eq by (rule exI [of _ b]) (simp add: seen BSY_def)
  qed
  have word: "le_bytes 4 (0x03020100 :: u32) = map (\<lambda>i. of_nat (i mod 4)) [512 * s + 4 * k..<512 * s + 4 * k + 4]" for s k :: nat
  proof -
    have four: "[a..<a + 4] = [a, a + 1, a + 2, a + 3]" for a :: nat by (simp add: upt_rec)
    have "(512 * s + 4 * k + j) mod 4 = j mod 4" for j
    proof -
      have "512 * s + 4 * k + j = j + (128 * s + k) * 4" by simp
      then show ?thesis by (simp only: mod_mult_self1)
    qed
    note this [of 0] this [of 1] this [of 2] this [of 3]
    moreover have "le_bytes 4 (0x03020100 :: u32) = [0, 1, 2, 3]" by code_simp
    ultimately show ?thesis by (simp add: four)
  qed
  have drq: "\<exists>n. shows_after sample_ports (0x1F0 + 7) (\<lambda>s. s AND DRQ \<noteq> 0) n d" if "sample_accepted s d" for s d
  proof -
    obtain r b k where "d = (r, b, k)" by (cases d)
    moreover from this have "k = 0" using that by (simp add: sample_accepted_def)
    ultimately show ?thesis by (intro exI [of _ b]) (simp add: seen DRQ_def)
  qed
  show ?thesis
    unfolding ata_drive_def Let_def port
  proof (intro conjI allI impI)
    show "polls_fine sample_ports 0x1F0 sample_ready" by (rule polls) (simp add: sample_ready_def)
    show "polls_fine sample_ports 0x1F0 (sample_accepted s)" for s by (rule polls) (simp add: sample_accepted_def)
  next
    fix d b0 b1 b2 dh
    show "sample_accepted (lba b0 b1 b2 dh) (outb sample_ports (0x1F0 + 7) 0x20 (outb sample_ports (0x1F0 + 6) dh
       (outb sample_ports (0x1F0 + 5) b2 (outb sample_ports (0x1F0 + 4) b1 (outb sample_ports (0x1F0 + 3) b0
         (outb sample_ports (0x1F0 + 2) 1 d))))))"
      by (cases d) (simp add: sample_accepted_def sample_ports_def sample_lba_def)
  next
    fix s d assume d: "sample_accepted s d"
    then show "\<exists>n. shows_after sample_ports (0x1F0 + 7) (\<lambda>s. s AND DRQ \<noteq> 0) n d" by (rule drq)
    show "sample_filled s 0 (snd (inb sample_ports (0x1F0 + 7) d))"
      using d by (auto simp: sample_accepted_def sample_filled_def sample_ports_def split: prod.splits)
  next
    fix s k d assume "sample_filled s k d"
    then show "le_bytes 4 (fst (inl sample_ports 0x1F0 d)) = map (\<lambda>i. of_nat (i mod 4)) [512 * s + 4 * k..<512 * s + 4 * k + 4]"
      "sample_filled s (Suc k) (snd (inl sample_ports 0x1F0 d))"
      using word [of s k] by (auto simp: sample_filled_def sample_ports_def simp del: upt.simps split: prod.splits)
  next
    show "sample_ready d" if "sample_filled s 128 d" for s d
      using that by (cases d) (simp add: sample_filled_def sample_ready_def)
  qed
qed


end
