(* ===== verification/Bounded_Buffer.thy ===== *)
theory Bounded_Buffer
  imports Atomics Semaphores
begin

text \<open>
  The bounded buffer of \<^verbatim>\<open>kernel/bounded_buffer.h\<close>, the channel behind pipes. The work of a
  \<^verbatim>\<open>put\<close> and of a \<^verbatim>\<open>get\<close> runs on any core once its semaphore grants it; between two atomic
  operations other cores may take any number of steps. The state therefore holds, for every call,
  how far its work has come, and one step advances one call by one atomic operation. Waking and
  waiting are those of a semaphore with its queue; the first lemmas show that the semaphores of
  \<^verbatim>\<open>kernel/semaphore.h\<close> behave this way.
\<close>

section \<open>Semaphores as permits and waiters\<close>

record 'e permits =
  spare :: nat
  waiters :: "'e list"

definition acquire :: "'e \<Rightarrow> 'e permits \<Rightarrow> 'e option \<times> 'e permits" where
  "acquire e p = (if spare p > 0 then (Some e, p\<lparr>spare := spare p - 1\<rparr>) else (None, p\<lparr>waiters := waiters p @ [e]\<rparr>))"

definition release :: "'e permits \<Rightarrow> 'e option \<times> 'e permits" where
  "release p = (case waiters p of [] \<Rightarrow> (None, p\<lparr>spare := spare p + 1\<rparr>) | w # ws \<Rightarrow> (Some w, p\<lparr>waiters := ws\<rparr>))"

definition sem_shows :: "'p semaphore \<Rightarrow> 'p event_system \<Rightarrow> 'p permits \<Rightarrow> 'p list \<Rightarrow> bool" where
  "sem_shows m s p rs \<longleftrightarrow> sem_rep m s (waiters p) rs \<and> unat (sem_count m) = spare p"

lemma sem_down_shows:
  assumes "sem_shows m s p rs" "e \<notin> set (waiters p)" "e \<notin> set rs" "acquire e p = (g, p')"
  shows "\<exists>m' s'. sem_down e m s = (m', s') \<and> sem_shows m' s' p' (rs @ (case g of None \<Rightarrow> [] | Some x \<Rightarrow> [x]))"
proof (cases "spare p > 0")
  case True
  then have pos: "sem_count m > 0" using assms(1) by (simp add: sem_shows_def word_less_nat_alt)
  then have "1 \<le> sem_count m" by (simp add: word_le_nat_alt word_less_nat_alt)
  then have "unat (sem_count m - 1) = spare p - 1" using assms(1) by (simp add: unat_minus_exact sem_shows_def)
  then show ?thesis using sem_down_grant [of m s "waiters p" rs e] assms True pos
    by (auto simp: sem_shows_def acquire_def)
next
  case False
  then have "sem_count m = 0" using assms(1) by (auto simp: sem_shows_def unat_eq_zero)
  then show ?thesis using sem_down_wait [of m s "waiters p" rs e] assms False
    by (auto simp: sem_shows_def acquire_def)
qed

lemma sem_up_shows:
  assumes "sem_shows m s p rs" "release p = (g, p')" "spare p + 1 < 2 ^ 64"
  shows "\<exists>m' s'. sem_up m s = Inr (m', s') \<and> sem_shows m' s' p' (rs @ (case g of None \<Rightarrow> [] | Some x \<Rightarrow> [x]))"
proof (cases "waiters p")
  case Nil
  have "unat (sem_count m + 1) = spare p + 1"
    using assms(1,3) by (subst unat_plus_exact) (simp_all add: sem_shows_def)
  then show ?thesis using sem_up_free [of m s rs] assms Nil by (auto simp: sem_shows_def release_def)
next
  case (Cons w ws)
  then show ?thesis using sem_up_wait [of m s w ws rs] assms
    by (auto simp: sem_shows_def release_def sem_rep_def)
qed

section \<open>The buffer\<close>

text \<open>
  The work of a call: waiting for the semaphore, granted, after the exchange of the index, after the
  access to the slot, after the commit, and after it released the other semaphore and ran the
  caller's work. \<open>z\<close> is the default value of the elements.
\<close>

datatype 'a bb_call =
    Idle
  | PutWaits 'a | PutReady 'a | PutFetched 'a u32 | PutStored u32 | PutCommitted | PutDone
  | GetWaits | GetReady | GetFetched u32 | GetRead 'a u32 | GetCommitted 'a | GetDone 'a

record 'a bounded_buffer =
  bb_size :: u32
  senders :: "nat permits"
  receivers :: "nat permits"
  bb_buffer :: "'a list"
  bb_head :: u32
  bb_tail :: u32
  committed_adds :: u32
  committed_removes :: u32
  calls :: "nat \<Rightarrow> 'a bb_call"

definition bounded_buffer_new :: "'a \<Rightarrow> u32 \<Rightarrow> 'a bounded_buffer" where
  "bounded_buffer_new z n =
     \<lparr>bb_size = n, senders = \<lparr>spare = unat n, waiters = []\<rparr>, receivers = \<lparr>spare = 0, waiters = []\<rparr>,
      bb_buffer = replicate (unat n) z, bb_head = 0, bb_tail = 0, committed_adds = 0, committed_removes = 0,
      calls = (\<lambda>_. Idle)\<rparr>"

definition grant :: "nat option \<Rightarrow> (nat \<Rightarrow> 'a bb_call) \<Rightarrow> nat \<Rightarrow> 'a bb_call" where
  "grant g c = (case g of None \<Rightarrow> c
     | Some t \<Rightarrow> c(t := (case c t of PutWaits v \<Rightarrow> PutReady v | GetWaits \<Rightarrow> GetReady | x \<Rightarrow> x)))"

definition bb_put :: "nat \<Rightarrow> 'a \<Rightarrow> 'a bounded_buffer \<Rightarrow> 'a bounded_buffer" where
  "bb_put t v b =
     (let (g, p) = acquire t (senders b)
      in b\<lparr>senders := p, calls := grant g ((calls b)(t := PutWaits v))\<rparr>)"

definition bb_get :: "nat \<Rightarrow> 'a bounded_buffer \<Rightarrow> 'a bounded_buffer" where
  "bb_get t b =
     (let (g, p) = acquire t (receivers b)
      in b\<lparr>receivers := p, calls := grant g ((calls b)(t := GetWaits))\<rparr>)"

definition next_index :: "u32 \<Rightarrow> u32 \<Rightarrow> u32" where
  "next_index n i = (i + 1) mod n"

definition bb_step :: "'a \<Rightarrow> nat \<Rightarrow> 'a bounded_buffer \<Rightarrow> 'a bounded_buffer outcome" where
  "bb_step z t b =
     (case calls b t of
        PutReady v \<Rightarrow>
          if bb_size b = 0 then Inl DivideError
          else
            let (previous, tl) = fetch_add_mod 1 (bb_size b) [] (bb_tail b)
            in Inr (b\<lparr>bb_tail := tl, calls := (calls b)(t := PutFetched v previous)\<rparr>)
      | PutFetched v previous \<Rightarrow>
          bind_ok (write_at (bb_buffer b) (unat (next_index (bb_size b) previous)) v) (\<lambda>buf.
            Inr (b\<lparr>bb_buffer := buf, calls := (calls b)(t := PutStored previous)\<rparr>))
      | PutStored previous \<Rightarrow>
          let (ok, c) = cmp_exchange previous (next_index (bb_size b) previous) (committed_adds b)
          in Inr (if ok then b\<lparr>committed_adds := c, calls := (calls b)(t := PutCommitted)\<rparr> else b\<lparr>committed_adds := c\<rparr>)
      | PutCommitted \<Rightarrow>
          let (g, p) = release (receivers b)
          in Inr (b\<lparr>receivers := p, calls := grant g ((calls b)(t := PutDone))\<rparr>)
      | GetReady \<Rightarrow>
          if bb_size b = 0 then Inl DivideError
          else
            let (previous, hd) = fetch_add_mod 1 (bb_size b) [] (bb_head b)
            in Inr (b\<lparr>bb_head := hd, calls := (calls b)(t := GetFetched previous)\<rparr>)
      | GetFetched previous \<Rightarrow>
          let i = unat (next_index (bb_size b) previous)
          in bind_ok (read_at (bb_buffer b) i) (\<lambda>v. bind_ok (write_at (bb_buffer b) i z) (\<lambda>buf.
            Inr (b\<lparr>bb_buffer := buf, calls := (calls b)(t := GetRead v previous)\<rparr>)))
      | GetRead v previous \<Rightarrow>
          let (ok, c) = cmp_exchange previous (next_index (bb_size b) previous) (committed_removes b)
          in Inr (if ok then b\<lparr>committed_removes := c, calls := (calls b)(t := GetCommitted v)\<rparr>
                  else b\<lparr>committed_removes := c\<rparr>)
      | GetCommitted v \<Rightarrow>
          let (g, p) = release (senders b)
          in Inr (b\<lparr>senders := p, calls := grant g ((calls b)(t := GetDone v))\<rparr>)
      | _ \<Rightarrow> Inr b)"

section \<open>What a call holds\<close>

text \<open>
  The slot index of a put between its exchange and its commit and the value it has yet to store; the
  same for a get, and the value a get has read.
\<close>

fun put_slot :: "'a bb_call \<Rightarrow> u32 option" where
  "put_slot (PutFetched v i) = Some i"
| "put_slot (PutStored i) = Some i"
| "put_slot _ = None"

fun put_value :: "'a bb_call \<Rightarrow> 'a option" where
  "put_value (PutFetched v i) = Some v"
| "put_value _ = None"

fun get_slot :: "'a bb_call \<Rightarrow> u32 option" where
  "get_slot (GetFetched i) = Some i"
| "get_slot (GetRead v i) = Some i"
| "get_slot _ = None"

fun unread :: "'a bb_call \<Rightarrow> bool" where
  "unread (GetFetched i) = True"
| "unread _ = False"

fun got :: "'a bb_call \<Rightarrow> 'a option" where
  "got (GetRead v i) = Some v"
| "got (GetCommitted v) = Some v"
| "got (GetDone v) = Some v"
| "got _ = None"

fun took :: "'a bb_call \<Rightarrow> bool" where
  "took (GetFetched i) = True"
| "took c = (got c \<noteq> None)"

definition num :: "('a bb_call \<Rightarrow> bool) \<Rightarrow> (nat \<Rightarrow> 'a bb_call) \<Rightarrow> nat" where
  "num P c = card {t. P (c t)}"

definition started :: "(nat \<Rightarrow> 'a bb_call) \<Rightarrow> bool" where
  "started c \<longleftrightarrow> finite {t. c t \<noteq> Idle}"

fun put_ready :: "'a bb_call \<Rightarrow> bool" where
  "put_ready (PutReady v) = True"
| "put_ready _ = False"

fun got_committed :: "'a bb_call \<Rightarrow> bool" where
  "got_committed (GetCommitted v) = True"
| "got_committed _ = False"

lemma started_upd [simp]: "started c \<Longrightarrow> started (c(t := x))"
proof -
  assume "started c"
  moreover have "{s. (c(t := x)) s \<noteq> Idle} \<subseteq> insert t {s. c s \<noteq> Idle}" by auto
  ultimately show ?thesis unfolding started_def by (meson finite_insert finite_subset)
qed

lemma num_upd:
  assumes "started c" "\<not> P Idle"
  shows "num P (c(t := x)) + (if P (c t) then 1 else 0) = num P c + (if P x then 1 else 0)"
proof -
  have fin: "finite {s. P (c s)}"
  proof (rule finite_subset)
    show "{s. P (c s)} \<subseteq> {s. c s \<noteq> Idle}" using assms(2) by auto
    show "finite {s. c s \<noteq> Idle}" using assms(1) by (simp add: started_def)
  qed
  have rest: "{s. P ((c(t := x)) s)} - {t} = {s. P (c s)} - {t}" by auto
  have card: "card A = card (A - {t}) + (if t \<in> A then 1 else 0)" if "finite A" for A :: "nat set"
    using card.remove [OF that, of t] by (cases "t \<in> A") simp_all
  have "{s. P ((c(t := x)) s)} \<subseteq> insert t {s. P (c s)}" by auto
  then have "finite {s. P ((c(t := x)) s)}" using fin by (meson finite_insert finite_subset)
  from card [OF this] card [OF fin] show ?thesis unfolding num_def rest by simp
qed

section \<open>Sequence numbers\<close>

text \<open>
  Calls take consecutive sequence numbers when they exchange their index; \<open>sq t\<close> is that of call \<open>t\<close>.
  The calls between exchange and commit hold exactly the numbers from \<open>lo\<close> to \<open>hi\<close>.
\<close>

definition slots_ok :: "nat \<Rightarrow> (nat \<Rightarrow> u32 option) \<Rightarrow> (nat \<Rightarrow> nat) \<Rightarrow> nat \<Rightarrow> nat \<Rightarrow> bool" where
  "slots_ok n ps sq lo hi \<longleftrightarrow> lo \<le> hi
     \<and> (\<forall>t i. ps t = Some i \<longrightarrow> lo \<le> sq t \<and> sq t < hi \<and> unat i = sq t mod n)
     \<and> (\<forall>t u. ps t \<noteq> None \<longrightarrow> ps u \<noteq> None \<longrightarrow> sq t = sq u \<longrightarrow> t = u)
     \<and> (\<forall>p. lo \<le> p \<longrightarrow> p < hi \<longrightarrow> (\<exists>t. ps t \<noteq> None \<and> sq t = p))"

lemma slots_okD:
  assumes "slots_ok n ps sq lo hi" "ps t = Some i"
  shows "lo \<le> sq t" "sq t < hi" "unat i = sq t mod n" "ps u \<noteq> None \<Longrightarrow> sq t = sq u \<Longrightarrow> t = u"
  using assms by (auto simp: slots_ok_def)

lemma slots_ex:
  assumes "slots_ok n ps sq lo hi" "lo \<le> p" "p < hi"
  obtains t where "ps t \<noteq> None" "sq t = p"
  using assms unfolding slots_ok_def by blast

lemma slots_fetch:
  assumes "slots_ok n ps sq lo hi" "ps t = None" "unat i = hi mod n"
  shows "slots_ok n (ps(t := Some i)) (sq(t := hi)) lo (Suc hi)"
proof -
  have "\<exists>u. (ps(t := Some i)) u \<noteq> None \<and> (sq(t := hi)) u = p" if p: "lo \<le> p" "p < Suc hi" for p
  proof (cases "p = hi")
    case False
    then have "p < hi" using p(2) by simp
    from slots_ex [OF assms(1) p(1) this] obtain u where "ps u \<noteq> None" "sq u = p" by blast
    then show ?thesis using assms(2) by (intro exI [of _ u]) auto
  qed auto
  then show ?thesis using assms by (auto simp: slots_ok_def less_Suc_eq)
qed

lemma same_residue:
  assumes "(lo :: nat) \<le> p" "p < lo + n" "lo \<le> q" "q < lo + n" "p mod n = q mod n"
  shows "p = q"
proof -
  have small: "a = b" if "a \<le> b" "b - a < n" "a mod n = b mod n" for a b :: nat
  proof -
    have "n dvd b - a" using that(1,3) mod_eq_dvd_iff_nat [of a b n] by simp
    then have "b - a = 0" using that(2) by (meson dvd_imp_le not_gr_zero leD)
    then show ?thesis using that(1) by simp
  qed
  show ?thesis
  proof (cases "p \<le> q")
    case True
    moreover have "q - p < n" using assms(1-4) True by linarith
    ultimately show ?thesis using assms(5) by (rule small)
  next
    case False
    then have "q \<le> p" "p - q < n" using assms(1-4) by linarith+
    then show ?thesis using small assms(5) by metis
  qed
qed

lemma slots_commit:
  assumes "slots_ok n ps sq lo hi" "ps t = Some i" "hi \<le> lo + n" "unat i = lo mod n"
  shows "sq t = lo" "slots_ok n (ps(t := None)) sq (Suc lo) hi"
proof -
  note t = slots_okD [OF assms(1,2)]
  show eq: "sq t = lo" using same_residue [of lo "sq t" n lo] t(1-3) assms(3,4) by simp
  have "sq u \<noteq> lo" if "ps u \<noteq> None" "u \<noteq> t" for u using t(4) [OF that(1)] that(2) eq by auto
  moreover have "lo \<le> sq u" if "ps u \<noteq> None" for u using that assms(1) by (auto simp: slots_ok_def)
  ultimately have ge: "Suc lo \<le> sq u" if "ps u \<noteq> None" "u \<noteq> t" for u using that by (metis Suc_leI le_neq_implies_less)
  have ex: "\<exists>u. (ps(t := None)) u \<noteq> None \<and> sq u = p" if "Suc lo \<le> p" "p < hi" for p
  proof -
    from slots_ex [OF assms(1) _ that(2)] that(1) obtain u where "ps u \<noteq> None" "sq u = p" by (metis Suc_leD)
    then show ?thesis using that eq by (intro exI [of _ u]) auto
  qed
  show "slots_ok n (ps(t := None)) sq (Suc lo) hi"
    using assms(1) ge ex t(2) eq unfolding slots_ok_def by (auto split: if_splits)
qed

text \<open>
  The puts in the order of their exchanges stored the values \<open>plog\<close>, \<open>ngets\<close> gets have exchanged their
  index, and \<open>adds\<close> and \<open>removes\<close> calls have committed. A slot holds the value of its put from the
  store until the get with the same number reads it.
\<close>

definition bb_seq ::
    "nat \<Rightarrow> 'a list \<Rightarrow> (nat \<Rightarrow> 'a bb_call) \<Rightarrow> 'a list \<Rightarrow> nat \<Rightarrow> (nat \<Rightarrow> nat) \<Rightarrow> nat \<Rightarrow> nat \<Rightarrow> bool" where
  "bb_seq n buf c plog ngets sq adds removes \<longleftrightarrow>
     slots_ok n (put_slot \<circ> c) sq adds (length plog) \<and> slots_ok n (get_slot \<circ> c) sq removes ngets
     \<and> (\<forall>t v. put_value (c t) = Some v \<longrightarrow> plog ! sq t = v)
     \<and> (\<forall>t. took (c t) \<longrightarrow> sq t < ngets)
     \<and> (\<forall>t u. took (c t) \<longrightarrow> took (c u) \<longrightarrow> sq t = sq u \<longrightarrow> t = u)
     \<and> (\<forall>t v. got (c t) = Some v \<longrightarrow> plog ! sq t = v)
     \<and> (\<forall>p < length plog. (\<forall>t. put_value (c t) \<noteq> None \<longrightarrow> sq t \<noteq> p) \<longrightarrow>
          (ngets \<le> p \<or> (\<exists>t. unread (c t) \<and> sq t = p)) \<longrightarrow> buf ! (Suc p mod n) = plog ! p)"

lemma put_value_slot: "put_value x = Some v \<Longrightarrow> \<exists>i. put_slot x = Some i"
  by (cases x) auto

lemma unread_slot: "unread x \<Longrightarrow> \<exists>i. get_slot x = Some i"
  by (cases x) auto

lemma get_slot_took: "get_slot x \<noteq> None \<Longrightarrow> took x"
  by (cases x) auto

lemma got_took: "got x = Some v \<Longrightarrow> took x"
  by (cases x) auto

lemma bb_seqD:
  assumes "bb_seq n buf c plog ngets sq adds removes"
  shows "slots_ok n (put_slot \<circ> c) sq adds (length plog)" "slots_ok n (get_slot \<circ> c) sq removes ngets"
    "put_value (c t) = Some v \<Longrightarrow> plog ! sq t = v" "took (c t) \<Longrightarrow> sq t < ngets"
    "took (c t) \<Longrightarrow> took (c u) \<Longrightarrow> sq t = sq u \<Longrightarrow> t = u" "got (c t) = Some v \<Longrightarrow> plog ! sq t = v"
    "p < length plog \<Longrightarrow> (\<And>t. put_value (c t) \<noteq> None \<Longrightarrow> sq t \<noteq> p) \<Longrightarrow>
       ngets \<le> p \<or> (\<exists>t. unread (c t) \<and> sq t = p) \<Longrightarrow> buf ! (Suc p mod n) = plog ! p"
  using assms unfolding bb_seq_def by blast+

text \<open>A change of a call that holds nothing before and after it.\<close>

lemma bb_seq_idle:
  assumes "bb_seq n buf c plog ngets sq adds removes" "put_slot x = put_slot (c t)" "put_value x = put_value (c t)"
    and "get_slot x = get_slot (c t)" "unread x = unread (c t)" "got x = got (c t)" "took x = took (c t)"
  shows "bb_seq n buf (c(t := x)) plog ngets sq adds removes"
proof -
  have eq: "put_slot \<circ> c(t := x) = put_slot \<circ> c" "get_slot \<circ> c(t := x) = get_slot \<circ> c"
    "\<And>u. put_value ((c(t := x)) u) = put_value (c u)" "\<And>u. unread ((c(t := x)) u) = unread (c u)"
    "\<And>u. got ((c(t := x)) u) = got (c u)" "\<And>u. took ((c(t := x)) u) = took (c u)"
    using assms(2-7) by auto
  show ?thesis unfolding bb_seq_def eq using assms(1) unfolding bb_seq_def .
qed

lemma slots_keep:
  assumes "slots_ok n ps sq lo hi" "\<And>t. ps' t = ps t" "\<And>t. ps t \<noteq> None \<Longrightarrow> sq' t = sq t"
  shows "slots_ok n ps' sq' lo hi"
proof -
  have "ps' = ps" using assms(2) by auto
  moreover have "slots_ok n ps sq' lo hi"
    unfolding slots_ok_def
  proof (intro conjI allI impI)
    show "lo \<le> hi" using assms(1) by (simp add: slots_ok_def)
    fix t i assume "ps t = Some i"
    then show "lo \<le> sq' t" "sq' t < hi" "unat i = sq' t mod n"
      using slots_okD(1-3) [OF assms(1)] assms(3) [of t] by simp_all
  next
    fix t u assume "ps t \<noteq> None" "ps u \<noteq> None" "sq' t = sq' u"
    then show "t = u" using assms(1,3) unfolding slots_ok_def by metis
  next
    fix p assume "lo \<le> p" "p < hi"
    from slots_ex [OF assms(1) this] assms(3) show "\<exists>t. ps t \<noteq> None \<and> sq' t = p" by metis
  qed
  ultimately show ?thesis by simp
qed

lemma bb_seqI:
  assumes "slots_ok n (put_slot \<circ> c) sq adds (length plog)" "slots_ok n (get_slot \<circ> c) sq removes ngets"
    and "\<And>t v. put_value (c t) = Some v \<Longrightarrow> plog ! sq t = v" "\<And>t. took (c t) \<Longrightarrow> sq t < ngets"
    and "\<And>t u. took (c t) \<Longrightarrow> took (c u) \<Longrightarrow> sq t = sq u \<Longrightarrow> t = u" "\<And>t v. got (c t) = Some v \<Longrightarrow> plog ! sq t = v"
    and "\<And>p. p < length plog \<Longrightarrow> (\<And>t. put_value (c t) \<noteq> None \<Longrightarrow> sq t \<noteq> p) \<Longrightarrow>
       ngets \<le> p \<or> (\<exists>t. unread (c t) \<and> sq t = p) \<Longrightarrow> buf ! (Suc p mod n) = plog ! p"
  shows "bb_seq n buf c plog ngets sq adds removes"
  unfolding bb_seq_def using assms by simp

lemma seq_put_fetch:
  assumes "bb_seq n buf c plog ngets sq adds removes" "c t = PutReady v" "unat i = length plog mod n" "ngets \<le> length plog"
  shows "bb_seq n buf (c(t := PutFetched v i)) (plog @ [v]) ngets (sq(t := length plog)) adds removes"
proof -
  let ?c = "c(t := PutFetched v i)" and ?sq = "sq(t := length plog)" and ?A = "length plog"
  note D = bb_seqD [OF assms(1)]
  have put_lt: "sq u < ?A" if "put_value (c u) = Some w" for u w
    using put_value_slot [OF that] slots_okD(2) [OF D(1), of u] by auto
  show ?thesis
  proof (rule bb_seqI)
    show "slots_ok n (put_slot \<circ> ?c) ?sq adds (length (plog @ [v]))"
      using slots_fetch [OF D(1), of t i] assms(2,3) by (simp add: fun_upd_comp)
    show "slots_ok n (get_slot \<circ> ?c) ?sq removes ngets"
      by (rule slots_keep [OF D(2)]) (use assms(2) in auto)
    show "(plog @ [v]) ! ?sq u = w" if "put_value (?c u) = Some w" for u w
      using that D(3) [of u w] put_lt [of u w] by (auto simp: nth_append split: if_splits)
    show "?sq u < ngets" if "took (?c u)" for u using that D(4) [of u] by (auto split: if_splits)
    show "u = w" if "took (?c u)" "took (?c w)" "?sq u = ?sq w" for u w
      using that D(5) [of u w] by (auto split: if_splits)
    show "(plog @ [v]) ! ?sq u = w" if "got (?c u) = Some w" for u w
    proof -
      have u: "u \<noteq> t" "got (c u) = Some w" using that by (auto split: if_splits)
      have "sq u < ?A" using D(4) [OF got_took [OF u(2)]] assms(4) by simp
      then show ?thesis using D(6) [OF u(2)] u(1) by (simp add: nth_append)
    qed
    show "buf ! (Suc p mod n) = (plog @ [v]) ! p"
      if p: "p < length (plog @ [v])" "\<And>u. put_value (?c u) \<noteq> None \<Longrightarrow> ?sq u \<noteq> p"
        "ngets \<le> p \<or> (\<exists>u. unread (?c u) \<and> ?sq u = p)" for p
    proof -
      have A: "p < ?A" using p(1) p(2) [of t] by auto
      have B: "sq u \<noteq> p" if "put_value (c u) \<noteq> None" for u using p(2) [of u] that assms(2) by (cases "u = t") auto
      have "ngets \<le> p \<or> (\<exists>u. unread (c u) \<and> sq u = p)" using p(3) by (auto split: if_splits)
      then show ?thesis using D(7) [OF A B] A by (simp add: nth_append)
    qed
  qed
qed

text \<open>The numbers of the values that are stored and not yet read lie within one turn of the buffer.\<close>

lemma unread_number:
  assumes "bb_seq n buf c plog ngets sq adds removes" "removes \<le> ngets" "ngets \<le> p \<or> (\<exists>t. unread (c t) \<and> sq t = p)"
  shows "removes \<le> p"
  using assms(3)
proof
  assume "\<exists>t. unread (c t) \<and> sq t = p"
  then obtain t i where "sq t = p" "(get_slot \<circ> c) t = Some i" using unread_slot by fastforce
  then show ?thesis using slots_okD(1) [OF bb_seqD(2) [OF assms(1)]] by blast
qed (use assms(2) in simp)

lemma seq_put_store:
  assumes "bb_seq n buf c plog ngets sq adds removes" "c t = PutFetched v i" "0 < n" "length buf = n"
    and "removes \<le> ngets" "ngets \<le> adds" "length plog \<le> n + removes"
  shows "bb_seq n (buf[Suc (sq t) mod n := v]) (c(t := PutStored i)) plog ngets sq adds removes"
proof -
  let ?c = "c(t := PutStored i)" and ?buf = "buf[Suc (sq t) mod n := v]"
  note D = bb_seqD [OF assms(1)]
  have t: "adds \<le> sq t" "sq t < length plog" "plog ! sq t = v"
    using slots_okD(1,2) [OF D(1), of t i] D(3) [of t v] assms(2) by simp_all
  have eq: "put_slot \<circ> ?c = put_slot \<circ> c" "get_slot \<circ> ?c = get_slot \<circ> c" "\<And>u. unread (?c u) = unread (c u)"
    "\<And>u. got (?c u) = got (c u)" "\<And>u. took (?c u) = took (c u)"
    using assms(2) by auto
  show ?thesis
  proof (rule bb_seqI, unfold eq)
    show "plog ! sq u = w" if "put_value (?c u) = Some w" for u w using that D(3) by (auto split: if_splits)
    show "?buf ! (Suc p mod n) = plog ! p"
      if p: "p < length plog" "\<And>u. put_value (?c u) \<noteq> None \<Longrightarrow> sq u \<noteq> p"
        "ngets \<le> p \<or> (\<exists>u. unread (c u) \<and> sq u = p)" for p
    proof (cases "p = sq t")
      case True
      then show ?thesis using t(3) assms(3,4) by simp
    next
      case False
      have old: "sq u \<noteq> p" if "put_value (c u) \<noteq> None" for u
        using p(2) [of u] that False by (cases "u = t") auto
      have "removes \<le> p" using unread_number [OF assms(1,5) p(3)] .
      then have "p mod n \<noteq> sq t mod n"
        using same_residue [of removes p n "sq t"] False p(1) t assms(5-7) by auto
      then have "Suc p mod n \<noteq> Suc (sq t) mod n" by (metis mod_Suc_eq mod_Suc nat.inject nat.distinct(1))
      then show ?thesis using D(7) [OF p(1) old p(3)] by simp
    qed
  qed (use D in \<open>auto\<close>)
qed

lemma seq_put_commit:
  assumes "bb_seq n buf c plog ngets sq adds removes" "c t = PutStored i" "unat i = adds mod n" "length plog \<le> adds + n"
  shows "bb_seq n buf (c(t := PutCommitted)) plog ngets sq (Suc adds) removes" "sq t = adds"
proof -
  let ?c = "c(t := PutCommitted)"
  note D = bb_seqD [OF assms(1)]
  have t: "(put_slot \<circ> c) t = Some i" using assms(2) by simp
  have eq: "put_slot \<circ> ?c = (put_slot \<circ> c)(t := None)" "get_slot \<circ> ?c = get_slot \<circ> c" "\<And>u. unread (?c u) = unread (c u)"
    "\<And>u. got (?c u) = got (c u)" "\<And>u. took (?c u) = took (c u)" "\<And>u. put_value (?c u) = put_value (c u)"
    using assms(2) by auto
  note cm = slots_commit [OF D(1) t assms(4,3)]
  show "sq t = adds" by (rule cm(1))
  show "bb_seq n buf ?c plog ngets sq (Suc adds) removes"
  proof (rule bb_seqI, unfold eq)
    show "slots_ok n ((put_slot \<circ> c)(t := None)) sq (Suc adds) (length plog)" by (rule cm(2))
  qed (use D in \<open>auto\<close>)
qed

lemma seq_get_fetch:
  assumes "bb_seq n buf c plog ngets sq adds removes" "c t = GetReady" "unat i = ngets mod n"
  shows "bb_seq n buf (c(t := GetFetched i)) plog (Suc ngets) (sq(t := ngets)) adds removes"
proof -
  let ?c = "c(t := GetFetched i)" and ?sq = "sq(t := ngets)"
  note D = bb_seqD [OF assms(1)]
  show ?thesis
  proof (rule bb_seqI)
    show "slots_ok n (get_slot \<circ> ?c) ?sq removes (Suc ngets)"
      using slots_fetch [OF D(2), of t i] assms(2,3) by (simp add: fun_upd_comp)
    show "slots_ok n (put_slot \<circ> ?c) ?sq adds (length plog)"
      by (rule slots_keep [OF D(1)]) (use assms(2) in auto)
    show "plog ! ?sq u = w" if "put_value (?c u) = Some w" for u w
      using that D(3) [of u w] by (auto split: if_splits)
    show "?sq u < Suc ngets" if "took (?c u)" for u using that D(4) [of u] by (auto split: if_splits)
    show "u = w" if "took (?c u)" "took (?c w)" "?sq u = ?sq w" for u w
      using that D(4) [of u] D(4) [of w] D(5) [of u w] by (auto split: if_splits)
    show "plog ! ?sq u = w" if "got (?c u) = Some w" for u w
      using that D(6) [of u w] by (auto split: if_splits)
    show "buf ! (Suc p mod n) = plog ! p"
      if p: "p < length plog" "\<And>u. put_value (?c u) \<noteq> None \<Longrightarrow> ?sq u \<noteq> p"
        "Suc ngets \<le> p \<or> (\<exists>u. unread (?c u) \<and> ?sq u = p)" for p
    proof -
      have B: "sq u \<noteq> p" if "put_value (c u) \<noteq> None" for u using p(2) [of u] that assms(2) by (cases "u = t") auto
      have "ngets \<le> p \<or> (\<exists>u. unread (c u) \<and> sq u = p)" using p(3) by (auto split: if_splits)
      then show ?thesis using D(7) [OF p(1) B] by simp
    qed
  qed
qed

lemma seq_get_read:
  assumes "bb_seq n buf c plog ngets sq adds removes" "c t = GetFetched i" "0 < n" "length buf = n"
    and "removes \<le> ngets" "ngets \<le> adds" "adds \<le> length plog" "length plog \<le> n + removes"
  shows "buf ! (Suc (sq t) mod n) = plog ! sq t"
    "bb_seq n (buf[Suc (sq t) mod n := z]) (c(t := GetRead (plog ! sq t) i)) plog ngets sq adds removes"
proof -
  let ?c = "c(t := GetRead (plog ! sq t) i)" and ?buf = "buf[Suc (sq t) mod n := z]"
  note D = bb_seqD [OF assms(1)]
  have t: "removes \<le> sq t" "sq t < ngets" using slots_okD(1,2) [OF D(2), of t i] assms(2) by simp_all
  have stored: "sq u \<noteq> sq t" if pv: "put_value (c u) \<noteq> None" for u
  proof -
    obtain j where "(put_slot \<circ> c) u = Some j" using pv put_value_slot by fastforce
    from slots_okD(1) [OF D(1) this] t(2) assms(6) show ?thesis by simp
  qed
  have "sq t < length plog" using t(2) assms(6,7) by linarith
  from D(7) [OF this stored] show "buf ! (Suc (sq t) mod n) = plog ! sq t" using assms(2) by (metis unread.simps(1))
  have eq: "put_slot \<circ> ?c = put_slot \<circ> c" "get_slot \<circ> ?c = get_slot \<circ> c"
    "\<And>u. put_value (?c u) = put_value (c u)" "\<And>u. took (?c u) = took (c u)" using assms(2) by auto
  show "bb_seq n ?buf ?c plog ngets sq adds removes"
  proof (rule bb_seqI, unfold eq)
    show "plog ! sq u = w" if "got (?c u) = Some w" for u w using that D(6) by (auto split: if_splits)
    show "?buf ! (Suc p mod n) = plog ! p"
      if p: "p < length plog" "\<And>u. put_value (c u) \<noteq> None \<Longrightarrow> sq u \<noteq> p"
        "ngets \<le> p \<or> (\<exists>u. unread (?c u) \<and> sq u = p)" for p
    proof -
      have old: "ngets \<le> p \<or> (\<exists>u. unread (c u) \<and> sq u = p)" using p(3) by (auto split: if_splits)
      have "p \<noteq> sq t"
      proof
        assume "p = sq t"
        then obtain u where "u \<noteq> t" "unread (c u)" "sq u = sq t" using p(3) t(2) by (auto split: if_splits)
        then show False using D(5) [of u t] get_slot_took unread_slot assms(2) by fastforce
      qed
      moreover have "removes \<le> p" using unread_number [OF assms(1,5) old] .
      ultimately have "p mod n \<noteq> sq t mod n"
        using same_residue [of removes p n "sq t"] p(1) t assms(5-8) by auto
      then have "Suc p mod n \<noteq> Suc (sq t) mod n" by (metis mod_Suc_eq mod_Suc nat.inject nat.distinct(1))
      then show ?thesis using D(7) [OF p(1,2) old] by simp
    qed
  qed (use D in \<open>auto\<close>)
qed

lemma seq_get_commit:
  assumes "bb_seq n buf c plog ngets sq adds removes" "c t = GetRead v i" "unat i = removes mod n" "ngets \<le> removes + n"
  shows "bb_seq n buf (c(t := GetCommitted v)) plog ngets sq adds (Suc removes)" "sq t = removes"
proof -
  let ?c = "c(t := GetCommitted v)"
  note D = bb_seqD [OF assms(1)]
  have t: "(get_slot \<circ> c) t = Some i" using assms(2) by simp
  have eq: "put_slot \<circ> ?c = put_slot \<circ> c" "get_slot \<circ> ?c = (get_slot \<circ> c)(t := None)" "\<And>u. unread (?c u) = unread (c u)"
    "\<And>u. got (?c u) = got (c u)" "\<And>u. took (?c u) = took (c u)" "\<And>u. put_value (?c u) = put_value (c u)"
    using assms(2) by auto
  note cm = slots_commit [OF D(2) t assms(4,3)]
  show "sq t = removes" by (rule cm(1))
  show "bb_seq n buf ?c plog ngets sq adds (Suc removes)"
  proof (rule bb_seqI, unfold eq)
    show "slots_ok n ((get_slot \<circ> c)(t := None)) sq (Suc removes) ngets" by (rule cm(2))
  qed (use D in \<open>auto\<close>)
qed

section \<open>The invariant\<close>

definition bb_inv :: "'a bounded_buffer \<Rightarrow> 'a list \<Rightarrow> nat \<Rightarrow> (nat \<Rightarrow> nat) \<Rightarrow> nat \<Rightarrow> nat \<Rightarrow> bool" where
  "bb_inv b plog ngets sq adds removes \<longleftrightarrow>
     (let n = unat (bb_size b); c = calls b
      in 0 < n \<and> length (bb_buffer b) = n \<and> started c
         \<and> unat (bb_tail b) = length plog mod n \<and> unat (bb_head b) = ngets mod n
         \<and> unat (committed_adds b) = adds mod n \<and> unat (committed_removes b) = removes mod n
         \<and> ngets + spare (receivers b) + num ((=) GetReady) c + num ((=) PutCommitted) c = adds
         \<and> length plog + spare (senders b) + num put_ready c + num got_committed c = n + removes
         \<and> bb_seq n (bb_buffer b) c plog ngets sq adds removes
         \<and> distinct (waiters (senders b)) \<and> (\<forall>w \<in> set (waiters (senders b)). \<exists>v. c w = PutWaits v)
         \<and> distinct (waiters (receivers b)) \<and> (\<forall>w \<in> set (waiters (receivers b)). c w = GetWaits))"

lemma bb_invD:
  assumes "bb_inv b plog ngets sq adds removes"
  shows "0 < unat (bb_size b)" "length (bb_buffer b) = unat (bb_size b)" "started (calls b)"
    "unat (bb_tail b) = length plog mod unat (bb_size b)" "unat (bb_head b) = ngets mod unat (bb_size b)"
    "unat (committed_adds b) = adds mod unat (bb_size b)" "unat (committed_removes b) = removes mod unat (bb_size b)"
    "ngets + spare (receivers b) + num ((=) GetReady) (calls b) + num ((=) PutCommitted) (calls b) = adds"
    "length plog + spare (senders b) + num put_ready (calls b) + num got_committed (calls b) = unat (bb_size b) + removes"
    "bb_seq (unat (bb_size b)) (bb_buffer b) (calls b) plog ngets sq adds removes"
    "distinct (waiters (senders b))" "w \<in> set (waiters (senders b)) \<Longrightarrow> \<exists>v. calls b w = PutWaits v"
    "distinct (waiters (receivers b))" "w \<in> set (waiters (receivers b)) \<Longrightarrow> calls b w = GetWaits"
  using assms unfolding bb_inv_def Let_def by blast+

lemma bb_order:
  assumes "bb_inv b plog ngets sq adds removes"
  shows "removes \<le> ngets" "ngets \<le> adds" "adds \<le> length plog" "length plog \<le> unat (bb_size b) + removes"
  using bb_invD(8-10) [OF assms] bb_seqD(1,2) [OF bb_invD(10) [OF assms]] by (auto simp: slots_ok_def)

lemma num_pos: "started c \<Longrightarrow> \<not> P Idle \<Longrightarrow> P (c t) \<Longrightarrow> 0 < num P c"
  using num_upd [of c P t Idle] by simp

lemma next_index_unat:
  assumes "0 < unat n" "unat i = p mod unat n"
  shows "unat (next_index n i) = Suc p mod unat n"
proof -
  have "unat i < unat n" using assms by simp
  then have "unat (i + 1) = Suc (unat i)" by (rule unat_Suc_exact [OF word_less_nat_alt [THEN iffD2]])
  then show ?thesis using assms by (simp add: next_index_def unat_mod_distrib mod_Suc_eq)
qed

text \<open>Waking and granting.\<close>

lemma num_calls:
  assumes "started c"
  shows "num ((=) GetReady) (c(t := x)) + of_bool (c t = GetReady) = num ((=) GetReady) c + of_bool (x = GetReady)"
    "num ((=) PutCommitted) (c(t := x)) + of_bool (c t = PutCommitted) = num ((=) PutCommitted) c + of_bool (x = PutCommitted)"
    "num put_ready (c(t := x)) + of_bool (put_ready (c t)) = num put_ready c + of_bool (put_ready x)"
    "num got_committed (c(t := x)) + of_bool (got_committed (c t)) = num got_committed c + of_bool (got_committed x)"
  using num_upd [OF assms, of "(=) GetReady" t x] num_upd [OF assms, of "(=) PutCommitted" t x]
    num_upd [OF assms, of put_ready t x] num_upd [OF assms, of got_committed t x]
  by (auto simp: eq_commute split: if_splits)

lemma step_put_ready:
  assumes "bb_inv b plog ngets sq adds removes" "calls b t = PutReady v"
  shows "\<exists>b'. bb_step z t b = Inr b' \<and> bb_inv b' (plog @ [v]) ngets (sq(t := length plog)) adds removes"
proof -
  note D = bb_invD [OF assms(1)] and O = bb_order [OF assms(1)]
  let ?n = "unat (bb_size b)" and ?c = "(calls b)(t := PutFetched v (bb_tail b))"
  let ?b = "b\<lparr>bb_tail := next_index (bb_size b) (bb_tail b), calls := ?c\<rparr>"
  have "bb_size b \<noteq> 0" using D(1) by auto
  then have step: "bb_step z t b = Inr ?b"
    using assms(2) by (simp add: bb_step_def atomic_defs next_index_def)
  have "bb_seq ?n (bb_buffer b) ?c (plog @ [v]) ngets (sq(t := length plog)) adds removes"
    using seq_put_fetch [OF D(10) assms(2) D(4)] O by linarith
  moreover have "t \<notin> set (waiters (senders b))" "t \<notin> set (waiters (receivers b))"
    using D(12,14) [of t] assms(2) by auto
  ultimately have "bb_inv ?b (plog @ [v]) ngets (sq(t := length plog)) adds removes"
    using D num_calls [OF D(3), of t "PutFetched v (bb_tail b)"] next_index_unat [OF D(1,4)] assms(2)
    unfolding bb_inv_def Let_def by auto
  with step show ?thesis by blast
qed

lemma step_put_fetched:
  assumes "bb_inv b plog ngets sq adds removes" "calls b t = PutFetched v i"
  shows "\<exists>b'. bb_step z t b = Inr b' \<and> bb_inv b' plog ngets sq adds removes"
proof -
  note D = bb_invD [OF assms(1)] and O = bb_order [OF assms(1)]
  let ?n = "unat (bb_size b)" and ?c = "(calls b)(t := PutStored i)"
  have i: "unat i = sq t mod ?n" using slots_okD(3) [OF bb_seqD(1) [OF D(10)], of t i] assms(2) by simp
  let ?buf = "(bb_buffer b)[Suc (sq t) mod ?n := v]"
  have step: "bb_step z t b = Inr (b\<lparr>bb_buffer := ?buf, calls := ?c\<rparr>)"
    using assms(2) D(1,2) next_index_unat [OF D(1) i] by (simp add: bb_step_def)
  have "bb_seq ?n ?buf ?c plog ngets sq adds removes"
    using seq_put_store [OF D(10) assms(2) D(1,2) O(1,2,4)] .
  moreover have "t \<notin> set (waiters (senders b))" "t \<notin> set (waiters (receivers b))"
    using D(12,14) [of t] assms(2) by auto
  ultimately have "bb_inv (b\<lparr>bb_buffer := ?buf, calls := ?c\<rparr>) plog ngets sq adds removes"
    using D num_calls [OF D(3), of t "PutStored i"] assms(2) unfolding bb_inv_def Let_def by auto
  with step show ?thesis by blast
qed

lemma step_put_stored:
  assumes "bb_inv b plog ngets sq adds removes" "calls b t = PutStored i"
  shows "\<exists>b' adds'. bb_step z t b = Inr b' \<and> bb_inv b' plog ngets sq adds' removes \<and> (sq t = adds \<longrightarrow> b' \<noteq> b)"
proof -
  note D = bb_invD [OF assms(1)] and O = bb_order [OF assms(1)]
  let ?n = "unat (bb_size b)" and ?c = "(calls b)(t := PutCommitted)"
  let ?b = "b\<lparr>committed_adds := next_index (bb_size b) i, calls := ?c\<rparr>"
  have i: "unat i = sq t mod ?n" using slots_okD(3) [OF bb_seqD(1) [OF D(10)], of t i] assms(2) by simp
  show ?thesis
  proof (cases "committed_adds b = i")
    case True
    then have step: "bb_step z t b = Inr ?b" using assms(2) by (simp add: bb_step_def cmp_exchange_def)
    have "unat i = adds mod ?n" using True D(6) by simp
    from seq_put_commit [OF D(10) assms(2) this] O
    have "bb_seq ?n (bb_buffer b) ?c plog ngets sq (Suc adds) removes" "sq t = adds" by linarith+
    moreover have "t \<notin> set (waiters (senders b))" "t \<notin> set (waiters (receivers b))"
      using D(12,14) [of t] assms(2) by auto
    moreover have "unat (next_index (bb_size b) i) = Suc adds mod ?n"
      using next_index_unat [OF D(1), of i adds] True D(6) by simp
    ultimately have "bb_inv ?b plog ngets sq (Suc adds) removes"
      using D num_calls [OF D(3), of t PutCommitted] assms(2) unfolding bb_inv_def Let_def by auto
    moreover have "calls ?b t \<noteq> calls b t" using assms(2) by simp
    then have "?b \<noteq> b" by metis
    ultimately show ?thesis using step by blast
  next
    case False
    then have "bb_step z t b = Inr (b\<lparr>committed_adds := committed_adds b\<rparr>)"
      using assms(2) by (simp add: bb_step_def cmp_exchange_def)
    moreover have "sq t \<noteq> adds" using False i D(6) by (metis word_unat_eq_iff)
    ultimately show ?thesis using assms(1) by auto
  qed
qed

lemma step_get_ready:
  assumes "bb_inv b plog ngets sq adds removes" "calls b t = GetReady"
  shows "\<exists>b'. bb_step z t b = Inr b' \<and> bb_inv b' plog (Suc ngets) (sq(t := ngets)) adds removes"
proof -
  note D = bb_invD [OF assms(1)] and O = bb_order [OF assms(1)]
  let ?n = "unat (bb_size b)" and ?c = "(calls b)(t := GetFetched (bb_head b))"
  let ?b = "b\<lparr>bb_head := next_index (bb_size b) (bb_head b), calls := ?c\<rparr>"
  have "bb_size b \<noteq> 0" using D(1) by auto
  then have step: "bb_step z t b = Inr ?b"
    using assms(2) by (simp add: bb_step_def atomic_defs next_index_def)
  have "bb_seq ?n (bb_buffer b) ?c plog (Suc ngets) (sq(t := ngets)) adds removes"
    using seq_get_fetch [OF D(10) assms(2) D(5)] .
  moreover have "t \<notin> set (waiters (senders b))" "t \<notin> set (waiters (receivers b))"
    using D(12,14) [of t] assms(2) by auto
  ultimately have "bb_inv ?b plog (Suc ngets) (sq(t := ngets)) adds removes"
    using D num_calls [OF D(3), of t "GetFetched (bb_head b)"] next_index_unat [OF D(1,5)] assms(2)
    unfolding bb_inv_def Let_def by auto
  with step show ?thesis by blast
qed

lemma step_get_fetched:
  assumes "bb_inv b plog ngets sq adds removes" "calls b t = GetFetched i"
  shows "\<exists>b'. bb_step z t b = Inr b' \<and> bb_inv b' plog ngets sq adds removes"
proof -
  note D = bb_invD [OF assms(1)] and O = bb_order [OF assms(1)]
  let ?n = "unat (bb_size b)" and ?v = "plog ! sq t"
  let ?c = "(calls b)(t := GetRead ?v i)" and ?buf = "(bb_buffer b)[Suc (sq t) mod ?n := z]"
  have i: "unat i = sq t mod ?n" using slots_okD(3) [OF bb_seqD(2) [OF D(10)], of t i] assms(2) by simp
  note rd = seq_get_read [OF D(10) assms(2) D(1,2) O]
  have step: "bb_step z t b = Inr (b\<lparr>bb_buffer := ?buf, calls := ?c\<rparr>)"
    using assms(2) D(1,2) next_index_unat [OF D(1) i] rd(1) by (simp add: bb_step_def Let_def)
  moreover have "t \<notin> set (waiters (senders b))" "t \<notin> set (waiters (receivers b))"
    using D(12,14) [of t] assms(2) by auto
  then have "bb_inv (b\<lparr>bb_buffer := ?buf, calls := ?c\<rparr>) plog ngets sq adds removes"
    using D rd(2) num_calls [OF D(3), of t "GetRead ?v i"] assms(2) unfolding bb_inv_def Let_def by auto
  with step show ?thesis by blast
qed

lemma step_get_read:
  assumes "bb_inv b plog ngets sq adds removes" "calls b t = GetRead v i"
  shows "\<exists>b' removes'. bb_step z t b = Inr b' \<and> bb_inv b' plog ngets sq adds removes' \<and> (sq t = removes \<longrightarrow> b' \<noteq> b)"
proof -
  note D = bb_invD [OF assms(1)] and O = bb_order [OF assms(1)]
  let ?n = "unat (bb_size b)" and ?c = "(calls b)(t := GetCommitted v)"
  let ?b = "b\<lparr>committed_removes := next_index (bb_size b) i, calls := ?c\<rparr>"
  have i: "unat i = sq t mod ?n" using slots_okD(3) [OF bb_seqD(2) [OF D(10)], of t i] assms(2) by simp
  show ?thesis
  proof (cases "committed_removes b = i")
    case True
    then have step: "bb_step z t b = Inr ?b" using assms(2) by (simp add: bb_step_def cmp_exchange_def)
    have "unat i = removes mod ?n" using True D(7) by simp
    from seq_get_commit [OF D(10) assms(2) this] O
    have "bb_seq ?n (bb_buffer b) ?c plog ngets sq adds (Suc removes)" "sq t = removes" by linarith+
    moreover have "t \<notin> set (waiters (senders b))" "t \<notin> set (waiters (receivers b))"
      using D(12,14) [of t] assms(2) by auto
    moreover have "unat (next_index (bb_size b) i) = Suc removes mod ?n"
      using next_index_unat [OF D(1), of i removes] True D(7) by simp
    ultimately have "bb_inv ?b plog ngets sq adds (Suc removes)"
      using D num_calls [OF D(3), of t "GetCommitted v"] assms(2) unfolding bb_inv_def Let_def by auto
    moreover have "calls ?b t \<noteq> calls b t" using assms(2) by simp
    then have "?b \<noteq> b" by metis
    ultimately show ?thesis using step by blast
  next
    case False
    then have "bb_step z t b = Inr (b\<lparr>committed_removes := committed_removes b\<rparr>)"
      using assms(2) by (simp add: bb_step_def cmp_exchange_def)
    moreover have "sq t \<noteq> removes" using False i D(7) by (metis word_unat_eq_iff)
    ultimately show ?thesis using assms(1) by auto
  qed
qed

text \<open>Calls and wakes only grant permits.\<close>

lemma step_put_committed:
  assumes "bb_inv b plog ngets sq adds removes" "calls b t = PutCommitted"
  shows "\<exists>b'. bb_step z t b = Inr b' \<and> bb_inv b' plog ngets sq adds removes"
proof -
  note D = bb_invD [OF assms(1)]
  let ?n = "unat (bb_size b)" and ?c = "(calls b)(t := PutDone)"
  have nt: "t \<notin> set (waiters (senders b))" "t \<notin> set (waiters (receivers b))" using D(12,14) [of t] assms(2) by auto
  have seq: "bb_seq ?n (bb_buffer b) ?c plog ngets sq adds removes"
    using assms(2) by (intro bb_seq_idle [OF D(10)]) simp_all
  note num1 = num_calls [OF D(3), of t PutDone]
  have st: "started ?c" using D(3) by simp
  show ?thesis
  proof (cases "waiters (receivers b)")
    case Nil
    let ?b = "b\<lparr>receivers := (receivers b)\<lparr>spare := spare (receivers b) + 1\<rparr>, calls := ?c\<rparr>"
    have "bb_step z t b = Inr ?b" using assms(2) Nil by (simp add: bb_step_def release_def grant_def)
    moreover have "bb_inv ?b plog ngets sq adds removes"
      using D nt Nil seq st num1 assms(2) unfolding bb_inv_def Let_def by auto
    ultimately show ?thesis by blast
  next
    case (Cons w ws)
    have w: "calls b w = GetWaits" "w \<noteq> t" "w \<notin> set ws" using D(13) D(14) [of w] Cons assms(2) by auto
    let ?b = "b\<lparr>receivers := (receivers b)\<lparr>waiters := ws\<rparr>, calls := ?c(w := GetReady)\<rparr>"
    have "bb_step z t b = Inr ?b" using assms(2) Cons w by (simp add: bb_step_def release_def grant_def)
    moreover have "bb_seq ?n (bb_buffer b) (?c(w := GetReady)) plog ngets sq adds removes"
      using w by (intro bb_seq_idle [OF seq]) simp_all
    moreover have "w \<notin> set (waiters (senders b))" using D(12) [of w] w(1) by auto
    ultimately have "bb_step z t b = Inr ?b \<and> bb_inv ?b plog ngets sq adds removes"
      using D nt Cons st num1 num_calls [OF st, of w GetReady] assms(2) w unfolding bb_inv_def Let_def by auto
    then show ?thesis by blast
  qed
qed

lemma step_get_committed:
  assumes "bb_inv b plog ngets sq adds removes" "calls b t = GetCommitted v"
  shows "\<exists>b'. bb_step z t b = Inr b' \<and> bb_inv b' plog ngets sq adds removes"
proof -
  note D = bb_invD [OF assms(1)]
  let ?n = "unat (bb_size b)" and ?c = "(calls b)(t := GetDone v)"
  have nt: "t \<notin> set (waiters (senders b))" "t \<notin> set (waiters (receivers b))" using D(12,14) [of t] assms(2) by auto
  have seq: "bb_seq ?n (bb_buffer b) ?c plog ngets sq adds removes"
    using assms(2) by (intro bb_seq_idle [OF D(10)]) simp_all
  note num1 = num_calls [OF D(3), of t "GetDone v"]
  have st: "started ?c" using D(3) by simp
  show ?thesis
  proof (cases "waiters (senders b)")
    case Nil
    let ?b = "b\<lparr>senders := (senders b)\<lparr>spare := spare (senders b) + 1\<rparr>, calls := ?c\<rparr>"
    have "bb_step z t b = Inr ?b" using assms(2) Nil by (simp add: bb_step_def release_def grant_def)
    moreover have "bb_inv ?b plog ngets sq adds removes"
      using D nt Nil seq st num1 assms(2) unfolding bb_inv_def Let_def by auto
    ultimately show ?thesis by blast
  next
    case (Cons w ws)
    obtain x where x: "calls b w = PutWaits x" using D(12) [of w] Cons by auto
    then have w: "calls b w = PutWaits x" "w \<noteq> t" "w \<notin> set ws" using D(11) Cons assms(2) by auto
    let ?b = "b\<lparr>senders := (senders b)\<lparr>waiters := ws\<rparr>, calls := ?c(w := PutReady x)\<rparr>"
    have "bb_step z t b = Inr ?b" using assms(2) Cons w by (simp add: bb_step_def release_def grant_def)
    moreover have "bb_seq ?n (bb_buffer b) (?c(w := PutReady x)) plog ngets sq adds removes"
      using w by (intro bb_seq_idle [OF seq]) simp_all
    moreover have "w \<notin> set (waiters (receivers b))" using D(14) [of w] w(1) by auto
    ultimately have "bb_step z t b = Inr ?b \<and> bb_inv ?b plog ngets sq adds removes"
      using D nt Cons st num1 num_calls [OF st, of w "PutReady x"] assms(2) w unfolding bb_inv_def Let_def by auto
    then show ?thesis by blast
  qed
qed

lemma put_call:
  assumes "bb_inv b plog ngets sq adds removes" "calls b t = Idle"
  shows "bb_inv (bb_put t v b) plog ngets sq adds removes"
proof -
  note D = bb_invD [OF assms(1)]
  let ?n = "unat (bb_size b)"
  have nt: "t \<notin> set (waiters (senders b))" "t \<notin> set (waiters (receivers b))" using D(12,14) [of t] assms(2) by auto
  have seq: "bb_seq ?n (bb_buffer b) ((calls b)(t := x)) plog ngets sq adds removes"
    if "x \<in> {PutWaits v, PutReady v}" for x
    using that assms(2) by (intro bb_seq_idle [OF D(10)]) auto
  show ?thesis
    using D nt seq assms(2) num_calls [OF D(3), of t "PutReady v"] num_calls [OF D(3), of t "PutWaits v"]
    unfolding bb_inv_def Let_def by (cases "0 < spare (senders b)") (auto simp: bb_put_def acquire_def grant_def)
qed

lemma get_call:
  assumes "bb_inv b plog ngets sq adds removes" "calls b t = Idle"
  shows "bb_inv (bb_get t b) plog ngets sq adds removes"
proof -
  note D = bb_invD [OF assms(1)]
  let ?n = "unat (bb_size b)"
  have nt: "t \<notin> set (waiters (senders b))" "t \<notin> set (waiters (receivers b))" using D(12,14) [of t] assms(2) by auto
  have seq: "bb_seq ?n (bb_buffer b) ((calls b)(t := x)) plog ngets sq adds removes"
    if "x \<in> {GetWaits, GetReady}" for x
    using that assms(2) by (intro bb_seq_idle [OF D(10)]) auto
  show ?thesis
    using D nt seq assms(2) num_calls [OF D(3), of t GetReady] num_calls [OF D(3), of t GetWaits]
    unfolding bb_inv_def Let_def by (cases "0 < spare (receivers b)") (auto simp: bb_get_def acquire_def grant_def)
qed

section \<open>Interleavings\<close>

text \<open>
  Every interleaving of calls and steps. \<open>plog\<close> collects the values in the order in which puts take
  their slots, \<open>ngets\<close> counts the gets that took theirs, and \<open>sq\<close> numbers both.
\<close>

inductive bb_reach :: "'a \<Rightarrow> u32 \<Rightarrow> 'a bounded_buffer \<Rightarrow> 'a list \<Rightarrow> nat \<Rightarrow> (nat \<Rightarrow> nat) \<Rightarrow> bool" for z n where
  bb_start: "n \<noteq> 0 \<Longrightarrow> bb_reach z n (bounded_buffer_new z n) [] 0 (\<lambda>_. 0)"
| bb_call_put: "bb_reach z n b plog ngets sq \<Longrightarrow> calls b t = Idle \<Longrightarrow> bb_reach z n (bb_put t v b) plog ngets sq"
| bb_call_get: "bb_reach z n b plog ngets sq \<Longrightarrow> calls b t = Idle \<Longrightarrow> bb_reach z n (bb_get t b) plog ngets sq"
| bb_runs_put: "bb_reach z n b plog ngets sq \<Longrightarrow> calls b t = PutReady v \<Longrightarrow> bb_step z t b = Inr b' \<Longrightarrow>
    bb_reach z n b' (plog @ [v]) ngets (sq(t := length plog))"
| bb_runs_get: "bb_reach z n b plog ngets sq \<Longrightarrow> calls b t = GetReady \<Longrightarrow> bb_step z t b = Inr b' \<Longrightarrow>
    bb_reach z n b' plog (Suc ngets) (sq(t := ngets))"
| bb_runs: "bb_reach z n b plog ngets sq \<Longrightarrow> calls b t \<noteq> GetReady \<Longrightarrow> \<not> put_ready (calls b t) \<Longrightarrow> bb_step z t b = Inr b' \<Longrightarrow>
    bb_reach z n b' plog ngets sq"

lemma bb_step_inv:
  assumes "bb_inv b plog ngets sq adds removes"
  shows "\<exists>b' plog' ngets' sq' adds' removes'. bb_step z t b = Inr b' \<and> bb_inv b' plog' ngets' sq' adds' removes'
    \<and> (case calls b t of
         PutReady v \<Rightarrow> plog' = plog @ [v] \<and> ngets' = ngets \<and> sq' = sq(t := length plog)
       | GetReady \<Rightarrow> plog' = plog \<and> ngets' = Suc ngets \<and> sq' = sq(t := ngets)
       | _ \<Rightarrow> plog' = plog \<and> ngets' = ngets \<and> sq' = sq)"
proof (cases "calls b t")
  case (PutReady v)
  then show ?thesis using step_put_ready [OF assms PutReady, of z] by auto
next
  case (PutFetched v i)
  then show ?thesis using step_put_fetched [OF assms PutFetched, of z] by auto
next
  case (PutStored i)
  then show ?thesis using step_put_stored [OF assms PutStored, of z] by auto
next
  case PutCommitted
  then show ?thesis using step_put_committed [OF assms PutCommitted, of z] by auto
next
  case GetReady
  then show ?thesis using step_get_ready [OF assms GetReady, of z] by auto
next
  case (GetFetched i)
  then show ?thesis using step_get_fetched [OF assms GetFetched, of z] by auto
next
  case (GetRead v i)
  then show ?thesis using step_get_read [OF assms GetRead, of z] by auto
next
  case (GetCommitted v)
  then show ?thesis using step_get_committed [OF assms GetCommitted, of z] by auto
qed (use assms in \<open>auto simp: bb_step_def\<close>)

lemma bb_new_inv:
  assumes "n \<noteq> 0"
  shows "bb_inv (bounded_buffer_new z n) [] 0 (\<lambda>_. 0) 0 0"
proof -
  have "0 < unat n" using assms by (simp add: unat_gt_0)
  then show ?thesis
    by (auto simp: bb_inv_def bounded_buffer_new_def started_def num_def bb_seq_def slots_ok_def)
qed

lemma bb_reach_inv: "bb_reach z n b plog ngets sq \<Longrightarrow> \<exists>adds removes. bb_inv b plog ngets sq adds removes"
proof (induction rule: bb_reach.induct)
  case bb_start
  from bb_new_inv [OF bb_start] show ?case by (intro exI)
next
  case (bb_call_put b plog ngets sq t v)
  obtain adds removes where inv: "bb_inv b plog ngets sq adds removes" using bb_call_put.IH by blast
  from put_call [OF inv bb_call_put.hyps(2)] show ?case by blast
next
  case (bb_call_get b plog ngets sq t)
  obtain adds removes where inv: "bb_inv b plog ngets sq adds removes" using bb_call_get.IH by blast
  from get_call [OF inv bb_call_get.hyps(2)] show ?case by blast
next
  case (bb_runs_put b plog ngets sq t v b')
  obtain adds removes where inv: "bb_inv b plog ngets sq adds removes" using bb_runs_put.IH by blast
  from step_put_ready [OF inv bb_runs_put.hyps(2), of z] bb_runs_put.hyps(3) show ?case by (metis Inr_inject)
next
  case (bb_runs_get b plog ngets sq t b')
  obtain adds removes where inv: "bb_inv b plog ngets sq adds removes" using bb_runs_get.IH by blast
  from step_get_ready [OF inv bb_runs_get.hyps(2), of z] bb_runs_get.hyps(3) show ?case by (metis Inr_inject)
next
  case (bb_runs b plog ngets sq t b')
  obtain adds removes where inv: "bb_inv b plog ngets sq adds removes" using bb_runs.IH by blast
  from bb_step_inv [OF inv, of z t] bb_runs.hyps(2-4) show ?case by (cases "calls b t") auto
qed

lemma put_progress:
  assumes "bb_inv b plog ngets sq adds removes" "put_slot (calls b t) \<noteq> None"
  shows "\<exists>u. put_slot (calls b u) \<noteq> None \<and> bb_step z u b \<noteq> Inr b"
proof -
  note D = bb_invD [OF assms(1)]
  obtain i where "(put_slot \<circ> calls b) t = Some i" using assms(2) by auto
  from slots_okD(1,2) [OF bb_seqD(1) [OF D(10)] this] have "adds < length plog" by simp
  from slots_ex [OF bb_seqD(1) [OF D(10)] order.refl this] obtain u
    where u: "(put_slot \<circ> calls b) u \<noteq> None" "sq u = adds" by blast
  show ?thesis
  proof (cases "calls b u")
    case (PutStored j)
    then show ?thesis using step_put_stored [OF assms(1) PutStored, of z] u by (intro exI [of _ u]) auto
  next
    case (PutFetched v j)
    obtain b' where "bb_step z u b = Inr b'" using step_put_fetched [OF assms(1) PutFetched, of z] by blast
    moreover have "calls b' u \<noteq> calls b u" using calculation PutFetched by (auto simp: bb_step_def bind_ok_Inr_iff)
    ultimately show ?thesis using u by (intro exI [of _ u]) auto
  qed (use u in auto)
qed

lemma get_progress:
  assumes "bb_inv b plog ngets sq adds removes" "get_slot (calls b t) \<noteq> None"
  shows "\<exists>u. get_slot (calls b u) \<noteq> None \<and> bb_step z u b \<noteq> Inr b"
proof -
  note D = bb_invD [OF assms(1)]
  obtain i where "(get_slot \<circ> calls b) t = Some i" using assms(2) by auto
  from slots_okD(1,2) [OF bb_seqD(2) [OF D(10)] this] have "removes < ngets" by simp
  from slots_ex [OF bb_seqD(2) [OF D(10)] order.refl this] obtain u
    where u: "(get_slot \<circ> calls b) u \<noteq> None" "sq u = removes" by blast
  show ?thesis
  proof (cases "calls b u")
    case (GetRead v j)
    then show ?thesis using step_get_read [OF assms(1) GetRead, of z] u by (intro exI [of _ u]) auto
  next
    case (GetFetched j)
    obtain b' where "bb_step z u b = Inr b'" using step_get_fetched [OF assms(1) GetFetched, of z] by blast
    moreover have "calls b' u \<noteq> calls b u" using calculation GetFetched by (auto simp: bb_step_def bind_ok_Inr_iff Let_def)
    ultimately show ?thesis using u by (intro exI [of _ u]) auto
  qed (use u in auto)
qed

text \<open>C8. The bounded buffer is a FIFO channel under every interleaving of its calls on all cores. The get that is the
  \<open>k\<close>-th to take a slot obtains the value of the put that was the \<open>k\<close>-th to take one, no two gets obtain the
  same put, at most \<open>size\<close> values are between put and get, no step accesses memory outside the
  buffer, and the loops that wait for their turn to commit never block each other: while a put or a
  get is under way, one of them can advance.\<close>

theorem bounded_buffer_fifo:
  assumes "bb_reach z n b plog ngets sq"
  shows "(\<forall>t v. got (calls b t) = Some v \<longrightarrow> sq t < ngets \<and> v = plog ! sq t)
    \<and> (\<forall>t u. took (calls b t) \<longrightarrow> took (calls b u) \<longrightarrow> sq t = sq u \<longrightarrow> t = u)
    \<and> ngets \<le> length plog \<and> length plog \<le> unat (bb_size b) + ngets
    \<and> (\<forall>t. \<exists>b'. bb_step z t b = Inr b')
    \<and> (\<forall>t. put_slot (calls b t) \<noteq> None \<longrightarrow> (\<exists>u. put_slot (calls b u) \<noteq> None \<and> bb_step z u b \<noteq> Inr b))
    \<and> (\<forall>t. get_slot (calls b t) \<noteq> None \<longrightarrow> (\<exists>u. get_slot (calls b u) \<noteq> None \<and> bb_step z u b \<noteq> Inr b))"
proof -
  obtain adds removes where inv: "bb_inv b plog ngets sq adds removes" using bb_reach_inv [OF assms] by blast
  note S = bb_seqD [OF bb_invD(10) [OF inv]] and O = bb_order [OF inv]
  have "\<forall>t v. got (calls b t) = Some v \<longrightarrow> sq t < ngets \<and> v = plog ! sq t" using S(4,6) got_took by metis
  moreover have "\<forall>t u. took (calls b t) \<longrightarrow> took (calls b u) \<longrightarrow> sq t = sq u \<longrightarrow> t = u" using S(5) by blast
  moreover have "ngets \<le> length plog" "length plog \<le> unat (bb_size b) + ngets" using O by linarith+
  moreover have "\<forall>t. \<exists>b'. bb_step z t b = Inr b'" using bb_step_inv [OF inv] by blast
  ultimately show ?thesis using put_progress [OF inv] get_progress [OF inv] by blast
qed

text \<open>Two cores put and one gets through a buffer with one slot.\<close>

theorem bounded_buffer_fifo_witness:
  "\<exists>b plog sq. bb_reach (0 :: nat) 1 b plog 1 sq \<and> got (calls b 2) = Some 7 \<and> plog = [7] \<and> plog ! sq 2 = 7"
proof -
  let ?s = "\<lambda>buf r c. \<lparr>bb_size = 1, senders = \<lparr>spare = 0, waiters = [1]\<rparr>, receivers = \<lparr>spare = 0, waiters = r\<rparr>,
    bb_buffer = buf, bb_head = 0, bb_tail = 0, committed_adds = 0, committed_removes = 0, calls = c\<rparr>"
  let ?c = "(\<lambda>_. Idle)(1 := PutWaits (8 :: nat))"
  let ?w = "?c(2 := GetWaits)"
  have "bb_reach 0 1 (bb_get 2 (bb_put 1 8 (bb_put 0 7 (bounded_buffer_new 0 1)))) [] 0 (\<lambda>_. 0)"
    by (intro bb_call_get bb_call_put bb_start)
      (simp_all add: bounded_buffer_new_def bb_put_def bb_get_def acquire_def grant_def)
  then have r0: "bb_reach 0 1 (?s [0] [2] (?w(0 := PutReady 7))) [] 0 (\<lambda>_. 0)"
    by (simp add: bounded_buffer_new_def bb_put_def bb_get_def acquire_def grant_def fun_upd_twist)
  have r1: "bb_reach 0 1 (?s [0] [2] (?w(0 := PutFetched 7 0))) ([] @ [7]) 0 ((\<lambda>_. 0)(0 := length ([] :: nat list)))"
    by (rule bb_runs_put [OF r0, of 0]) (simp_all add: bb_step_def atomic_defs)
  have r2: "bb_reach 0 1 (?s [7] [2] (?w(0 := PutStored 0))) ([] @ [7]) 0 ((\<lambda>_. 0)(0 := length ([] :: nat list)))"
    by (rule bb_runs [OF r1, of 0]) (simp_all add: bb_step_def next_index_def)
  have r3: "bb_reach 0 1 (?s [7] [2] (?w(0 := PutCommitted))) ([] @ [7]) 0 ((\<lambda>_. 0)(0 := length ([] :: nat list)))"
    by (rule bb_runs [OF r2, of 0]) (simp_all add: bb_step_def next_index_def cmp_exchange_def)
  have r4: "bb_reach 0 1 (?s [7] [] (?w(0 := PutDone, 2 := GetReady))) ([] @ [7]) 0 ((\<lambda>_. 0)(0 := length ([] :: nat list)))"
    by (rule bb_runs [OF r3, of 0]) (simp_all add: bb_step_def release_def grant_def)
  have r5: "bb_reach 0 1 (?s [7] [] (?w(0 := PutDone, 2 := GetFetched 0))) ([] @ [7]) (Suc 0)
      ((\<lambda>_. 0)(0 := length ([] :: nat list), 2 := 0))"
    by (rule bb_runs_get [OF r4, of 2]) (simp_all add: bb_step_def atomic_defs)
  have r6: "bb_reach 0 1 (?s [0] [] (?w(0 := PutDone, 2 := GetRead 7 0))) ([] @ [7]) (Suc 0)
      ((\<lambda>_. 0)(0 := length ([] :: nat list), 2 := 0))"
    by (rule bb_runs [OF r5, of 2]) (simp_all add: bb_step_def next_index_def)
  from bounded_buffer_fifo [OF r6] r6 show ?thesis
    by (intro exI [of _ "?s [0] [] (?w(0 := PutDone, 2 := GetRead 7 0))"] exI [of _ "[7]"]
        exI [of _ "(\<lambda>_. 0)(0 := length ([] :: nat list), 2 := 0)"]) simp
qed

end
