(* ===== verification/Files.thy ===== *)
theory Files
  imports Bounded_Buffer Ext2 Console Descriptor_List
begin

text \<open>
  The file descriptors of \<^verbatim>\<open>kernel/file_descriptor.h\<close> and \<^verbatim>\<open>kernel/file_descriptor.cc\<close>, and
  \<^verbatim>\<open>lseek\<close> and \<^verbatim>\<open>isatty\<close> of \<^verbatim>\<open>kernel/syscall.cc\<close>. The objects that descriptors point to live in a
  world: the nodes that were allocated and not deleted, and the pipes with their reference counts. A use
  of an object that was deleted is a failure. A read or a write of a pipe starts a call of its bounded
  buffer; the call holds a reference to the pipe until its work has run.
\<close>

section \<open>The objects\<close>

record char_wrapper =
  cw_data :: u8
  cw_eof :: bool

record file_world =
  fw_nodes :: "nat \<rightharpoonup> node"
  fw_pipes :: "nat \<rightharpoonup> u32 \<times> char_wrapper bounded_buffer"
  fw_calls :: nat

definition the_node :: "nat option \<Rightarrow> file_world \<Rightarrow> node outcome" where
  "the_node p w =
     (case p of None \<Rightarrow> Inl OutOfBounds
      | Some a \<Rightarrow> (case fw_nodes w a of None \<Rightarrow> Inl OutOfBounds | Some n \<Rightarrow> Inr n))"

definition delete_node :: "nat option \<Rightarrow> file_world \<Rightarrow> file_world outcome" where
  "delete_node p w =
     (case p of None \<Rightarrow> Inr w
      | Some a \<Rightarrow> bind_ok (the_node p w) (\<lambda>_. Inr (w\<lparr>fw_nodes := (fw_nodes w)(a := None)\<rparr>)))"

text \<open>Pipes are held by shared pointers: copying one counts a reference, destroying one drops it.\<close>

definition the_pipe :: "nat \<Rightarrow> file_world \<Rightarrow> (u32 \<times> char_wrapper bounded_buffer) outcome" where
  "the_pipe p w = (case fw_pipes w p of None \<Rightarrow> Inl OutOfBounds | Some x \<Rightarrow> Inr x)"

definition pipe_ref :: "nat \<Rightarrow> file_world \<Rightarrow> file_world outcome" where
  "pipe_ref p w = bind_ok (the_pipe p w) (\<lambda>(c, b). Inr (w\<lparr>fw_pipes := (fw_pipes w)(p \<mapsto> (c + 1, b))\<rparr>))"

definition pipe_unref :: "nat \<Rightarrow> file_world \<Rightarrow> file_world outcome" where
  "pipe_unref p w =
     bind_ok (the_pipe p w) (\<lambda>(c, b).
       Inr (w\<lparr>fw_pipes := (fw_pipes w)(p := if c - 1 = 0 then None else Some (c - 1, b))\<rparr>))"




section \<open>The data of a descriptor\<close>

datatype fd_type = File | Folder | StdIn | StdOut | StdErr | PipeRead | PipeWrite

text \<open>The tag with the member of the union it selects.\<close>

datatype fd_data = NoData | FileData "nat option" | BufferData nat

definition data_get_file :: "fd_data \<Rightarrow> nat option outcome" where
  "data_get_file data = (case data of FileData f \<Rightarrow> Inr f | _ \<Rightarrow> Inl Assertion)"

definition data_reset_file :: "fd_data \<Rightarrow> file_world \<Rightarrow> (fd_data \<times> file_world) outcome" where
  "data_reset_file data w =
     bind_ok (data_get_file data) (\<lambda>f. bind_ok (delete_node f w) (\<lambda>w. Inr (FileData None, w)))"

definition data_get_buffer :: "fd_data \<Rightarrow> nat outcome" where
  "data_get_buffer data = (case data of BufferData p \<Rightarrow> Inr p | _ \<Rightarrow> Inl Assertion)"

definition data_destruct_buffer :: "fd_data \<Rightarrow> file_world \<Rightarrow> file_world outcome" where
  "data_destruct_buffer data w = bind_ok (data_get_buffer data) (\<lambda>p. pipe_unref p w)"

definition data_reset :: "fd_data \<Rightarrow> file_world \<Rightarrow> (fd_data \<times> file_world) outcome" where
  "data_reset data w =
     bind_ok
       (case data of
          NoData \<Rightarrow> Inr w
        | FileData _ \<Rightarrow> bind_ok (data_reset_file data w) (\<lambda>(_, w). Inr w)
        | BufferData _ \<Rightarrow> data_destruct_buffer data w)
       (\<lambda>w. Inr (NoData, w))"

definition data_set_file :: "nat option \<Rightarrow> fd_data \<Rightarrow> file_world \<Rightarrow> (fd_data \<times> file_world) outcome" where
  "data_set_file f data w = bind_ok (data_reset data w) (\<lambda>(_, w). Inr (FileData f, w))"

definition data_construct_buffer :: "nat \<Rightarrow> fd_data \<Rightarrow> file_world \<Rightarrow> (fd_data \<times> file_world) outcome" where
  "data_construct_buffer p data w =
     bind_ok (data_reset data w) (\<lambda>(_, w). bind_ok (pipe_ref p w) (\<lambda>w. Inr (BufferData p, w)))"

section \<open>Descriptors\<close>

record file_descriptor =
  fd_type :: fd_type
  fd_offset :: u32
  fd_data :: fd_data

definition fd_new :: "fd_type \<Rightarrow> file_descriptor" where
  "fd_new t = \<lparr>fd_type = t, fd_offset = 0, fd_data = NoData\<rparr>"




definition uses_file :: "file_descriptor \<Rightarrow> bool" where
  "uses_file fd \<longleftrightarrow> fd_type fd = File \<or> fd_type fd = Folder"

definition uses_buffer :: "file_descriptor \<Rightarrow> bool" where
  "uses_buffer fd \<longleftrightarrow> fd_type fd = PipeRead \<or> fd_type fd = PipeWrite"

definition is_tty :: "file_descriptor \<Rightarrow> bool" where
  "is_tty fd \<longleftrightarrow> fd_type fd = StdIn \<or> fd_type fd = StdOut \<or> fd_type fd = StdErr"

definition fd_node :: "file_descriptor \<Rightarrow> file_world \<Rightarrow> node outcome" where
  "fd_node fd w = bind_ok (data_get_file (fd_data fd)) (\<lambda>f. the_node f w)"







text \<open>The move constructor: the new descriptor, the old one and the world.\<close>

definition fd_move :: "file_descriptor \<Rightarrow> file_world \<Rightarrow> (file_descriptor \<times> file_descriptor \<times> file_world) outcome" where
  "fd_move other w =
     (let fd = (fd_new (fd_type other))\<lparr>fd_offset := fd_offset other\<rparr>
      in if uses_file fd then
           bind_ok (data_get_file (fd_data other)) (\<lambda>f.
           bind_ok (data_set_file f (fd_data fd) w) (\<lambda>(data, w).
           bind_ok (data_reset_file (fd_data other) w) (\<lambda>(odata, w).
             Inr (fd\<lparr>fd_data := data\<rparr>, other\<lparr>fd_data := odata\<rparr>, w))))
         else if uses_buffer fd then
           bind_ok (data_get_buffer (fd_data other)) (\<lambda>p.
           bind_ok (data_construct_buffer p (fd_data fd) w) (\<lambda>(data, w).
           bind_ok (data_destruct_buffer (fd_data other) w) (\<lambda>w.
             Inr (fd\<lparr>fd_data := data\<rparr>, other, w))))
         else Inr (fd, other, w))"


section \<open>Reading and writing\<close>

text \<open>
  The loop that claims a range of the file: \<open>others\<close> are the values that other cores store into the
  offset between the read and the exchange of each round. The result is the position, the size and the
  offset left.
\<close>

fun fd_claim :: "u32 \<Rightarrow> u32 \<Rightarrow> u32 option list \<Rightarrow> u32 \<Rightarrow> u32 \<times> u32 \<times> u32" where
  "fd_claim file_size sz [] offset =
     (let (loaded_offset, offset) = atomic_load offset;
          updated_size = min (loaded_offset + sz) file_size - loaded_offset;
          (done, offset) = cmp_exchange loaded_offset (loaded_offset + updated_size) offset
      in (loaded_offset, updated_size, offset))"
| "fd_claim file_size sz (other # others) offset =
     (let (loaded_offset, offset) = atomic_load offset;
          updated_size = min (loaded_offset + sz) file_size - loaded_offset;
          offset = (case other of None \<Rightarrow> offset | Some v \<Rightarrow> atomic_store v offset);
          (done, offset) = cmp_exchange loaded_offset (loaded_offset + updated_size) offset
      in if done then (loaded_offset, updated_size, offset) else fd_claim file_size sz others offset)"






section \<open>Seeking\<close>


definition EBADF :: int where "EBADF = 9"


definition isatty :: "u32 \<Rightarrow> nat descriptor_list \<Rightarrow> (nat \<Rightarrow> file_descriptor) \<Rightarrow> int" where
  "isatty fd_num tbl fds =
     (case dl_get fd_num tbl of
        None \<Rightarrow> - EBADF
      | Some None \<Rightarrow> - EBADF
      | Some (Some i) \<Rightarrow> if is_tty (fds i) then 1 else 0)"

section \<open>Reads through a shared descriptor\<close>









definition tiny_world :: file_world where
  "tiny_world = \<lparr>fw_nodes = [0 \<mapsto> tiny_file], fw_pipes = Map.empty, fw_calls = 0\<rparr>"

definition tiny_fd :: file_descriptor where
  "tiny_fd = \<lparr>fd_type = File, fd_offset = 2, fd_data = FileData (Some 0)\<rparr>"


section \<open>Seeking\<close>





section \<open>The life of descriptors\<close>


fun fd_node_refs :: "fd_data \<Rightarrow> nat list" where
  "fd_node_refs (FileData (Some a)) = [a]"
| "fd_node_refs _ = []"

fun fd_pipe_refs :: "fd_data \<Rightarrow> nat list" where
  "fd_pipe_refs (BufferData p) = [p]"
| "fd_pipe_refs _ = []"

definition node_refs :: "file_descriptor list \<Rightarrow> nat list" where
  "node_refs fds = concat (map (fd_node_refs \<circ> fd_data) fds)"

definition pipe_refs :: "file_descriptor list \<Rightarrow> nat list" where
  "pipe_refs fds = concat (map (fd_pipe_refs \<circ> fd_data) fds)"




text \<open>A descriptor and what its type promises of its data.\<close>

definition fd_typed :: "(nat \<rightharpoonup> node) \<Rightarrow> file_descriptor \<Rightarrow> bool" where
  "fd_typed nodes fd \<longleftrightarrow>
     (case fd_data fd of
        NoData \<Rightarrow> is_tty fd
      | FileData f \<Rightarrow> (\<exists>a n. f = Some a \<and> nodes a = Some n \<and> (fd_type fd = File \<and> is_file n \<or> fd_type fd = Folder \<and> is_dir n))
      | BufferData p \<Rightarrow> uses_buffer fd)"




lemma refs_simps [simp]:
  "node_refs [] = []" "node_refs (fd # fds) = fd_node_refs (fd_data fd) @ node_refs fds"
  "node_refs (xs @ ys) = node_refs xs @ node_refs ys"
  "pipe_refs [] = []" "pipe_refs (fd # fds) = fd_pipe_refs (fd_data fd) @ pipe_refs fds"
  "pipe_refs (xs @ ys) = pipe_refs xs @ pipe_refs ys"
  by (simp_all add: node_refs_def pipe_refs_def)









lemma fd_typed_offset [simp]: "fd_typed nodes (fd\<lparr>fd_offset := x\<rparr>) = fd_typed nodes fd"
  by (simp add: fd_typed_def is_tty_def uses_buffer_def cong: fd_data.case_cong)





















text \<open>
  Two cases the code does not handle. A read at an offset behind the end of the file, where \<^verbatim>\<open>lseek\<close> may
  leave it, reports a count near \<open>2\<^sup>3\<^sup>2\<close> and moves the offset back. A descriptor that is moved from keeps
  the node it is moved to from living: the node is deleted.
\<close>

lemma claim_behind_end: "fd_claim 10 1 [] 20 = (20, 0xFFFFFFF6, 10)"
  by (simp add: atomic_defs)

lemma move_deletes_node:
  "\<exists>fd other w. fd_move tiny_fd tiny_world = Inr (fd, other, w) \<and> fd_data fd = FileData (Some 0) \<and> fd_node fd w = Inl OutOfBounds"
  by (simp add: fd_move_def tiny_fd_def tiny_world_def fd_new_def uses_file_def data_get_file_def data_set_file_def data_reset_def
      data_reset_file_def delete_node_def the_node_def fd_node_def)

end
