(* ===== verification/Elf.thy ===== *)
theory Elf
  imports Ext2 User_Memory
begin

text \<open>
  Executable files: \<^verbatim>\<open>kernel/elf.h\<close> and \<^verbatim>\<open>kernel/elf.cc\<close>. The headers are read from the node of the
  file by the typed read of a block device, whose assertion that the whole header was read is part of
  the model. The array of segments is a list; it is freed on the paths that reject the file.
\<close>

section \<open>Headers\<close>

record elf_header =
  magic :: "u8 list"
  cls :: u8
  encoding :: u8
  header_version :: u8
  abi :: u8
  eh_type :: u16
  machine :: u16
  eh_version :: u32
  entry :: u32
  phoff :: u32
  phentsize :: u16
  phnum :: u16

record program_header =
  ph_type :: u32
  ph_offset :: u32
  vaddr :: u32
  filesz :: u32
  memsz :: u32

text \<open>The layout of the two packed structures.\<close>

definition elf_header_of :: "u8 list \<Rightarrow> elf_header" where
  "elf_header_of b =
     \<lparr>magic = take 4 b, cls = b ! 4, encoding = b ! 5, header_version = b ! 6, abi = b ! 7,
      eh_type = get_u16 b 16, machine = get_u16 b 18, eh_version = get_u32 b 20, entry = get_u32 b 24,
      phoff = get_u32 b 28, phentsize = get_u16 b 42, phnum = get_u16 b 44\<rparr>"

definition sizeof_ElfHeader :: u32 where "sizeof_ElfHeader = 52"

definition program_header_of :: "u8 list \<Rightarrow> program_header" where
  "program_header_of b =
     \<lparr>ph_type = get_u32 b 0, ph_offset = get_u32 b 4, vaddr = get_u32 b 8, filesz = get_u32 b 16, memsz = get_u32 b 20\<rparr>"

definition sizeof_ProgramHeader :: u32 where "sizeof_ProgramHeader = 32"

record elf_load =
  el_offset :: u32
  el_file_size :: u32
  load_address :: u32
  memory_size :: u32

record elf_load_list =
  entry_point :: u32
  loads :: "elf_load list"

section \<open>Validation\<close>

definition node_read_thing :: "drive \<Rightarrow> u32 \<Rightarrow> node \<Rightarrow> u32 \<Rightarrow> u32 \<Rightarrow> u8 list outcome" where
  "node_read_thing d bs n offset len = bio_read_thing (node_size n) bs (node_read_block d bs n) offset len"

definition header_fits :: "elf_header \<Rightarrow> bool" where
  "header_fits h \<longleftrightarrow>
     magic h = [0x7f, of_char CHR ''E'', of_char CHR ''L'', of_char CHR ''F'']
     \<and> cls h = 1 \<and> encoding h = 1 \<and> header_version h = 1 \<and> abi h = 0
     \<and> eh_type h = 2 \<and> machine h = 3 \<and> eh_version h = 1"

text \<open>
  The loop over the program headers, with \<open>k\<close> of them left. The result \<open>None\<close> rejects the file;
  otherwise it is whether the entry point lies in a segment, and the segments.
\<close>

fun program_headers_loop ::
    "drive \<Rightarrow> u32 \<Rightarrow> node \<Rightarrow> elf_header \<Rightarrow> nat \<Rightarrow> u16 \<Rightarrow> bool \<Rightarrow> elf_load list \<Rightarrow> (bool \<times> elf_load list) option outcome" where
  "program_headers_loop d bs n h 0 i entry_point_found ls = Inr (Some (entry_point_found, ls))"
| "program_headers_loop d bs n h (Suc k) i entry_point_found ls =
     bind_ok (node_read_thing d bs n (phoff h + ucast i * ucast (phentsize h)) sizeof_ProgramHeader) (\<lambda>bytes.
       let ph = program_header_of bytes
       in if ph_type ph \<noteq> 1 \<or> memsz ph = 0 then program_headers_loop d bs n h k (i + 1) entry_point_found ls
          else if \<not> validate_address (vaddr ph) (memsz ph) 1 then Inr None
          else if ph_offset ph + filesz ph > node_size n then Inr None
          else program_headers_loop d bs n h k (i + 1)
                 (entry_point_found \<or> (entry h \<ge> vaddr ph \<and> entry h < vaddr ph + memsz ph))
                 (ls @ [\<lparr>el_offset = ph_offset ph, el_file_size = filesz ph, load_address = vaddr ph, memory_size = memsz ph\<rparr>]))"

definition elf_validate :: "drive \<Rightarrow> u32 \<Rightarrow> node \<Rightarrow> elf_load_list option outcome" where
  "elf_validate d bs n =
     (if node_size n < sizeof_ElfHeader then Inr None
      else
        bind_ok (node_read_thing d bs n 0 sizeof_ElfHeader) (\<lambda>bytes.
          let h = elf_header_of bytes
          in if \<not> header_fits h then Inr None
             else if \<not> validate_address (entry h) 0 1 then Inr None
             else if \<not> check_bounds (phoff h) (ucast (phnum h)) sizeof_ProgramHeader 0 (node_size n + 1) then Inr None
             else
               bind_ok (program_headers_loop d bs n h (unat (phnum h)) 0 False []) (\<lambda>r.
                 case r of
                   None \<Rightarrow> Inr None
                 | Some (entry_point_found, ls) \<Rightarrow>
                     if \<not> entry_point_found then Inr None else Inr (Some \<lparr>entry_point = entry h, loads = ls\<rparr>))))"

section \<open>Loading\<close>

text \<open>The bytes a read stores from an address on; addresses wrap.\<close>

definition write_bytes :: "u32 \<Rightarrow> u8 list \<Rightarrow> (u32 \<Rightarrow> u8) \<Rightarrow> u32 \<Rightarrow> u8" where
  "write_bytes at' bytes mem a = (if unat (a - at') < length bytes then bytes ! unat (a - at') else mem a)"

fun load_loop :: "drive \<Rightarrow> u32 \<Rightarrow> node \<Rightarrow> elf_load list \<Rightarrow> (u32 \<Rightarrow> u8) \<Rightarrow> (u32 \<Rightarrow> u8) outcome" where
  "load_loop d bs n [] mem = Inr mem"
| "load_loop d bs n (l # ls) mem =
     (if el_file_size l > 0 then
        bind_ok (node_read_all d bs n (el_offset l) (el_file_size l)) (\<lambda>(cnt, bytes).
          load_loop d bs n ls (write_bytes (load_address l) bytes mem))
      else load_loop d bs n ls mem)"

definition elf_load_list_at :: "drive \<Rightarrow> u32 \<Rightarrow> node \<Rightarrow> elf_load_list \<Rightarrow> (u32 \<Rightarrow> u8) \<Rightarrow> (u32 \<times> (u32 \<Rightarrow> u8)) outcome" where
  "elf_load_list_at d bs n l mem = bind_ok (load_loop d bs n (loads l) mem) (\<lambda>mem. Inr (entry_point l, mem))"

definition elf_load_node :: "drive \<Rightarrow> u32 \<Rightarrow> node \<Rightarrow> (u32 \<Rightarrow> u8) \<Rightarrow> (u32 \<times> (u32 \<Rightarrow> u8)) outcome" where
  "elf_load_node d bs n mem =
     bind_ok (elf_validate d bs n) (\<lambda>r. case r of None \<Rightarrow> Inr (0, mem) | Some l \<Rightarrow> elf_load_list_at d bs n l mem)"

section \<open>What a valid file is\<close>

text \<open>
  The reference: a file as the sequence of its bytes and numbers without bounds. The end of a segment in
  the file is the one number the code computes modulo \<open>2\<^sup>3\<^sup>2\<close>.
\<close>

definition program_headers :: "u8 list \<Rightarrow> elf_header \<Rightarrow> program_header list" where
  "program_headers file h = map (\<lambda>i. program_header_of (take 32 (drop (unat (phoff h) + 32 * i) file))) [0..<unat (phnum h)]"

definition loadable :: "program_header \<Rightarrow> bool" where
  "loadable ph \<longleftrightarrow> ph_type ph = 1 \<and> memsz ph \<noteq> 0"

definition in_user_memory :: "nat \<Rightarrow> bool" where
  "in_user_memory a \<longleftrightarrow> 0x80000000 \<le> a \<and> a < 0xF0001000"

definition segment_fits :: "nat \<Rightarrow> program_header \<Rightarrow> bool" where
  "segment_fits len ph \<longleftrightarrow> in_user_memory (unat (vaddr ph)) \<and> in_user_memory (unat (vaddr ph) + unat (memsz ph))
     \<and> (unat (ph_offset ph) + unat (filesz ph)) mod 2 ^ 32 \<le> len"

definition covers :: "u32 \<Rightarrow> program_header \<Rightarrow> bool" where
  "covers a ph \<longleftrightarrow> unat (vaddr ph) \<le> unat a \<and> unat a < unat (vaddr ph) + unat (memsz ph)"

definition to_load :: "program_header \<Rightarrow> elf_load" where
  "to_load ph = \<lparr>el_offset = ph_offset ph, el_file_size = filesz ph, load_address = vaddr ph, memory_size = memsz ph\<rparr>"

definition elf_reference :: "u8 list \<Rightarrow> elf_load_list option" where
  "elf_reference file =
     (let h = elf_header_of (take 52 file); phs = filter loadable (program_headers file h)
      in if length file < 52 \<or> \<not> header_fits h \<or> \<not> in_user_memory (unat (entry h))
            \<or> unat (phoff h) + 32 * unat (phnum h) > length file
            \<or> \<not> list_all (segment_fits (length file)) phs \<or> \<not> list_ex (covers (entry h)) phs
         then None
         else Some \<lparr>entry_point = entry h, loads = map to_load phs\<rparr>)"

lemma node_read_thing_spec:
  assumes "node_on_drive d bs n" "unat offset + unat len \<le> unat (node_size n)"
  shows "node_read_thing d bs n offset len = Inr (take (unat len) (drop (unat offset) (file_bytes d bs n)))"
  using block_device.read_thing_spec [OF node_block_device [OF assms(1)] assms(2)] by (simp add: node_read_thing_def)

lemma file_bytes_length [simp]: "length (file_bytes d bs n) = unat (node_size n)"
  by (simp add: file_bytes_def)

text \<open>One round of the loop decides as the reference does.\<close>

lemma segment_checks:
  assumes "memsz ph \<noteq> 0"
  shows "validate_address (vaddr ph) (memsz ph) 1 \<and> \<not> ph_offset ph + filesz ph > sz \<longleftrightarrow> segment_fits (unat sz) ph"
proof -
  have "0 < unat (memsz ph)" using assms by (simp add: unat_gt_0)
  moreover have "unat (ph_offset ph + filesz ph) = (unat (ph_offset ph) + unat (filesz ph)) mod 2 ^ 32"
    by (simp add: unat_word_ariths)
  ultimately show ?thesis
    by (auto simp: segment_fits_def in_user_memory_def validate_address_iff word_less_nat_alt not_less)
qed

lemma covers_check:
  assumes "segment_fits len ph"
  shows "entry h \<ge> vaddr ph \<and> entry h < vaddr ph + memsz ph \<longleftrightarrow> covers (entry h) ph"
proof -
  have "unat (vaddr ph + memsz ph) = unat (vaddr ph) + unat (memsz ph)"
    using assms by (intro unat_plus_exact) (simp add: segment_fits_def in_user_memory_def)
  then show ?thesis by (simp add: covers_def word_le_nat_alt word_less_nat_alt)
qed

lemma program_headers_loop_spec:
  assumes drive: "node_on_drive d bs n" and size: "phentsize h = 32" "unat (phoff h) + 32 * unat (phnum h) \<le> unat (node_size n)"
    and "j + k = unat (phnum h)" "unat i = j"
  defines "phs \<equiv> filter loadable (drop j (program_headers (file_bytes d bs n) h))"
  shows "program_headers_loop d bs n h k i found ls =
    Inr (if list_all (segment_fits (unat (node_size n))) phs
         then Some (found \<or> list_ex (covers (entry h)) phs, ls @ map to_load phs) else None)"
  using assms(4,5) unfolding phs_def
proof (induction k arbitrary: i j found ls)
  case 0
  then show ?case by (simp add: program_headers_def)
next
  case (Suc k)
  let ?file = "file_bytes d bs n" and ?sz = "unat (node_size n)"
  have j: "j < unat (phnum h)" using Suc.prems(1) by simp
  then have jn: "j < 65536" by (meson less_trans unat_u16_less)
  have mul: "unat (ucast i * ucast (phentsize h) :: u32) = 32 * j"
  proof -
    have "unat (ucast i :: u32) = j" "unat (ucast (phentsize h) :: u32) = 32"
      using Suc.prems(2) size(1) jn unat_ucast_small [where ?'b = 32, of i] by simp_all
    then show ?thesis using jn by (subst unat_times_exact) simp_all
  qed
  have fits: "unat (phoff h) + 32 * j + 32 \<le> ?sz" using j size(2) by simp
  then have "unat (phoff h) + 32 * j < 4294967296" using unat_u32_less [of "node_size n"] by linarith
  then have off: "unat (phoff h + ucast i * ucast (phentsize h)) = unat (phoff h) + 32 * j"
    using mul by (subst unat_plus_exact) simp_all
  have read: "node_read_thing d bs n (phoff h + ucast i * ucast (phentsize h)) sizeof_ProgramHeader
      = Inr (take 32 (drop (unat (phoff h) + 32 * j) ?file))"
    using fits off node_read_thing_spec [OF drive, of "phoff h + ucast i * ucast (phentsize h)" sizeof_ProgramHeader]
    by (simp add: sizeof_ProgramHeader_def)
  let ?ph = "program_header_of (take 32 (drop (unat (phoff h) + 32 * j) ?file))"
  let ?rest = "drop (Suc j) (program_headers ?file h)"
  have cons: "drop j (program_headers ?file h) = ?ph # ?rest"
    using j by (simp add: program_headers_def Cons_nth_drop_Suc [symmetric])
  have "j + 1 < 65536" using j unat_u16_less [of "phnum h"] by linarith
  then have "unat (i + 1) = Suc j" using Suc.prems(2) by (subst unat_plus_exact) simp_all
  note IH = Suc.IH [OF _ this]
  have IH': "program_headers_loop d bs n h k (i + 1) found' ls' =
      Inr (if list_all (segment_fits ?sz) (filter loadable ?rest)
           then Some (found' \<or> list_ex (covers (entry h)) (filter loadable ?rest), ls' @ map to_load (filter loadable ?rest))
           else None)" for found' ls'
    using IH Suc.prems(1) by simp
  show ?case
  proof (cases "loadable ?ph")
    case False
    then have "ph_type ?ph \<noteq> 1 \<or> memsz ?ph = 0" by (simp add: loadable_def)
    then show ?thesis unfolding cons using read IH' False by (simp add: Let_def)
  next
    case True
    then have m: "memsz ?ph \<noteq> 0" "ph_type ?ph = 1" by (simp_all add: loadable_def)
    note chk = segment_checks [OF m(1), of "node_size n"]
    show ?thesis
    proof (cases "segment_fits ?sz ?ph")
      case False
      then show ?thesis unfolding cons using read chk m True by (simp add: Let_def)
    next
      case fits: True
      then have ok: "validate_address (vaddr ?ph) (memsz ?ph) 1" "\<not> ph_offset ?ph + filesz ?ph > node_size n" using chk by auto
      show ?thesis unfolding cons using read ok m True fits IH' covers_check [OF fits, of h]
        by (simp add: Let_def to_load_def)
    qed
  qed
qed

lemma elf_validate_reference:
  assumes drive: "node_on_drive d bs n" and "node_size n \<noteq> 0xFFFFFFFF"
    and ent: "phentsize (elf_header_of (take 52 (file_bytes d bs n))) = 32"
  shows "elf_validate d bs n = Inr (elf_reference (file_bytes d bs n))"
proof -
  let ?file = "file_bytes d bs n" and ?sz = "unat (node_size n)"
  let ?h = "elf_header_of (take 52 ?file)"
  have "?sz \<noteq> 4294967295"
  proof
    assume "?sz = 4294967295"
    then have "unat (node_size n) = unat (0xFFFFFFFF :: u32)" by simp
    then show False using assms(2) by (simp only: word_unat_eq_iff)
  qed
  then have lt: "?sz + 1 < 4294967296" using unat_u32_less [of "node_size n"] by linarith
  then have top: "unat (node_size n + 1) = ?sz + 1" by (subst unat_plus_exact) simp_all
  show ?thesis
  proof (cases "?sz < 52")
    case True
    then show ?thesis by (simp add: elf_validate_def elf_reference_def sizeof_ElfHeader_def word_less_nat_alt)
  next
    case False
    then have read: "node_read_thing d bs n 0 sizeof_ElfHeader = Inr (take 52 ?file)"
      using node_read_thing_spec [OF drive, of 0 sizeof_ElfHeader] by (simp add: sizeof_ElfHeader_def)
    have user: "validate_address (entry ?h) 0 1 = in_user_memory (unat (entry ?h))"
      by (auto simp: validate_address_iff in_user_memory_def)
    have num: "unat (ucast (phnum ?h) :: u32) = unat (phnum ?h)"
      by (rule unat_ucast_small, rule less_trans [OF unat_u16_less]) simp
    have tab: "check_bounds (phoff ?h) (ucast (phnum ?h)) sizeof_ProgramHeader 0 (node_size n + 1)
        = (unat (phoff ?h) + 32 * unat (phnum ?h) \<le> ?sz)"
      using lt by (auto simp: check_bounds_iff top num sizeof_ProgramHeader_def mult.commute)
    have start: "elf_validate d bs n =
      (if \<not> header_fits ?h \<or> \<not> in_user_memory (unat (entry ?h)) \<or> unat (phoff ?h) + 32 * unat (phnum ?h) > ?sz then Inr None
       else bind_ok (program_headers_loop d bs n ?h (unat (phnum ?h)) 0 False []) (\<lambda>r.
         case r of None \<Rightarrow> Inr None | Some (entry_point_found, ls) \<Rightarrow>
           if \<not> entry_point_found then Inr None else Inr (Some \<lparr>entry_point = entry ?h, loads = ls\<rparr>)))"
      using False read unfolding elf_validate_def
      by (simp add: sizeof_ElfHeader_def word_less_nat_alt user tab Let_def)
    show ?thesis
    proof (cases "\<not> header_fits ?h \<or> \<not> in_user_memory (unat (entry ?h)) \<or> unat (phoff ?h) + 32 * unat (phnum ?h) > ?sz")
      case True
      then show ?thesis unfolding start by (auto simp: elf_reference_def Let_def)
    next
      case fine: False
      then have "unat (phoff ?h) + 32 * unat (phnum ?h) \<le> ?sz" by simp
      from program_headers_loop_spec [OF drive ent this, of 0 "unat (phnum ?h)" 0 False "[]"] fine False
      show ?thesis unfolding start by (simp add: elf_reference_def Let_def)
    qed
  qed
qed

text \<open>Every segment of an accepted file lies in user memory, and one of them holds the entry point.\<close>

lemma elf_reference_safe:
  assumes "elf_reference file = Some l"
  shows "list_all (\<lambda>s. in_user_memory (unat (load_address s)) \<and> in_user_memory (unat (load_address s) + unat (memory_size s))) (loads l)
    \<and> list_ex (\<lambda>s. unat (load_address s) \<le> unat (entry_point l) \<and> unat (entry_point l) < unat (load_address s) + unat (memory_size s)) (loads l)"
  using assms
  by (auto simp: elf_reference_def Let_def list_all_iff list_ex_iff segment_fits_def covers_def to_load_def split: if_splits)

text \<open>
  C10. Validating an executable agrees with the reference: on a file whose blocks lie on the drive and whose
  program headers have the standard size, \<^verbatim>\<open>ELF::validate\<close> ends without a failed assertion, accepts the
  file exactly if its header, its table of program headers, its segments and its entry point are as the
  reference asks, and lists the loadable segments in the order of the file. Every accepted segment lies
  in user memory, and one of them holds the entry point.
\<close>

theorem elf_validate_exact:
  assumes "node_on_drive d bs n" "node_size n \<noteq> 0xFFFFFFFF" "phentsize (elf_header_of (take 52 (file_bytes d bs n))) = 32"
  shows "elf_validate d bs n = Inr (elf_reference (file_bytes d bs n))
    \<and> (\<forall>l. elf_validate d bs n = Inr (Some l) \<longrightarrow>
        list_all (\<lambda>s. in_user_memory (unat (load_address s)) \<and> in_user_memory (unat (load_address s) + unat (memory_size s))) (loads l)
        \<and> list_ex (\<lambda>s. unat (load_address s) \<le> unat (entry_point l) \<and> unat (entry_point l) < unat (load_address s) + unat (memory_size s)) (loads l))"
  using elf_validate_reference [OF assms] elf_reference_safe by simp

text \<open>An executable with one segment of 32 bytes at \<^verbatim>\<open>0x80001000\<close>.\<close>

definition sample_elf :: "u8 list" where
  "sample_elf =
     [0x7f, 0x45, 0x4c, 0x46, 1, 1, 1, 0, 0, 0, 0, 0, 0, 0, 0, 0, 2, 0, 3, 0, 1, 0, 0, 0, 0, 0x10, 0, 0x80, 52, 0, 0, 0,
      0, 0, 0, 0, 0, 0, 0, 0, 52, 0, 32, 0, 1, 0, 0, 0, 0, 0, 0, 0,
      1, 0, 0, 0, 0, 0, 0, 0, 0, 0x10, 0, 0x80, 0, 0, 0, 0, 0x10, 0, 0, 0, 0x20, 0, 0, 0, 0, 0, 0, 0, 0, 0, 0, 0]"

definition elf_drive :: drive where
  "elf_drive a = (if 5120 \<le> a \<and> a < 5204 then sample_elf ! (a - 5120) else 0)"

lemma sample_elf_length: "length sample_elf = 84"
  by (simp add: sample_elf_def)

lemma sample_elf_bytes: "file_bytes elf_drive 1024 (small_file 84) = sample_elf"
proof -
  have "file_bytes elf_drive 1024 (small_file 84) = map (\<lambda>i. elf_drive (5120 + i)) [0..<length sample_elf]"
    using small_bytes [of 84 elf_drive] by (simp add: sample_elf_length)
  also have "\<dots> = map (nth sample_elf) [0..<length sample_elf]"
    by (intro map_upt_cong) (simp add: elf_drive_def sample_elf_length)
  finally show ?thesis by (simp add: map_nth)
qed

lemma sample_elf_header:
  "elf_header_of (take 52 sample_elf) =
     \<lparr>magic = [0x7f, 0x45, 0x4c, 0x46], cls = 1, encoding = 1, header_version = 1, abi = 0, eh_type = 2, machine = 3,
      eh_version = 1, entry = 0x80001000, phoff = 52, phentsize = 32, phnum = 1\<rparr>"
  by (simp add: elf_header_of_def sample_elf_def get_u32_def get_u16_def)

lemma sample_elf_program_header:
  "program_header_of (drop 52 sample_elf) =
     \<lparr>ph_type = 1, ph_offset = 0, vaddr = 0x80001000, filesz = 0x10, memsz = 0x20\<rparr>"
  by (simp add: program_header_of_def sample_elf_def get_u32_def)

lemma sample_elf_reference:
  "elf_reference sample_elf = Some \<lparr>entry_point = 0x80001000, loads =
     [\<lparr>el_offset = 0, el_file_size = 0x10, load_address = 0x80001000, memory_size = 0x20\<rparr>]\<rparr>"
  by (simp add: elf_reference_def sample_elf_header program_headers_def sample_elf_program_header loadable_def sample_elf_length
      header_fits_def in_user_memory_def segment_fits_def covers_def to_load_def)

theorem elf_validate_exact_witness:
  "elf_validate elf_drive 1024 (small_file 84) = Inr (Some \<lparr>entry_point = 0x80001000, loads =
     [\<lparr>el_offset = 0, el_file_size = 0x10, load_address = 0x80001000, memory_size = 0x20\<rparr>]\<rparr>)"
proof -
  have "node_on_drive elf_drive 1024 (small_file 84)" by (rule small_on_drive) simp
  moreover have "node_size (small_file 84) \<noteq> 0xFFFFFFFF" by (simp add: small_file_def)
  moreover have "phentsize (elf_header_of (take 52 (file_bytes elf_drive 1024 (small_file 84)))) = 32"
    unfolding sample_elf_bytes sample_elf_header by simp
  ultimately show ?thesis using elf_validate_exact [of elf_drive 1024 "small_file 84"]
    unfolding sample_elf_bytes sample_elf_reference by blast
qed

text \<open>
  A program header may claim to end beyond the file: the sum of its offset and its size in the file
  wraps around. And program headers of a size other than the standard one are read at places that were
  not checked, where the assertion that a whole header was read fails.
\<close>

lemma segment_end_wraps:
  "segment_fits 84 \<lparr>ph_type = 1, ph_offset = 0xFFFFFFFF, vaddr = 0x80001000, filesz = 0x10, memsz = 0x20\<rparr>"
  by (simp add: segment_fits_def in_user_memory_def)

end
