(* ===== verification/Paths.thy ===== *)
theory Paths
  imports Ext2
begin

text \<open>
  Path lookup: \<^verbatim>\<open>find_fs_node\<close> of \<^verbatim>\<open>kernel/kernel.cc\<close>. A path is the list of its characters before the
  terminating zero; \<open>None\<close> as a result is the null pointer. A search of a directory may not end, and so
  may the loop that follows links; \<open>depth\<close> bounds the nesting of links.
\<close>

section \<open>The lookup\<close>




definition and_then :: "'a outcome option \<Rightarrow> ('a \<Rightarrow> 'b outcome option) \<Rightarrow> 'b outcome option" where
  "and_then r f = Option.bind r (\<lambda>r. case r of Inl p \<Rightarrow> Some (Inl p) | Inr x \<Rightarrow> f x)"

lemma and_then_simps [simp]:
  "and_then (Some (Inr x)) f = f x" "and_then (Some (Inl p)) f = Some (Inl p)" "and_then None f = None"
  by (simp_all add: and_then_def)

lemma and_then_mono [partial_function_mono]:
  assumes "mono_option B" "\<And>y. mono_option (\<lambda>f. C y f)"
  shows "mono_option (\<lambda>f. and_then (B f) (\<lambda>y. C y f))"
  unfolding and_then_def
proof (rule bind_mono [OF assms(1)])
  fix y
  show "mono_option (\<lambda>f. case y of Inl p \<Rightarrow> Some (Inl p) | Inr x \<Rightarrow> C x f)"
    using assms(2) by (cases y) (simp_all add: option.const_mono)
qed





section \<open>What a path names\<close>






















end
