(* ===== verification/Boot_Config.thy ===== *)
theory Boot_Config
  imports Physical_Memory
begin

text \<open>
  The discovery of the machine in \<^verbatim>\<open>kernel/config.h\<close> and \<^verbatim>\<open>kernel/config.cc\<close>: the amount of memory, the
  tables of the firmware, the processors and the interrupt controllers. The kernel runs without paging
  here, so the tables are read from physical memory, and a null pointer reads address 0. The search for a
  signature and the walk over the entries of a table may not end and are partial functions; the array of
  processors has a fixed size, and an access outside it is a failure.
\<close>

section \<open>The configuration\<close>

record apic_info =
  processorId :: u8
  apicId :: u8
  apic_flags :: u32

definition MAX_PROCS :: nat where "MAX_PROCS = 16"

record config =
  memSize :: u32
  nOtherProcs :: u32
  totalProcs :: u32
  localAPIC :: u32
  madtFlags :: u32
  ioAPIC :: u32
  apicInfo :: "apic_info list"
  oemid :: "u8 list"

record mem_info =
  mi_ax :: u16
  mi_bx :: u16
  mi_cx :: u16
  mi_dx :: u16

definition memAbove1M :: "mem_info \<Rightarrow> u32 outcome" where
  "memAbove1M mi =
     bind_ok (assert (mi_cx mi = 15 * 1024 \<or> mi_dx mi = 0)) (\<lambda>_.
       Inr (push_bit 10 (ucast (mi_ax mi OR mi_cx mi)) + push_bit 16 (ucast (mi_bx mi OR mi_dx mi))))"

section \<open>The tables of the firmware\<close>

text \<open>The members of the packed structures that are read.\<close>

definition sizeof_SDT :: u32 where "sizeof_SDT = 36"
definition sdt_Length :: "memory \<Rightarrow> u32 \<Rightarrow> u32" where "sdt_Length m p = load32 m (p + 4)"

definition sizeof_MADT :: u32 where "sizeof_MADT = sizeof_SDT + 8"
definition madt_localAddress :: "memory \<Rightarrow> u32 \<Rightarrow> u32" where "madt_localAddress m p = load32 m (p + sizeof_SDT)"
definition madt_flags :: "memory \<Rightarrow> u32 \<Rightarrow> u32" where "madt_flags m p = load32 m (p + sizeof_SDT + 4)"

definition entry_type :: "memory \<Rightarrow> u32 \<Rightarrow> u8" where "entry_type m p = m p"
definition entry_len :: "memory \<Rightarrow> u32 \<Rightarrow> u8" where "entry_len m p = m (p + 1)"

definition apic_entry :: "memory \<Rightarrow> u32 \<Rightarrow> apic_info" where
  "apic_entry m p = \<lparr>processorId = m (p + 2), apicId = m (p + 3), apic_flags = load32 m (p + 4)\<rparr>"

definition ioapic_address :: "memory \<Rightarrow> u32 \<Rightarrow> u32" where "ioapic_address m p = load32 m (p + 4)"

definition rsd_OEMID :: "memory \<Rightarrow> u32 \<Rightarrow> u8 list" where "rsd_OEMID m p = map (\<lambda>i. m (p + 9 + of_nat i)) [0..<6]"
definition rsd_rootSDT :: "memory \<Rightarrow> u32 \<Rightarrow> u32" where "rsd_rootSDT m p = load32 m (p + 16)"

fun iseq :: "memory \<Rightarrow> u32 \<Rightarrow> u8 list \<Rightarrow> bool" where
  "iseq m a [] = True"
| "iseq m a (c # cs) = (if m a \<noteq> c then False else iseq m (a + 1) cs)"

definition bytes_of :: "string \<Rightarrow> u8 list" where "bytes_of s = map of_char s"

partial_function (option) findRSDInRange :: "memory \<Rightarrow> u32 \<Rightarrow> u32 \<Rightarrow> u32 option" where
  "findRSDInRange m i stop =
     (if i < stop then (if iseq m i (bytes_of ''RSD PTR '') then Some i else findRSDInRange m (i + 16) stop) else Some 0)"

definition findRSD :: "memory \<Rightarrow> u32 option" where
  "findRSD m =
     Option.bind (findRSDInRange m 0x000E0000 0x00100000) (\<lambda>it.
       if it = 0 then
         let base = push_bit 4 (ucast (m 0x40E) OR push_bit 8 (ucast (m 0x40F)))
         in findRSDInRange m base (base + push_bit 10 1)
       else Some it)"

fun findSDT_loop :: "memory \<Rightarrow> u32 \<Rightarrow> u8 list \<Rightarrow> nat \<Rightarrow> u32 \<Rightarrow> u32" where
  "findSDT_loop m others name 0 i = 0"
| "findSDT_loop m others name (Suc n) i =
     (let h = load32 m (others + 4 * i) in if iseq m h name then h else findSDT_loop m others name n (i + 1))"

definition findSDT :: "memory \<Rightarrow> u32 \<Rightarrow> u8 list \<Rightarrow> u32" where
  "findSDT m rsdp name =
     (let rsdt = rsd_rootSDT m rsdp;
          others = rsdt + sizeof_SDT;
          entries = (sdt_Length m rsdt - sizeof_SDT) div 4
      in findSDT_loop m others name (unat entries) 0)"

section \<open>The processors\<close>

definition note_entry :: "memory \<Rightarrow> u32 \<Rightarrow> config \<Rightarrow> config outcome" where
  "note_entry m entryPtr c =
     (if entry_type m entryPtr = 0 then
        let apic = apic_entry m entryPtr
        in if processorId apic = 0 then Inr c
           else
             bind_ok (write_at (apicInfo c) (unat (nOtherProcs c)) apic) (\<lambda>info.
               Inr (c\<lparr>apicInfo := info, nOtherProcs := nOtherProcs c + 1\<rparr>))
      else if entry_type m entryPtr = 1 then Inr (c\<lparr>ioAPIC := ioapic_address m entryPtr\<rparr>)
      else Inr c)"

partial_function (option) madt_loop :: "memory \<Rightarrow> u32 \<Rightarrow> u32 \<Rightarrow> config \<Rightarrow> config outcome option" where
  "madt_loop m entryPtr bytesForEntries c =
     (if 0 < sint bytesForEntries then
        let len = ucast (entry_len m entryPtr); entryPtr = entryPtr + len
        in (case note_entry m entryPtr c of
              Inl p \<Rightarrow> Some (Inl p)
            | Inr c \<Rightarrow> madt_loop m entryPtr (bytesForEntries - len) c)
      else Some (Inr c))"

definition configInit :: "memory \<Rightarrow> mem_info \<Rightarrow> config \<Rightarrow> config outcome option" where
  "configInit m mi c =
     (case memAbove1M mi of
        Inl p \<Rightarrow> Some (Inl p)
      | Inr high \<Rightarrow>
          Option.bind (findRSD m) (\<lambda>rsdp.
            let c = c\<lparr>memSize := high + push_bit 20 1\<rparr>;
                c = (if rsdp \<noteq> 0 then c\<lparr>oemid := rsd_OEMID m rsdp @ [0]\<rparr> else c);
                madt = findSDT m rsdp (bytes_of ''APIC'');
                c = c\<lparr>localAPIC := madt_localAddress m madt, madtFlags := madt_flags m madt, nOtherProcs := 0\<rparr>
            in Option.bind (madt_loop m (madt + sizeof_MADT) (sdt_Length m madt - sizeof_MADT) c) (\<lambda>r.
                 Some (bind_ok r (\<lambda>c. Inr (c\<lparr>totalProcs := nOtherProcs c + 1\<rparr>))))))"

section \<open>What the scan finds\<close>

lemma range_search_ends:
  assumes "unat stop + 16 \<le> 2 ^ 32"
  shows "\<exists>r. findRSDInRange m i stop = Some r \<and> (r = 0 \<or> iseq m r (bytes_of ''RSD PTR ''))"
proof (induction "unat stop - unat i" arbitrary: i rule: less_induct)
  case less
  show ?case
  proof (cases "i < stop \<and> \<not> iseq m i (bytes_of ''RSD PTR '')")
    case True
    then have lt: "unat i < unat stop" by (simp add: word_less_nat_alt)
    then have "unat (i + 16) = unat i + 16" using assms by (intro unat_plus_exact [of i 16, simplified]) simp
    then have "unat stop - unat (i + 16) < unat stop - unat i" using lt by linarith
    from less.hyps [OF this] True show ?thesis by (subst findRSDInRange.simps) simp
  next
    case False
    then show ?thesis by (subst findRSDInRange.simps) auto
  qed
qed

lemma findRSD_ends: "\<exists>r. findRSD m = Some r \<and> (r = 0 \<or> iseq m r (bytes_of ''RSD PTR ''))"
proof -
  define base :: u32 where "base = push_bit 4 (ucast (m 0x40E) OR push_bit 8 (ucast (m 0x40F)))"
  have eq: "take_bit 20 base = base"
    unfolding base_def by (rule bit_word_eqI) (auto simp: bit_simps dest: bit_imp_le_length)
  have "unat (take_bit 20 base) < 2 ^ 20" by (simp only: unsigned_take_bit_eq take_bit_nat_less_exp)
  then have lt: "unat base < 2 ^ 20" by (simp only: eq)
  then have "unat (base + 1024) = unat base + 1024" by (subst unat_plus_exact) simp_all
  then have b: "unat (base + 1024) + 16 \<le> 2 ^ 32" using lt by simp
  have "unat (0x00100000 :: u32) + 16 \<le> 2 ^ 32" by simp
  from range_search_ends [OF this, where m = m and i = "0xE0000"] obtain r where
    r: "findRSDInRange m 0xE0000 0x100000 = Some r" "r = 0 \<or> iseq m r (bytes_of ''RSD PTR '')" by auto
  have "(push_bit 10 1 :: u32) = 1024" by simp
  then have "findRSD m = (if r = 0 then findRSDInRange m base (base + 1024) else Some r)"
    unfolding findRSD_def base_def r(1) by (simp only: Option.bind.simps Let_def)
  then show ?thesis using range_search_ends [OF b, where m = m and i = base] r(2) by auto
qed

text \<open>
  A table of entries in memory, each a list of bytes with its length in the second one. The walk steps to
  the end of an entry before it looks: \<open>entry_ends\<close> are the addresses it inspects.
\<close>

definition entries_at :: "memory \<Rightarrow> u32 \<Rightarrow> u8 list list \<Rightarrow> bool" where
  "entries_at m p es \<longleftrightarrow> (\<forall>e \<in> set es. 2 \<le> length e \<and> unat (e ! 1) = length e)
     \<and> (\<forall>i < length (concat es). m (p + of_nat i) = concat es ! i)"

fun entry_ends :: "u32 \<Rightarrow> u8 list list \<Rightarrow> u32 list" where
  "entry_ends p [] = []"
| "entry_ends p (e # es) = (p + of_nat (length e)) # entry_ends (p + of_nat (length e)) es"

definition note_all :: "memory \<Rightarrow> u32 list \<Rightarrow> config outcome \<Rightarrow> config outcome" where
  "note_all m ps r = fold (\<lambda>p r. bind_ok r (note_entry m p)) ps r"

definition other_processor :: "memory \<Rightarrow> u32 \<Rightarrow> bool" where
  "other_processor m p \<longleftrightarrow> entry_type m p = 0 \<and> processorId (apic_entry m p) \<noteq> 0"

lemma entries_tail:
  assumes "entries_at m p (e # es)"
  shows "entries_at m (p + of_nat (length e)) es" "entry_len m p = of_nat (length e)" "length e < 256" "2 \<le> length e"
proof -
  have e: "2 \<le> length e" "unat (e ! 1) = length e" using assms by (auto simp: entries_at_def)
  show "length e < 256" "2 \<le> length e" using e unat_u8_less [of "e ! 1"] by simp_all
  have all: "m (p + of_nat i) = (e @ concat es) ! i" if "i < length e + length (concat es)" for i
    using assms that by (simp add: entries_at_def)
  have "m (p + 1) = e ! 1" using all [of 1] e(1) by (simp add: nth_append)
  then show "entry_len m p = of_nat (length e)"     using arg_cong [OF e(2), of "of_nat :: nat \<Rightarrow> u8"] by (simp add: entry_len_def)
  have "m (p + of_nat (length e) + of_nat i) = concat es ! i" if "i < length (concat es)" for i
  proof -
    have "m (p + of_nat (length e + i)) = (e @ concat es) ! (length e + i)" using that by (intro all) simp
    then show ?thesis by (simp add: nth_append add.assoc)
  qed
  then show "entries_at m (p + of_nat (length e)) es" using assms by (simp add: entries_at_def)
qed

lemma note_all_halt: "note_all m ps (Inl x) = Inl x"
  by (induction ps) (simp_all add: note_all_def)

lemma note_all_Cons: "note_all m (p # ps) (Inr c) = note_all m ps (note_entry m p c)"
  by (simp add: note_all_def)

lemma madt_loop_spec:
  "entries_at m p es \<Longrightarrow> length (concat es) < 2 ^ 31 \<Longrightarrow>
     madt_loop m p (of_nat (length (concat es))) c = Some (note_all m (entry_ends p es) (Inr c))"
proof (induction es arbitrary: p c)
  case Nil
  then show ?case by (subst madt_loop.simps) (simp add: note_all_def)
next
  case (Cons e es)
  let ?n = "length (concat (e # es))"
  note tail = entries_tail [OF Cons.prems(1)]
  have "unat (of_nat ?n :: u32) = ?n" using Cons.prems(2) by (intro unat_of_nat_exact) simp
  then have "sint (of_nat ?n :: u32) = int ?n"
    using Cons.prems(2) sint_small [of "of_nat ?n :: u32"] by (simp only: len_num0 len_num1 len_bit0) simp
  moreover have "0 < int ?n" using tail(4) by simp
  moreover have len: "ucast (entry_len m p) = (of_nat (length e) :: u32)"
    using tail(2,3) by (simp add: word_unat_eq_iff unat_of_nat unsigned_ucast_eq take_bit_nat_eq_self)
  moreover have "(of_nat ?n :: u32) - of_nat (length e) = of_nat (length (concat es))" by simp
  ultimately have "madt_loop m p (of_nat ?n) c =
      (case note_entry m (p + of_nat (length e)) c of Inl x \<Rightarrow> Some (Inl x)
       | Inr c \<Rightarrow> madt_loop m (p + of_nat (length e)) (of_nat (length (concat es))) c)"
    by (subst madt_loop.simps) (simp only: Let_def len if_True)
  also have "\<dots> = Some (note_all m (entry_ends p (e # es)) (Inr c))"
    using Cons.IH [OF tail(1)] Cons.prems(2) by (simp add: note_all_Cons note_all_halt split: sum.split)
  finally show ?case .
qed

lemma note_all_counts:
  assumes "length (apicInfo c) = MAX_PROCS" "unat (nOtherProcs c) + length (filter (other_processor m) ps) \<le> MAX_PROCS"
  shows "\<exists>c'. note_all m ps (Inr c) = Inr c' \<and> length (apicInfo c') = MAX_PROCS
    \<and> unat (nOtherProcs c') = unat (nOtherProcs c) + length (filter (other_processor m) ps)
    \<and> take (unat (nOtherProcs c')) (apicInfo c') = take (unat (nOtherProcs c)) (apicInfo c) @ map (apic_entry m) (filter (other_processor m) ps)"
  using assms
proof (induction ps arbitrary: c)
  case Nil
  then show ?case by (simp add: note_all_def)
next
  case (Cons p ps)
  let ?n = "unat (nOtherProcs c)"
  show ?case
  proof (cases "other_processor m p")
    case True
    then have lt: "?n < MAX_PROCS" using Cons.prems(2) by simp
    let ?c = "c\<lparr>apicInfo := (apicInfo c)[?n := apic_entry m p], nOtherProcs := nOtherProcs c + 1\<rparr>"
    have one: "note_entry m p c = Inr ?c"
      using True lt Cons.prems(1) by (simp add: note_entry_def other_processor_def Let_def)
    have n: "unat (nOtherProcs c + 1) = ?n + 1"
      using lt by (subst unat_plus_exact) (simp_all add: MAX_PROCS_def)
    have "take (?n + 1) ((apicInfo c)[?n := apic_entry m p]) = take ?n (apicInfo c) @ [apic_entry m p]"
      using lt Cons.prems(1) by (simp add: take_Suc_conv_app_nth)
    with Cons.IH [of ?c] Cons.prems n True show ?thesis by (simp add: note_all_Cons one)
  next
    case False
    then have "\<exists>x. note_entry m p c = Inr (c\<lparr>ioAPIC := x\<rparr>)"
    proof -
      have "c = c\<lparr>ioAPIC := ioAPIC c\<rparr>" by simp
      then show ?thesis using False unfolding note_entry_def other_processor_def Let_def by metis
    qed
    then obtain x where "note_entry m p c = Inr (c\<lparr>ioAPIC := x\<rparr>)" by blast
    then show ?thesis using Cons.IH [of "c\<lparr>ioAPIC := x\<rparr>"] Cons.prems False by (simp add: note_all_Cons)
  qed
qed

text \<open>
  C22. The scan of the interrupt controller table ends, and finds the processors: over a table of entries of
  at most \<open>2\<^sup>3\<^sup>1 - 1\<close> bytes it inspects the end of each entry, that is every entry but the first, and the
  bytes behind the table. If at most 16 of these describe another processor, no access lies outside the
  array, and the array holds exactly those processors, in order, and their number.
\<close>

theorem madt_scan:
  assumes "entries_at m p es" "length (concat es) < 2 ^ 31" "length (apicInfo c) = MAX_PROCS" "nOtherProcs c = 0"
    and "length (filter (other_processor m) (entry_ends p es)) \<le> MAX_PROCS"
  shows "\<exists>c'. madt_loop m p (of_nat (length (concat es))) c = Some (Inr c')
    \<and> unat (nOtherProcs c') = length (filter (other_processor m) (entry_ends p es))
    \<and> take (unat (nOtherProcs c')) (apicInfo c') = map (apic_entry m) (filter (other_processor m) (entry_ends p es))"
  using madt_loop_spec [OF assms(1,2), of c] note_all_counts [of c m "entry_ends p es"] assms(3-5) by auto

definition two_entries :: "u8 list list" where
  "two_entries = [[0, 8, 0, 0, 1, 0, 0, 0], [0, 8, 1, 5, 1, 0, 0, 0]]"

definition two_cpus :: memory where
  "two_cpus a = (if unat a < 16 then concat two_entries ! unat a else 0)"

definition no_config :: config where
  "no_config = \<lparr>memSize = 0, nOtherProcs = 0, totalProcs = 0, localAPIC = 0, madtFlags = 0, ioAPIC = 0,
     apicInfo = replicate MAX_PROCS \<lparr>processorId = 0, apicId = 0, apic_flags = 0\<rparr>, oemid = replicate 7 0\<rparr>"

lemma two_cpus_table: "entries_at two_cpus 0 two_entries"
  unfolding entries_at_def
proof (intro conjI allI impI)
  show "\<forall>e \<in> set two_entries. 2 \<le> length e \<and> unat (e ! 1) = length e" by (simp add: two_entries_def)
  fix i assume "i < length (concat two_entries)"
  then have "i < 16" by (simp add: two_entries_def)
  then have "unat (of_nat i :: u32) = i" by (intro unat_of_nat_exact) simp
  then show "two_cpus (0 + of_nat i) = concat two_entries ! i" using \<open>i < 16\<close> by (simp add: two_cpus_def)
qed

theorem madt_scan_witness:
  "\<exists>c'. madt_loop two_cpus 0 (of_nat (length (concat two_entries))) no_config = Some (Inr c')
    \<and> unat (nOtherProcs c') = 1 \<and> take 1 (apicInfo c') = [\<lparr>processorId = 1, apicId = 5, apic_flags = 1\<rparr>]"
proof -
  have f: "filter (other_processor two_cpus) (entry_ends 0 two_entries) = [8]"
    by (simp add: two_entries_def two_cpus_def other_processor_def entry_type_def apic_entry_def)
  have a: "apic_entry two_cpus 8 = \<lparr>processorId = 1, apicId = 5, apic_flags = 1\<rparr>"
    by (simp add: two_entries_def two_cpus_def apic_entry_def load32_def)
  show ?thesis using madt_scan [OF two_cpus_table, of no_config] f a
    by (auto simp: two_entries_def no_config_def MAX_PROCS_def)
qed

end
