(* ===== verification/Cow.thy ===== *)
theory Cow
  imports Physical_Memory
begin

text \<open>
  Copy on write, \<^verbatim>\<open>kernel/cow.h\<close> and \<^verbatim>\<open>kernel/cow.cc\<close>. Page directories and page tables are frames of
  1024 entries in physical memory. The counter of a frame counts the read-only entries that refer to it;
  a writable entry is the only one of its frame. The operations run one after the other: a loop that waits
  for the lock of a page to become free does not end if it is taken.
\<close>

section \<open>Entries\<close>

record vm =
  vm_phys :: phys
  ref_counts :: "u32 list"
  page_locks :: "u8 list"

definition FLAG_PR :: u32 where "FLAG_PR = push_bit 0 1"
definition FLAG_RW :: u32 where "FLAG_RW = push_bit 1 1"
definition PG_NUM_MASK :: u32 where "PG_NUM_MASK = 0xFFFFFFFF div FRAME_SIZE * FRAME_SIZE"
definition FLAGS_MASK :: u32 where "FLAGS_MASK = NOT PG_NUM_MASK"
definition pointers_per_frame :: u32 where "pointers_per_frame = FRAME_SIZE div 4"

abbreviation vm_mem :: "vm \<Rightarrow> memory" where "vm_mem vm \<equiv> pm_mem (vm_phys vm)"

definition peek :: "vm \<Rightarrow> u32 \<Rightarrow> u32" where
  "peek vm a = load32 (vm_mem vm) a"

definition poke :: "u32 \<Rightarrow> u32 \<Rightarrow> vm \<Rightarrow> vm" where
  "poke a v vm = vm\<lparr>vm_phys := (vm_phys vm)\<lparr>pm_mem := store32 a v (vm_mem vm)\<rparr>\<rparr>"

definition vm_alloc :: "vm \<Rightarrow> (u32 \<times> vm) outcome" where
  "vm_alloc vm = bind_ok (alloc_frame (vm_phys vm)) (\<lambda>(p, s). Inr (p, vm\<lparr>vm_phys := s\<rparr>))"

definition vm_dealloc :: "u32 \<Rightarrow> vm \<Rightarrow> vm outcome" where
  "vm_dealloc p vm = bind_ok (dealloc_frame p (vm_phys vm)) (\<lambda>s. Inr (vm\<lparr>vm_phys := s\<rparr>))"

definition vm_memcpy :: "u32 \<Rightarrow> u32 \<Rightarrow> u32 \<Rightarrow> vm \<Rightarrow> vm" where
  "vm_memcpy d s n vm = vm\<lparr>vm_phys := (vm_phys vm)\<lparr>pm_mem := memcpy d s n (vm_mem vm)\<rparr>\<rparr>"

section \<open>Counters and locks\<close>

definition cow_init :: "u32 \<Rightarrow> vm \<Rightarrow> vm" where
  "cow_init memSize vm =
     vm\<lparr>ref_counts := replicate (unat (memSize div FRAME_SIZE)) 0, page_locks := replicate (unat (memSize div FRAME_SIZE)) 0\<rparr>"

definition add_ref_count :: "u32 \<Rightarrow> u32 \<Rightarrow> vm \<Rightarrow> (u32 \<times> vm) outcome" where
  "add_ref_count page_number inc vm =
     bind_ok (read_at (ref_counts vm) (unat page_number)) (\<lambda>c.
     bind_ok (write_at (ref_counts vm) (unat page_number) (c + inc)) (\<lambda>cs. Inr (c + inc, vm\<lparr>ref_counts := cs\<rparr>)))"

definition add_page_lock :: "u32 \<Rightarrow> u8 \<Rightarrow> vm \<Rightarrow> vm outcome" where
  "add_page_lock page_number inc vm =
     bind_ok (read_at (page_locks vm) (unat page_number)) (\<lambda>c.
     bind_ok (write_at (page_locks vm) (unat page_number) (c + inc)) (\<lambda>cs. Inr (vm\<lparr>page_locks := cs\<rparr>)))"

definition wait_page_lock :: "u32 \<Rightarrow> vm \<Rightarrow> unit outcome" where
  "wait_page_lock page_number vm =
     bind_ok (read_at (page_locks vm) (unat page_number)) (\<lambda>c. if c > 0 then Inl Spin else Inr ())"

section \<open>Operations\<close>

text \<open>
  \<open>cow_ref\<close> is the call that takes another reference to an entry, \<open>cow_ref_only\<close> the call with
  \<^verbatim>\<open>ref_only\<close>, which only counts.
\<close>

definition cow_ref :: "u32 \<Rightarrow> vm \<Rightarrow> (u32 \<times> vm) outcome" where
  "cow_ref entry vm =
     (if peek vm entry AND FLAG_PR = 0 then Inr (0, vm)
      else
        let page_number = peek vm entry div FRAME_SIZE
        in bind_ok
             (if peek vm entry AND FLAG_RW > 0 then bind_ok (add_ref_count page_number 1 vm) (\<lambda>(_, vm). Inr vm)
              else Inr vm) (\<lambda>vm.
           let vm = poke entry (peek vm entry AND NOT FLAG_RW) vm
           in bind_ok (add_ref_count page_number 1 vm) (\<lambda>(_, vm). Inr (peek vm entry, vm))))"

definition cow_ref_only :: "u32 \<Rightarrow> vm \<Rightarrow> (u32 \<times> vm) outcome" where
  "cow_ref_only entry vm = bind_ok (add_ref_count (entry div FRAME_SIZE) 1 vm) (\<lambda>(_, vm). Inr (entry, vm))"

text \<open>\<^verbatim>\<open>for (uint32_t i = 0; i < pointers_per_frame; i++) new_data[i] = ref(current_data + i);\<close> with \<open>n\<close> rounds left.\<close>

fun ref_loop :: "u32 \<Rightarrow> u32 \<Rightarrow> nat \<Rightarrow> nat \<Rightarrow> vm \<Rightarrow> vm outcome" where
  "ref_loop new_data current_data 0 i vm = Inr vm"
| "ref_loop new_data current_data (Suc n) i vm =
     bind_ok (cow_ref (current_data + 4 * of_nat i) vm) (\<lambda>(e, vm).
       ref_loop new_data current_data n (Suc i) (poke (new_data + 4 * of_nat i) e vm))"

definition cow_copy :: "u32 \<Rightarrow> bool \<Rightarrow> vm \<Rightarrow> vm outcome" where
  "cow_copy entry is_page_table vm =
     (if peek vm entry AND FLAG_PR = 0 \<or> peek vm entry AND FLAG_RW > 0 then Inr vm
      else
        let page_number = peek vm entry div FRAME_SIZE
        in bind_ok (add_page_lock page_number 1 vm) (\<lambda>vm.
           bind_ok (add_ref_count page_number (- 1) vm) (\<lambda>(c, vm).
             if c = 0 then
               bind_ok (add_page_lock page_number (- 1) vm) (\<lambda>vm.
               bind_ok (wait_page_lock page_number vm) (\<lambda>_.
                 Inr (poke entry (peek vm entry OR FLAG_RW) vm)))
             else
               bind_ok (vm_alloc vm) (\<lambda>(new_frame, vm).
               let current_data = peek vm entry AND PG_NUM_MASK
               in bind_ok (if is_page_table then ref_loop new_frame current_data (unat pointers_per_frame) 0 vm
                           else Inr (vm_memcpy new_frame current_data FRAME_SIZE vm)) (\<lambda>vm.
                  bind_ok (add_page_lock page_number (- 1) vm) (\<lambda>vm.
                    Inr (poke entry (new_frame OR (peek vm entry AND FLAGS_MASK) OR FLAG_RW) vm)))))))"

text \<open>The release of an entry, given what is done with the entries of a page table that dies with it.\<close>

definition unref_with :: "(u32 \<Rightarrow> vm \<Rightarrow> vm outcome) \<Rightarrow> u32 \<Rightarrow> vm \<Rightarrow> vm outcome" where
  "unref_with release_entries entry vm =
     (if peek vm entry AND FLAG_PR = 0 then Inr vm
      else
        let page_number = peek vm entry div FRAME_SIZE
        in bind_ok (wait_page_lock page_number vm) (\<lambda>_.
           bind_ok
             (if peek vm entry AND FLAG_RW > 0 then Inr (True, vm)
              else bind_ok (add_ref_count page_number (- 1) vm) (\<lambda>(c, vm). Inr (c = 0, vm))) (\<lambda>(last, vm).
           bind_ok
             (if last then
                let address = peek vm entry AND PG_NUM_MASK
                in bind_ok (release_entries address vm) (vm_dealloc address)
              else Inr vm) (\<lambda>vm.
             Inr (poke entry 0 vm)))))"

definition cow_unref_page :: "u32 \<Rightarrow> vm \<Rightarrow> vm outcome" where
  "cow_unref_page = unref_with (\<lambda>_ vm. Inr vm)"

fun unref_loop :: "u32 \<Rightarrow> nat \<Rightarrow> nat \<Rightarrow> vm \<Rightarrow> vm outcome" where
  "unref_loop table 0 i vm = Inr vm"
| "unref_loop table (Suc n) i vm = bind_ok (cow_unref_page (table + 4 * of_nat i) vm) (unref_loop table n (Suc i))"

definition cow_unref :: "u32 \<Rightarrow> bool \<Rightarrow> vm \<Rightarrow> vm outcome" where
  "cow_unref entry is_page_table =
     (if is_page_table then unref_with (\<lambda>table. unref_loop table (unat pointers_per_frame) 0) entry
      else cow_unref_page entry)"

section \<open>Entries as cells\<close>

definition cell :: "u32 \<times> nat \<Rightarrow> u32" where
  "cell c = fst c + 4 * of_nat (snd c)"

definition ent :: "vm \<Rightarrow> u32 \<times> nat \<Rightarrow> u32" where
  "ent vm c = peek vm (cell c)"

definition is_cell :: "u32 \<times> nat \<Rightarrow> bool" where
  "is_cell c \<longleftrightarrow> offset (fst c) = 0 \<and> snd c < 1024"

definition present :: "u32 \<Rightarrow> bool" where "present e \<longleftrightarrow> e AND FLAG_PR \<noteq> 0"
definition writable :: "u32 \<Rightarrow> bool" where "writable e \<longleftrightarrow> e AND FLAG_RW \<noteq> 0"
definition frame_of :: "u32 \<Rightarrow> u32" where "frame_of e = e AND PG_NUM_MASK"

lemma mask_values: "PG_NUM_MASK = NOT (mask 12)" "FLAGS_MASK = mask 12" "pointers_per_frame = 1024"
  by (simp_all add: PG_NUM_MASK_def FLAGS_MASK_def pointers_per_frame_def FRAME_SIZE_def mask_eq_exp_minus_1)

lemma present_bit: "present e \<longleftrightarrow> bit e 0"
  using and_exp_word [of e 0] by (simp add: present_def FLAG_PR_def)

lemma writable_bit: "writable e \<longleftrightarrow> bit e 1"
  using and_exp_word [of e 1] by (simp add: writable_def FLAG_RW_def)

lemma offset_bits: "offset p = 0 \<longleftrightarrow> (\<forall>n < 12. \<not> bit p n)"
proof -
  have o: "offset p = take_bit 12 p" by (simp add: offset_def take_bit_eq_mask mask_eq_exp_minus_1)
  have "(take_bit 12 p = 0) \<longleftrightarrow> (\<forall>n < 12. \<not> bit p n)"
  proof
    assume z: "take_bit 12 p = 0"
    have "bit (take_bit 12 p) n = (n < 12 \<and> bit p n)" for n by (simp add: bit_take_bit_iff)
    then show "\<forall>n < 12. \<not> bit p n" unfolding z by simp
  next
    assume "\<forall>n < 12. \<not> bit p n"
    then show "take_bit 12 p = 0" by (intro bit_word_eqI) (auto simp: bit_take_bit_iff)
  qed
  then show ?thesis by (simp only: o)
qed

lemma bit_frame_of: "bit (frame_of e) n \<longleftrightarrow> 12 \<le> n \<and> bit e n"
  by (cases "n < 32") (auto simp: frame_of_def mask_values bit_simps dest: bit_imp_le_length)

lemma frame_of_aligned [simp]: "offset (frame_of e) = 0"
  by (simp add: offset_bits bit_frame_of)

lemma frame_of_frame: "offset f = 0 \<Longrightarrow> frame_of f = f"
  by (rule bit_word_eqI) (use not_less in \<open>auto simp: bit_frame_of offset_bits\<close>)

lemma frame_of_unat: "unat (frame_of e) = 4096 * (unat e div 4096)"
proof -
  have "frame_of e = push_bit 12 (drop_bit 12 e)"
    by (rule bit_word_eqI) (auto simp: bit_frame_of bit_simps)
  then have w: "frame_of e = 4096 * drop_bit 12 e" by (simp add: push_bit_eq_mult mult.commute)
  have d: "unat (drop_bit 12 e) = unat e div 4096"
    by (simp add: unat_drop_bit_eq drop_bit_eq_div unat_div_distrib)
  have "4096 * (unat e div 4096) < 4294967296" using unat_u32_less [of e] by linarith
  then show ?thesis unfolding w using d by (subst unat_times_exact) simp_all
qed

definition page_of :: "u32 \<Rightarrow> nat" where
  "page_of p = unat p div 4096"

lemma page_of_frame [simp]: "page_of (frame_of e) = unat (e div FRAME_SIZE)"
  by (simp add: page_of_def frame_of_unat unat_div_distrib)

lemma page_of_inject: "offset p = 0 \<Longrightarrow> offset q = 0 \<Longrightarrow> page_of p = page_of q \<longleftrightarrow> p = q"
  by (metis page_of_def frame_number nonzero_mult_div_cancel_left word_unat_eq_iff zero_neq_numeral)

lemma read_only_entry [simp]:
  "present (e AND NOT FLAG_RW) = present e" "\<not> writable (e AND NOT FLAG_RW)" "frame_of (e AND NOT FLAG_RW) = frame_of e"
  by (auto simp: present_bit writable_bit FLAG_RW_def bit_simps bit_frame_of intro!: bit_word_eqI)

lemma read_write_entry [simp]:
  "present (e OR FLAG_RW) = present e" "writable (e OR FLAG_RW)" "frame_of (e OR FLAG_RW) = frame_of e"
  by (auto simp: present_bit writable_bit FLAG_RW_def bit_simps bit_frame_of intro!: bit_word_eqI)

lemma new_entry:
  assumes "offset f = 0"
  shows "present (f OR (e AND FLAGS_MASK) OR FLAG_RW) = present e" "writable (f OR (e AND FLAGS_MASK) OR FLAG_RW)"
    "frame_of (f OR (e AND FLAGS_MASK) OR FLAG_RW) = f"
proof -
  have f: "bit f n \<Longrightarrow> 12 \<le> n" for n using assms by (meson offset_bits not_le)
  show "present (f OR (e AND FLAGS_MASK) OR FLAG_RW) = present e" "writable (f OR (e AND FLAGS_MASK) OR FLAG_RW)"
    using f [of 0] by (auto simp: present_bit writable_bit FLAG_RW_def mask_values bit_simps)
  show "frame_of (f OR (e AND FLAGS_MASK) OR FLAG_RW) = f"
    using f by (intro bit_word_eqI) (auto simp: bit_frame_of FLAG_RW_def mask_values bit_simps)
qed

lemma entry_zero [simp]: "\<not> present 0"
  by (simp add: present_def)

lemma cell_unat:
  assumes "is_cell c"
  shows "unat (cell c) = unat (fst c) + 4 * snd c"
proof -
  have "unat (of_nat (snd c) :: u32) = snd c" using assms by (intro unat_of_nat_exact) (simp add: is_cell_def)
  moreover have "unat (4 * of_nat (snd c) :: u32) = 4 * unat (of_nat (snd c) :: u32)"
    using calculation assms by (subst unat_times_exact) (simp_all add: is_cell_def)
  ultimately show ?thesis using frame_room [of "fst c"] assms
    unfolding cell_def by (subst unat_plus_exact) (simp_all add: is_cell_def)
qed

lemma cell_aligned: "is_cell c \<Longrightarrow> word_aligned (cell c)"
  using cell_unat [of c] frame_word_aligned [of "fst c"] by (simp add: word_aligned_def is_cell_def)

lemma cell_in_frame: "is_cell c \<Longrightarrow> unat (cell c) \<le> unat a \<Longrightarrow> unat a < unat (cell c) + 4 \<Longrightarrow> in_frame (fst c) a"
  using cell_unat [of c] by (simp add: in_frame_def is_cell_def)

lemma cell_inject:
  assumes "is_cell c" "is_cell c'" "cell c = cell c'"
  shows "c = c'"
proof -
  have e: "unat (fst c) + 4 * snd c = unat (fst c') + 4 * snd c'" using cell_unat assms by metis
  obtain k k' where k: "unat (fst c) = 4096 * k" "unat (fst c') = 4096 * k'"
    using frame_number assms(1,2) unfolding is_cell_def by meson
  have "snd c < 1024" "snd c' < 1024" using assms(1,2) by (simp_all add: is_cell_def)
  then have kk: "k = k'" using e unfolding k by linarith
  then have i: "snd c = snd c'" using e unfolding k by linarith
  have "unat (fst c) = unat (fst c')" unfolding k kk ..
  then have "fst c = fst c'" by (rule word_unat_eq_iff [THEN iffD2])
  then show ?thesis using i by (rule prod_eqI)
qed

lemma peek_poke:
  assumes "is_cell c" "is_cell c'"
  shows "ent (poke (cell c) v vm) c' = (if c' = c then v else ent vm c')"
proof (cases "c' = c")
  case False
  then have "cell c \<noteq> cell c'" using cell_inject [OF assms] by auto
  then show ?thesis using False load_store_other [OF cell_aligned [OF assms(1)] cell_aligned [OF assms(2)]]
    by (simp add: ent_def peek_def poke_def)
qed (simp add: ent_def peek_def poke_def)

lemma poke_elsewhere:
  assumes "is_cell c" "\<not> in_frame (fst c) a"
  shows "vm_mem (poke (cell c) v vm) a = vm_mem vm a"
  using store_elsewhere [OF cell_aligned [OF assms(1)], of a v] cell_in_frame [OF assms(1), of a] assms(2)
  by (auto simp: poke_def)

lemma ent_cong:
  assumes "is_cell c" "\<And>a. in_frame (fst c) a \<Longrightarrow> vm_mem vm a = vm_mem vm' a"
  shows "ent vm c = ent vm' c"
  unfolding ent_def peek_def by (rule load_cong [OF cell_aligned [OF assms(1)]]) (use assms cell_in_frame in blast)

section \<open>Accounts of references\<close>

text \<open>
  The entries \<open>e\<close> of a set \<open>C\<close> of cells and the counters \<open>n\<close> of the frames: a counter is the number of
  read-only entries plus the references that are not entries, and a writable entry is alone.
\<close>

definition refs :: "('c \<Rightarrow> u32) \<Rightarrow> 'c set \<Rightarrow> u32 \<Rightarrow> 'c set" where
  "refs e C p = {c \<in> C. present (e c) \<and> frame_of (e c) = p}"

definition ro_refs :: "('c \<Rightarrow> u32) \<Rightarrow> 'c set \<Rightarrow> u32 \<Rightarrow> 'c set" where
  "ro_refs e C p = {c \<in> refs e C p. \<not> writable (e c)}"

definition accounted :: "(u32 \<Rightarrow> nat) \<Rightarrow> 'c set \<Rightarrow> ('c \<Rightarrow> u32) \<Rightarrow> (u32 \<Rightarrow> nat) \<Rightarrow> bool" where
  "accounted ext C e n \<longleftrightarrow> (\<forall>p. n p = card (ro_refs e C p) + ext p
     \<and> (\<forall>c \<in> refs e C p. writable (e c) \<longrightarrow> refs e C p = {c} \<and> ext p = 0))"

lemma refs_cong: "(\<And>c. c \<in> C \<Longrightarrow> e c = e' c) \<Longrightarrow> refs e C p = refs e' C p \<and> ro_refs e C p = ro_refs e' C p"
  by (auto simp: refs_def ro_refs_def)

lemma accounted_cong:
  assumes "\<And>c. c \<in> C \<Longrightarrow> e c = e' c"
  shows "accounted ext C e n = accounted ext C e' n"
proof -
  have "writable (e c) = writable (e' c)" if "c \<in> refs e' C p" for c p using that assms by (auto simp: refs_def)
  moreover have "refs e C p = refs e' C p" "ro_refs e C p = ro_refs e' C p" for p
    using refs_cong [of C e e' p, OF assms] by simp_all
  ultimately show ?thesis unfolding accounted_def by simp
qed

lemma accountedD:
  assumes "accounted ext C e n"
  shows "n p = card (ro_refs e C p) + ext p" "c \<in> refs e C p \<Longrightarrow> writable (e c) \<Longrightarrow> refs e C p = {c} \<and> ext p = 0"
  using assms by (auto simp: accounted_def)

lemma refs_drop: "refs e (C - {c}) p = refs e C p - {c}" "ro_refs e (C - {c}) p = ro_refs e C p - {c}"
  by (auto simp: refs_def ro_refs_def)

lemma drop_writable:
  assumes "accounted ext C e n" "c \<in> C" "present (e c)" "writable (e c)"
  shows "accounted ext (C - {c}) e n" "refs e (C - {c}) (frame_of (e c)) = {}" "n (frame_of (e c)) = 0"
proof -
  let ?p = "frame_of (e c)"
  have c: "c \<in> refs e C ?p" using assms by (simp add: refs_def)
  note one = accountedD(2) [OF assms(1) c assms(4)]
  have ro: "ro_refs e C p - {c} = ro_refs e C p" for p using assms(4) by (auto simp: ro_refs_def)
  show "accounted ext (C - {c}) e n"
    using assms(1) unfolding accounted_def refs_drop ro by blast
  show "refs e (C - {c}) ?p = {}" using one by (simp add: refs_drop)
  have "ro_refs e C ?p = {}" using one assms(4) by (auto simp: ro_refs_def)
  then show "n ?p = 0" using accountedD(1) [OF assms(1), of ?p] one by simp
qed

lemma drop_read_only:
  assumes "accounted ext C e n" "finite C" "c \<in> C" "present (e c)" "\<not> writable (e c)"
  shows "accounted ext (C - {c}) e (n(frame_of (e c) := n (frame_of (e c)) - 1))" "0 < n (frame_of (e c))"
    "n (frame_of (e c)) = 1 \<Longrightarrow> refs e (C - {c}) (frame_of (e c)) = {} \<and> ext (frame_of (e c)) = 0"
    "\<forall>c' \<in> refs e C (frame_of (e c)). \<not> writable (e c')"
proof -
  let ?p = "frame_of (e c)"
  have c: "c \<in> ro_refs e C ?p" using assms by (simp add: ro_refs_def refs_def)
  have fin: "finite (ro_refs e C p)" for p using assms(2) by (simp add: ro_refs_def refs_def)
  have n: "n ?p = Suc (card (ro_refs e C ?p - {c})) + ext ?p"
    using accountedD(1) [OF assms(1), of ?p] card_Suc_Diff1 [OF fin c] by simp
  show all: "\<forall>c' \<in> refs e C ?p. \<not> writable (e c')"
  proof (intro ballI notI)
    fix c' assume "c' \<in> refs e C ?p" "writable (e c')"
    then have "refs e C ?p = {c'}" using accountedD(2) [OF assms(1)] by blast
    then show False using c assms(5) \<open>writable (e c')\<close> by (auto simp: ro_refs_def)
  qed
  have other: "c \<notin> refs e C q" if "q \<noteq> ?p" for q using that by (simp add: refs_def)
  show "accounted ext (C - {c}) e (n(?p := n ?p - 1))"
    unfolding accounted_def
  proof (intro allI conjI ballI impI)
    fix q
    show "(n(?p := n ?p - 1)) q = card (ro_refs e (C - {c}) q) + ext q"
    proof (cases "q = ?p")
      case True
      then show ?thesis using n by (simp add: refs_drop)
    next
      case False
      then have "ro_refs e C q - {c} = ro_refs e C q" using other [of q] by (auto simp: ro_refs_def)
      then show ?thesis using False accountedD(1) [OF assms(1), of q] by (simp add: refs_drop)
    qed
    fix c' assume c': "c' \<in> refs e (C - {c}) q" "writable (e c')"
    then have "c' \<in> refs e C q" by (simp add: refs_drop)
    then have "refs e C q = {c'} \<and> ext q = 0" using accountedD(2) [OF assms(1)] c'(2) by blast
    then show "refs e (C - {c}) q = {c'}" "ext q = 0" using c'(1) by (auto simp: refs_drop)
  qed
  show "0 < n ?p" using n by simp
  assume "n ?p = 1"
  then have "ro_refs e C ?p - {c} = {}" "ext ?p = 0" using n fin [of ?p] by auto
  moreover have "refs e C ?p = ro_refs e C ?p" using all by (auto simp: ro_refs_def)
  ultimately show "refs e (C - {c}) ?p = {} \<and> ext ?p = 0" by (simp add: refs_drop)
qed

lemma add_absent:
  assumes "accounted ext C e n" "c \<notin> C" "\<not> present (e c)"
  shows "accounted ext (insert c C) e n"
proof -
  have "refs e (insert c C) p = refs e C p" "ro_refs e (insert c C) p = ro_refs e C p" for p
    using assms(3) by (auto simp: refs_def ro_refs_def)
  then show ?thesis using assms(1) by (simp add: accounted_def)
qed

lemma drop_absent:
  assumes "accounted ext C e n" "\<not> present (e c)"
  shows "accounted ext (C - {c}) e n"
proof -
  have "refs e (C - {c}) p = refs e C p" "ro_refs e (C - {c}) p = ro_refs e C p" for p
    using assms(2) by (auto simp: refs_def ro_refs_def)
  then show ?thesis using assms(1) by (simp add: accounted_def)
qed

lemma refs_add:
  assumes "present (e c)"
  shows "refs e (insert c C) p = (if p = frame_of (e c) then insert c (refs e C p) else refs e C p)"
  using assms by (auto simp: refs_def)

lemma add_writable:
  assumes "accounted ext C e n" "c \<notin> C" "present (e c)" "writable (e c)"
    and "refs e C (frame_of (e c)) = {}" "ext (frame_of (e c)) = 0"
  shows "accounted ext (insert c C) e n"
proof -
  let ?p = "frame_of (e c)"
  have ro: "ro_refs e (insert c C) p = ro_refs e C p" for p
    using assms(4) by (auto simp: ro_refs_def refs_def)
  show ?thesis unfolding accounted_def ro
  proof (intro allI conjI ballI impI)
    fix q
    show "n q = card (ro_refs e C q) + ext q" using accountedD(1) [OF assms(1)] .
    fix c' assume c': "c' \<in> refs e (insert c C) q" "writable (e c')"
    show "refs e (insert c C) q = {c'}" "ext q = 0"
      using c' assms(5,6) accountedD(2) [OF assms(1), of c' q] by (auto simp: refs_add [of e c, OF assms(3)] split: if_splits)
  qed
qed

lemma add_read_only:
  assumes "accounted ext C e n" "finite C" "c \<notin> C" "present (e c)" "\<not> writable (e c)"
    and "\<forall>c' \<in> refs e C (frame_of (e c)). \<not> writable (e c')"
  shows "accounted ext (insert c C) e (n(frame_of (e c) := n (frame_of (e c)) + 1))"
proof -
  let ?p = "frame_of (e c)"
  have ro: "ro_refs e (insert c C) q = (if q = ?p then insert c (ro_refs e C q) else ro_refs e C q)" for q
    using assms(5) by (auto simp: ro_refs_def refs_add [of e c C q, OF assms(4)])
  have fin: "finite (ro_refs e C q)" and new: "c \<notin> ro_refs e C q" for q
    using assms(2,3) by (auto simp: ro_refs_def refs_def)
  show ?thesis unfolding accounted_def
  proof (intro allI conjI ballI impI)
    fix q
    show "(n(?p := n ?p + 1)) q = card (ro_refs e (insert c C) q) + ext q"
      using accountedD(1) [OF assms(1), of q] by (auto simp: ro card_insert_disjoint [OF fin new])
    fix c' assume c': "c' \<in> refs e (insert c C) q" "writable (e c')"
    have "q \<noteq> ?p" using c' assms(5,6) by (auto simp: refs_add [of e c, OF assms(4)])
    then show "refs e (insert c C) q = {c'}" "ext q = 0"
      using c' accountedD(2) [OF assms(1), of c' q] by (auto simp: refs_add [of e c, OF assms(4)])
  qed
qed

text \<open>A reference that is not an entry yet becomes one.\<close>

lemma ext_entry:
  assumes "accounted ext C e n" "0 < ext p"
  shows "accounted (ext(p := ext p - 1)) C e (n(p := n p - 1))" "\<forall>c \<in> refs e C p. \<not> writable (e c)"
  using assms unfolding accounted_def by auto

lemma cell_update:
  assumes "accounted ext (C - {c}) e n" "c \<in> C"
  shows "accounted ext (C - {c}) (e(c := v)) n" "refs (e(c := v)) (C - {c}) p = refs e (C - {c}) p"
  using accounted_cong [of "C - {c}" "e(c := v)" e] refs_cong [of "C - {c}" "e(c := v)" e] assms by auto

text \<open>One more reference to the frame of a present entry, in a cell that was empty.\<close>

lemma share_entry:
  assumes "accounted ext C e n" "finite C" "c \<in> C" "c' \<in> C" "c \<noteq> c'" "present (e c)" "\<not> present (e c')"
    and v: "v = e c AND NOT FLAG_RW" and p: "p = frame_of (e c)"
  shows "accounted ext C (e(c := v, c' := v)) (n(p := n p + (if writable (e c) then 2 else 1)))"
proof -
  let ?C = "C - {c}" and ?e = "e(c := v)"
  have vv: "present v" "\<not> writable v" "frame_of v = p" using assms(6) by (simp_all add: v p)
  define k where "k = (if writable (e c) then n p else n p - 1)"
  have k: "accounted ext ?C ?e (n(p := k))" "\<forall>d \<in> refs ?e ?C p. \<not> writable (?e d)" "k + 1 = n p + (if writable (e c) then 1 else 0)"
  proof -
    show "accounted ext ?C ?e (n(p := k))"
      using drop_writable(1) [OF assms(1,3,6)] drop_read_only(1) [OF assms(1-3,6)] assms(3)
      by (auto simp: k_def p intro!: cell_update(1))
    have "refs ?e ?C p = refs e ?C p" by (rule refs_cong [THEN conjunct1]) simp
    moreover have "\<forall>d \<in> refs e ?C p. \<not> writable (e d)"
      using drop_writable(2) [OF assms(1,3,6)] drop_read_only(4) [OF assms(1-3,6)] by (auto simp: p refs_drop)
    ultimately show "\<forall>d \<in> refs ?e ?C p. \<not> writable (?e d)" using refs_drop(1) [of e C c p] by auto
    show "k + 1 = n p + (if writable (e c) then 1 else 0)"
      using drop_read_only(2) [OF assms(1-3,6)] by (auto simp: k_def p)
  qed
  have "accounted ext (insert c ?C) ?e ((n(p := k))(p := k + 1))"
    using add_read_only [OF k(1), of c] assms(2) vv k(2) by simp
  then have "accounted ext C ?e (n(p := k + 1))" using assms(3) by (simp add: insert_absorb)
  then have D: "accounted ext (C - {c'}) (?e(c' := v)) (n(p := k + 1))"
    using drop_absent [of ext C ?e _ c'] assms(4,5,7) by (auto intro!: cell_update(1))
  have "\<not> writable ((?e(c' := v)) d)" if "d \<in> refs (?e(c' := v)) (C - {c'}) p" for d
    using that k(2) vv(2) by (auto simp: refs_def split: if_splits)
  then have "accounted ext (insert c' (C - {c'})) (?e(c' := v)) ((n(p := k + 1))(p := k + 1 + 1))"
    using add_read_only [OF D, of c'] assms(2) vv by simp
  then show ?thesis using assms(4) k(3) by (simp add: insert_absorb split: if_splits)
qed

end
