(* ===== verification/Cow_Invariant.thy ===== *)
theory Cow_Invariant
  imports Cow
begin

text \<open>
  The invariant of copy on write. The frames in use are page directories \<open>D\<close>, page tables \<open>T\<close>, pages \<open>P\<close> and
  others \<open>X\<close>; the zero page and other static frames are outside the memory of the allocator. The counters are those of the entries
  in the cells \<open>C\<close>, where \<open>k\<close> references to the zero page are not entries. Each operation of
  \<^verbatim>\<open>kernel/cow.cc\<close> keeps the invariant, and each is described by its effect on the cells.
\<close>

section \<open>The invariant\<close>

declare split_paired_All [simp del] split_paired_Ex [simp del]

record vm_region =
  rg_start :: u32
  rg_bytes :: u32
  rg_zero :: u32
  rg_static :: "u32 set"

definition counted :: "vm \<Rightarrow> u32 \<Rightarrow> bool" where
  "counted vm p \<longleftrightarrow> offset p = 0 \<and> page_of p < length (ref_counts vm)"

definition rcount :: "vm \<Rightarrow> u32 \<Rightarrow> nat" where
  "rcount vm p = (if counted vm p then unat (ref_counts vm ! page_of p) else 0)"

definition region_ok :: "vm_region \<Rightarrow> vm \<Rightarrow> bool" where
  "region_ok R vm \<longleftrightarrow> length (page_locks vm) = length (ref_counts vm)
     \<and> unat (rg_start R) + unat (rg_bytes R) \<le> 4096 * length (ref_counts vm) \<and> counted vm (rg_zero R)
     \<and> (unat (rg_zero R) + 4096 \<le> unat (rg_start R) \<or> unat (rg_start R) + unat (rg_bytes R) \<le> unat (rg_zero R))
     \<and> (\<forall>a. in_frame (rg_zero R) a \<longrightarrow> vm_mem vm a = 0)
     \<and> (\<forall>q \<in> rg_static R. offset q = 0
          \<and> (unat q + 4096 \<le> unat (rg_start R) \<or> unat (rg_start R) + unat (rg_bytes R) \<le> unat q))"

definition kinds :: "u32 set \<Rightarrow> u32 set \<Rightarrow> u32 set \<Rightarrow> (u32 \<times> nat) set \<Rightarrow> (u32 \<times> nat \<Rightarrow> u32) \<Rightarrow> bool" where
  "kinds D T P C e \<longleftrightarrow> (\<forall>c \<in> C. snd c < 1024 \<and> fst c \<in> D \<union> T \<and> (present (e c) \<longrightarrow>
     (fst c \<in> D \<longrightarrow> frame_of (e c) \<in> T) \<and> (fst c \<in> T \<longrightarrow> frame_of (e c) \<in> P)))"

lemma kindsD:
  assumes "kinds D T P C e" "c \<in> C" "present (e c)"
  shows "fst c \<in> D \<Longrightarrow> frame_of (e c) \<in> T" "fst c \<in> T \<Longrightarrow> frame_of (e c) \<in> P"
  using assms by (auto simp: kinds_def)

definition zero_refs :: "vm_region \<Rightarrow> nat \<Rightarrow> u32 \<Rightarrow> nat" where
  "zero_refs R k p = (if p = rg_zero R then k else 0)"

definition vm_inv ::
    "vm_region \<Rightarrow> u32 set \<Rightarrow> u32 set \<Rightarrow> u32 set \<Rightarrow> u32 set \<Rightarrow> nat \<Rightarrow> (u32 \<times> nat) set \<Rightarrow> vm \<Rightarrow> bool" where
  "vm_inv R X D T P k C vm \<longleftrightarrow> pm_inv (rg_start R) (rg_bytes R) (vm_phys vm) (D \<union> T \<union> P \<union> X)
     \<and> D \<inter> T = {} \<and> (D \<union> T) \<inter> (P \<union> X) = {} \<and> P \<inter> X = {} \<and> region_ok R vm \<and> k \<le> 2 \<and> 0 < k
     \<and> kinds D T (insert (rg_zero R) P) C (ent vm) \<and> accounted (zero_refs R k) C (ent vm) (rcount vm)"

lemma pm_inv_card:
  assumes "pm_inv start bytes s out"
  shows "card out \<le> unat bytes div 4096"
proof -
  obtain fl k where k: "4096 * k \<le> unat bytes" "set fl \<union> out = frames start k" "unat start + unat bytes < 4294967296"
    using assms by (auto simp: pm_inv_def)
  have "unat start + 4096 * k < 4294967296" using k(1,3) by linarith
  from frames_card [OF this] have "card out \<le> k" using k(2) card_mono [of "frames start k" out] by auto
  then show ?thesis using k(1) by linarith
qed

lemma inv_parts:
  assumes "vm_inv R X D T P k C vm"
  shows "pm_inv (rg_start R) (rg_bytes R) (vm_phys vm) (D \<union> T \<union> P \<union> X)" "region_ok R vm"
    "kinds D T (insert (rg_zero R) P) C (ent vm)" "accounted (zero_refs R k) C (ent vm) (rcount vm)"
    "D \<inter> T = {}" "(D \<union> T) \<inter> (P \<union> X) = {}" "P \<inter> X = {}" "k \<le> 2" "0 < k"
  using assms by (auto simp: vm_inv_def)

lemma vm_counted:
  assumes "vm_inv R X D T P k C vm" "p \<in> insert (rg_zero R) (D \<union> T \<union> P \<union> X)"
  shows "counted vm p"
proof (cases "p = rg_zero R")
  case True
  then show ?thesis using inv_parts(2) [OF assms(1)] by (simp add: region_ok_def)
next
  case False
  note i = inv_parts [OF assms(1)]
  from False have "p \<in> D \<union> T \<union> P \<union> X" using assms(2) by blast
  note r = pm_inv_range [OF i(1) this]
  have "unat (rg_start R) + unat (rg_bytes R) \<le> 4096 * length (ref_counts vm)" using i(2) by (simp add: region_ok_def)
  then have "unat p < 4096 * length (ref_counts vm)" using r(3) by linarith
  then show ?thesis using r(1) by (simp add: counted_def page_of_def less_mult_imp_div_less mult.commute)
qed

lemma vm_aligned:
  assumes "vm_inv R X D T P k C vm" "p \<in> insert (rg_zero R) (rg_static R \<union> D \<union> T \<union> P \<union> X)"
  shows "offset p = 0"
proof (cases "p \<in> rg_static R")
  case True
  then show ?thesis using inv_parts(2) [OF assms(1)] by (simp add: region_ok_def)
next
  case False
  then show ?thesis using vm_counted [OF assms(1), of p] assms(2) by (simp add: counted_def)
qed

lemma inv_cell:
  assumes "vm_inv R X D T P k C vm" "c \<in> C"
  shows "is_cell c" "fst c \<in> D \<union> T"
proof -
  show f: "fst c \<in> D \<union> T" using inv_parts(3) [OF assms(1)] assms(2) by (auto simp: kinds_def)
  show "is_cell c" using inv_parts(3) [OF assms(1)] assms(2) vm_aligned [OF assms(1), of "fst c"] f
    by (auto simp: kinds_def is_cell_def)
qed

lemma inv_zero_apart:
  assumes "vm_inv R X D T P k C vm"
  shows "rg_zero R \<notin> D \<union> T \<union> P \<union> X"
  using inv_parts(2) [OF assms] pm_inv_range(2,3) [OF inv_parts(1) [OF assms]] by (fastforce simp: region_ok_def)

lemma inv_static_apart:
  assumes "vm_inv R X D T P k C vm" "q \<in> insert (rg_zero R) (rg_static R)"
  shows "q \<notin> D \<union> T \<union> P \<union> X"
proof
  assume q: "q \<in> D \<union> T \<union> P \<union> X"
  from inv_parts(2) [OF assms(1)] assms(2)
  have "unat q + 4096 \<le> unat (rg_start R) \<or> unat (rg_start R) + unat (rg_bytes R) \<le> unat q" by (auto simp: region_ok_def)
  then show False using pm_inv_range(2,3) [OF inv_parts(1) [OF assms(1)] q] by linarith
qed

lemma inv_finite:
  assumes "vm_inv R X D T P k C vm"
  shows "finite C" "card C \<le> 1073741824" "finite (D \<union> T \<union> P \<union> X)"
proof -
  note i = inv_parts [OF assms]
  have fin: "finite (D \<union> T \<union> P \<union> X)"
    using pm_inv_range(4) [OF i(1)] by (cases "D \<union> T \<union> P \<union> X = {}") auto
  then show "finite (D \<union> T \<union> P \<union> X)" .
  have sub: "C \<subseteq> (D \<union> T \<union> P \<union> X) \<times> {..<1024}" using i(3) by (auto simp: kinds_def)
  then show "finite C" using fin finite_subset by blast
  have "card C \<le> card (D \<union> T \<union> P \<union> X) * 1024"
    using card_mono [OF _ sub] fin by (simp add: card_cartesian_product)
  moreover have "card (D \<union> T \<union> P \<union> X) \<le> unat (rg_bytes R) div 4096" by (rule pm_inv_card [OF i(1)])
  moreover have "unat (rg_bytes R) < 4294967296" by simp
  ultimately show "card C \<le> 1073741824" by linarith
qed

lemma inv_rcount:
  assumes "vm_inv R X D T P k C vm"
  shows "rcount vm p \<le> 1073741826"
proof -
  have "ro_refs (ent vm) C p \<subseteq> C" by (auto simp: ro_refs_def refs_def)
  then have "card (ro_refs (ent vm) C p) \<le> 1073741824" using inv_finite [OF assms] card_mono le_trans by blast
  then show ?thesis using accountedD(1) [OF inv_parts(4) [OF assms], of p] inv_parts(8) [OF assms]
    by (simp add: zero_refs_def split: if_splits)
qed

section \<open>Counters\<close>

definition set_count :: "u32 \<Rightarrow> nat \<Rightarrow> vm \<Rightarrow> vm" where
  "set_count p n vm = vm\<lparr>ref_counts := (ref_counts vm)[page_of p := of_nat n]\<rparr>"

lemma set_count_fields [simp]:
  "vm_phys (set_count p n vm) = vm_phys vm" "page_locks (set_count p n vm) = page_locks vm"
  "length (ref_counts (set_count p n vm)) = length (ref_counts vm)" "ent (set_count p n vm) = ent vm"
  "counted (set_count p n vm) = counted vm"
  by (simp_all add: set_count_def ent_def peek_def counted_def fun_eq_iff)

lemma poke_fields [simp]:
  "page_locks (poke a v vm) = page_locks vm" "ref_counts (poke a v vm) = ref_counts vm" "rcount (poke a v vm) = rcount vm"
  "counted (poke a v vm) = counted vm"
  by (simp_all add: poke_def rcount_def counted_def fun_eq_iff)

lemma rcount_set:
  assumes "counted vm p" "n < 4294967296"
  shows "rcount (set_count p n vm) = (rcount vm)(p := n)"
proof
  fix q
  have "unat (of_nat n :: u32) = n" using assms(2) by (intro unat_of_nat_exact) simp
  then show "rcount (set_count p n vm) q = ((rcount vm)(p := n)) q"
    using assms(1) page_of_inject [of p q] by (auto simp: rcount_def set_count_def counted_def nth_list_update)
qed

lemma rcount_word: "counted vm p \<Longrightarrow> ref_counts vm ! page_of p = of_nat (rcount vm p)"
  by (simp add: rcount_def)

lemma count_up:
  assumes "counted vm p" "page_of p = unat page_number"
  shows "add_ref_count page_number 1 vm = Inr (of_nat (rcount vm p + 1), set_count p (rcount vm p + 1) vm)"
  using assms rcount_word [OF assms(1)]
  by (simp add: add_ref_count_def counted_def set_count_def add.commute)

lemma count_down:
  assumes "counted vm p" "page_of p = unat page_number" "0 < rcount vm p"
  shows "add_ref_count page_number (- 1) vm = Inr (of_nat (rcount vm p - 1), set_count p (rcount vm p - 1) vm)"
proof -
  have "(of_nat (rcount vm p) :: u32) + (- 1) = of_nat (rcount vm p - 1)" using assms(3) by (simp add: of_nat_diff)
  then show ?thesis using assms rcount_word [OF assms(1)] by (simp add: add_ref_count_def counted_def set_count_def)
qed

section \<open>Changes that keep the invariant\<close>

lemma set_cells:
  assumes "is_cell c"
  shows "ent (poke (cell c) v vm) c = v" "is_cell c' \<Longrightarrow> c' \<noteq> c \<Longrightarrow> ent (poke (cell c) v vm) c' = ent vm c'"
  using peek_poke [OF assms] assms by auto

text \<open>An entry of a frame in use is written and counters change: what remains is the account.\<close>

lemma inv_change:
  assumes inv: "vm_inv R X D T P k C vm"
    and phys: "pm_inv (rg_start R) (rg_bytes R) (vm_phys vm') (D' \<union> T' \<union> P' \<union> X')"
    and sets: "D' \<inter> T' = {}" "(D' \<union> T') \<inter> (P' \<union> X') = {}" "P' \<inter> X' = {}" "k' \<le> 2" "0 < k'"
    and len: "length (ref_counts vm') = length (ref_counts vm)" "length (page_locks vm') = length (page_locks vm)"
    and zero: "\<And>a. in_frame (rg_zero R) a \<Longrightarrow> vm_mem vm' a = vm_mem vm a"
    and cells: "kinds D' T' (insert (rg_zero R) P') C' (ent vm')" "accounted (zero_refs R k') C' (ent vm') (rcount vm')"
  shows "vm_inv R X' D' T' P' k' C' vm'"
proof -
  have "counted vm' (rg_zero R)" using inv_parts(2) [OF inv] len(1) by (simp add: region_ok_def counted_def)
  then have "region_ok R vm'" using inv_parts(2) [OF inv] len zero by (simp add: region_ok_def)
  then show ?thesis using phys sets cells by (simp add: vm_inv_def)
qed

lemma inv_poke_phys:
  assumes "pm_inv start bytes (vm_phys vm) out" "is_cell c" "fst c \<in> out"
  shows "pm_inv start bytes (vm_phys (poke (cell c) v vm)) out"
proof -
  have "pm_inv start bytes ((vm_phys vm)\<lparr>pm_mem := vm_mem (poke (cell c) v vm)\<rparr>) out"
    by (rule pm_inv_write [OF assms(1)]) (use poke_elsewhere [OF assms(2)] assms(3) in blast)
  then show ?thesis by (simp add: poke_def)
qed

lemma zero_apart:
  assumes "vm_inv R X D T P k C vm" "f \<in> D \<union> T \<union> P \<union> X" "in_frame (rg_zero R) a"
  shows "\<not> in_frame f a"
  using frames_apart [of "rg_zero R" f a] vm_aligned [OF assms(1)] inv_zero_apart [OF assms(1)] assms(2,3) by blast

definition shared_entry :: "u32 \<Rightarrow> u32" where
  "shared_entry e = (if present e then e AND NOT FLAG_RW else e)"

definition new_reference :: "u32 \<Rightarrow> u32" where
  "new_reference e = (if present e then e AND NOT FLAG_RW else 0)"

lemma entry_flags: "e AND FLAG_PR = 0 \<longleftrightarrow> \<not> present e" "e AND FLAG_RW > 0 \<longleftrightarrow> writable e"
  by (simp_all add: present_def writable_def word_gt_0)

lemma cow_ref_eq:
  assumes inv: "vm_inv R X D T P k C vm" and c: "c \<in> C"
  defines "e \<equiv> ent vm c" and "p \<equiv> frame_of (ent vm c)"
  shows "cow_ref (cell c) vm = Inr (new_reference e,
    if present e then set_count p (rcount vm p + (if writable e then 2 else 1)) (poke (cell c) (shared_entry e) vm) else vm)"
proof (cases "present e")
  case True
  note cc = inv_cell [OF inv c]
  have cp: "counted vm p"
    using inv_parts(3) [OF inv] c True vm_counted [OF inv, of p] by (auto simp: kinds_def e_def p_def)
  have pg: "page_of p = unat (e div FRAME_SIZE)" by (simp add: p_def e_def)
  have pk: "peek vm (cell c) = e" by (simp add: e_def ent_def)
  have small: "rcount vm p + 1 < 4294967296" using inv_rcount [OF inv, of p] by linarith
  have same: "peek (poke (cell c) v w) (cell c) = v" for v w by (simp add: peek_def poke_def)
  have com: "set_count p m (poke a v (set_count p n w)) = set_count p m (poke a v w)" for a v n m w
    by (simp add: set_count_def poke_def)
  have pc: "peek (set_count p n w) (cell c) = peek w (cell c)" for n w by (simp add: peek_def)
  have sh: "shared_entry e = e AND NOT FLAG_RW" "new_reference e = e AND NOT FLAG_RW"
    using True by (simp_all add: shared_entry_def new_reference_def)
  show ?thesis
  proof (cases "writable e")
    case True
    let ?vm = "poke (cell c) (shared_entry e) (set_count p (rcount vm p + 1) vm)"
    have "rcount ?vm p = rcount vm p + 1" using rcount_set [OF cp small] by simp
    then have "add_ref_count (e div FRAME_SIZE) 1 ?vm =
        Inr (of_nat (rcount vm p + 2), set_count p (rcount vm p + 2) (poke (cell c) (shared_entry e) vm))"
      using count_up [of ?vm p "e div FRAME_SIZE"] cp pg by (simp add: com)
    then show ?thesis using True \<open>present e\<close> count_up [OF cp pg]
      by (simp add: cow_ref_def pk entry_flags pc sh same)
  next
    case False
    have "add_ref_count (e div FRAME_SIZE) 1 (poke (cell c) (shared_entry e) vm) =
        Inr (of_nat (rcount vm p + 1), set_count p (rcount vm p + 1) (poke (cell c) (shared_entry e) vm))"
      using count_up [of "poke (cell c) (shared_entry e) vm" p "e div FRAME_SIZE"] cp pg by simp
    then show ?thesis using False \<open>present e\<close> by (simp add: cow_ref_def pk entry_flags pc sh same)
  qed
qed (simp add: cow_ref_def e_def ent_def entry_flags new_reference_def)

text \<open>One entry is shared with an empty cell.\<close>

lemma share_step:
  assumes inv: "vm_inv R X D T P k C vm" and c: "c \<in> C" "c' \<in> C" "c \<noteq> c'" "fst c \<in> D \<longleftrightarrow> fst c' \<in> D"
    and empty: "\<not> present (ent vm c')"
  shows "\<exists>vm1. cow_ref (cell c) vm = Inr (new_reference (ent vm c), vm1)
    \<and> vm_inv R X D T P k C (poke (cell c') (new_reference (ent vm c)) vm1) \<and> page_locks vm1 = page_locks vm
    \<and> (\<forall>d. is_cell d \<longrightarrow> ent (poke (cell c') (new_reference (ent vm c)) vm1) d =
         (if d = c then shared_entry (ent vm c) else if d = c' then new_reference (ent vm c) else ent vm d))
    \<and> (\<forall>a. \<not> in_frame (fst c) a \<longrightarrow> \<not> in_frame (fst c') a \<longrightarrow>
         vm_mem (poke (cell c') (new_reference (ent vm c)) vm1) a = vm_mem vm a)"
proof -
  let ?e = "ent vm c" and ?p = "frame_of (ent vm c)"
  let ?r = "new_reference ?e"
  note cc = inv_cell [OF inv c(1)] inv_cell [OF inv c(2)]
  define vm1 where "vm1 = (if present ?e then set_count ?p (rcount vm ?p + (if writable ?e then 2 else 1)) (poke (cell c) (shared_entry ?e) vm) else vm)"
  let ?vm = "poke (cell c') ?r vm1"
  have eq: "cow_ref (cell c) vm = Inr (?r, vm1)" using cow_ref_eq [OF inv c(1)] by (simp add: vm1_def)
  have ents: "ent ?vm d = (if d = c then shared_entry ?e else if d = c' then ?r else ent vm d)" if "is_cell d" for d
    using that c(3) cc(1,3) peek_poke by (auto simp: vm1_def shared_entry_def)
  have mem: "vm_mem ?vm a = vm_mem vm a" if "\<not> in_frame (fst c) a" "\<not> in_frame (fst c') a" for a
    using that poke_elsewhere [OF cc(1)] poke_elsewhere [OF cc(3)] by (simp add: vm1_def)
  have locks: "page_locks vm1 = page_locks vm" by (simp add: vm1_def)
  have "vm_inv R X D T P k C ?vm"
  proof (rule inv_change [OF inv])
    have "pm_inv (rg_start R) (rg_bytes R) (vm_phys vm1) (D \<union> T \<union> P \<union> X)"
      using inv_poke_phys [OF inv_parts(1) [OF inv] cc(1)] inv_parts(1) [OF inv] cc(2) by (auto simp: vm1_def)
    then show "pm_inv (rg_start R) (rg_bytes R) (vm_phys ?vm) (D \<union> T \<union> P \<union> X)" using inv_poke_phys cc(3,4) by blast
    show "vm_mem ?vm a = vm_mem vm a" if "in_frame (rg_zero R) a" for a
      using mem [of a] zero_apart [OF inv _ that] cc(2,4) by blast
    have kn: "kinds D T (insert (rg_zero R) P) C (ent vm)" by (rule inv_parts(3) [OF inv])
    have dt: "D \<inter> T = {}" by (rule inv_parts(5) [OF inv])
    show "kinds D T (insert (rg_zero R) P) C (ent ?vm)"
      unfolding kinds_def
    proof
      fix d assume d: "d \<in> C"
      have ent: "ent ?vm d = (if d = c then shared_entry ?e else if d = c' then ?r else ent vm d)"
        using ents inv_cell(1) [OF inv d] .
      have "fst c' \<in> T \<longleftrightarrow> fst c \<in> T" using cc(2,4) c(4) dt by blast
      then show "snd d < 1024 \<and> fst d \<in> D \<union> T \<and> (present (ent ?vm d) \<longrightarrow>
          (fst d \<in> D \<longrightarrow> frame_of (ent ?vm d) \<in> T) \<and> (fst d \<in> T \<longrightarrow> frame_of (ent ?vm d) \<in> insert (rg_zero R) P))"
        using kn d c unfolding ent kinds_def by (auto simp: shared_entry_def new_reference_def)
    qed
    show "accounted (zero_refs R k) C (ent ?vm) (rcount ?vm)"
    proof (cases "present ?e")
      case True
      have "counted vm ?p" using kn c(1) True vm_counted [OF inv, of ?p] by (auto simp: kinds_def)
      then have "rcount ?vm = (rcount vm)(?p := rcount vm ?p + (if writable ?e then 2 else 1))"
        using True inv_rcount [OF inv, of ?p] rcount_set [of "poke (cell c) (shared_entry ?e) vm" ?p] by (simp add: vm1_def)
      moreover have "accounted (zero_refs R k) C ((ent vm)(c := shared_entry ?e, c' := ?r))
          ((rcount vm)(?p := rcount vm ?p + (if writable ?e then 2 else 1)))"
        using share_entry [OF inv_parts(4) [OF inv] inv_finite(1) [OF inv] c(1-3) True empty refl refl] True
        by (simp add: shared_entry_def new_reference_def)
      moreover have "ent ?vm d = ((ent vm)(c := shared_entry ?e, c' := ?r)) d" if "d \<in> C" for d
        using ents [OF inv_cell(1) [OF inv that]] c(3) by auto
      ultimately show ?thesis using accounted_cong [of C "ent ?vm" "(ent vm)(c := shared_entry ?e, c' := ?r)"] by metis
    next
      case False
      have "accounted (zero_refs R k) (C - {c'}) (ent vm) (rcount vm)"
        by (rule drop_absent [OF inv_parts(4) [OF inv] empty])
      then have "accounted (zero_refs R k) (C - {c'}) (ent ?vm) (rcount ?vm)"
        using False ents inv_cell(1) [OF inv]
        by (subst accounted_cong [of _ _ "ent vm"]) (auto simp: shared_entry_def vm1_def)
      then have "accounted (zero_refs R k) (insert c' (C - {c'})) (ent ?vm) (rcount ?vm)"
        using False c(2,3) ents [OF cc(3)] by (intro add_absent) (simp_all add: new_reference_def)
      then show ?thesis using c(2) by (simp add: insert_absorb)
    qed
  qed (use inv_parts(5-9) [OF inv] in \<open>simp_all add: vm1_def\<close>)
  then show ?thesis using eq ents mem locks by auto
qed

text \<open>All entries of a page table from a given one on are shared with a new page table.\<close>

lemma cell_pair: "f + 4 * of_nat i = cell (f, i)"
  by (simp add: cell_def)

lemma ref_loop_ok:
  "vm_inv R X D T P k C vm \<Longrightarrow> f \<noteq> t \<Longrightarrow> f \<in> T \<Longrightarrow> t \<in> T \<Longrightarrow> i + n = 1024 \<Longrightarrow>
   (\<And>j. i \<le> j \<Longrightarrow> j < 1024 \<Longrightarrow> (f, j) \<in> C \<and> (t, j) \<in> C \<and> \<not> present (ent vm (f, j))) \<Longrightarrow>
   \<exists>vm'. ref_loop f t n i vm = Inr vm' \<and> vm_inv R X D T P k C vm' \<and> page_locks vm' = page_locks vm
     \<and> (\<forall>d. is_cell d \<longrightarrow> ent vm' d =
         (if fst d = t \<and> i \<le> snd d then shared_entry (ent vm d)
          else if fst d = f \<and> i \<le> snd d then new_reference (ent vm (t, snd d)) else ent vm d))
     \<and> (\<forall>a. \<not> in_frame t a \<longrightarrow> \<not> in_frame f a \<longrightarrow> vm_mem vm' a = vm_mem vm a)"
proof (induction n arbitrary: i vm)
  case 0
  then show ?case by (auto simp: is_cell_def)
next
  case (Suc n)
  note inv = Suc.prems(1)
  have i: "i < 1024" using Suc.prems(5) by simp
  have mem: "(t, i) \<in> C" "(f, i) \<in> C" "\<not> present (ent vm (f, i))" using Suc.prems(6) [OF le_refl i] by simp_all
  have kind: "fst (t, i) \<in> D \<longleftrightarrow> fst (f, i) \<in> D" using inv_parts(5) [OF inv] Suc.prems(3,4) by auto
  obtain vm1 where one: "cow_ref (cell (t, i)) vm = Inr (new_reference (ent vm (t, i)), vm1)"
      "vm_inv R X D T P k C (poke (cell (f, i)) (new_reference (ent vm (t, i))) vm1)" "page_locks vm1 = page_locks vm"
      "\<And>d. is_cell d \<Longrightarrow> ent (poke (cell (f, i)) (new_reference (ent vm (t, i))) vm1) d =
         (if d = (t, i) then shared_entry (ent vm (t, i)) else if d = (f, i) then new_reference (ent vm (t, i)) else ent vm d)"
      "\<And>a. \<not> in_frame t a \<Longrightarrow> \<not> in_frame f a \<Longrightarrow>
         vm_mem (poke (cell (f, i)) (new_reference (ent vm (t, i))) vm1) a = vm_mem vm a"
    using share_step [OF inv mem(1,2) _ kind mem(3)] Suc.prems(2) by auto
  let ?vm = "poke (cell (f, i)) (new_reference (ent vm (t, i))) vm1"
  have ft: "offset f = 0" "offset t = 0" using vm_aligned [OF inv] Suc.prems(3,4) by auto
  have cells: "is_cell (f, j)" "is_cell (t, j)" if "j < 1024" for j using that ft by (simp_all add: is_cell_def)
  have "\<exists>vm'. ref_loop f t n (Suc i) ?vm = Inr vm' \<and> vm_inv R X D T P k C vm' \<and> page_locks vm' = page_locks ?vm
     \<and> (\<forall>d. is_cell d \<longrightarrow> ent vm' d =
         (if fst d = t \<and> Suc i \<le> snd d then shared_entry (ent ?vm d)
          else if fst d = f \<and> Suc i \<le> snd d then new_reference (ent ?vm (t, snd d)) else ent ?vm d))
     \<and> (\<forall>a. \<not> in_frame t a \<longrightarrow> \<not> in_frame f a \<longrightarrow> vm_mem vm' a = vm_mem ?vm a)"
  proof (rule Suc.IH [OF one(2) Suc.prems(2-4)])
    show "Suc i + n = 1024" using Suc.prems(5) by simp
    fix j assume j: "Suc i \<le> j" "j < 1024"
    then have "ent ?vm (f, j) = ent vm (f, j)" using one(4) [OF cells(1) [OF j(2)]] Suc.prems(2) by simp
    then show "(f, j) \<in> C \<and> (t, j) \<in> C \<and> \<not> present (ent ?vm (f, j))" using Suc.prems(6) [of j] j by simp
  qed
  then obtain vm' where two: "ref_loop f t n (Suc i) ?vm = Inr vm'" "vm_inv R X D T P k C vm'" "page_locks vm' = page_locks ?vm"
      "\<And>d. is_cell d \<Longrightarrow> ent vm' d =
         (if fst d = t \<and> Suc i \<le> snd d then shared_entry (ent ?vm d)
          else if fst d = f \<and> Suc i \<le> snd d then new_reference (ent ?vm (t, snd d)) else ent ?vm d)"
      "\<And>a. \<not> in_frame t a \<Longrightarrow> \<not> in_frame f a \<Longrightarrow> vm_mem vm' a = vm_mem ?vm a" by blast
  have "ent vm' d = (if fst d = t \<and> i \<le> snd d then shared_entry (ent vm d)
          else if fst d = f \<and> i \<le> snd d then new_reference (ent vm (t, snd d)) else ent vm d)" if d: "is_cell d" for d
  proof -
    have "is_cell (t, snd d)" using d ft by (simp add: is_cell_def)
    then show ?thesis using two(4) [OF d] one(4) [OF d] one(4) [of "(t, snd d)"] Suc.prems(2)
      by (cases d) (auto simp: not_le less_Suc_eq_le Suc_le_eq)
  qed
  then show ?case using one(1,3,5) two by (simp add: cell_pair)
qed

section \<open>Frames\<close>

lemma vm_alloc_ok:
  assumes inv: "vm_inv R X D T P k C vm"
  shows "if card (D \<union> T \<union> P \<union> X) = unat (rg_bytes R) div 4096 then vm_alloc vm = Inl Panic
    else \<exists>f vm'. vm_alloc vm = Inr (f, vm') \<and> f \<notin> insert (rg_zero R) (rg_static R \<union> D \<union> T \<union> P \<union> X) \<and> vm_inv R (insert f X) D T P k C vm'
      \<and> ref_counts vm' = ref_counts vm \<and> page_locks vm' = page_locks vm
      \<and> (\<forall>d. is_cell d \<longrightarrow> ent vm' d = (if fst d = f then 0 else ent vm d))
      \<and> (\<forall>a. vm_mem vm' a = (if in_frame f a then 0 else vm_mem vm a))"
proof (cases "card (D \<union> T \<union> P \<union> X) = unat (rg_bytes R) div 4096")
  case False
  note i = inv_parts [OF inv]
  obtain f s where f: "alloc_frame (vm_phys vm) = Inr (f, s)" "f \<notin> D \<union> T \<union> P \<union> X" "offset f = 0"
      "pm_inv (rg_start R) (rg_bytes R) s (insert f (D \<union> T \<union> P \<union> X))" "pm_mem s = bzero f FRAME_SIZE (vm_mem vm)"
    using alloc_frame_ok [OF i(1)] False by auto
  let ?vm = "vm\<lparr>vm_phys := s\<rparr>"
  have mem: "vm_mem ?vm a = (if in_frame f a then 0 else vm_mem vm a)" for a using f(5) by (simp add: bzero_frame)
  have nz: "f \<noteq> rg_zero R" using pm_inv_range(2,3) [OF f(4), of f] i(2) by (auto simp: region_ok_def)
  have ent: "ent ?vm d = (if fst d = f then 0 else ent vm d)" if d: "is_cell d" for d
  proof (cases "fst d = f")
    case True
    have "vm_mem ?vm (cell d + of_nat j) = 0" if "j < 4" for j
      using that cell_in_frame [OF d, of "cell d + of_nat j"] unat_word_byte [OF cell_aligned [OF d] that] True mem by simp
    from this [of 0] this [of 1] this [of 2] this [of 3] show ?thesis
      using True by (simp add: ent_def peek_def load32_def)
  next
    case False
    have "\<not> in_frame f a" if "in_frame (fst d) a" for a
      using frames_apart [of "fst d" f a] that d f(3) False by (simp add: is_cell_def)
    then show ?thesis using False ent_cong [OF d, of ?vm vm] mem by simp
  qed
  have "vm_inv R (insert f X) D T P k C ?vm"
  proof (rule inv_change [OF inv])
    show "pm_inv (rg_start R) (rg_bytes R) (vm_phys ?vm) (D \<union> T \<union> P \<union> insert f X)" using f(4) by simp
    show "vm_mem ?vm a = vm_mem vm a" if "in_frame (rg_zero R) a" for a
      using mem frames_apart [of "rg_zero R" f a] that nz f(3) vm_aligned [OF inv] by simp
    have same: "ent ?vm d = ent vm d" if "d \<in> C" for d
      using ent [OF inv_cell(1) [OF inv that]] inv_cell(2) [OF inv that] f(2) by auto
    show "kinds D T (insert (rg_zero R) P) C (ent ?vm)" using i(3) same by (simp add: kinds_def)
    have "rcount ?vm = rcount vm" by (simp add: rcount_def counted_def fun_eq_iff)
    then show "accounted (zero_refs R k) C (ent ?vm) (rcount ?vm)"
      using i(4) accounted_cong [of C "ent ?vm" "ent vm"] same by metis
  qed (use i(5-9) f(2) in auto)
  moreover from this have "f \<notin> rg_static R" using inv_static_apart [of R "insert f X" D T P k C ?vm f] by auto
  ultimately show ?thesis using False f nz ent mem by (auto simp: vm_alloc_def)
qed (use alloc_frame_ok [OF inv_parts(1) [OF inv]] in \<open>simp add: vm_alloc_def\<close>)

lemma add_absents:
  assumes "accounted ext C e n" "\<forall>c \<in> A. \<not> present (e c)"
  shows "accounted ext (C \<union> A) e n"
proof -
  have "refs e (C \<union> A) p = refs e C p" "ro_refs e (C \<union> A) p = ro_refs e C p" for p
    using assms(2) by (auto simp: refs_def ro_refs_def)
  then show ?thesis using assms(1) by (simp add: accounted_def)
qed

text \<open>A frame that was filled with zeros becomes a page table or a page directory, another frame a page.\<close>

lemma adopt_table:
  assumes inv: "vm_inv R (insert f X) D T P k C vm" and f: "f \<notin> D \<union> T \<union> P \<union> X"
    and empty: "\<forall>j < 1024. \<not> present (ent vm (f, j))"
  shows "vm_inv R X D (insert f T) P k (C \<union> {f} \<times> {..<1024}) vm"
proof (rule inv_change [OF inv])
  note i = inv_parts [OF inv]
  have "D \<union> insert f T \<union> P \<union> X = D \<union> T \<union> P \<union> insert f X" by blast
  then show "pm_inv (rg_start R) (rg_bytes R) (vm_phys vm) (D \<union> insert f T \<union> P \<union> X)" using i(1) by simp
  show "kinds D (insert f T) (insert (rg_zero R) P) (C \<union> {f} \<times> {..<1024}) (ent vm)"
    using i(3) f empty unfolding kinds_def by auto
  show "accounted (zero_refs R k) (C \<union> {f} \<times> {..<1024}) (ent vm) (rcount vm)"
    using empty by (intro add_absents [OF i(4)]) auto
qed (use f inv_parts(5-9) [OF inv] in auto)

lemma adopt_directory:
  assumes inv: "vm_inv R (insert f X) D T P k C vm" and f: "f \<notin> D \<union> T \<union> P \<union> X"
    and empty: "\<forall>j < 1024. j \<in> I \<longrightarrow> \<not> present (ent vm (f, j))" and I: "I \<subseteq> {..<1024}"
  shows "vm_inv R X (insert f D) T P k (C \<union> {f} \<times> I) vm"
proof (rule inv_change [OF inv])
  note i = inv_parts [OF inv]
  have "insert f D \<union> T \<union> P \<union> X = D \<union> T \<union> P \<union> insert f X" by blast
  then show "pm_inv (rg_start R) (rg_bytes R) (vm_phys vm) (insert f D \<union> T \<union> P \<union> X)" using i(1) by simp
  show "kinds (insert f D) T (insert (rg_zero R) P) (C \<union> {f} \<times> I) (ent vm)"
    using i(3) f empty I unfolding kinds_def by auto
  show "accounted (zero_refs R k) (C \<union> {f} \<times> I) (ent vm) (rcount vm)"
    using empty I by (intro add_absents [OF i(4)]) auto
qed (use f inv_parts(5-9) [OF inv] in auto)

lemma adopt_page:
  assumes inv: "vm_inv R (insert f X) D T P k C vm" and f: "f \<notin> D \<union> T \<union> P \<union> X"
  shows "vm_inv R X D T (insert f P) k C vm"
proof (rule inv_change [OF inv])
  note i = inv_parts [OF inv]
  have "D \<union> T \<union> insert f P \<union> X = D \<union> T \<union> P \<union> insert f X" by blast
  then show "pm_inv (rg_start R) (rg_bytes R) (vm_phys vm) (D \<union> T \<union> insert f P \<union> X)" using i(1) by simp
  show "kinds D T (insert (rg_zero R) (insert f P)) C (ent vm)" using i(3) unfolding kinds_def by auto
qed (use f inv_parts(4-9) [OF inv] in auto)

section \<open>Entries taken out and put back\<close>

lemma no_refs:
  assumes "vm_inv R X D T P k C vm" "q \<notin> insert (rg_zero R) (T \<union> P)"
  shows "refs (ent vm) C q = {}"
  using inv_parts(3) [OF assms(1)] assms(2) by (auto simp: refs_def kinds_def)

lemma inv_without:
  assumes inv: "vm_inv R X D T P k C vm" and c: "c \<in> C" "present (ent vm c)"
  defines "p \<equiv> frame_of (ent vm c)"
  shows "counted vm p" "writable (ent vm c) \<Longrightarrow> vm_inv R X D T P k (C - {c}) vm \<and> refs (ent vm) (C - {c}) p = {} \<and> p \<noteq> rg_zero R"
    "\<not> writable (ent vm c) \<Longrightarrow> 0 < rcount vm p \<and> vm_inv R X D T P k (C - {c}) (set_count p (rcount vm p - 1) vm)
      \<and> (rcount vm p = 1 \<longrightarrow> refs (ent vm) (C - {c}) p = {} \<and> p \<noteq> rg_zero R)"
proof -
  note i = inv_parts [OF inv]
  show cp: "counted vm p" using i(3) c vm_counted [OF inv, of p] by (auto simp: kinds_def p_def)
  have kinds: "kinds D T (insert (rg_zero R) P) (C - {c}) (ent vm)" using i(3) by (auto simp: kinds_def)
  have zero: "zero_refs R k q = 0 \<longleftrightarrow> q \<noteq> rg_zero R" for q using i(9) by (simp add: zero_refs_def)
  {
    assume w: "writable (ent vm c)"
    note d = drop_writable [OF i(4) c w]
    have "p \<noteq> rg_zero R" using accountedD(2) [OF i(4), of c p] c w zero [of p] by (simp add: refs_def p_def)
    moreover have "vm_inv R X D T P k (C - {c}) vm" using inv kinds d(1) by (simp add: vm_inv_def)
    ultimately show "vm_inv R X D T P k (C - {c}) vm \<and> refs (ent vm) (C - {c}) p = {} \<and> p \<noteq> rg_zero R"
      using d(2) by (simp add: p_def)
  }
  assume w: "\<not> writable (ent vm c)"
  note d = drop_read_only [OF i(4) inv_finite(1) [OF inv] c w, folded p_def]
  let ?vm = "set_count p (rcount vm p - 1) vm"
  have "rcount ?vm = (rcount vm)(p := rcount vm p - 1)" using rcount_set [OF cp] inv_rcount [OF inv, of p] by simp
  then have "vm_inv R X D T P k (C - {c}) ?vm"
    using d(1) kinds i by (intro inv_change [OF inv]) simp_all
  then show "0 < rcount vm p \<and> vm_inv R X D T P k (C - {c}) ?vm \<and> (rcount vm p = 1 \<longrightarrow> refs (ent vm) (C - {c}) p = {} \<and> p \<noteq> rg_zero R)"
    using d(2,3) zero by simp
qed

lemma inv_restore:
  assumes inv: "vm_inv R X D T P k C vm" and c: "c \<notin> C" "is_cell c" "fst c \<in> D \<union> T"
    and v: "present v \<Longrightarrow> writable v \<and> refs (ent vm) C (frame_of v) = {} \<and> (fst c \<in> D \<longrightarrow> frame_of v \<in> T) \<and> (fst c \<in> T \<longrightarrow> frame_of v \<in> P)"
  shows "vm_inv R X D T P k (insert c C) (poke (cell c) v vm)"
proof (rule inv_change [OF inv])
  let ?vm = "poke (cell c) v vm"
  note i = inv_parts [OF inv]
  show "pm_inv (rg_start R) (rg_bytes R) (vm_phys ?vm) (D \<union> T \<union> P \<union> X)" using inv_poke_phys [OF i(1) c(2)] c(3) by blast
  show "vm_mem ?vm a = vm_mem vm a" if "in_frame (rg_zero R) a" for a
    using poke_elsewhere [OF c(2)] zero_apart [OF inv _ that] c(3) by blast
  have same: "ent ?vm d = ent vm d" if "d \<in> C" for d
    using set_cells(2) [OF c(2) inv_cell(1) [OF inv that]] that c(1) by blast
  have new: "ent ?vm c = v" using set_cells(1) [OF c(2)] .
  show "kinds D T (insert (rg_zero R) P) (insert c C) (ent ?vm)"
    using i(3) c(2,3) v same new by (auto simp: kinds_def is_cell_def)
  have acc: "accounted (zero_refs R k) C (ent ?vm) (rcount ?vm)"
    using i(4) accounted_cong [of C "ent ?vm" "ent vm"] same by simp
  show "accounted (zero_refs R k) (insert c C) (ent ?vm) (rcount ?vm)"
  proof (cases "present v")
    case True
    have "refs (ent ?vm) C (frame_of v) = {}" using v [OF True] refs_cong [of C "ent ?vm" "ent vm"] same by simp
    moreover have "frame_of v \<noteq> rg_zero R" using v [OF True] c(3) inv_zero_apart [OF inv] by auto
    ultimately show ?thesis using add_writable [OF acc c(1)] True v [OF True] new by (simp add: zero_refs_def)
  next
    case False
    then show ?thesis using add_absent [OF acc c(1)] new by simp
  qed
qed (use inv_parts(5-9) [OF inv] in auto)

lemma vm_dealloc_ok:
  assumes inv: "vm_inv R X D T P k C vm" and q: "q \<in> D \<union> T \<union> P \<union> X" "q \<notin> fst ` C" "refs (ent vm) C q = {}"
  shows "\<exists>vm'. vm_dealloc q vm = Inr vm' \<and> vm_inv R (X - {q}) (D - {q}) (T - {q}) (P - {q}) k C vm'
    \<and> page_locks vm' = page_locks vm \<and> ref_counts vm' = ref_counts vm
    \<and> (\<forall>d. is_cell d \<longrightarrow> fst d \<noteq> q \<longrightarrow> ent vm' d = ent vm d)
    \<and> (\<forall>a. \<not> in_frame q a \<longrightarrow> vm_mem vm' a = vm_mem vm a)"
proof -
  note i = inv_parts [OF inv]
  have q0: "offset q = 0" using vm_aligned [OF inv] q(1) by blast
  obtain s where s: "dealloc_frame q (vm_phys vm) = Inr s" "pm_inv (rg_start R) (rg_bytes R) s (D \<union> T \<union> P \<union> X - {q})"
      "\<And>a. \<not> in_frame q a \<Longrightarrow> pm_mem s a = vm_mem vm a"
    using dealloc_frame_ok [OF i(1) q(1)] by auto
  let ?vm = "vm\<lparr>vm_phys := s\<rparr>"
  have ent: "ent ?vm d = ent vm d" if "is_cell d" "fst d \<noteq> q" for d
    using ent_cong [OF that(1), of ?vm vm] s(3) frames_apart [of "fst d" q] that q0 by (auto simp: is_cell_def)
  have "vm_inv R (X - {q}) (D - {q}) (T - {q}) (P - {q}) k C ?vm"
  proof (rule inv_change [OF inv])
    have "(D - {q}) \<union> (T - {q}) \<union> (P - {q}) \<union> (X - {q}) = D \<union> T \<union> P \<union> X - {q}" by blast
    then show "pm_inv (rg_start R) (rg_bytes R) (vm_phys ?vm) ((D - {q}) \<union> (T - {q}) \<union> (P - {q}) \<union> (X - {q}))"
      using s(2) by simp
    show "vm_mem ?vm a = vm_mem vm a" if "in_frame (rg_zero R) a" for a
      using s(3) zero_apart [OF inv q(1) that] by simp
    have same: "ent ?vm d = ent vm d" if "d \<in> C" for d
      using ent [OF inv_cell(1) [OF inv that]] q(2) that by blast
    have "fst d \<noteq> q \<and> (present (ent vm d) \<longrightarrow> frame_of (ent vm d) \<noteq> q)" if "d \<in> C" for d
      using q(2,3) that unfolding refs_def by blast
    then show "kinds (D - {q}) (T - {q}) (insert (rg_zero R) (P - {q})) C (ent ?vm)"
      using i(3) same by (auto simp: kinds_def)
    have "rcount ?vm = rcount vm" by (simp add: rcount_def counted_def fun_eq_iff)
    then show "accounted (zero_refs R k) C (ent ?vm) (rcount ?vm)"
      using i(4) accounted_cong [of C "ent ?vm" "ent vm"] same by metis
  qed (use i(5-9) in auto)
  then show ?thesis using s(1,3) ent by (auto simp: vm_dealloc_def)
qed

section \<open>Copying\<close>

definition unlocked :: "vm \<Rightarrow> bool" where
  "unlocked vm \<longleftrightarrow> set (page_locks vm) \<subseteq> {0}"

lemma set_locks:
  "ent (vm\<lparr>page_locks := L\<rparr>) = ent vm" "rcount (vm\<lparr>page_locks := L\<rparr>) = rcount vm"
  "set_count p n (vm\<lparr>page_locks := L\<rparr>) = (set_count p n vm)\<lparr>page_locks := L\<rparr>"
  "poke a v (vm\<lparr>page_locks := L\<rparr>) = (poke a v vm)\<lparr>page_locks := L\<rparr>" "counted (vm\<lparr>page_locks := L\<rparr>) = counted vm"
  by (simp_all add: ent_def peek_def fun_eq_iff rcount_def counted_def set_count_def poke_def)

lemma inv_locks:
  assumes "vm_inv R X D T P k C vm" "length L = length (page_locks vm)"
  shows "vm_inv R X D T P k C (vm\<lparr>page_locks := L\<rparr>)"
  by (rule inv_change [OF assms(1)]) (use inv_parts [OF assms(1)] assms(2) in \<open>simp_all add: set_locks\<close>)

lemma lock_page:
  assumes "vm_inv R X D T P k C vm" "counted vm p" "page_of p = unat pg"
  shows "add_page_lock pg inc vm = Inr (vm\<lparr>page_locks := (page_locks vm)[page_of p := page_locks vm ! page_of p + inc]\<rparr>)"
  using inv_parts(2) [OF assms(1)] assms(2,3) by (simp add: add_page_lock_def region_ok_def counted_def)

lemma unlock_page:
  assumes "vm_inv R X D T P k C vm" "counted vm p" "page_of p = unat pg"
    and "page_locks vm = L[page_of p := L ! page_of p + 1]"
  shows "add_page_lock pg (- 1) vm = Inr (vm\<lparr>page_locks := L\<rparr>)"
proof -
  have "page_of p < length L"
    using inv_parts(2) [OF assms(1)] assms(2,4) by (simp add: region_ok_def counted_def)
  then show ?thesis using lock_page [OF assms(1-3), of "- 1"] assms(4) by simp
qed

lemma free_lock:
  assumes "vm_inv R X D T P k C vm" "counted vm p" "page_of p = unat pg" "unlocked vm"
  shows "wait_page_lock pg vm = Inr ()"
proof -
  have "page_of p < length (page_locks vm)" using inv_parts(2) [OF assms(1)] assms(2) by (simp add: region_ok_def counted_def)
  moreover have "page_locks vm ! page_of p = 0" using calculation assms(4) nth_mem by (fastforce simp: unlocked_def)
  ultimately show ?thesis using assms(3) by (simp add: wait_page_lock_def)
qed

text \<open>The two ways to make a shared entry writable.\<close>

definition taken_lock :: "u32 \<Rightarrow> vm \<Rightarrow> vm" where
  "taken_lock p vm = vm\<lparr>page_locks := (page_locks vm)[page_of p := page_locks vm ! page_of p + 1]\<rparr>"

lemma cow_copy_start:
  assumes inv: "vm_inv R X D T P k C vm" and c: "c \<in> C" "present (ent vm c)" "\<not> writable (ent vm c)" and ul: "unlocked vm"
  defines "p \<equiv> frame_of (ent vm c)" and "pg \<equiv> ent vm c div FRAME_SIZE"
  shows "rcount vm p = 1 \<Longrightarrow> cow_copy (cell c) b vm = Inr (poke (cell c) (ent vm c OR FLAG_RW) (set_count p 0 vm))"
    "1 < rcount vm p \<Longrightarrow> cow_copy (cell c) b vm =
      bind_ok (vm_alloc (taken_lock p (set_count p (rcount vm p - 1) vm))) (\<lambda>(f, vm).
        let current = peek vm (cell c) AND PG_NUM_MASK
        in bind_ok (if b then ref_loop f current 1024 0 vm else Inr (vm_memcpy f current FRAME_SIZE vm)) (\<lambda>vm.
           bind_ok (add_page_lock pg (- 1) vm) (\<lambda>vm. Inr (poke (cell c) (f OR (peek vm (cell c) AND FLAGS_MASK) OR FLAG_RW) vm))))"
proof -
  note w = inv_without [OF inv c(1,2), folded p_def]
  have pg: "page_of p = unat pg" by (simp add: p_def pg_def)
  have e: "peek vm (cell c) = ent vm c" by (simp add: ent_def)
  have lock: "add_page_lock pg 1 vm = Inr (taken_lock p vm)" using lock_page [OF inv w(1) pg] by (simp add: taken_lock_def)
  have inv1: "vm_inv R X D T P k C (taken_lock p vm)" using inv_locks [OF inv] by (simp add: taken_lock_def)
  have cnt: "counted (taken_lock p vm) p" "rcount (taken_lock p vm) p = rcount vm p"
    using w(1) by (simp_all add: taken_lock_def set_locks)
  have swap: "set_count p n (taken_lock p vm) = taken_lock p (set_count p n vm)" for n
    by (simp add: taken_lock_def set_locks)
  have down: "add_ref_count pg (- 1) (taken_lock p vm) = Inr (of_nat (rcount vm p - 1), taken_lock p (set_count p (rcount vm p - 1) vm))"
    using count_down [OF cnt(1) pg] w(3) [OF c(3)] by (simp add: cnt(2) swap)
  have small: "rcount vm p - 1 < 4294967296" using inv_rcount [OF inv, of p] by linarith
  {
    assume one: "rcount vm p = 1"
    have inv2: "vm_inv R X D T P k (C - {c}) (set_count p 0 vm)" using w(3) [OF c(3)] one by simp
    have inv3: "vm_inv R X D T P k (C - {c}) (taken_lock p (set_count p 0 vm))" using inv_locks [OF inv2] by (simp add: taken_lock_def)
    have "add_page_lock pg (- 1) (taken_lock p (set_count p 0 vm)) = Inr (set_count p 0 vm)"
      using unlock_page [OF inv3 _ pg, of "page_locks vm"] w(1) by (simp add: taken_lock_def set_locks)
    moreover have "wait_page_lock pg (set_count p 0 vm) = Inr ()"
      using free_lock [OF inv2 _ pg] w(1) ul by (simp add: unlocked_def)
    moreover have "peek (set_count p 0 vm) (cell c) = ent vm c" by (simp add: ent_def peek_def)
    ultimately show "cow_copy (cell c) b vm = Inr (poke (cell c) (ent vm c OR FLAG_RW) (set_count p 0 vm))"
      using c(2,3) lock down one by (simp add: cow_copy_def e entry_flags pg_def [symmetric])
  }
  assume two: "1 < rcount vm p"
  have n: "unat pointers_per_frame = 1024" by (simp add: mask_values)
  have "(of_nat (rcount vm p - 1) :: u32) \<noteq> 0"
  proof
    assume "(of_nat (rcount vm p - 1) :: u32) = 0"
    then have "unat (of_nat (rcount vm p - 1) :: u32) = 0" by simp
    moreover have "unat (of_nat (rcount vm p - 1) :: u32) = rcount vm p - 1" using small by (intro unat_of_nat_exact) simp
    ultimately show False using two by simp
  qed
  then show "cow_copy (cell c) b vm =
      bind_ok (vm_alloc (taken_lock p (set_count p (rcount vm p - 1) vm))) (\<lambda>(f, vm).
        let current = peek vm (cell c) AND PG_NUM_MASK
        in bind_ok (if b then ref_loop f current 1024 0 vm else Inr (vm_memcpy f current FRAME_SIZE vm)) (\<lambda>vm.
           bind_ok (add_page_lock pg (- 1) vm) (\<lambda>vm. Inr (poke (cell c) (f OR (peek vm (cell c) AND FLAGS_MASK) OR FLAG_RW) vm))))"
    using c(2,3) lock down unfolding cow_copy_def n by (simp add: e entry_flags pg_def [symmetric])
qed

definition same_map :: "u32 \<Rightarrow> u32 \<Rightarrow> bool" where
  "same_map e e' \<longleftrightarrow> present e' = present e \<and> (present e \<longrightarrow> frame_of e' = frame_of e)"

lemma same_map_refl [simp]: "same_map e e" "same_map e (shared_entry e)" "same_map e (new_reference e)" "same_map e (e OR FLAG_RW)"
  by (simp_all add: same_map_def shared_entry_def new_reference_def)

definition frames_full :: "vm_region \<Rightarrow> u32 set \<Rightarrow> bool" where
  "frames_full R out \<longleftrightarrow> card out = unat (rg_bytes R) div 4096"

text \<open>The last holder of a shared entry makes it writable in place.\<close>

lemma flip_entry:
  assumes inv: "vm_inv R X D T P k C vm" and c: "c \<in> C" "present (ent vm c)" "\<not> writable (ent vm c)"
    and one: "rcount vm (frame_of (ent vm c)) = 1"
  shows "vm_inv R X D T P k C (poke (cell c) (ent vm c OR FLAG_RW) (set_count (frame_of (ent vm c)) 0 vm))"
proof -
  let ?p = "frame_of (ent vm c)"
  note w = inv_without(3) [OF inv c(1,2) c(3)]
  have i: "vm_inv R X D T P k (C - {c}) (set_count ?p 0 vm)" and r: "refs (ent vm) (C - {c}) ?p = {}" and z: "?p \<noteq> rg_zero R"
    using w one by auto
  have kd: "(fst c \<in> D \<longrightarrow> ?p \<in> T) \<and> (fst c \<in> T \<longrightarrow> ?p \<in> P)"
    using inv_parts(3) [OF inv] c(1,2) z by (auto simp: kinds_def)
  have "vm_inv R X D T P k (insert c (C - {c})) (poke (cell c) (ent vm c OR FLAG_RW) (set_count ?p 0 vm))"
    by (rule inv_restore [OF i]) (use inv_cell [OF inv c(1)] r kd in auto)
  then show ?thesis using c(1) by (simp add: insert_absorb)
qed

text \<open>A new page table shares the entries of another and becomes the table of an entry that was taken out.\<close>

lemma new_table:
  assumes inv: "vm_inv R (insert f X) D T P k (C - {c}) vm" and f: "f \<notin> insert (rg_zero R) (rg_static R \<union> D \<union> T \<union> P \<union> X)"
    and c: "c \<in> C" "is_cell c" "fst c \<in> D" and t: "t \<in> T" "{t} \<times> {..<1024} \<subseteq> C"
    and empty: "\<forall>j < 1024. ent vm (f, j) = 0" and v: "present v" "writable v" "frame_of v = f"
  shows "\<exists>vm'. ref_loop f t 1024 0 vm = Inr vm' \<and> page_locks vm' = page_locks vm
    \<and> vm_inv R X D (insert f T) P k (C \<union> {f} \<times> {..<1024} - {c}) vm'
    \<and> vm_inv R X D (insert f T) P k (C \<union> {f} \<times> {..<1024}) (poke (cell c) v vm')
    \<and> (\<forall>d. is_cell d \<longrightarrow> ent vm' d = (if fst d = t then shared_entry (ent vm d)
         else if fst d = f then new_reference (ent vm (t, snd d)) else ent vm d))
    \<and> (\<forall>a. \<not> in_frame t a \<longrightarrow> \<not> in_frame f a \<longrightarrow> vm_mem vm' a = vm_mem vm a)"
proof -
  let ?C = "C \<union> {f} \<times> {..<1024}"
  note i = inv_parts [OF inv]
  have ft: "f \<noteq> t" "t \<notin> D" "fst c \<noteq> f" using t(1) f i(5) c(3) by auto
  have C: "(C - {c}) \<union> {f} \<times> {..<1024} = ?C - {c}" "insert c (?C - {c}) = ?C" using ft(3) c(1) by auto
  have inv1: "vm_inv R X D (insert f T) P k (?C - {c}) vm"
    using adopt_table [OF inv] f empty unfolding C by simp
  have "\<exists>vm'. ref_loop f t 1024 0 vm = Inr vm' \<and> vm_inv R X D (insert f T) P k (?C - {c}) vm' \<and> page_locks vm' = page_locks vm
     \<and> (\<forall>d. is_cell d \<longrightarrow> ent vm' d = (if fst d = t \<and> 0 \<le> snd d then shared_entry (ent vm d)
          else if fst d = f \<and> 0 \<le> snd d then new_reference (ent vm (t, snd d)) else ent vm d))
     \<and> (\<forall>a. \<not> in_frame t a \<longrightarrow> \<not> in_frame f a \<longrightarrow> vm_mem vm' a = vm_mem vm a)" (is "\<exists>vm'. ?Q vm'")
  proof (rule ref_loop_ok [OF inv1 ft(1)])
    show "(f, j) \<in> ?C - {c} \<and> (t, j) \<in> ?C - {c} \<and> \<not> present (ent vm (f, j))" if "j < 1024" for j
    proof -
      have "(t, j) \<in> C" "(t, j) \<noteq> c" "(f, j) \<noteq> c" using t that ft c(3) by auto
      then show ?thesis using empty that by simp
    qed
  qed (use t(1) in simp_all)
  then obtain vm' where "?Q vm'" ..
  then have l: "ref_loop f t 1024 0 vm = Inr vm'" "vm_inv R X D (insert f T) P k (?C - {c}) vm'"
      "page_locks vm' = page_locks vm"
      "\<And>d. is_cell d \<Longrightarrow> ent vm' d = (if fst d = t then shared_entry (ent vm d)
         else if fst d = f then new_reference (ent vm (t, snd d)) else ent vm d)"
      "\<And>a. \<not> in_frame t a \<Longrightarrow> \<not> in_frame f a \<Longrightarrow> vm_mem vm' a = vm_mem vm a" by (simp_all cong: if_cong)
  have "frame_of (ent vm' d) \<noteq> f" if d: "d \<in> ?C - {c}" "present (ent vm' d)" for d
  proof (cases "fst d \<in> D")
    case True
    then have "fst d \<noteq> t" "fst d \<noteq> f" using ft f by auto
    then have e: "ent vm' d = ent vm d" using l(4) [OF inv_cell(1) [OF l(2) d(1)]] by simp
    have "d \<in> C - {c}" using d(1) \<open>fst d \<noteq> f\<close> by auto
    then have "frame_of (ent vm d) \<in> T" using kindsD(1) [OF i(3) _ _ True] d(2) unfolding e by simp
    then show ?thesis using f unfolding e by auto
  next
    case False
    then have "fst d \<in> insert f T" using inv_cell(2) [OF l(2) d(1)] by simp
    from kindsD(2) [OF inv_parts(3) [OF l(2)] d this] show ?thesis using f by auto
  qed
  then have "refs (ent vm') (?C - {c}) f = {}" by (auto simp: refs_def)
  moreover have "fst c \<notin> insert f T" using c(3) ft(3) i(5) by auto
  ultimately have "vm_inv R X D (insert f T) P k (insert c (?C - {c})) (poke (cell c) v vm')"
    using v c(3) by (intro inv_restore [OF l(2) _ c(2)]) simp_all
  then have "vm_inv R X D (insert f T) P k ?C (poke (cell c) v vm')" unfolding C(2) .
  then show ?thesis by (intro exI [of _ vm'] conjI allI impI l)
qed

text \<open>What it means that an entry of a directory is writable afterwards and its page table \<open>t'\<close> is its own.\<close>

definition own_table ::
    "vm_region \<Rightarrow> u32 set \<Rightarrow> u32 set \<Rightarrow> u32 set \<Rightarrow> u32 set \<Rightarrow> nat \<Rightarrow> (u32 \<times> nat) set \<Rightarrow> u32 \<times> nat \<Rightarrow> u32 \<Rightarrow> vm \<Rightarrow> vm \<Rightarrow> bool" where
  "own_table R X D T P k C c t' vm vm' \<longleftrightarrow> vm_inv R X D (insert t' T) P k (C \<union> {t'} \<times> {..<1024}) vm'
     \<and> page_locks vm' = page_locks vm \<and> present (ent vm' c) \<and> writable (ent vm' c) \<and> frame_of (ent vm' c) = t'
     \<and> (t' = frame_of (ent vm c) \<or> t' \<notin> insert (rg_zero R) (rg_static R \<union> D \<union> T \<union> P \<union> X)
          \<and> refs (ent vm) (C - {c}) (frame_of (ent vm c)) \<noteq> {})
     \<and> (\<forall>d. is_cell d \<longrightarrow> d \<noteq> c \<longrightarrow> fst d \<in> D \<longrightarrow> ent vm' d = ent vm d)
     \<and> (\<forall>d. is_cell d \<longrightarrow> fst d \<in> T \<longrightarrow> same_map (ent vm d) (ent vm' d))
     \<and> (\<forall>j < 1024. same_map (ent vm (frame_of (ent vm c), j)) (ent vm' (t', j)))
     \<and> (\<forall>a. \<forall>p \<in> insert (rg_zero R) (rg_static R \<union> P \<union> X). in_frame p a \<longrightarrow> vm_mem vm' a = vm_mem vm a)"

lemma tables_apart:
  assumes inv: "vm_inv R X D T P k C vm" and "f \<in> D \<union> T" "p \<in> insert (rg_zero R) (rg_static R \<union> P \<union> X)" "in_frame p a"
  shows "\<not> in_frame f a"
proof -
  have "f \<noteq> p" using assms(2,3) inv_parts(6) [OF inv] inv_static_apart [OF inv, of p] by auto
  then show ?thesis using frames_apart [of p f a] assms vm_aligned [OF inv] by blast
qed

lemma others_hold:
  assumes inv: "vm_inv R X D T P k C vm" and c: "c \<in> C" "present (ent vm c)" "\<not> writable (ent vm c)"
  defines "p \<equiv> frame_of (ent vm c)"
  assumes two: "1 < rcount vm p"
  shows "refs (ent vm) (C - {c}) p \<noteq> {} \<or> p = rg_zero R"
proof -
  note w = inv_without [OF inv c(1,2), folded p_def]
  let ?vm = "set_count p (rcount vm p - 1) vm"
  have "rcount ?vm p = rcount vm p - 1" using rcount_set [OF w(1)] inv_rcount [OF inv, of p] by simp
  moreover have "rcount ?vm p = card (ro_refs (ent vm) (C - {c}) p) + zero_refs R k p"
    using accountedD(1) [OF inv_parts(4)] w(3) [OF c(3)] by fastforce
  ultimately have "0 < card (ro_refs (ent vm) (C - {c}) p) + zero_refs R k p" using two by linarith
  then show ?thesis by (auto simp: zero_refs_def ro_refs_def split: if_splits)
qed

text \<open>The copy of an entry that others still share starts with a new frame \<open>f\<close> and ends with the new entry.\<close>

lemma copy_alloc:
  assumes inv: "vm_inv R X D T P k C vm" and c: "c \<in> C" "present (ent vm c)" "\<not> writable (ent vm c)" and ul: "unlocked vm"
  defines "t \<equiv> frame_of (ent vm c)"
  assumes two: "1 < rcount vm t" and free: "\<not> frames_full R (D \<union> T \<union> P \<union> X)"
  obtains f vm2 where "f \<notin> insert (rg_zero R) (rg_static R \<union> D \<union> T \<union> P \<union> X)" "offset f = 0"
    "vm_inv R (insert f X) D T P k (C - {c}) vm2" "length (page_locks vm2) = length (page_locks vm)"
    "\<And>d. is_cell d \<Longrightarrow> ent vm2 d = (if fst d = f then 0 else ent vm d)"
    "\<And>a. vm_mem vm2 a = (if in_frame f a then 0 else vm_mem vm a)"
    "\<And>vm3 X' D' T' P' C'. (if b then ref_loop f t 1024 0 vm2 else Inr (vm_memcpy f t FRAME_SIZE vm2)) = Inr vm3 \<Longrightarrow>
      vm_inv R X' D' T' P' k C' vm3 \<Longrightarrow> counted vm3 t \<Longrightarrow> page_locks vm3 = page_locks vm2 \<Longrightarrow> ent vm3 c = ent vm c \<Longrightarrow>
      cow_copy (cell c) b vm =
        Inr ((poke (cell c) (f OR (ent vm c AND FLAGS_MASK) OR FLAG_RW) vm3)\<lparr>page_locks := page_locks vm\<rparr>)"
proof -
  note cc = inv_cell [OF inv c(1)]
  let ?vm1 = "taken_lock t (set_count t (rcount vm t - 1) vm)"
  have e1: "ent ?vm1 = ent vm" by (simp add: taken_lock_def set_locks)
  have inv1: "vm_inv R X D T P k (C - {c}) ?vm1"
    using inv_without(3) [OF inv c] inv_locks by (simp add: t_def taken_lock_def)
  obtain f vm2 where f: "vm_alloc ?vm1 = Inr (f, vm2)" "f \<notin> insert (rg_zero R) (rg_static R \<union> D \<union> T \<union> P \<union> X)"
      "vm_inv R (insert f X) D T P k (C - {c}) vm2" "page_locks vm2 = page_locks ?vm1"
      "\<And>d. is_cell d \<Longrightarrow> ent vm2 d = (if fst d = f then 0 else ent vm d)"
      "\<And>a. vm_mem vm2 a = (if in_frame f a then 0 else vm_mem ?vm1 a)"
    using vm_alloc_ok [OF inv1] free unfolding e1 by (auto simp: frames_full_def)
  have f0: "offset f = 0" using vm_aligned [OF f(3)] by simp
  have "fst c \<noteq> f" using cc(2) f(2) by auto
  then have cur: "peek vm2 (cell c) AND PG_NUM_MASK = t" using f(5) [OF cc(1)] by (simp add: ent_def t_def frame_of_def)
  show thesis
  proof (rule that [OF f(2) f0 f(3)])
    show "length (page_locks vm2) = length (page_locks vm)" using f(4) by (simp add: taken_lock_def)
    show "vm_mem vm2 a = (if in_frame f a then 0 else vm_mem vm a)" for a using f(6) by (simp add: taken_lock_def)
    fix vm3 X' D' T' P' C'
    assume l: "(if b then ref_loop f t 1024 0 vm2 else Inr (vm_memcpy f t FRAME_SIZE vm2)) = Inr vm3"
      and inv3: "vm_inv R X' D' T' P' k C' vm3" "counted vm3 t" "page_locks vm3 = page_locks vm2" "ent vm3 c = ent vm c"
    have "add_page_lock (ent vm c div FRAME_SIZE) (- 1) vm3 = Inr (vm3\<lparr>page_locks := page_locks vm\<rparr>)"
      using inv3(2,3) f(4) by (intro unlock_page [OF inv3(1), of t]) (simp_all add: t_def taken_lock_def)
    moreover have "peek (vm3\<lparr>page_locks := page_locks vm\<rparr>) (cell c) = ent vm c" using inv3(4) by (simp add: ent_def peek_def)
    ultimately show "cow_copy (cell c) b vm =
        Inr ((poke (cell c) (f OR (ent vm c AND FLAGS_MASK) OR FLAG_RW) vm3)\<lparr>page_locks := page_locks vm\<rparr>)"
      unfolding cow_copy_start(2) [OF inv c ul, folded t_def, OF two, of b] f(1) by (simp add: cur l set_locks)
  qed (use f(5) in simp)
qed

lemma copy_new_table:
  assumes inv: "vm_inv R X D T P k C vm" and c: "c \<in> C" "fst c \<in> D" "present (ent vm c)" and ul: "unlocked vm"
    and ro: "\<not> writable (ent vm c)"
  defines "t \<equiv> frame_of (ent vm c)"
  assumes tc: "{t} \<times> {..<1024} \<subseteq> C" and two: "1 < rcount vm t" and free: "\<not> frames_full R (D \<union> T \<union> P \<union> X)"
  shows "\<exists>vm' t'. cow_copy (cell c) True vm = Inr vm' \<and> own_table R X D T P k C c t' vm vm'"
proof -
  note i = inv_parts [OF inv]
  note cc = inv_cell [OF inv c(1)]
  have tT: "t \<in> T" using kindsD(1) [OF i(3) c(1,3,2)] by (simp add: t_def)
  obtain f vm2 where f: "f \<notin> insert (rg_zero R) (rg_static R \<union> D \<union> T \<union> P \<union> X)" "offset f = 0"
    "vm_inv R (insert f X) D T P k (C - {c}) vm2" "length (page_locks vm2) = length (page_locks vm)"
    "\<And>d. is_cell d \<Longrightarrow> ent vm2 d = (if fst d = f then 0 else ent vm d)"
    "\<And>a. vm_mem vm2 a = (if in_frame f a then 0 else vm_mem vm a)"
    "\<And>vm3 X' D' T' P' C'. (if True then ref_loop f t 1024 0 vm2 else Inr (vm_memcpy f t FRAME_SIZE vm2)) = Inr vm3 \<Longrightarrow>
      vm_inv R X' D' T' P' k C' vm3 \<Longrightarrow> counted vm3 t \<Longrightarrow> page_locks vm3 = page_locks vm2 \<Longrightarrow> ent vm3 c = ent vm c \<Longrightarrow>
      cow_copy (cell c) True vm =
        Inr ((poke (cell c) (f OR (ent vm c AND FLAGS_MASK) OR FLAG_RW) vm3)\<lparr>page_locks := page_locks vm\<rparr>)"
    using copy_alloc [OF inv c(1,3) ro ul _ free, folded t_def, OF two, of True] by blast
  let ?v = "f OR (ent vm c AND FLAGS_MASK) OR FLAG_RW"
  note v = new_entry [OF f(2), of "ent vm c"]
  have z: "\<forall>j < 1024. ent vm2 (f, j) = 0" using f(2,5) by (simp add: is_cell_def)
  obtain vm3 where l: "ref_loop f t 1024 0 vm2 = Inr vm3" "page_locks vm3 = page_locks vm2"
      "vm_inv R X D (insert f T) P k (C \<union> {f} \<times> {..<1024} - {c}) vm3"
      "vm_inv R X D (insert f T) P k (C \<union> {f} \<times> {..<1024}) (poke (cell c) ?v vm3)"
      "\<forall>d. is_cell d \<longrightarrow> ent vm3 d = (if fst d = t then shared_entry (ent vm2 d)
         else if fst d = f then new_reference (ent vm2 (t, snd d)) else ent vm2 d)"
      "\<forall>a. \<not> in_frame t a \<longrightarrow> \<not> in_frame f a \<longrightarrow> vm_mem vm3 a = vm_mem vm2 a"
    using new_table [OF f(3,1) c(1) cc(1) c(2) tT tc z, of ?v] v c(3) by blast
  have tD: "t \<noteq> f" "fst c \<noteq> t" "fst c \<noteq> f" using tT f(1) c(2) i(5) by auto
  have e3: "ent vm3 d = (if fst d = t then shared_entry (ent vm d)
      else if fst d = f then new_reference (ent vm (t, snd d)) else ent vm d)" if d: "is_cell d" for d
  proof -
    have "is_cell (t, snd d)" using d by (simp add: is_cell_def t_def)
    then show ?thesis using l(5) d f(5) tD(1) by simp
  qed
  let ?vm = "(poke (cell c) ?v vm3)\<lparr>page_locks := page_locks vm\<rparr>"
  have res: "cow_copy (cell c) True vm = Inr ?vm"
    by (rule f(7)) (use l(1,2,3) vm_counted [OF l(3)] tT e3 [OF cc(1)] tD in simp_all)
  have "own_table R X D T P k C c f vm ?vm"
    unfolding own_table_def t_def [symmetric]
  proof (intro conjI allI impI ballI)
    show "vm_inv R X D (insert f T) P k (C \<union> {f} \<times> {..<1024}) ?vm"
      using l(2,4) f(4) by (intro inv_locks) simp_all
    have ev: "ent ?vm d = (if d = c then ?v else ent vm3 d)" if "is_cell d" for d
      using peek_poke [OF cc(1) that] by (simp add: set_locks)
    show "present (ent ?vm c)" "writable (ent ?vm c)" "frame_of (ent ?vm c) = f" using ev [OF cc(1)] v c(3) by simp_all
    have "t \<noteq> rg_zero R" using tT inv_zero_apart [OF inv] by auto
    then show "f = t \<or> f \<notin> insert (rg_zero R) (rg_static R \<union> D \<union> T \<union> P \<union> X) \<and> refs (ent vm) (C - {c}) t \<noteq> {}"
      using f(1) others_hold [OF inv c(1,3) ro, folded t_def, OF two] by simp
    show "ent ?vm d = ent vm d" if "is_cell d" "d \<noteq> c" "fst d \<in> D" for d
      using ev [OF that(1)] e3 [OF that(1)] that(2,3) tT f(1) i(5) by auto
    show "same_map (ent vm d) (ent ?vm d)" if "is_cell d" "fst d \<in> T" for d
      using ev [OF that(1)] e3 [OF that(1)] that(2) c(2) f(1) i(5) by auto
    show "same_map (ent vm (t, j)) (ent ?vm (f, j))" if "j < 1024" for j
      using ev [of "(f, j)"] e3 [of "(f, j)"] that f(2) tD by (auto simp: is_cell_def)
    show "vm_mem ?vm a = vm_mem vm a" if "p \<in> insert (rg_zero R) (rg_static R \<union> P \<union> X)" "in_frame p a" for p a
    proof -
      have "p \<noteq> f" using that(1) f(1) by auto
      then have "\<not> in_frame f a" using frames_apart [of p f a] that f(2) vm_aligned [OF inv] by blast
      then show ?thesis using tables_apart [OF inv _ that, of t] tables_apart [OF inv cc(2) that] tT
          poke_elsewhere [OF cc(1), of a ?v vm3] l(6) f(6) by simp
    qed
  qed simp_all
  then show ?thesis using res by blast
qed

lemma frame_byte:
  assumes "offset p = 0" "j < 4096"
  shows "in_frame p (p + of_nat j)"
proof -
  have "unat (of_nat j :: u32) = j" using assms(2) by (intro unat_of_nat_exact) simp
  then have "unat (p + of_nat j) = unat p + j" using frame_room [OF assms(1)] assms(2) by (subst unat_plus_exact) simp_all
  then show ?thesis using assms(2) by (simp add: in_frame_def)
qed

lemma copy_cases:
  assumes "vm_inv R X D T P k C vm" "c \<in> C" "present (ent vm c)"
  obtains "writable (ent vm c)" | "\<not> writable (ent vm c)" "rcount vm (frame_of (ent vm c)) = 1"
    | "\<not> writable (ent vm c)" "1 < rcount vm (frame_of (ent vm c))"
  using inv_without(3) [OF assms] by fastforce

lemma copy_nothing: "writable (ent vm c) \<Longrightarrow> cow_copy (cell c) b vm = Inr vm"
  by (simp add: cow_copy_def entry_flags ent_def [symmetric])

lemma copy_full:
  assumes inv: "vm_inv R X D T P k C vm" and c: "c \<in> C" "present (ent vm c)" "\<not> writable (ent vm c)" and ul: "unlocked vm"
    and two: "1 < rcount vm (frame_of (ent vm c))" and full: "frames_full R (D \<union> T \<union> P \<union> X)"
  shows "cow_copy (cell c) b vm = Inl Panic"
proof -
  let ?t = "frame_of (ent vm c)"
  have "vm_inv R X D T P k (C - {c}) (taken_lock ?t (set_count ?t (rcount vm ?t - 1) vm))"
    using inv_without(3) [OF inv c] inv_locks by (simp add: taken_lock_def)
  from vm_alloc_ok [OF this] full cow_copy_start(2) [OF inv c ul two, of b] show ?thesis by (simp add: frames_full_def)
qed

lemma cow_copy_table:
  assumes inv: "vm_inv R X D T P k C vm" and c: "c \<in> C" "fst c \<in> D" "present (ent vm c)" and ul: "unlocked vm"
    and tc: "{frame_of (ent vm c)} \<times> {..<1024} \<subseteq> C"
  shows "cow_copy (cell c) True vm = Inl Panic \<and> frames_full R (D \<union> T \<union> P \<union> X) \<or>
    (\<exists>vm' t'. cow_copy (cell c) True vm = Inr vm' \<and> own_table R X D T P k C c t' vm vm')"
proof -
  let ?t = "frame_of (ent vm c)"
  note cc = inv_cell [OF inv c(1)]
  have "?t \<in> T" using kindsD(1) [OF inv_parts(3) [OF inv] c(1,3,2)] .
  then have CC: "C \<union> {?t} \<times> {..<1024} = C" "insert ?t T = T" using tc by auto
  show ?thesis
  proof (cases rule: copy_cases [OF inv c(1,3)])
    case 1
    then have "own_table R X D T P k C c ?t vm vm" using inv c(3) unfolding own_table_def CC by simp
    then show ?thesis using copy_nothing [OF 1] by blast
  next
    case 2
    let ?vm = "poke (cell c) (ent vm c OR FLAG_RW) (set_count ?t 0 vm)"
    have e: "ent ?vm d = (if d = c then ent vm c OR FLAG_RW else ent vm d)" if "is_cell d" for d
      using peek_poke [OF cc(1) that] by simp
    have "own_table R X D T P k C c ?t vm ?vm"
      unfolding own_table_def CC
    proof (intro conjI allI impI ballI)
      show "vm_inv R X D T P k C ?vm" using flip_entry [OF inv c(1,3) 2] .
      show "vm_mem ?vm a = vm_mem vm a" if "p \<in> insert (rg_zero R) (rg_static R \<union> P \<union> X)" "in_frame p a" for p a
        using poke_elsewhere [OF cc(1)] tables_apart [OF inv cc(2) that] by simp
      show "same_map (ent vm (?t, j)) (ent ?vm (?t, j))" if "j < 1024" for j
        using e [of "(?t, j)"] that by (simp add: is_cell_def)
    qed (use e c(3) cc(1) in simp_all)
    then show ?thesis using cow_copy_start(1) [OF inv c(1,3) 2(1) ul 2(2)] by blast
  next
    case 3
    show ?thesis
    proof (cases "frames_full R (D \<union> T \<union> P \<union> X)")
      case True
      then show ?thesis using copy_full [OF inv c(1,3) 3(1) ul 3(2)] by simp
    next
      case False
      then show ?thesis using copy_new_table [OF inv c ul 3(1) tc 3(2)] by simp
    qed
  qed
qed

text \<open>What it means that an entry of a page table is writable afterwards and its page \<open>p'\<close> is its own.\<close>

definition own_page ::
    "vm_region \<Rightarrow> u32 set \<Rightarrow> u32 set \<Rightarrow> u32 set \<Rightarrow> u32 set \<Rightarrow> nat \<Rightarrow> (u32 \<times> nat) set \<Rightarrow> u32 \<times> nat \<Rightarrow> u32 \<Rightarrow> vm \<Rightarrow> vm \<Rightarrow> bool" where
  "own_page R X D T P k C c p' vm vm' \<longleftrightarrow> vm_inv R X D T (insert p' P) k C vm'
     \<and> page_locks vm' = page_locks vm \<and> present (ent vm' c) \<and> writable (ent vm' c) \<and> frame_of (ent vm' c) = p'
     \<and> (p' = frame_of (ent vm c) \<or> p' \<notin> insert (rg_zero R) (rg_static R \<union> D \<union> T \<union> P \<union> X)
          \<and> (refs (ent vm) (C - {c}) (frame_of (ent vm c)) \<noteq> {} \<or> frame_of (ent vm c) = rg_zero R))
     \<and> (\<forall>d. is_cell d \<longrightarrow> d \<noteq> c \<longrightarrow> fst d \<in> D \<union> T \<longrightarrow> ent vm' d = ent vm d)
     \<and> (\<forall>j < 4096. vm_mem vm' (p' + of_nat j) = vm_mem vm (frame_of (ent vm c) + of_nat j))
     \<and> (\<forall>a. \<forall>p \<in> insert (rg_zero R) (rg_static R \<union> P \<union> X). in_frame p a \<longrightarrow> vm_mem vm' a = vm_mem vm a)"

text \<open>Writing to a page or to another frame leaves all entries alone.\<close>

definition set_mem :: "memory \<Rightarrow> vm \<Rightarrow> vm" where
  "set_mem m vm = vm\<lparr>vm_phys := (vm_phys vm)\<lparr>pm_mem := m\<rparr>\<rparr>"

lemma inv_write:
  assumes inv: "vm_inv R X D T P k C vm" and q: "q \<in> P \<union> X" and m: "\<And>a. \<not> in_frame q a \<Longrightarrow> m a = vm_mem vm a"
  shows "vm_inv R X D T P k C (set_mem m vm)"
    "\<And>d. is_cell d \<Longrightarrow> fst d \<noteq> q \<Longrightarrow> ent (set_mem m vm) d = ent vm d"
proof -
  have q0: "offset q = 0" using vm_aligned [OF inv] q by blast
  show e: "ent (set_mem m vm) d = ent vm d" if d: "is_cell d" "fst d \<noteq> q" for d
  proof (rule ent_cong [OF d(1)])
    fix a assume "in_frame (fst d) a"
    then have "\<not> in_frame q a" using frames_apart [of "fst d" q a] d q0 by (simp add: is_cell_def)
    then show "vm_mem (set_mem m vm) a = vm_mem vm a" using m by (simp add: set_mem_def)
  qed
  have same: "ent (set_mem m vm) d = ent vm d" if "d \<in> C" for d
    using e [OF inv_cell(1) [OF inv that]] inv_cell(2) [OF inv that] inv_parts(6) [OF inv] q by blast
  show "vm_inv R X D T P k C (set_mem m vm)"
  proof (rule inv_change [OF inv])
    have "pm_inv (rg_start R) (rg_bytes R) ((vm_phys vm)\<lparr>pm_mem := m\<rparr>) (D \<union> T \<union> P \<union> X)"
      by (rule pm_inv_write [OF inv_parts(1) [OF inv]]) (use m q in blast)
    then show "pm_inv (rg_start R) (rg_bytes R) (vm_phys (set_mem m vm)) (D \<union> T \<union> P \<union> X)" by (simp add: set_mem_def)
    show "vm_mem (set_mem m vm) a = vm_mem vm a" if "in_frame (rg_zero R) a" for a
      using zero_apart [OF inv _ that, of q] q m by (auto simp: set_mem_def)
    show "kinds D T (insert (rg_zero R) P) C (ent (set_mem m vm))" using inv_parts(3) [OF inv] same by (simp add: kinds_def)
    have "rcount (set_mem m vm) = rcount vm" by (simp add: rcount_def counted_def set_mem_def fun_eq_iff)
    then show "accounted (zero_refs R k) C (ent (set_mem m vm)) (rcount (set_mem m vm))"
      using inv_parts(4) [OF inv] accounted_cong [of C "ent (set_mem m vm)" "ent vm"] same by metis
  qed (use inv_parts(5-9) [OF inv] in \<open>simp_all add: set_mem_def\<close>)
qed

lemma copy_new_page:
  assumes inv: "vm_inv R X D T P k C vm" and c: "c \<in> C" "fst c \<in> T" "present (ent vm c)" and ul: "unlocked vm"
    and ro: "\<not> writable (ent vm c)"
  defines "t \<equiv> frame_of (ent vm c)"
  assumes two: "1 < rcount vm t" and free: "\<not> frames_full R (D \<union> T \<union> P \<union> X)"
  shows "\<exists>vm' p'. cow_copy (cell c) False vm = Inr vm' \<and> own_page R X D T P k C c p' vm vm'"
proof -
  note i = inv_parts [OF inv]
  note cc = inv_cell [OF inv c(1)]
  have tP: "t \<in> insert (rg_zero R) P" using kindsD(2) [OF i(3) c(1,3,2)] by (simp add: t_def)
  obtain f vm2 where f: "f \<notin> insert (rg_zero R) (rg_static R \<union> D \<union> T \<union> P \<union> X)" "offset f = 0"
    "vm_inv R (insert f X) D T P k (C - {c}) vm2" "length (page_locks vm2) = length (page_locks vm)"
    "\<And>d. is_cell d \<Longrightarrow> ent vm2 d = (if fst d = f then 0 else ent vm d)"
    "\<And>a. vm_mem vm2 a = (if in_frame f a then 0 else vm_mem vm a)"
    "\<And>vm3 X' D' T' P' C'. (if False then ref_loop f t 1024 0 vm2 else Inr (vm_memcpy f t FRAME_SIZE vm2)) = Inr vm3 \<Longrightarrow>
      vm_inv R X' D' T' P' k C' vm3 \<Longrightarrow> counted vm3 t \<Longrightarrow> page_locks vm3 = page_locks vm2 \<Longrightarrow> ent vm3 c = ent vm c \<Longrightarrow>
      cow_copy (cell c) False vm =
        Inr ((poke (cell c) (f OR (ent vm c AND FLAGS_MASK) OR FLAG_RW) vm3)\<lparr>page_locks := page_locks vm\<rparr>)"
    using copy_alloc [OF inv c(1,3) ro ul _ free, folded t_def, OF two, of False] by blast
  let ?v = "f OR (ent vm c AND FLAGS_MASK) OR FLAG_RW"
  note v = new_entry [OF f(2), of "ent vm c"]
  define m where "m = memcpy f t FRAME_SIZE (vm_mem vm2)"
  have outside: "\<not> in_frame f a \<Longrightarrow> m a = vm_mem vm2 a" for a by (auto simp: m_def memcpy_def in_frame_def)
  have inside: "m (f + of_nat j) = vm_mem vm (t + of_nat j)" if "j < 4096" for j
  proof -
    have "in_frame t (t + of_nat j)" using frame_byte [OF _ that, of t] vm_aligned [OF inv] tP by blast
    then have "\<not> in_frame f (t + of_nat j)" using frames_apart [of t f] f(1,2) tP vm_aligned [OF inv] by blast
    then have "vm_mem vm2 (t + of_nat j) = vm_mem vm (t + of_nat j)" using f(6) by simp
    then show ?thesis using frame_byte [OF f(2) that] by (simp add: m_def memcpy_def in_frame_def)
  qed
  have cp: "vm_memcpy f t FRAME_SIZE vm2 = set_mem m vm2" by (simp add: vm_memcpy_def set_mem_def m_def)
  note w = inv_write [OF f(3) _ outside, of f]
  have adopt: "vm_inv R X D T (insert f P) k (C - {c}) (set_mem m vm2)" using adopt_page w(1) f(1) by simp
  have ent3: "ent (set_mem m vm2) d = ent vm d" if "is_cell d" "fst d \<noteq> f" for d using w(2) [of d] that f(5) by simp
  have "refs (ent (set_mem m vm2)) (C - {c}) f = {}" using no_refs [OF w(1)] f(1) by simp
  then have inv4: "vm_inv R X D T (insert f P) k (insert c (C - {c})) (poke (cell c) ?v (set_mem m vm2))"
    using v c(2,3) i(5) by (intro inv_restore [OF adopt _ cc]) auto
  let ?vm = "(poke (cell c) ?v (set_mem m vm2))\<lparr>page_locks := page_locks vm\<rparr>"
  have fc: "fst c \<noteq> f" using c(2) f(1) by auto
  have locks: "page_locks (set_mem m vm2) = page_locks vm2" by (simp add: set_mem_def)
  have "counted (set_mem m vm2) t" using vm_counted [OF adopt] tP by blast
  then have "cow_copy (cell c) False vm = Inr ?vm"
    by (intro f(7) [OF _ adopt]) (use ent3 [OF cc(1) fc] in \<open>simp_all add: cp locks\<close>)
  moreover have "own_page R X D T P k C c f vm ?vm"
    unfolding own_page_def t_def [symmetric]
  proof (intro conjI allI impI ballI)
    show "vm_inv R X D T (insert f P) k C ?vm"
      using inv4 f(4) c(1) by (intro inv_locks) (simp_all add: insert_absorb locks)
    have ev: "ent ?vm d = (if d = c then ?v else ent (set_mem m vm2) d)" if "is_cell d" for d
      using peek_poke [OF cc(1) that] by (simp add: set_locks)
    show "present (ent ?vm c)" "writable (ent ?vm c)" "frame_of (ent ?vm c) = f" using ev [OF cc(1)] v c(3) by simp_all
    show "f = t \<or> f \<notin> insert (rg_zero R) (rg_static R \<union> D \<union> T \<union> P \<union> X)
        \<and> (refs (ent vm) (C - {c}) t \<noteq> {} \<or> t = rg_zero R)"
      using f(1) others_hold [OF inv c(1,3) ro, folded t_def, OF two] by simp
    show "ent ?vm d = ent vm d" if "is_cell d" "d \<noteq> c" "fst d \<in> D \<union> T" for d
      using ev [OF that(1)] ent3 [OF that(1)] that(2,3) f(1) by auto
    have mem: "vm_mem ?vm a = m a" if "\<not> in_frame (fst c) a" for a using poke_elsewhere [OF cc(1) that] by (simp add: set_mem_def)
    show "vm_mem ?vm (f + of_nat j) = vm_mem vm (t + of_nat j)" if "j < 4096" for j
      using mem [of "f + of_nat j"] frames_apart [of f "fst c"] frame_byte [OF f(2) that] f(2) fc cc(1) inside [OF that]
      by (simp add: is_cell_def)
    show "vm_mem ?vm a = vm_mem vm a" if "p \<in> insert (rg_zero R) (rg_static R \<union> P \<union> X)" "in_frame p a" for p a
    proof -
      have "p \<noteq> f" using that(1) f(1) by auto
      then have "\<not> in_frame f a" using frames_apart [of p f a] that f(2) vm_aligned [OF inv] by blast
      then show ?thesis using mem [OF tables_apart [OF inv cc(2) that]] outside f(6) by simp
    qed
  qed simp
  ultimately show ?thesis by blast
qed

lemma cow_copy_page:
  assumes inv: "vm_inv R X D T P k C vm" and c: "c \<in> C" "fst c \<in> T" "present (ent vm c)" and ul: "unlocked vm"
  shows "cow_copy (cell c) False vm = Inl Panic \<and> frames_full R (D \<union> T \<union> P \<union> X) \<or>
    (\<exists>vm' p'. cow_copy (cell c) False vm = Inr vm' \<and> own_page R X D T P k C c p' vm vm')"
proof -
  let ?p = "frame_of (ent vm c)"
  note cc = inv_cell [OF inv c(1)]
  have pP: "?p \<in> insert (rg_zero R) P" using kindsD(2) [OF inv_parts(3) [OF inv] c(1,3,2)] .
  show ?thesis
  proof (cases rule: copy_cases [OF inv c(1,3)])
    case 1
    then have "insert ?p P = P" using pP inv_without(2) [OF inv c(1,3)] by auto
    then have "own_page R X D T P k C c ?p vm vm" using 1 inv c(3) unfolding own_page_def by simp
    then show ?thesis using copy_nothing [OF 1] by blast
  next
    case 2
    let ?vm = "poke (cell c) (ent vm c OR FLAG_RW) (set_count ?p 0 vm)"
    have P: "insert ?p P = P" using pP inv_without(3) [OF inv c(1,3) 2(1)] 2(2) by auto
    have e: "ent ?vm d = (if d = c then ent vm c OR FLAG_RW else ent vm d)" if "is_cell d" for d
      using peek_poke [OF cc(1) that] by simp
    have mem: "vm_mem ?vm a = vm_mem vm a" if "p \<in> insert (rg_zero R) (rg_static R \<union> P \<union> X)" "in_frame p a" for p a
      using poke_elsewhere [OF cc(1)] tables_apart [OF inv cc(2) that] by simp
    have "own_page R X D T P k C c ?p vm ?vm"
      unfolding own_page_def P
    proof (intro conjI allI impI ballI)
      show "vm_inv R X D T P k C ?vm" using flip_entry [OF inv c(1,3) 2] .
      show "vm_mem ?vm (?p + of_nat j) = vm_mem vm (?p + of_nat j)" if "j < 4096" for j
        by (rule mem [of ?p]) (use pP frame_byte that in auto)
      show "vm_mem ?vm a = vm_mem vm a" if "p \<in> insert (rg_zero R) (rg_static R \<union> P \<union> X)" "in_frame p a" for p a using mem that .
    qed (use e c(3) cc(1) in simp_all)
    then show ?thesis using cow_copy_start(1) [OF inv c(1,3) 2(1) ul 2(2)] by blast
  next
    case 3
    show ?thesis
    proof (cases "frames_full R (D \<union> T \<union> P \<union> X)")
      case True
      then show ?thesis using copy_full [OF inv c(1,3) 3(1) ul 3(2)] by simp
    next
      case False
      then show ?thesis using copy_new_page [OF inv c ul 3] by simp
    qed
  qed
qed

section \<open>Releasing\<close>

definition is_last :: "vm \<Rightarrow> u32 \<times> nat \<Rightarrow> bool" where
  "is_last vm c \<longleftrightarrow> writable (ent vm c) \<or> rcount vm (frame_of (ent vm c)) = 1"

definition dropped :: "u32 \<times> nat \<Rightarrow> vm \<Rightarrow> vm" where
  "dropped c vm = (if writable (ent vm c) then vm
     else set_count (frame_of (ent vm c)) (rcount vm (frame_of (ent vm c)) - 1) vm)"

lemma dropped_fields [simp]:
  "vm_phys (dropped c vm) = vm_phys vm" "page_locks (dropped c vm) = page_locks vm" "ent (dropped c vm) = ent vm"
  by (simp_all add: dropped_def)

lemma unref_start:
  assumes inv: "vm_inv R X D T P k C vm" and c: "c \<in> C" "present (ent vm c)" and ul: "unlocked vm"
  defines "p \<equiv> frame_of (ent vm c)"
  shows "vm_inv R X D T P k (C - {c}) (dropped c vm)"
    "is_last vm c \<Longrightarrow> refs (ent vm) (C - {c}) p = {} \<and> p \<noteq> rg_zero R"
    "\<not> is_last vm c \<Longrightarrow> refs (ent vm) (C - {c}) p \<noteq> {} \<or> p = rg_zero R"
    "unref_with rel (cell c) vm = bind_ok (if is_last vm c then bind_ok (rel p (dropped c vm)) (vm_dealloc p) else Inr (dropped c vm))
       (\<lambda>vm. Inr (poke (cell c) 0 vm))"
proof -
  note w = inv_without [OF inv c, folded p_def]
  show "vm_inv R X D T P k (C - {c}) (dropped c vm)" using w(2,3) by (auto simp: dropped_def p_def)
  show "is_last vm c \<Longrightarrow> refs (ent vm) (C - {c}) p = {} \<and> p \<noteq> rg_zero R" using w(2,3) by (auto simp: is_last_def p_def)
  show "refs (ent vm) (C - {c}) p \<noteq> {} \<or> p = rg_zero R" if last: "\<not> is_last vm c"
  proof -
    have ro: "\<not> writable (ent vm c)" and two: "1 < rcount vm p" using last w(3) by (auto simp: is_last_def p_def)
    show ?thesis using others_hold [OF inv c ro, folded p_def, OF two] .
  qed
  have pg: "page_of p = unat (ent vm c div FRAME_SIZE)" by (simp add: p_def)
  have e: "peek vm (cell c) = ent vm c" "peek (dropped c vm) (cell c) = ent vm c" by (simp_all add: ent_def peek_def)
  have "bind_ok (add_ref_count (ent vm c div FRAME_SIZE) (- 1) vm) (\<lambda>(c', vm). Inr (c' = 0, vm)) = Inr (is_last vm c, dropped c vm)"
    if "\<not> writable (ent vm c)"
  proof -
    have small: "rcount vm p - 1 < 4294967296" using inv_rcount [OF inv, of p] by linarith
    then have "unat (of_nat (rcount vm p - 1) :: u32) = rcount vm p - 1" by (intro unat_of_nat_exact) simp
    then have "((of_nat (rcount vm p - 1) :: u32) = 0) \<longleftrightarrow> rcount vm p = 1"
      using w(3) [OF that] unat_eq_zero [of "of_nat (rcount vm p - 1) :: u32"] by auto
    then show ?thesis using count_down [OF w(1) pg] w(3) [OF that] that by (simp add: is_last_def dropped_def p_def)
  qed
  then have cnt: "(if peek vm (cell c) AND FLAG_RW > 0 then Inr (True, vm)
      else bind_ok (add_ref_count (peek vm (cell c) div FRAME_SIZE) (- 1) vm) (\<lambda>(c', vm). Inr (c' = 0, vm))) = Inr (is_last vm c, dropped c vm)"
    by (simp add: e entry_flags) (simp add: is_last_def dropped_def)
  show "unref_with rel (cell c) vm = bind_ok (if is_last vm c then bind_ok (rel p (dropped c vm)) (vm_dealloc p) else Inr (dropped c vm))
       (\<lambda>vm. Inr (poke (cell c) 0 vm))"
    using c(2) free_lock [OF inv w(1) pg ul] unfolding unref_with_def Let_def cnt
    by (simp add: e entry_flags p_def frame_of_def)
qed

text \<open>What the release of entries of page tables does: the entries \<open>A\<close> are gone, and so are pages that only they held.\<close>

definition released ::
    "vm_region \<Rightarrow> u32 set \<Rightarrow> u32 set \<Rightarrow> u32 set \<Rightarrow> u32 set \<Rightarrow> nat \<Rightarrow> (u32 \<times> nat) set \<Rightarrow> (u32 \<times> nat) set \<Rightarrow> u32 set \<Rightarrow> vm \<Rightarrow> vm \<Rightarrow> bool" where
  "released R X D T P k C A P' vm vm' \<longleftrightarrow> vm_inv R X D T P' k C vm' \<and> page_locks vm' = page_locks vm \<and> P' \<subseteq> P
     \<and> (\<forall>d. is_cell d \<longrightarrow> fst d \<in> D \<union> T \<longrightarrow> ent vm' d = (if d \<in> A \<and> present (ent vm d) then 0 else ent vm d))
     \<and> (\<forall>p \<in> P'. refs (ent vm) C p \<noteq> {} \<longrightarrow> refs (ent vm') C p \<noteq> {})
     \<and> (\<forall>a. \<forall>p \<in> insert (rg_zero R) (rg_static R \<union> P' \<union> X). in_frame p a \<longrightarrow> vm_mem vm' a = vm_mem vm a)"

lemma clear_cell:
  assumes inv: "vm_inv R X D T P k C vm" and c: "c \<in> C" "fst c \<in> T" "present (ent vm c)"
    and w: "vm_inv R X D T P' k (C - {c}) w" "page_locks w = page_locks vm" "P' \<subseteq> P"
      "\<And>d. is_cell d \<Longrightarrow> fst d \<in> D \<union> T \<Longrightarrow> ent w d = ent vm d"
      "\<And>q. q \<in> P' \<Longrightarrow> refs (ent vm) C q \<noteq> {} \<Longrightarrow> refs (ent vm) (C - {c}) q \<noteq> {}"
      "\<And>a q. q \<in> insert (rg_zero R) (rg_static R \<union> P' \<union> X) \<Longrightarrow> in_frame q a \<Longrightarrow> vm_mem w a = vm_mem vm a"
  shows "released R X D T P k C {c} P' vm (poke (cell c) 0 w)"
proof -
  note cc = inv_cell [OF inv c(1)]
  have ev: "ent (poke (cell c) 0 w) d = (if d = c then 0 else ent w d)" if "is_cell d" for d using peek_poke [OF cc(1) that] .
  have ev2: "ent (poke (cell c) 0 w) d = ent vm d" if "d \<in> C - {c}" for d
    using that ev [of d] w(4) [of d] inv_cell [OF inv, of d] by auto
  have "vm_inv R X D T P' k (insert c (C - {c})) (poke (cell c) 0 w)" by (rule inv_restore [OF w(1) _ cc]) simp_all
  then have i: "vm_inv R X D T P' k C (poke (cell c) 0 w)" using c(1) by (simp add: insert_absorb)
  have "refs (ent (poke (cell c) 0 w)) C q \<noteq> {}" if q: "q \<in> P'" "refs (ent vm) C q \<noteq> {}" for q
  proof -
    obtain d where d: "d \<in> refs (ent vm) (C - {c}) q" using w(5) [OF q] by blast
    then have "d \<in> C - {c}" by (simp add: refs_def)
    then have "d \<in> refs (ent (poke (cell c) 0 w)) C q" using d ev2 by (simp add: refs_def)
    then show ?thesis by blast
  qed
  moreover have "vm_mem (poke (cell c) 0 w) a = vm_mem vm a" if "q \<in> insert (rg_zero R) (rg_static R \<union> P' \<union> X)" "in_frame q a" for q a
    using w(6) [OF that] poke_elsewhere [OF cc(1)] tables_apart [OF inv cc(2), of q a] that w(3) by auto
  ultimately show ?thesis using i w(2-4) ev c(3) cc(1) by (auto simp: released_def)
qed

lemma unref_page_ok:
  assumes inv: "vm_inv R X D T P k C vm" and c: "c \<in> C" "fst c \<in> T" and ul: "unlocked vm"
  shows "\<exists>vm' P'. cow_unref_page (cell c) vm = Inr vm' \<and> released R X D T P k C {c} P' vm vm'"
proof (cases "present (ent vm c)")
  case False
  then have "cow_unref_page (cell c) vm = Inr vm" by (simp add: cow_unref_page_def unref_with_def entry_flags ent_def)
  moreover have "released R X D T P k C {c} P vm vm" using inv False by (auto simp: released_def)
  ultimately show ?thesis by blast
next
  case True
  let ?p = "frame_of (ent vm c)"
  note cc = inv_cell [OF inv c(1)]
  note s = unref_start [OF inv c(1) True ul]
  have pP: "?p \<in> insert (rg_zero R) P" using kindsD(2) [OF inv_parts(3) [OF inv] c(1) True c(2)] .
  have others: "refs (ent vm) (C - {c}) q \<noteq> {}" if "q \<noteq> ?p" "refs (ent vm) C q \<noteq> {}" for q
    using that by (auto simp: refs_def)
  show ?thesis
  proof (cases "is_last vm c")
    case True
    from s(2) [OF this] have p: "?p \<in> P" "refs (ent vm) (C - {c}) ?p = {}" using pP by auto
    then have apart: "?p \<notin> D \<union> T \<union> X" and out: "?p \<in> D \<union> T \<union> P \<union> X" using inv_parts(6,7) [OF inv] by auto
    have "?p \<noteq> fst d" if "d \<in> C - {c}" for d
    proof -
      have "fst d \<in> D \<union> T" using inv_cell(2) [OF inv] that by blast
      then show ?thesis using apart by auto
    qed
    then have "?p \<notin> fst ` (C - {c})" unfolding image_iff by simp
    from vm_dealloc_ok [OF s(1) out this, unfolded dropped_fields, OF p(2)]
    obtain w where w: "vm_dealloc ?p (dropped c vm) = Inr w"
        "vm_inv R (X - {?p}) (D - {?p}) (T - {?p}) (P - {?p}) k (C - {c}) w" "page_locks w = page_locks vm"
        "\<forall>d. is_cell d \<longrightarrow> fst d \<noteq> ?p \<longrightarrow> ent w d = ent vm d"
        "\<forall>a. \<not> in_frame ?p a \<longrightarrow> vm_mem w a = vm_mem vm a" by blast
    have "X - {?p} = X" "D - {?p} = D" "T - {?p} = T" using apart by simp_all
    then have inv': "vm_inv R X D T (P - {?p}) k (C - {c}) w" using w(2) by simp
    have mem: "vm_mem w a = vm_mem vm a" if "q \<in> insert (rg_zero R) (rg_static R \<union> (P - {?p}) \<union> X)" "in_frame q a" for q a
    proof -
      have "q \<noteq> ?p" using that(1) apart out s(2) [OF True] inv_static_apart [OF inv, of ?p] by auto
      then show ?thesis using w(5) frames_apart [of q ?p a] that vm_aligned [OF inv, of q] by auto
    qed
    have "released R X D T P k C {c} (P - {?p}) vm (poke (cell c) 0 w)"
    proof (rule clear_cell [OF inv c \<open>present (ent vm c)\<close> inv' w(3)])
      show "ent w d = ent vm d" if "is_cell d" "fst d \<in> D \<union> T" for d
        by (rule w(4) [rule_format, OF that(1)]) (use that(2) apart in auto)
      show "refs (ent vm) (C - {c}) q \<noteq> {}" if "q \<in> P - {?p}" "refs (ent vm) C q \<noteq> {}" for q
        using others [of q] that by simp
      show "vm_mem w a = vm_mem vm a" if "q \<in> insert (rg_zero R) (rg_static R \<union> (P - {?p}) \<union> X)" "in_frame q a" for q a using mem that .
    qed simp
    then show ?thesis using s(4) [of "\<lambda>_. Inr"] True w(1) by (auto simp: cow_unref_page_def)
  next
    case False
    have "released R X D T P k C {c} P vm (poke (cell c) 0 (dropped c vm))"
    proof (rule clear_cell [OF inv c \<open>present (ent vm c)\<close> s(1)])
      show "refs (ent vm) (C - {c}) q \<noteq> {}" if "q \<in> P" "refs (ent vm) C q \<noteq> {}" for q
        using others [of q] s(3) [OF False] inv_zero_apart [OF inv] that by (cases "q = ?p") auto
    qed simp_all
    then show ?thesis using s(4) [of "\<lambda>_. Inr"] False by (auto simp: cow_unref_page_def)
  qed
qed

lemma releasedD:
  assumes "released R X D T P k C A P' vm vm'"
  shows "vm_inv R X D T P' k C vm'" "page_locks vm' = page_locks vm" "P' \<subseteq> P"
    "\<And>d. is_cell d \<Longrightarrow> fst d \<in> D \<union> T \<Longrightarrow> ent vm' d = (if d \<in> A \<and> present (ent vm d) then 0 else ent vm d)"
    "\<And>p. p \<in> P' \<Longrightarrow> refs (ent vm) C p \<noteq> {} \<Longrightarrow> refs (ent vm') C p \<noteq> {}"
    "\<And>a p. p \<in> insert (rg_zero R) (rg_static R \<union> P' \<union> X) \<Longrightarrow> in_frame p a \<Longrightarrow> vm_mem vm' a = vm_mem vm a"
  using assms unfolding released_def by blast+

lemma released_trans:
  assumes one: "released R X D T P k C A P' vm vm'" and two: "released R X D T P' k C B P'' vm' vm''"
  shows "released R X D T P k C (A \<union> B) P'' vm vm''"
  unfolding released_def
proof (intro conjI allI ballI impI)
  note o = releasedD [OF one] and t = releasedD [OF two]
  show "vm_inv R X D T P'' k C vm''" "page_locks vm'' = page_locks vm" "P'' \<subseteq> P" using t(1-3) o(2,3) by auto
  show "ent vm'' d = (if d \<in> A \<union> B \<and> present (ent vm d) then 0 else ent vm d)" if "is_cell d" "fst d \<in> D \<union> T" for d
    using o(4) [OF that] t(4) [OF that] by auto
  show "refs (ent vm'') C p \<noteq> {}" if "p \<in> P''" "refs (ent vm) C p \<noteq> {}" for p
    using o(5) [of p] t(3) t(5) [of p] that by blast
  show "vm_mem vm'' a = vm_mem vm a" if "p \<in> insert (rg_zero R) (rg_static R \<union> P'' \<union> X)" "in_frame p a" for p a
    using o(6) [of p a] t(6) [OF that] that t(3) by auto
qed

lemma released_nothing: "vm_inv R X D T P k C vm \<Longrightarrow> released R X D T P k C {} P vm vm"
  by (simp add: released_def)

lemma unref_loop_ok:
  "vm_inv R X D T P k C vm \<Longrightarrow> t \<in> T \<Longrightarrow> unlocked vm \<Longrightarrow> {t} \<times> {i..<i + n} \<subseteq> C \<Longrightarrow>
   \<exists>vm' P'. unref_loop t n i vm = Inr vm' \<and> released R X D T P k C ({t} \<times> {i..<i + n}) P' vm vm'"
proof (induction n arbitrary: i vm P)
  case 0
  then show ?case using released_nothing by fastforce
next
  case (Suc n)
  have c: "(t, i) \<in> C" using Suc.prems(4) by auto
  obtain vm1 P1 where one: "cow_unref_page (cell (t, i)) vm = Inr vm1" "released R X D T P k C {(t, i)} P1 vm vm1"
    using unref_page_ok [OF Suc.prems(1) c _ Suc.prems(3)] Suc.prems(2) by auto
  have "unlocked vm1" using releasedD(2) [OF one(2)] Suc.prems(3) by (simp add: unlocked_def)
  moreover have "{t} \<times> {Suc i..<Suc i + n} \<subseteq> C" using Suc.prems(4) by auto
  ultimately obtain vm2 P2 where two: "unref_loop t n (Suc i) vm1 = Inr vm2"
      "released R X D T P1 k C ({t} \<times> {Suc i..<Suc i + n}) P2 vm1 vm2"
    using Suc.IH [OF releasedD(1) [OF one(2)] Suc.prems(2)] by blast
  have "{(t, i)} \<union> {t} \<times> {Suc i..<Suc i + n} = {t} \<times> {i..<i + Suc n}" by auto
  then show ?case using one(1) two(1) released_trans [OF one(2) two(2)] by (auto simp: cell_pair)
qed

text \<open>Empty cells may be forgotten.\<close>

lemma inv_forget:
  assumes inv: "vm_inv R X D T P k C vm" and A: "\<forall>c \<in> A. \<not> present (ent vm c)"
  shows "vm_inv R X D T P k (C - A) vm"
proof (rule inv_change [OF inv])
  have r: "refs (ent vm) (C - A) p = refs (ent vm) C p" "ro_refs (ent vm) (C - A) p = ro_refs (ent vm) C p" for p
    using A by (auto simp: refs_def ro_refs_def)
  show "accounted (zero_refs R k) (C - A) (ent vm) (rcount vm)"
    using inv_parts(4) [OF inv] unfolding accounted_def r .
  show "kinds D T (insert (rg_zero R) P) (C - A) (ent vm)"
    using inv_parts(3) [OF inv] unfolding kinds_def by blast
qed (use inv_parts [OF inv] in simp_all)

text \<open>What the release of an entry of a directory does: the page table is gone if no other entry holds it.\<close>

definition unmapped ::
    "vm_region \<Rightarrow> u32 set \<Rightarrow> u32 set \<Rightarrow> u32 set \<Rightarrow> u32 set \<Rightarrow> nat \<Rightarrow> (u32 \<times> nat) set \<Rightarrow> u32 \<times> nat \<Rightarrow> u32 set \<Rightarrow> u32 set \<Rightarrow> vm \<Rightarrow> vm \<Rightarrow> bool" where
  "unmapped R X D T P k C c T' P' vm vm' \<longleftrightarrow> vm_inv R X D T' P' k (C - (T - T') \<times> {..<1024}) vm' \<and> page_locks vm' = page_locks vm
     \<and> T' \<subseteq> T \<and> P' \<subseteq> P \<and> T - T' \<subseteq> (if present (ent vm c) then {frame_of (ent vm c)} else {})
     \<and> (\<forall>d. is_cell d \<longrightarrow> fst d \<in> D \<union> T' \<longrightarrow> ent vm' d = (if d = c \<and> present (ent vm c) then 0 else ent vm d))
     \<and> (\<forall>p \<in> T' \<union> P'. refs (ent vm) C p \<noteq> {} \<longrightarrow> refs (ent vm') (C - (T - T') \<times> {..<1024}) p \<noteq> {})
     \<and> (\<forall>a. \<forall>p \<in> insert (rg_zero R) (rg_static R \<union> P' \<union> X). in_frame p a \<longrightarrow> vm_mem vm' a = vm_mem vm a)"

lemma unref_shared_table:
  assumes inv: "vm_inv R X D T P k C vm" and c: "c \<in> C" "fst c \<in> D" "present (ent vm c)" and ul: "unlocked vm"
    and last: "\<not> is_last vm c"
  shows "\<exists>vm'. cow_unref (cell c) True vm = Inr vm' \<and> unmapped R X D T P k C c T P vm vm'"
proof -
  let ?p = "frame_of (ent vm c)" and ?vm = "poke (cell c) 0 (dropped c vm)"
  note cc = inv_cell [OF inv c(1)]
  note s = unref_start [OF inv c(1,3) ul]
  have pT: "?p \<in> T" using kindsD(1) [OF inv_parts(3) [OF inv] c(1,3,2)] .
  have ev: "ent ?vm d = (if d = c then 0 else ent vm d)" if "is_cell d" for d
    using peek_poke [OF cc(1) that, of 0 "dropped c vm"] by simp
  have same: "ent ?vm d = ent vm d" if "d \<in> C - {c}" for d using ev [of d] that inv_cell(1) [OF inv, of d] by simp
  have "vm_inv R X D T P k (insert c (C - {c})) ?vm" by (rule inv_restore [OF s(1) _ cc]) simp_all
  then have i: "vm_inv R X D T P k C ?vm" using c(1) by (simp add: insert_absorb)
  have "refs (ent ?vm) C q \<noteq> {}" if "q \<in> T \<union> P" "refs (ent vm) C q \<noteq> {}" for q
  proof -
    have "refs (ent vm) (C - {c}) q \<noteq> {}"
    proof (cases "q = ?p")
      case True
      then show ?thesis using s(3) [OF last] inv_zero_apart [OF inv] pT by auto
    next
      case False
      then show ?thesis using that(2) by (auto simp: refs_def)
    qed
    moreover have "refs (ent vm) (C - {c}) q \<subseteq> refs (ent ?vm) C q" using same by (auto simp: refs_def)
    ultimately show ?thesis by blast
  qed
  moreover have "vm_mem ?vm a = vm_mem vm a" if "q \<in> insert (rg_zero R) (rg_static R \<union> P \<union> X)" "in_frame q a" for q a
    using poke_elsewhere [OF cc(1)] tables_apart [OF inv cc(2) that] by simp
  ultimately have "unmapped R X D T P k C c T P vm ?vm"
    using i ev c(3) by (simp add: unmapped_def)
  then show ?thesis using s(4) last by (simp add: cow_unref_def)
qed

lemma unref_last_table:
  assumes inv: "vm_inv R X D T P k C vm" and c: "c \<in> C" "fst c \<in> D" "present (ent vm c)" and ul: "unlocked vm"
    and last: "is_last vm c" and tc: "{frame_of (ent vm c)} \<times> {..<1024} \<subseteq> C"
  shows "\<exists>vm' P'. cow_unref (cell c) True vm = Inr vm' \<and> unmapped R X D T P k C c (T - {frame_of (ent vm c)}) P' vm vm'"
proof -
  define t where "t = frame_of (ent vm c)"
  note cc = inv_cell [OF inv c(1)]
  note s = unref_start [OF inv c(1,3) ul]
  have tT: "t \<in> T" using kindsD(1) [OF inv_parts(3) [OF inv] c(1,3,2)] by (simp add: t_def)
  have tD: "t \<notin> D" using tT inv_parts(5) [OF inv] by auto
  have cA: "c \<notin> {t} \<times> {..<1024}" using c(2) tD by auto
  have "{t} \<times> {0..<0 + 1024} = {t} \<times> {..<1024 :: nat}" by auto
  then have "{t} \<times> {0..<0 + 1024} \<subseteq> C - {c}" using cA tc unfolding t_def [symmetric] by blast
  moreover have "unlocked (dropped c vm)" using ul by (simp add: unlocked_def)
  ultimately obtain w P' where w: "unref_loop t 1024 0 (dropped c vm) = Inr w"
      "released R X D T P k (C - {c}) ({t} \<times> {0..<0 + 1024}) P' (dropped c vm) w"
    using unref_loop_ok [OF s(1) tT] by blast
  note r = releasedD [OF w(2), unfolded dropped_fields]
  let ?A = "{t} \<times> {..<1024 :: nat}"
  have gone: "\<forall>d \<in> ?A. \<not> present (ent w d)"
  proof
    fix d assume d: "d \<in> ?A"
    have "is_cell d" using d vm_aligned [OF inv, of t] tT by (auto simp: is_cell_def)
    then show "\<not> present (ent w d)" using r(4) [of d] d tT by (cases "present (ent vm d)") auto
  qed
  have inv2: "vm_inv R X D T P' k (C - {c} - ?A) w" by (rule inv_forget [OF r(1) gone])
  have no: "refs (ent w) (C - {c} - ?A) t = {}"
  proof -
    have "d \<notin> refs (ent w) (C - {c} - ?A) t" for d
    proof
      assume d: "d \<in> refs (ent w) (C - {c} - ?A) t"
      then have "d \<in> C" "is_cell d" "fst d \<in> D \<union> T" using inv_cell [OF inv, of d] by (auto simp: refs_def)
      moreover have "present (ent w d)" "frame_of (ent w d) = t" "d \<noteq> c" using d by (auto simp: refs_def)
      moreover have "ent w d = ent vm d" using r(4) calculation by (metis entry_zero)
      ultimately have "d \<in> refs (ent vm) (C - {c}) t" by (simp add: refs_def)
      then show False using s(2) [OF last] by (simp add: t_def)
    qed
    then show ?thesis by blast
  qed
  have apart: "t \<notin> X" "t \<notin> P'" using tT r(3) inv_parts(6) [OF inv] by auto
  have "t \<noteq> fst d" if "d \<in> C - {c} - ?A" for d
  proof -
    have "snd d < 1024" using inv_cell(1) [OF inv, of d] that by (simp add: is_cell_def)
    then show ?thesis using that by (cases d) auto
  qed
  then have "t \<notin> fst ` (C - {c} - ?A)" unfolding image_iff by simp
  from vm_dealloc_ok [OF inv2 _ this no] tT obtain w2 where w2: "vm_dealloc t w = Inr w2"
      "vm_inv R (X - {t}) (D - {t}) (T - {t}) (P' - {t}) k (C - {c} - ?A) w2" "page_locks w2 = page_locks w"
      "\<forall>d. is_cell d \<longrightarrow> fst d \<noteq> t \<longrightarrow> ent w2 d = ent w d" "\<forall>a. \<not> in_frame t a \<longrightarrow> vm_mem w2 a = vm_mem w a" by blast
  have inv3: "vm_inv R X D (T - {t}) P' k (C - {c} - ?A) w2" using w2(2) apart tD by simp
  let ?vm = "poke (cell c) 0 w2"
  have cA': "insert c (C - {c} - ?A) = C - ?A" "T - (T - {t}) = {t}" using c(1) cA tT by auto
  have "vm_inv R X D (T - {t}) P' k (insert c (C - {c} - ?A)) ?vm"
    by (rule inv_restore [OF inv3 _ cc(1)]) (use c(2) in simp_all)
  then have i: "vm_inv R X D (T - {t}) P' k (C - ?A) ?vm" unfolding cA' .
  have ev: "ent ?vm d = (if d = c then 0 else ent vm d)" if d: "is_cell d" "fst d \<in> D \<union> (T - {t})" for d
  proof -
    have "fst d \<noteq> t" "fst d \<in> D \<union> T" using d(2) tD by auto
    moreover have "d \<notin> {t} \<times> {0..<0 + 1024}" using calculation by auto
    ultimately show ?thesis using peek_poke [OF cc(1) d(1), of 0 w2] w2(4) r(4) d(1) by simp
  qed
  have kept: "refs (ent ?vm) (C - ?A) p \<noteq> {}" if p: "p \<in> T - {t} \<union> P'" "refs (ent vm) C p \<noteq> {}" for p
  proof -
    have "p \<noteq> t" using p(1) apart by auto
    then have rc: "refs (ent vm) (C - {c}) p \<noteq> {}" using p(2) unfolding refs_drop by (auto simp: refs_def t_def)
    have "refs (ent w) (C - {c}) p \<noteq> {}"
    proof (cases "p \<in> P'")
      case True
      then show ?thesis using r(5) rc by blast
    next
      case False
      obtain d where d: "d \<in> C - {c}" "present (ent vm d)" "frame_of (ent vm d) = p" using rc by (auto simp: refs_def)
      have "fst d \<notin> T" using kindsD(2) [OF inv_parts(3) [OF inv] _ d(2)] d p(1) False inv_zero_apart [OF inv] inv_parts(6) [OF inv] by auto
      then have "d \<notin> {t} \<times> {0..<0 + 1024}" "fst d \<in> D \<union> T" "is_cell d" using tT inv_cell [OF inv, of d] d(1) by auto
      then have "ent w d = ent vm d" using r(4) by simp
      then have "d \<in> refs (ent w) (C - {c}) p" using d by (simp add: refs_def)
      then show ?thesis by blast
    qed
    then obtain d where d: "d \<in> C - {c}" "present (ent w d)" "frame_of (ent w d) = p" by (auto simp: refs_def)
    then have "d \<notin> ?A" using gone by blast
    moreover have "is_cell d" "fst d \<noteq> t" using inv_cell(1) [OF inv, of d] d(1) calculation by (auto simp: is_cell_def mem_Times_iff)
    ultimately have "d \<in> refs (ent ?vm) (C - ?A) p"
      using d peek_poke [OF cc(1), of d 0 w2] w2(4) by (simp add: refs_def)
    then show ?thesis by blast
  qed
  have "unmapped R X D T P k C c (T - {t}) P' vm ?vm"
    unfolding unmapped_def cA'(2)
  proof (intro conjI allI ballI impI)
    show "refs (ent ?vm) (C - ?A) p \<noteq> {}" if p: "p \<in> T - {t} \<union> P'" "refs (ent vm) C p \<noteq> {}" for p using kept p .
    show "vm_mem ?vm a = vm_mem vm a" if p: "p \<in> insert (rg_zero R) (rg_static R \<union> P' \<union> X)" "in_frame p a" for p a
    proof -
      have p': "p \<in> insert (rg_zero R) (rg_static R \<union> P \<union> X)" using p(1) r(3) by auto
      show ?thesis using r(6) [OF p] w2(5) tables_apart [OF inv _ p' p(2), of t] tT
          poke_elsewhere [OF cc(1)] tables_apart [OF inv cc(2) p' p(2)] by simp
    qed
  qed (use i ev r(2,3) w2(3) c(3) in \<open>simp_all add: t_def\<close>)
  moreover have "cow_unref (cell c) True vm = Inr ?vm"
    using s(4) [of "\<lambda>table. unref_loop table (unat pointers_per_frame) 0"] last w(1) w2(1)
    by (simp add: cow_unref_def mask_values t_def)
  ultimately show ?thesis unfolding t_def by blast
qed

end
