(* ===== verification/Vmm.thy ===== *)
theory Vmm
  imports Cow Boot_Config
begin

text \<open>
  Virtual memory, \<^verbatim>\<open>kernel/vmm.h\<close> and \<^verbatim>\<open>kernel/vmm.cc\<close> without the handler of page faults: page directories
  and page tables in physical memory, the identity map of the kernel, the stack of a new program, copies of
  directories and the removal of mappings. The addresses of the static arrays are chosen by the linker and
  are parameters. Loading the register \<^verbatim>\<open>CR3\<close> does not change memory; where a function does it, the
  directory it loads is part of the result.
\<close>

section \<open>Constants\<close>

definition FLAG_US :: u32 where "FLAG_US = push_bit 2 1"
definition FLAG_PCD :: u32 where "FLAG_PCD = push_bit 4 1"
definition FLAG_GL :: u32 where "FLAG_GL = push_bit 8 1"

definition ram_size :: u32 where "ram_size = 128 * 1024 * 1024"
definition ram_pages :: u32 where "ram_pages = ram_size div FRAME_SIZE"
definition ram_page_dirs :: u32 where "ram_page_dirs = ram_pages div pointers_per_frame"
definition reserved_pages :: u32 where "reserved_pages = 1"
definition user_page_dir_start :: u32 where "user_page_dir_start = USER_MEM_START div FRAME_SIZE div pointers_per_frame"
definition user_page_dir_end :: u32 where "user_page_dir_end = SHARED_ADDRESS div FRAME_SIZE div pointers_per_frame"

record vm_statics =
  shared_frame :: u32
  zero_frame :: u32
  base_directory :: u32
  base_page_tables :: u32

text \<open>The address of \<^verbatim>\<open>base_page_tables[i]\<close>.\<close>

definition base_page_table :: "vm_statics \<Rightarrow> u32 \<Rightarrow> u32" where
  "base_page_table st i = base_page_tables st + FRAME_SIZE * i"

section \<open>Page tables\<close>

definition get_page_directory_entry :: "u32 \<Rightarrow> u32 \<Rightarrow> vm \<Rightarrow> (u32 \<times> vm) outcome" where
  "get_page_directory_entry page directory vm =
     (let dentry_number = page div pointers_per_frame
      in bind_ok (cow_copy (directory + 4 * dentry_number) True vm) (\<lambda>vm. Inr (directory + 4 * dentry_number, vm)))"

text \<open>The result \<open>0\<close> is the null pointer.\<close>

definition get_page_table :: "u32 \<Rightarrow> u32 \<Rightarrow> vm \<Rightarrow> (u32 \<times> vm) outcome" where
  "get_page_table page directory vm =
     bind_ok (get_page_directory_entry page directory vm) (\<lambda>(a, vm).
       let entry = peek vm a
       in Inr (if entry AND FLAG_PR \<noteq> 0 then entry AND PG_NUM_MASK else 0, vm))"

definition set_page_table :: "u32 \<Rightarrow> u32 \<Rightarrow> u32 \<Rightarrow> u32 \<Rightarrow> vm \<Rightarrow> vm outcome" where
  "set_page_table page page_table flags directory vm =
     bind_ok (get_page_directory_entry page directory vm) (\<lambda>(a, vm). Inr (poke a (page_table OR flags) vm))"

definition map_address :: "u32 \<Rightarrow> u32 \<Rightarrow> u32 \<Rightarrow> u32 \<Rightarrow> vm \<Rightarrow> vm outcome" where
  "map_address from_address to_address flags directory vm =
     (let from = from_address div FRAME_SIZE
      in bind_ok (get_page_table from directory vm) (\<lambda>(page_table, vm).
         bind_ok
           (if page_table = 0 then
              bind_ok (vm_alloc vm) (\<lambda>(page_table, vm).
              bind_ok (set_page_table from page_table flags directory vm) (\<lambda>vm. Inr (page_table, vm)))
            else Inr (page_table, vm)) (\<lambda>(page_table, vm).
           Inr (poke (page_table + 4 * (from mod pointers_per_frame)) ((to_address AND PG_NUM_MASK) OR flags) vm))))"

section \<open>The map of the kernel\<close>

fun identity_loop :: "vm_statics \<Rightarrow> nat \<Rightarrow> u32 \<Rightarrow> vm \<Rightarrow> vm outcome" where
  "identity_loop st 0 i vm = Inr vm"
| "identity_loop st (Suc n) i vm =
     bind_ok (map_address (i * FRAME_SIZE) (i * FRAME_SIZE) (FLAG_PR OR FLAG_RW OR FLAG_GL) (base_directory st) vm)
       (identity_loop st n (i + 1))"

definition set_up_identity_dir :: "vm_statics \<Rightarrow> u32 \<Rightarrow> u32 \<Rightarrow> u32 \<Rightarrow> vm \<Rightarrow> vm outcome" where
  "set_up_identity_dir st start_page end_page page_table vm =
     bind_ok (set_page_table start_page page_table (FLAG_PR OR FLAG_RW) (base_directory st) vm)
       (identity_loop st (unat end_page - unat start_page) start_page)"

definition ref_zero_frame :: "vm_statics \<Rightarrow> vm \<Rightarrow> vm outcome" where
  "ref_zero_frame st vm = bind_ok (cow_ref_only (zero_frame st) vm) (\<lambda>(_, vm). Inr vm)"

text \<open>The loop over the page directories of memory, with \<open>n\<close> left; it returns the next unused static table.\<close>

fun identity_dirs :: "vm_statics \<Rightarrow> nat \<Rightarrow> u32 \<Rightarrow> u32 \<Rightarrow> vm \<Rightarrow> (u32 \<times> vm) outcome" where
  "identity_dirs st 0 i base_pt_index vm = Inr (base_pt_index, vm)"
| "identity_dirs st (Suc n) i base_pt_index vm =
     (let start_page = i * pointers_per_frame;
          end_page = start_page + pointers_per_frame;
          start_page = (if i = 0 then start_page + reserved_pages else start_page)
      in bind_ok
           (if i < ram_page_dirs then Inr (base_page_table st base_pt_index, base_pt_index + 1, vm)
            else bind_ok (vm_alloc vm) (\<lambda>(p, vm). Inr (p, base_pt_index, vm))) (\<lambda>(page_table, base_pt_index, vm).
         bind_ok (set_up_identity_dir st start_page end_page page_table vm) (identity_dirs st n (i + 1) base_pt_index)))"

definition vmm_global_init :: "vm_statics \<Rightarrow> config \<Rightarrow> vm \<Rightarrow> vm outcome" where
  "vmm_global_init st c vm =
     (let full_ram_page_tables = frameup (memSize c) div FRAME_SIZE;
          full_ram_page_dirs = (full_ram_page_tables + pointers_per_frame - 1) div pointers_per_frame
      in bind_ok (identity_dirs st (unat full_ram_page_dirs) 0 0 vm) (\<lambda>(i, vm).
         bind_ok (set_page_table (SHARED_ADDRESS div FRAME_SIZE) (base_page_table st i)
                    (FLAG_PR OR FLAG_RW OR FLAG_US) (base_directory st) vm) (\<lambda>vm.
         bind_ok (map_address SHARED_ADDRESS (shared_frame st)
                    (FLAG_PR OR FLAG_RW OR FLAG_US OR FLAG_GL) (base_directory st) vm) (\<lambda>vm.
         bind_ok (set_page_table (localAPIC c div FRAME_SIZE) (base_page_table st (i + 1))
                    (FLAG_PR OR FLAG_RW OR FLAG_PCD) (base_directory st) vm) (\<lambda>vm.
         bind_ok (map_address (localAPIC c) (localAPIC c)
                    (FLAG_PR OR FLAG_RW OR FLAG_PCD OR FLAG_GL) (base_directory st) vm) (\<lambda>vm.
         bind_ok (map_address (ioAPIC c) (ioAPIC c)
                    (FLAG_PR OR FLAG_RW OR FLAG_PCD OR FLAG_GL) (base_directory st) vm) (\<lambda>vm.
         let vm = cow_init (memSize c) vm
         in ref_zero_frame st vm)))))))"

definition new_directory :: "vm_statics \<Rightarrow> vm \<Rightarrow> (u32 \<times> vm) outcome" where
  "new_directory st vm =
     bind_ok (vm_alloc vm) (\<lambda>(directory, vm). Inr (directory, vm_memcpy directory (base_directory st) FRAME_SIZE vm))"

section \<open>The stack of a new program\<close>

text \<open>The block in which the next value is stored, \<open>0\<close> for none yet.\<close>

definition stack_block :: "u32 \<Rightarrow> u32 \<Rightarrow> u32 \<Rightarrow> vm \<Rightarrow> (u32 \<times> vm) outcome" where
  "stack_block address current_block directory vm =
     (if current_block = 0 \<or> address mod FRAME_SIZE = 0 then
        let page = address div FRAME_SIZE
        in bind_ok (get_page_table page directory vm) (\<lambda>(page_table, vm).
           let e = peek vm (page_table + 4 * (page mod pointers_per_frame));
               current_block = (if page_table \<noteq> 0 \<and> e AND FLAG_PR > 0 then e AND PG_NUM_MASK else 0)
           in if current_block = 0 then
                bind_ok (vm_alloc vm) (\<lambda>(current_block, vm).
                bind_ok (map_address address current_block (FLAG_PR OR FLAG_US OR FLAG_RW) directory vm) (\<lambda>vm.
                  Inr (current_block, vm)))
              else Inr (current_block, vm))
      else Inr (current_block, vm))"

definition write_stack_word :: "u32 \<Rightarrow> u32 \<Rightarrow> u32 \<Rightarrow> u32 \<Rightarrow> vm \<Rightarrow> (u32 \<times> u32 \<times> vm) outcome" where
  "write_stack_word data address current_block directory vm =
     bind_ok (stack_block address current_block directory vm) (\<lambda>(b, vm).
       Inr (address + 4, b, poke (b + 4 * ((address AND NOT PG_NUM_MASK) div 4)) data vm))"

definition poke_byte :: "u32 \<Rightarrow> u8 \<Rightarrow> vm \<Rightarrow> vm" where
  "poke_byte a v vm = vm\<lparr>vm_phys := (vm_phys vm)\<lparr>pm_mem := (vm_mem vm)(a := v)\<rparr>\<rparr>"

definition write_stack_char :: "u8 \<Rightarrow> u32 \<Rightarrow> u32 \<Rightarrow> u32 \<Rightarrow> vm \<Rightarrow> (u32 \<times> u32 \<times> vm) outcome" where
  "write_stack_char data address current_block directory vm =
     bind_ok (stack_block address current_block directory vm) (\<lambda>(b, vm).
       Inr (address + 1, b, poke_byte (b + (address AND NOT PG_NUM_MASK)) data vm))"

text \<open>The characters of a string up to its terminator, then the terminator.\<close>

fun write_stack_string :: "u8 list \<Rightarrow> u32 \<Rightarrow> u32 \<Rightarrow> u32 \<Rightarrow> vm \<Rightarrow> (u32 \<times> u32 \<times> vm) outcome" where
  "write_stack_string [] address block directory vm = Inl OutOfBounds"
| "write_stack_string (c # cs) address block directory vm =
     (if c \<noteq> 0 then
        bind_ok (write_stack_char c address block directory vm) (\<lambda>(address, block, vm).
          write_stack_string cs address block directory vm)
      else write_stack_char 0 address block directory vm)"

text \<open>Where the next pointer and the next character go.\<close>

record stack_cursor =
  pointer_address :: u32
  current_pointer_block :: u32
  data_address :: u32
  current_data_block :: u32

definition push_pointer :: "u32 \<Rightarrow> u32 \<Rightarrow> stack_cursor \<times> vm \<Rightarrow> (stack_cursor \<times> vm) outcome" where
  "push_pointer directory v = (\<lambda>(s, vm).
     bind_ok (write_stack_word v (pointer_address s) (current_pointer_block s) directory vm) (\<lambda>(a, b, vm).
       Inr (s\<lparr>pointer_address := a, current_pointer_block := b\<rparr>, vm)))"

definition push_string :: "u32 \<Rightarrow> u8 list \<Rightarrow> stack_cursor \<times> vm \<Rightarrow> (stack_cursor \<times> vm) outcome" where
  "push_string directory cs = (\<lambda>(s, vm).
     bind_ok (push_pointer directory (data_address s) (s, vm)) (\<lambda>(s, vm).
     bind_ok (write_stack_string cs (data_address s) (current_data_block s) directory vm) (\<lambda>(a, b, vm).
       Inr (s\<lparr>data_address := a, current_data_block := b\<rparr>, vm))))"

text \<open>The \<open>n\<close> strings of an array from the \<open>i\<close>-th on, then the null pointer.\<close>

fun push_strings :: "u32 \<Rightarrow> u8 list list \<Rightarrow> nat \<Rightarrow> nat \<Rightarrow> stack_cursor \<times> vm \<Rightarrow> (stack_cursor \<times> vm) outcome" where
  "push_strings directory argv 0 i x = push_pointer directory 0 x"
| "push_strings directory argv (Suc n) i x =
     bind_ok (read_at argv i) (\<lambda>cs. bind_ok (push_string directory cs x) (push_strings directory argv n (Suc i)))"

definition set_up_stack :: "u32 \<Rightarrow> u32 \<Rightarrow> u8 list list \<Rightarrow> u32 \<Rightarrow> u8 list list \<Rightarrow> u32 \<Rightarrow> vm \<Rightarrow> (u32 \<times> vm) outcome" where
  "set_up_stack directory total_length argv n_args envp n_envs vm =
     (let pointer_stack_space = 4 + 4 + 4 + 4 * (n_args + 1) + 4 * (n_envs + 1);
          stack_space_needed = pointer_stack_space + total_length;
          stack_pointer = (USER_STACK_START - stack_space_needed) AND 0xFFFFFFF0;
          s = \<lparr>pointer_address = stack_pointer, current_pointer_block = 0,
               data_address = stack_pointer + pointer_stack_space, current_data_block = 0\<rparr>
      in bind_ok (push_pointer directory n_args (s, vm)) (\<lambda>x.
         bind_ok (push_pointer directory (stack_pointer + 12) x) (\<lambda>x.
         bind_ok (push_pointer directory (stack_pointer + 12 + 4 * (n_args + 1)) x) (\<lambda>x.
         bind_ok (push_strings directory argv (unat n_args) 0 x) (\<lambda>x.
         bind_ok (push_strings directory envp (unat n_envs) 0 x) (\<lambda>(_, vm). Inr (stack_pointer, vm)))))))"

section \<open>Copies of directories\<close>

definition kernel_entry :: "u32 \<Rightarrow> nat \<Rightarrow> bool" where
  "kernel_entry dir_entry i \<longleftrightarrow> dir_entry AND FLAG_PR = 0 \<or> i < unat user_page_dir_start \<or> unat user_page_dir_end \<le> i"

fun copy_pages_loop :: "u32 \<Rightarrow> u32 \<Rightarrow> nat \<Rightarrow> nat \<Rightarrow> vm \<Rightarrow> vm outcome" where
  "copy_pages_loop new_pt current_pt 0 j vm = Inr vm"
| "copy_pages_loop new_pt current_pt (Suc n) j vm =
     (let pt_entry = peek vm (current_pt + 4 * of_nat j)
      in bind_ok
           (if pt_entry AND FLAG_PR = 0 then Inr (poke (new_pt + 4 * of_nat j) pt_entry vm)
            else
              bind_ok (vm_alloc vm) (\<lambda>(new_data_frame, vm).
                Inr (poke (new_pt + 4 * of_nat j) (new_data_frame OR (pt_entry AND FLAGS_MASK))
                       (vm_memcpy new_data_frame (pt_entry AND PG_NUM_MASK) FRAME_SIZE vm))))
           (copy_pages_loop new_pt current_pt n (Suc j)))"

fun copy_tables_loop :: "u32 \<Rightarrow> u32 \<Rightarrow> nat \<Rightarrow> nat \<Rightarrow> vm \<Rightarrow> vm outcome" where
  "copy_tables_loop new_dir current_dir 0 i vm = Inr vm"
| "copy_tables_loop new_dir current_dir (Suc n) i vm =
     (let dir_entry = peek vm (current_dir + 4 * of_nat i)
      in bind_ok
           (if kernel_entry dir_entry i then Inr (poke (new_dir + 4 * of_nat i) dir_entry vm)
            else
              bind_ok (vm_alloc vm) (\<lambda>(new_pt_frame, vm).
              bind_ok (copy_pages_loop new_pt_frame (dir_entry AND PG_NUM_MASK) (unat pointers_per_frame) 0 vm) (\<lambda>vm.
                Inr (poke (new_dir + 4 * of_nat i) (new_pt_frame OR (dir_entry AND FLAGS_MASK)) vm))))
           (copy_tables_loop new_dir current_dir n (Suc i)))"

definition clone_directory_no_cow :: "u32 \<Rightarrow> vm \<Rightarrow> (u32 \<times> vm) outcome" where
  "clone_directory_no_cow other vm =
     (let current_dir = other AND PG_NUM_MASK
      in bind_ok (vm_alloc vm) (\<lambda>(new_dir, vm).
         bind_ok (copy_tables_loop new_dir current_dir (unat pointers_per_frame) 0 vm) (\<lambda>vm. Inr (new_dir, vm))))"

fun clone_loop :: "u32 \<Rightarrow> u32 \<Rightarrow> nat \<Rightarrow> nat \<Rightarrow> vm \<Rightarrow> vm outcome" where
  "clone_loop new_dir current_dir 0 i vm = Inr vm"
| "clone_loop new_dir current_dir (Suc n) i vm =
     (let dir_entry = peek vm (current_dir + 4 * of_nat i)
      in bind_ok
           (if kernel_entry dir_entry i then Inr (poke (new_dir + 4 * of_nat i) dir_entry vm)
            else bind_ok (cow_ref (current_dir + 4 * of_nat i) vm) (\<lambda>(e, vm). Inr (poke (new_dir + 4 * of_nat i) e vm)))
           (clone_loop new_dir current_dir n (Suc i)))"

text \<open>The new directory and the directory that is loaded.\<close>

definition clone_directory :: "u32 \<Rightarrow> vm \<Rightarrow> (u32 \<times> u32 \<times> vm) outcome" where
  "clone_directory other vm =
     (let other = other AND PG_NUM_MASK; current_dir = other
      in bind_ok (vm_alloc vm) (\<lambda>(new_dir, vm).
         bind_ok (clone_loop new_dir current_dir (unat pointers_per_frame) 0 vm) (\<lambda>vm. Inr (new_dir, other, vm))))"

section \<open>Removal of mappings\<close>

fun out_of_range_count :: "u32 \<Rightarrow> u32 \<Rightarrow> u32 \<Rightarrow> nat \<Rightarrow> u32 \<Rightarrow> vm \<Rightarrow> nat" where
  "out_of_range_count table start_pte end_pte 0 pti vm = 0"
| "out_of_range_count table start_pte end_pte (Suc n) pti vm =
     (if pti \<ge> start_pte \<and> pti \<le> end_pte then 0
      else if peek vm (table + 4 * pti) AND FLAG_PR > 0 then 1 else 0)
     + out_of_range_count table start_pte end_pte n (pti + 1) vm"

text \<open>One page table of the range; the entry is released as a whole unless the range covers it only partly.\<close>

definition unmap_table :: "u32 \<Rightarrow> u32 \<Rightarrow> u32 \<Rightarrow> u32 \<Rightarrow> vm \<Rightarrow> vm outcome" where
  "unmap_table start_page end_page tables pdi vm =
     (let start_dir = start_page div pointers_per_frame;
          end_dir = end_page div pointers_per_frame;
          pt_start_page = pdi * pointers_per_frame;
          pt_end_page = (pdi + 1) * pointers_per_frame - 1;
          start_pte = (if start_page > pt_start_page then start_page else pt_start_page) mod pointers_per_frame;
          end_pte = (if end_page < pt_end_page then end_page else pt_end_page) mod pointers_per_frame;
          table = peek vm (tables + 4 * pdi) AND PG_NUM_MASK
      in if (pdi = start_dir \<or> pdi = end_dir) \<and> peek vm (tables + 4 * pdi) AND FLAG_PR > 0
            \<and> out_of_range_count table start_pte end_pte (unat pointers_per_frame) 0 vm > 0 then
           bind_ok (cow_copy (tables + 4 * pdi) True vm)
             (unref_loop table (unat end_pte + 1 - unat start_pte) (unat start_pte))
         else cow_unref (tables + 4 * pdi) True vm)"

fun unmap_loop :: "u32 \<Rightarrow> u32 \<Rightarrow> u32 \<Rightarrow> nat \<Rightarrow> u32 \<Rightarrow> vm \<Rightarrow> vm outcome" where
  "unmap_loop start_page end_page tables 0 pdi vm = Inr vm"
| "unmap_loop start_page end_page tables (Suc n) pdi vm =
     bind_ok (unmap_table start_page end_page tables pdi vm) (unmap_loop start_page end_page tables n (pdi + 1))"

definition unmap_pages :: "u32 \<Rightarrow> u32 \<Rightarrow> u32 \<Rightarrow> vm \<Rightarrow> vm outcome" where
  "unmap_pages start sz directory vm =
     (if sz = 0 then Inr vm
      else
        let stop = start + sz - 1;
            start_page = start div FRAME_SIZE;
            end_page = stop div FRAME_SIZE;
            start_dir = start_page div pointers_per_frame;
            end_dir = end_page div pointers_per_frame
        in unmap_loop start_page end_page directory (unat end_dir + 1 - unat start_dir) start_dir vm)"

fun free_loop :: "u32 \<Rightarrow> nat \<Rightarrow> u32 \<Rightarrow> vm \<Rightarrow> vm outcome" where
  "free_loop directory 0 i vm = Inr vm"
| "free_loop directory (Suc n) i vm = bind_ok (cow_unref (directory + 4 * i) True vm) (free_loop directory n (i + 1))"

definition free_directory :: "vm_statics \<Rightarrow> u32 \<Rightarrow> vm \<Rightarrow> vm outcome" where
  "free_directory st directory_address vm =
     (let directory = directory_address AND PG_NUM_MASK
      in if directory = 0 \<or> directory = base_directory st then Inr vm
         else
           bind_ok (free_loop directory (unat user_page_dir_end - unat user_page_dir_start) user_page_dir_start vm)
             (vm_dealloc directory))"

section \<open>Writing to a shared page\<close>

text \<open>The branch of \<^verbatim>\<open>wrapped_page_fault\<close> for a write to a page that is present.\<close>

definition copy_on_write_fault :: "u32 \<Rightarrow> u32 \<Rightarrow> vm \<Rightarrow> vm outcome" where
  "copy_on_write_fault address directory vm =
     (let page_number = address div FRAME_SIZE
      in bind_ok (get_page_table page_number directory vm) (\<lambda>(page_table, vm).
         cow_copy (page_table + 4 * (page_number mod pointers_per_frame)) False vm))"

end
