(* ===== verification/Address_Spaces.thy ===== *)
theory Address_Spaces
  imports Vmm Cow_Invariant
begin

text \<open>
  The memory of the processes. What a directory maps is read the way the processor does it, through two
  levels of tables; copies of directories share tables and pages, and copying on write keeps each address
  space private.
\<close>

section \<open>What a directory maps\<close>

definition user_dirs :: "nat set" where "user_dirs = {512..<960}"

definition cells :: "u32 set \<Rightarrow> u32 set \<Rightarrow> (u32 \<times> nat) set" where
  "cells D T = D \<times> user_dirs \<union> T \<times> {..<1024}"

definition user_page :: "nat \<Rightarrow> bool" where "user_page pg \<longleftrightarrow> pg div 1024 \<in> user_dirs"

definition pde :: "vm \<Rightarrow> u32 \<Rightarrow> nat \<Rightarrow> u32" where "pde vm d pg = ent vm (d, pg div 1024)"

definition pte :: "vm \<Rightarrow> u32 \<Rightarrow> nat \<Rightarrow> u32" where "pte vm d pg = ent vm (frame_of (pde vm d pg), pg mod 1024)"

definition translate :: "vm \<Rightarrow> u32 \<Rightarrow> nat \<Rightarrow> u32 option" where
  "translate vm d pg = (if present (pde vm d pg) \<and> present (pte vm d pg) then Some (frame_of (pte vm d pg)) else None)"

definition writable_at :: "vm \<Rightarrow> u32 \<Rightarrow> nat \<Rightarrow> bool" where
  "writable_at vm d pg \<longleftrightarrow> translate vm d pg \<noteq> None \<and> writable (pde vm d pg) \<and> writable (pte vm d pg)"

definition page_bytes :: "memory \<Rightarrow> u32 \<Rightarrow> u8 list" where
  "page_bytes m f = map (\<lambda>j. m (f + of_nat j)) [0..<4096]"

definition view :: "vm \<Rightarrow> u32 \<Rightarrow> nat \<Rightarrow> u8 list option" where
  "view vm d pg = map_option (page_bytes (vm_mem vm)) (translate vm d pg)"

text \<open>All entries of the directories and tables are accounted, no lock is taken, and no table and no page is lost.\<close>

definition vm_good :: "vm_region \<Rightarrow> u32 set \<Rightarrow> u32 set \<Rightarrow> u32 set \<Rightarrow> u32 set \<Rightarrow> nat \<Rightarrow> vm \<Rightarrow> bool" where
  "vm_good R X D T P k vm \<longleftrightarrow> vm_inv R X D T P k (cells D T) vm \<and> unlocked vm
     \<and> (\<forall>p \<in> T \<union> P. refs (ent vm) (cells D T) p \<noteq> {})"

lemma vm_goodD:
  assumes "vm_good R X D T P k vm"
  shows "vm_inv R X D T P k (cells D T) vm" "unlocked vm" "\<And>p. p \<in> T \<union> P \<Longrightarrow> refs (ent vm) (cells D T) p \<noteq> {}"
  using assms by (auto simp: vm_good_def)

lemma dir_cell: "d \<in> D \<Longrightarrow> user_page pg \<Longrightarrow> (d, pg div 1024) \<in> cells D T"
  by (simp add: cells_def user_page_def)

lemma table_cell: "t \<in> T \<Longrightarrow> (t, pg mod 1024) \<in> cells D T"
  by (simp add: cells_def)

lemma pde_table:
  assumes "vm_inv R X D T P k (cells D T) vm" "d \<in> D" "user_page pg" "present (pde vm d pg)"
  shows "frame_of (pde vm d pg) \<in> T"
  using kindsD(1) [OF inv_parts(3) [OF assms(1)] dir_cell [OF assms(2,3)]] assms(2,4) by (simp add: pde_def)

lemma translate_page:
  assumes inv: "vm_inv R X D T P k (cells D T) vm" and d: "d \<in> D" "user_page pg" and t: "translate vm d pg = Some f"
  shows "f \<in> insert (rg_zero R) P"
proof -
  have p: "present (pde vm d pg)" "present (pte vm d pg)" "f = frame_of (pte vm d pg)"
    using t by (auto simp: translate_def split: if_splits)
  note tT = pde_table [OF inv d p(1)]
  show ?thesis using kindsD(2) [OF inv_parts(3) [OF inv] table_cell [OF tT]] tT p(2,3) by (simp add: pte_def)
qed

lemma page_bytes_cong:
  assumes "offset f = 0" "\<And>a. in_frame f a \<Longrightarrow> m a = m' a"
  shows "page_bytes m f = page_bytes m' f"
  unfolding page_bytes_def by (rule map_upt_cong) (use frame_byte [OF assms(1)] assms(2) in simp)

text \<open>A directory that translates as before, over pages that did not change, shows what it did.\<close>

lemma view_cong:
  assumes inv: "vm_inv R X D T P k (cells D T) vm" and d: "d \<in> D" "user_page pg"
    and tr: "translate vm' d pg = translate vm d pg"
    and mem: "\<forall>a. \<forall>p \<in> insert (rg_zero R) (rg_static R \<union> P \<union> X). in_frame p a \<longrightarrow> vm_mem vm' a = vm_mem vm a"
  shows "view vm' d pg = view vm d pg"
proof (cases "translate vm d pg")
  case (Some f)
  then have f: "f \<in> insert (rg_zero R) P" by (rule translate_page [OF inv d])
  then have "offset f = 0" using vm_aligned [OF inv, of f] by auto
  then have "page_bytes (vm_mem vm') f = page_bytes (vm_mem vm) f"
    by (rule page_bytes_cong) (use mem f in blast)
  then show ?thesis using Some tr by (simp add: view_def)
qed (use tr in \<open>simp add: view_def\<close>)

lemma cells_insert: "cells D T \<union> {t} \<times> {..<1024} = cells D (insert t T)"
  by (auto simp: cells_def)

lemma same_mapD: "same_map e e' \<Longrightarrow> present e' = present e" "same_map e e' \<Longrightarrow> present e \<Longrightarrow> frame_of e' = frame_of e"
  by (simp_all add: same_map_def)

lemma own_tableD:
  assumes "own_table R X D T P k C c t' vm vm'"
  shows "vm_inv R X D (insert t' T) P k (C \<union> {t'} \<times> {..<1024}) vm'" "page_locks vm' = page_locks vm"
    "present (ent vm' c)" "writable (ent vm' c)" "frame_of (ent vm' c) = t'"
    "t' = frame_of (ent vm c) \<or> t' \<notin> insert (rg_zero R) (rg_static R \<union> D \<union> T \<union> P \<union> X)
      \<and> refs (ent vm) (C - {c}) (frame_of (ent vm c)) \<noteq> {}"
    "\<And>d. is_cell d \<Longrightarrow> d \<noteq> c \<Longrightarrow> fst d \<in> D \<Longrightarrow> ent vm' d = ent vm d"
    "\<And>d. is_cell d \<Longrightarrow> fst d \<in> T \<Longrightarrow> same_map (ent vm d) (ent vm' d)"
    "\<And>j. j < 1024 \<Longrightarrow> same_map (ent vm (frame_of (ent vm c), j)) (ent vm' (t', j))"
    "\<forall>a. \<forall>p \<in> insert (rg_zero R) (rg_static R \<union> P \<union> X). in_frame p a \<longrightarrow> vm_mem vm' a = vm_mem vm a"
  using assms unfolding own_table_def by blast+

lemma user_cell:
  assumes "vm_inv R X D T P k C vm" "d \<in> D" "user_page pg"
  shows "is_cell (d, pg div 1024)"
  using vm_aligned [OF assms(1), of d] assms(2,3) by (auto simp: is_cell_def user_page_def user_dirs_def)

lemma own_table_good:
  assumes good: "vm_good R X D T P k vm" and c: "c \<in> cells D T" "fst c \<in> D" "present (ent vm c)"
    and own: "own_table R X D T P k (cells D T) c t' vm vm'"
  shows "vm_good R X D (insert t' T) P k vm'"
    "d \<in> D \<Longrightarrow> user_page pg \<Longrightarrow> translate vm' d pg = translate vm d pg"
proof -
  note g = vm_goodD [OF good] and o = own_tableD [OF own]
  let ?C = "cells D T" and ?t = "frame_of (ent vm c)"
  have inv': "vm_inv R X D (insert t' T) P k (cells D (insert t' T)) vm'" using o(1) unfolding cells_insert .
  have sm: "same_map (ent vm e) (ent vm' e)" if "e \<in> ?C - {c}" for e
    using o(7,8) inv_cell [OF g(1), of e] that by (cases "fst e \<in> D") auto
  have keep: "refs (ent vm) (?C - {c}) p \<subseteq> refs (ent vm') (cells D (insert t' T)) p" for p
  proof
    fix e assume e: "e \<in> refs (ent vm) (?C - {c}) p"
    then have "e \<in> ?C - {c}" "present (ent vm e)" "frame_of (ent vm e) = p" by (auto simp: refs_def)
    moreover have "e \<in> cells D (insert t' T)" using calculation(1) by (auto simp: cells_def)
    ultimately show "e \<in> refs (ent vm') (cells D (insert t' T)) p" using same_mapD [OF sm, of e] by (simp add: refs_def)
  qed
  have new: "c \<in> refs (ent vm') (cells D (insert t' T)) t'"
    using c(1) o(3,5) unfolding refs_def cells_insert [symmetric] by blast
  have "refs (ent vm') (cells D (insert t' T)) p \<noteq> {}" if p: "p \<in> insert t' T \<union> P" for p
  proof (cases "p = t'")
    case False
    then have "p \<in> T \<union> P" using p by blast
    from g(3) [OF this] have r: "refs (ent vm) ?C p \<noteq> {}" .
    have "refs (ent vm) (?C - {c}) p \<noteq> {}"
    proof (cases "p = ?t")
      case True
      then show ?thesis using o(6) False by blast
    next
      case False
      then show ?thesis using r by (auto simp: refs_def)
    qed
    then show ?thesis using keep [of p] by blast
  qed (use new in blast)
  then show "vm_good R X D (insert t' T) P k vm'" using inv' g(2) o(2) by (simp add: vm_good_def unlocked_def)
  assume d: "d \<in> D" "user_page pg"
  note dc = user_cell [OF g(1) d]
  show "translate vm' d pg = translate vm d pg"
  proof (cases "(d, pg div 1024) = c")
    case True
    then have "pde vm' d pg = ent vm' c" "pde vm d pg = ent vm c" by (simp_all add: pde_def)
    then show ?thesis using same_mapD [OF o(9), of "pg mod 1024"] o(3,5) c(3) by (auto simp: translate_def pte_def)
  next
    case False
    then have e: "pde vm' d pg = pde vm d pg" using o(7) [OF dc] d(1) by (simp add: pde_def)
    show ?thesis
    proof (cases "present (pde vm d pg)")
      case True
      then have "frame_of (pde vm d pg) \<in> T" by (rule pde_table [OF g(1) d])
      then have "same_map (pte vm d pg) (pte vm' d pg)" using o(8) unfolding pte_def e by (simp add: is_cell_def)
      then show ?thesis using e same_mapD by (auto simp: translate_def)
    qed (use e in \<open>simp add: translate_def\<close>)
  qed
qed

lemma own_pageD:
  assumes "own_page R X D T P k C c p' vm vm'"
  shows "vm_inv R X D T (insert p' P) k C vm'" "page_locks vm' = page_locks vm"
    "present (ent vm' c)" "writable (ent vm' c)" "frame_of (ent vm' c) = p'"
    "p' = frame_of (ent vm c) \<or> p' \<notin> insert (rg_zero R) (rg_static R \<union> D \<union> T \<union> P \<union> X)
      \<and> (refs (ent vm) (C - {c}) (frame_of (ent vm c)) \<noteq> {} \<or> frame_of (ent vm c) = rg_zero R)"
    "\<And>d. is_cell d \<Longrightarrow> d \<noteq> c \<Longrightarrow> fst d \<in> D \<union> T \<Longrightarrow> ent vm' d = ent vm d"
    "\<And>j. j < 4096 \<Longrightarrow> vm_mem vm' (p' + of_nat j) = vm_mem vm (frame_of (ent vm c) + of_nat j)"
    "\<forall>a. \<forall>p \<in> insert (rg_zero R) (rg_static R \<union> P \<union> X). in_frame p a \<longrightarrow> vm_mem vm' a = vm_mem vm a"
  using assms unfolding own_page_def by blast+

lemma own_page_good:
  assumes good: "vm_good R X D T P k vm" and c: "c \<in> cells D T" "fst c \<in> T" "present (ent vm c)"
    and own: "own_page R X D T P k (cells D T) c p' vm vm'"
  shows "vm_good R X D T (insert p' P) k vm'"
    "d \<in> D \<Longrightarrow> user_page pg \<Longrightarrow> view vm' d pg = view vm d pg"
    "d \<in> D \<Longrightarrow> user_page pg \<Longrightarrow> pde vm' d pg = pde vm d pg"
proof -
  note g = vm_goodD [OF good] and o = own_pageD [OF own]
  let ?C = "cells D T" and ?p = "frame_of (ent vm c)"
  have cD: "fst c \<notin> D" using c(2) inv_parts(5) [OF g(1)] by auto
  have same: "ent vm' e = ent vm e" if "e \<in> ?C - {c}" for e
    using o(7) inv_cell [OF g(1), of e] that by simp
  have "refs (ent vm') ?C q \<noteq> {}" if q: "q \<in> T \<union> insert p' P" for q
  proof (cases "q = p'")
    case True
    then have "c \<in> refs (ent vm') ?C q" using c(1) o(3,5) by (simp add: refs_def)
    then show ?thesis by blast
  next
    case False
    then have q: "q \<in> T \<union> P" using q by blast
    from g(3) [OF this] have r: "refs (ent vm) ?C q \<noteq> {}" .
    have "refs (ent vm) (?C - {c}) q \<noteq> {}"
    proof (cases "q = ?p")
      case True
      then show ?thesis using o(6) False q inv_zero_apart [OF g(1)] by auto
    next
      case False
      then show ?thesis using r by (auto simp: refs_def)
    qed
    moreover have "refs (ent vm) (?C - {c}) q \<subseteq> refs (ent vm') ?C q" using same by (auto simp: refs_def)
    ultimately show ?thesis by blast
  qed
  then show "vm_good R X D T (insert p' P) k vm'" using g(2) o(1,2) by (simp add: vm_good_def unlocked_def)
  assume d: "d \<in> D" "user_page pg"
  have "(d, pg div 1024) \<noteq> c" using cD d(1) by auto
  then show e: "pde vm' d pg = pde vm d pg" using o(7) [OF user_cell [OF g(1) d]] d(1) by (simp add: pde_def)
  show "view vm' d pg = view vm d pg"
  proof (cases "present (pde vm d pg) \<and> (frame_of (pde vm d pg), pg mod 1024) = c")
    case True
    have p': "offset p' = 0" using vm_aligned [OF o(1), of p'] by simp
    have "page_bytes (vm_mem vm') p' = page_bytes (vm_mem vm) ?p"
      unfolding page_bytes_def by (rule map_upt_cong) (use o(8) in simp)
    moreover have "translate vm' d pg = Some p'" "translate vm d pg = Some ?p"
      using True e o(3,5) c(3) by (simp_all add: translate_def pte_def)
    ultimately show ?thesis by (simp add: view_def)
  next
    case False
    have "translate vm' d pg = translate vm d pg"
    proof (cases "present (pde vm d pg)")
      case True
      then have "frame_of (pde vm d pg) \<in> T" by (rule pde_table [OF g(1) d])
      then have "pte vm' d pg = pte vm d pg" using o(7) False True unfolding pte_def e by (simp add: is_cell_def)
      then show ?thesis using e by (simp add: translate_def)
    qed (use e in \<open>simp add: translate_def\<close>)
    then show ?thesis by (rule view_cong [OF g(1) d _ o(9)])
  qed
qed

text \<open>The entries that the code reads and writes.\<close>

lemma dir_entry_address: "d + 4 * (page div pointers_per_frame) = cell (d, unat page div 1024)"
proof -
  have u: "unat page div 1024 = unat (page div 1024)" by (simp add: unat_div_distrib)
  show ?thesis unfolding cell_def mask_values fst_conv snd_conv u by (simp only: of_nat_unat ucast_id)
qed

lemma table_entry_address: "t + 4 * (page mod pointers_per_frame) = cell (t, unat page mod 1024)"
proof -
  have u: "unat page mod 1024 = unat (page mod 1024)" by (simp add: unat_mod_distrib)
  show ?thesis unfolding cell_def mask_values fst_conv snd_conv u by (simp only: of_nat_unat ucast_id)
qed

lemma frame_nonzero:
  assumes "vm_inv R X D T P k C vm" "p \<in> D \<union> T \<union> P \<union> X"
  shows "p \<noteq> 0"
  using pm_inv_range(2) [OF inv_parts(1) [OF assms(1)] assms(2)] inv_parts(1) [OF assms(1)] by (auto simp: pm_inv_def)

lemma entry_absent: "\<not> present (ent vm c) \<Longrightarrow> cow_copy (cell c) b vm = Inr vm"
  by (simp add: cow_copy_def entry_flags ent_def [symmetric])

lemma get_table_absent:
  assumes "\<not> present (pde vm d (unat page))"
  shows "get_page_table page d vm = Inr (0, vm)"
  using assms entry_absent [of vm "(d, unat page div 1024)" True]
  by (simp add: get_page_table_def get_page_directory_entry_def dir_entry_address pde_def ent_def [symmetric] present_def)

lemma get_table_present:
  assumes good: "vm_good R X D T P k vm" and d: "d \<in> D" "user_page (unat page)" "present (pde vm d (unat page))"
  shows "get_page_table page d vm = Inl Panic \<and> frames_full R (D \<union> T \<union> P \<union> X) \<or>
    (\<exists>vm' t'. get_page_table page d vm = Inr (t', vm') \<and> t' \<noteq> 0
      \<and> own_table R X D T P k (cells D T) (d, unat page div 1024) t' vm vm')"
proof -
  note g = vm_goodD [OF good]
  let ?c = "(d, unat page div 1024)"
  have c: "?c \<in> cells D T" "fst ?c \<in> D" "present (ent vm ?c)" using dir_cell [OF d(1,2)] d by (simp_all add: pde_def)
  have "frame_of (ent vm ?c) \<in> T" using pde_table [OF g(1) d] by (simp add: pde_def)
  then have "{frame_of (ent vm ?c)} \<times> {..<1024} \<subseteq> cells D T" by (auto simp: cells_def)
  from cow_copy_table [OF g(1) c g(2) this] show ?thesis
  proof
    assume "cow_copy (cell ?c) True vm = Inl Panic \<and> frames_full R (D \<union> T \<union> P \<union> X)"
    then show ?thesis by (simp add: get_page_table_def get_page_directory_entry_def dir_entry_address)
  next
    assume "\<exists>vm' t'. cow_copy (cell ?c) True vm = Inr vm' \<and> own_table R X D T P k (cells D T) ?c t' vm vm'"
    then obtain vm' t' where o: "cow_copy (cell ?c) True vm = Inr vm'" "own_table R X D T P k (cells D T) ?c t' vm vm'" by blast
    have "t' \<noteq> 0" using frame_nonzero [OF own_tableD(1) [OF o(2)], of t'] by simp
    moreover have "get_page_table page d vm = Inr (t', vm')"
      using o(1) own_tableD(3,5) [OF o(2)]
      by (simp add: get_page_table_def get_page_directory_entry_def dir_entry_address ent_def [symmetric] present_def frame_of_def)
    ultimately show ?thesis using o(2) by blast
  qed
qed

section \<open>The operations\<close>

lemma cow_fault_ok:
  assumes good: "vm_good R X D T P k vm" and d: "d \<in> D" and pg: "pg = unat (address div FRAME_SIZE)" "user_page pg"
    and tr: "translate vm d pg \<noteq> None"
  shows "copy_on_write_fault address d vm = Inl Panic \<and> unat (rg_bytes R) div 4096 \<le> card (D \<union> T \<union> P \<union> X) + 1 \<or>
    (\<exists>vm' T' P'. copy_on_write_fault address d vm = Inr vm' \<and> vm_good R X D T' P' k vm' \<and> writable_at vm' d pg
      \<and> (\<forall>d' \<in> D. \<forall>pg'. user_page pg' \<longrightarrow> view vm' d' pg' = view vm d' pg')
      \<and> (\<forall>a. \<forall>p \<in> insert (rg_zero R) (rg_static R \<union> P \<union> X). in_frame p a \<longrightarrow> vm_mem vm' a = vm_mem vm a))"
proof -
  note g = vm_goodD [OF good]
  let ?n = "address div FRAME_SIZE" and ?c = "(d, unat (address div FRAME_SIZE) div 1024)"
  have pr: "present (pde vm d pg)" "present (pte vm d pg)" using tr by (auto simp: translate_def split: if_splits)
  have up: "user_page (unat ?n)" "present (pde vm d (unat ?n))" using pg pr by simp_all
  have c: "?c \<in> cells D T" "fst ?c \<in> D" "present (ent vm ?c)" using dir_cell [OF d up(1)] d up(2) by (simp_all add: pde_def)
  from get_table_present [OF good d up] show ?thesis
  proof
    assume "get_page_table ?n d vm = Inl Panic \<and> frames_full R (D \<union> T \<union> P \<union> X)"
    then show ?thesis by (simp add: copy_on_write_fault_def Let_def frames_full_def)
  next
    assume "\<exists>vm' t'. get_page_table ?n d vm = Inr (t', vm') \<and> t' \<noteq> 0 \<and> own_table R X D T P k (cells D T) ?c t' vm vm'"
    then obtain vm1 t where t: "get_page_table ?n d vm = Inr (t, vm1)" and own: "own_table R X D T P k (cells D T) ?c t vm vm1" by blast
    note o = own_tableD [OF own] and og = own_table_good [OF good c own]
    let ?T = "insert t T" and ?e = "(t, unat ?n mod 1024)"
    have e: "?e \<in> cells D ?T" "fst ?e \<in> ?T" "present (ent vm1 ?e)"
      using table_cell [of t ?T] same_mapD(1) [OF o(9), of "pg mod 1024"] pr(2) pg(1) by (simp_all add: pte_def pde_def)
    note g1 = vm_goodD [OF og(1)]
    have call: "copy_on_write_fault address d vm = cow_copy (cell ?e) False vm1"
      using t by (simp add: copy_on_write_fault_def table_entry_address)
    from cow_copy_page [OF g1(1) e g1(2)] show ?thesis
    proof
      assume full: "cow_copy (cell ?e) False vm1 = Inl Panic \<and> frames_full R (D \<union> ?T \<union> P \<union> X)"
      have "card (insert t (D \<union> T \<union> P \<union> X)) \<le> card (D \<union> T \<union> P \<union> X) + 1" by (simp add: card_insert_if inv_finite(3) [OF g(1)])
      moreover have "D \<union> ?T \<union> P \<union> X = insert t (D \<union> T \<union> P \<union> X)" by blast
      ultimately show ?thesis using full call by (simp add: frames_full_def)
    next
      assume "\<exists>vm' p'. cow_copy (cell ?e) False vm1 = Inr vm' \<and> own_page R X D ?T P k (cells D ?T) ?e p' vm1 vm'"
      then obtain vm2 p where p: "cow_copy (cell ?e) False vm1 = Inr vm2" and own2: "own_page R X D ?T P k (cells D ?T) ?e p vm1 vm2" by blast
      note p2 = own_page_good [OF og(1) e own2] and o2 = own_pageD [OF own2]
      have "pde vm2 d pg = ent vm1 ?c" using p2(3) [OF d pg(2)] pg(1) by (simp add: pde_def)
      moreover from this have "pte vm2 d pg = ent vm2 ?e" using o(5) pg(1) by (simp add: pte_def)
      ultimately have w: "writable_at vm2 d pg" using o(3,4) o2(3,4) by (simp add: writable_at_def translate_def)
      have v: "view vm2 d' pg' = view vm d' pg'" if "d' \<in> D" "user_page pg'" for d' pg'
        using p2(2) [OF that] view_cong [OF g(1) that og(2) [OF that] o(10)] by simp
      have "vm_mem vm2 a = vm_mem vm a" if "q \<in> insert (rg_zero R) (rg_static R \<union> P \<union> X)" "in_frame q a" for q a
        using o2(9) o(10) that by metis
      then show ?thesis using call p p2(1) w v by metis
    qed
  qed
qed

text \<open>A page that can be written is mapped only there.\<close>

lemma writable_alone:
  assumes inv: "vm_inv R X D T P k (cells D T) vm" and w: "writable_at vm d pg" "d \<in> D" "user_page pg"
    and o: "d' \<in> D" "user_page pg'" "translate vm d' pg' = translate vm d pg"
  shows "d' = d \<and> pg' = pg"
proof -
  let ?C = "cells D T"
  have t: "present (pde vm d pg)" "present (pte vm d pg)" "writable (pde vm d pg)" "writable (pte vm d pg)"
    using w(1) by (auto simp: writable_at_def translate_def split: if_splits)
  have t': "present (pde vm d' pg')" "present (pte vm d' pg')" "frame_of (pte vm d' pg') = frame_of (pte vm d pg)"
    using o(3) t by (auto simp: translate_def split: if_splits)
  have m: "frame_of (pde vm d pg) \<in> T" "frame_of (pde vm d' pg') \<in> T"
    using pde_table [OF inv w(2,3) t(1)] pde_table [OF inv o(1,2) t'(1)] by simp_all
  have alone: "c' = c" if "c \<in> ?C" "present (ent vm c)" "writable (ent vm c)" "c' \<in> ?C" "present (ent vm c')"
      "frame_of (ent vm c') = frame_of (ent vm c)" for c c'
  proof -
    have "c \<in> refs (ent vm) ?C (frame_of (ent vm c))" "c' \<in> refs (ent vm) ?C (frame_of (ent vm c))" using that by (simp_all add: refs_def)
    then show ?thesis using accountedD(2) [OF inv_parts(4) [OF inv] _ that(3)] by blast
  qed
  have "(frame_of (pde vm d' pg'), pg' mod 1024) = (frame_of (pde vm d pg), pg mod 1024)"
    using alone [OF table_cell [OF m(1)] _ _ table_cell [OF m(2)]] t(2,4) t'(2,3) by (simp add: pte_def)
  moreover from this have "(d', pg' div 1024) = (d, pg div 1024)"
    using alone [OF dir_cell [OF w(2,3)] _ _ dir_cell [OF o(1,2)]] t(1,3) t'(1) by (simp add: pde_def)
  ultimately have "d' = d" "pg' mod 1024 = pg mod 1024" "pg' div 1024 = pg div 1024" by simp_all
  moreover have "pg' = pg' div 1024 * 1024 + pg' mod 1024" "pg = pg div 1024 * 1024 + pg mod 1024" by simp_all
  ultimately show ?thesis by metis
qed

text \<open>The page table of an address, made if there is none. The entry is writable, so the table belongs to it alone.\<close>

definition table_of :: "vm_region \<Rightarrow> u32 set \<Rightarrow> u32 set \<Rightarrow> u32 set \<Rightarrow> u32 set \<Rightarrow> nat \<Rightarrow> u32 \<Rightarrow> nat \<Rightarrow> u32 \<Rightarrow> vm \<Rightarrow> vm \<Rightarrow> bool" where
  "table_of R X D T P k d pg t vm vm' \<longleftrightarrow> vm_good R X D (insert t T) P k vm'
     \<and> present (pde vm' d pg) \<and> writable (pde vm' d pg) \<and> frame_of (pde vm' d pg) = t
     \<and> (\<forall>d' \<in> D. \<forall>pg'. user_page pg' \<longrightarrow> translate vm' d' pg' = translate vm d' pg')
     \<and> (\<forall>a. \<forall>p \<in> insert (rg_zero R) (rg_static R \<union> P \<union> X). in_frame p a \<longrightarrow> vm_mem vm' a = vm_mem vm a)"

lemma flag_bits: "bit FLAG_PR n \<longleftrightarrow> n = 0" "bit FLAG_RW n \<longleftrightarrow> n = 1" "bit FLAG_US n \<longleftrightarrow> n = 2"
  unfolding FLAG_PR_def FLAG_RW_def FLAG_US_def bit_push_bit_iff bit_1_iff by auto

lemma flags_of:
  assumes "offset f = 0"
  shows "present (f OR (FLAG_PR OR FLAG_RW OR FLAG_US))" "writable (f OR (FLAG_PR OR FLAG_RW OR FLAG_US))"
    "frame_of (f OR (FLAG_PR OR FLAG_RW OR FLAG_US)) = f"
    "present (f OR (FLAG_PR OR FLAG_US))" "\<not> writable (f OR (FLAG_PR OR FLAG_US))" "frame_of (f OR (FLAG_PR OR FLAG_US)) = f"
proof -
  have f: "bit f n \<Longrightarrow> 12 \<le> n" for n using assms by (meson offset_bits not_le)
  show "present (f OR (FLAG_PR OR FLAG_RW OR FLAG_US))" "writable (f OR (FLAG_PR OR FLAG_RW OR FLAG_US))"
    "present (f OR (FLAG_PR OR FLAG_US))" "\<not> writable (f OR (FLAG_PR OR FLAG_US))"
    using f [of 0] f [of 1] by (auto simp: present_bit writable_bit flag_bits bit_or_iff)
  show "frame_of (f OR (FLAG_PR OR FLAG_RW OR FLAG_US)) = f" "frame_of (f OR (FLAG_PR OR FLAG_US)) = f"
    using f by (auto simp: bit_frame_of flag_bits bit_or_iff intro!: bit_word_eqI)
qed

lemma new_table_good:
  assumes good: "vm_good R X D T P k vm" and d: "d \<in> D" "user_page pg" and no: "\<not> present (pde vm d pg)"
    and al: "vm_alloc vm = Inr (t, vm1)"
  defines "vm' \<equiv> poke (cell (d, pg div 1024)) (t OR (FLAG_PR OR FLAG_RW OR FLAG_US)) vm1"
  shows "table_of R X D T P k d pg t vm vm'" "\<not> present (pde vm1 d pg)"
proof -
  note g = vm_goodD [OF good]
  let ?c = "(d, pg div 1024)" and ?T = "insert t T" and ?v = "t OR (FLAG_PR OR FLAG_RW OR FLAG_US)"
  have nf: "card (D \<union> T \<union> P \<union> X) \<noteq> unat (rg_bytes R) div 4096" using vm_alloc_ok [OF g(1)] al by auto
  then have a: "t \<notin> insert (rg_zero R) (rg_static R \<union> D \<union> T \<union> P \<union> X)" "vm_inv R (insert t X) D T P k (cells D T) vm1"
      "page_locks vm1 = page_locks vm" "\<And>e. is_cell e \<Longrightarrow> ent vm1 e = (if fst e = t then 0 else ent vm e)"
      "\<And>a. vm_mem vm1 a = (if in_frame t a then 0 else vm_mem vm a)"
    using vm_alloc_ok [OF g(1)] al by auto
  have t0: "offset t = 0" using vm_aligned [OF a(2), of t] by simp
  note fl = flags_of(1-3) [OF t0]
  have cc: "is_cell ?c" "?c \<in> cells D T" "fst ?c \<noteq> t" using user_cell [OF g(1) d] dir_cell [OF d] d(1) a(1) by auto
  have empty: "\<forall>j < 1024. \<not> present (ent vm1 (t, j))" using a(4) t0 by (simp add: is_cell_def)
  have same: "ent vm1 e = ent vm e" if "is_cell e" "fst e \<noteq> t" for e using a(4) [OF that(1)] that(2) by simp
  show np: "\<not> present (pde vm1 d pg)" using no same [OF cc(1,3)] by (simp add: pde_def)
  have i1: "vm_inv R X D ?T P k (cells D ?T) vm1"
    using adopt_table [OF a(2) _ empty] a(1) unfolding cells_insert by blast
  have c': "?c \<in> cells D ?T" using cc(2) by (auto simp: cells_def)
  have "vm_inv R X D ?T P k (cells D ?T - {?c}) vm1" by (rule inv_forget [OF i1]) (use np in \<open>simp add: pde_def\<close>)
  moreover have "refs (ent vm1) (cells D ?T - {?c}) t = {}"
  proof -
    have "frame_of (ent vm1 e) \<noteq> t" if e: "e \<in> cells D ?T" "present (ent vm1 e)" for e
    proof (cases "fst e \<in> D")
      case True
      then have "e \<in> cells D T" using e(1) a(1) by (auto simp: cells_def)
      then show ?thesis using kindsD(1) [OF inv_parts(3) [OF a(2)] _ e(2) True] a(1) by auto
    next
      case False
      then have "fst e \<in> ?T" using inv_cell(2) [OF i1 e(1)] by blast
      then show ?thesis using kindsD(2) [OF inv_parts(3) [OF i1] e] a(1) by auto
    qed
    then show ?thesis by (auto simp: refs_def)
  qed
  moreover have "fst ?c \<notin> ?T" using inv_parts(5) [OF i1] d(1) by auto
  ultimately have "vm_inv R X D ?T P k (insert ?c (cells D ?T - {?c})) vm'"
    unfolding vm'_def using fl d(1) cc(1) by (intro inv_restore) simp_all
  then have i2: "vm_inv R X D ?T P k (cells D ?T) vm'" using c' by (simp add: insert_absorb)
  have ev: "ent vm' e = (if e = ?c then ?v else ent vm1 e)" if "is_cell e" for e
    unfolding vm'_def using peek_poke [OF cc(1) that] .
  have old: "ent vm' e = ent vm e" if "e \<in> cells D T" "e \<noteq> ?c" for e
  proof -
    have "is_cell e" "fst e \<noteq> t" using inv_cell [OF g(1) that(1)] a(1) by auto
    then show ?thesis using ev same that(2) by simp
  qed
  have pde': "pde vm' d' pg' = (if (d', pg' div 1024) = ?c then ?v else pde vm d' pg')" if "d' \<in> D" "user_page pg'" for d' pg'
    using ev [OF user_cell [OF g(1) that]] same [OF user_cell [OF g(1) that]] that(1) a(1) by (auto simp: pde_def)
  have "refs (ent vm') (cells D ?T) p \<noteq> {}" if p: "p \<in> ?T \<union> P" for p
  proof (cases "p = t")
    case True
    then have "?c \<in> refs (ent vm') (cells D ?T) p" using c' ev [OF cc(1)] fl by (simp add: refs_def)
    then show ?thesis by blast
  next
    case False
    then obtain e where e: "e \<in> cells D T" "present (ent vm e)" "frame_of (ent vm e) = p" using g(3) [of p] p by (auto simp: refs_def)
    moreover have "e \<noteq> ?c" using e(2) no by (auto simp: pde_def)
    ultimately have "e \<in> refs (ent vm') (cells D ?T) p" using old by (auto simp: refs_def cells_def)
    then show ?thesis by blast
  qed
  then have good': "vm_good R X D ?T P k vm'" using i2 g(2) a(3) by (simp add: vm_good_def unlocked_def vm'_def)
  have tr: "translate vm' d' pg' = translate vm d' pg'" if "d' \<in> D" "user_page pg'" for d' pg'
  proof (cases "(d', pg' div 1024) = ?c")
    case True
    then have "pde vm' d' pg' = ?v" "\<not> present (pde vm d' pg')" using pde' [OF that] no by (simp_all add: pde_def)
    moreover have "is_cell (t, pg' mod 1024)" "(t, pg' mod 1024) \<noteq> ?c" using t0 cc(3) by (auto simp: is_cell_def)
    ultimately have "\<not> present (pte vm' d' pg')" using fl ev empty cc(3) by (auto simp: pte_def)
    then show ?thesis using \<open>\<not> present (pde vm d' pg')\<close> by (simp add: translate_def)
  next
    case False
    then have e: "pde vm' d' pg' = pde vm d' pg'" using pde' [OF that] by (simp only: if_False)
    show ?thesis
    proof (cases "present (pde vm d' pg')")
      case True
      then have m: "frame_of (pde vm d' pg') \<in> T" by (rule pde_table [OF g(1) that])
      have "(frame_of (pde vm d' pg'), pg' mod 1024) \<noteq> ?c" using m d(1) inv_parts(5) [OF g(1)] by auto
      then have "pte vm' d' pg' = pte vm d' pg'" using old [OF table_cell [OF m]] unfolding pte_def e by simp
      then show ?thesis using e by (simp add: translate_def)
    qed (use e in \<open>simp add: translate_def\<close>)
  qed
  have "vm_mem vm' a = vm_mem vm a" if p: "p \<in> insert (rg_zero R) (rg_static R \<union> P \<union> X)" "in_frame p a" for p a
  proof -
    have "\<not> in_frame d a" using tables_apart [OF g(1) _ p] d(1) by blast
    moreover have "\<not> in_frame t a" using frames_apart [of p t a] p a(1) t0 vm_aligned [OF g(1), of p] by auto
    ultimately show ?thesis unfolding vm'_def using poke_elsewhere [OF cc(1), of a] a(5) by simp
  qed
  then show "table_of R X D T P k d pg t vm vm'"
    unfolding table_of_def using good' pde' [OF d] fl tr by simp
qed

end
