(* ===== verification/Space_Operations.thy ===== *)
theory Space_Operations
  imports Address_Spaces
begin

text \<open>
  The operations of \<^verbatim>\<open>kernel/vmm.cc\<close> on address spaces: each keeps the account of the references and
  changes what the directories map as it says, and no more.
\<close>

declare split_paired_All [simp del] split_paired_Ex [simp del] split_paired_all [simp del]

section \<open>Mapping a page\<close>

lemma table_alone:
  assumes inv: "vm_inv R X D T P k (cells D T) vm" and w: "present (pde vm d pg)" "writable (pde vm d pg)" "d \<in> D" "user_page pg"
    and o: "d' \<in> D" "user_page pg'" "present (pde vm d' pg')" "frame_of (pde vm d' pg') = frame_of (pde vm d pg)"
  shows "d' = d \<and> pg' div 1024 = pg div 1024"
proof -
  let ?r = "refs (ent vm) (cells D T) (frame_of (pde vm d pg))"
  have "(d, pg div 1024) \<in> ?r" "(d', pg' div 1024) \<in> ?r"
    using dir_cell [OF w(3,4)] dir_cell [OF o(1,2)] w(1) o(3,4) by (simp_all add: refs_def pde_def)
  moreover from this have "?r = {(d, pg div 1024)}"
    using accountedD(2) [OF inv_parts(4) [OF inv]] w(2) by (simp add: pde_def)
  ultimately show ?thesis by simp
qed

lemma entry_written:
  assumes good: "vm_good R X D T P k vm" and d: "d \<in> D" "user_page pg" and pe: "present (pde vm d pg)" "writable (pde vm d pg)"
    and no: "\<not> present (pte vm d pg)" and v: "present v" and P': "P' \<subseteq> insert (frame_of v) P"
    and vm': "vm' = poke (cell (frame_of (pde vm d pg), pg mod 1024)) v vm"
    and inv': "vm_inv R X' D T P' k' (cells D T) vm'"
  shows "vm_good R X' D T P' k' vm'" "pte vm' d pg = v"
    "\<And>d' pg'. d' \<in> D \<Longrightarrow> user_page pg' \<Longrightarrow> pde vm' d' pg' = pde vm d' pg'"
    "\<And>d' pg'. d' \<in> D \<Longrightarrow> user_page pg' \<Longrightarrow>
       translate vm' d' pg' = (if d' = d \<and> pg' = pg then Some (frame_of v) else translate vm d' pg')"
    "\<forall>a. \<forall>p \<in> insert (rg_zero R) (rg_static R \<union> P \<union> X). in_frame p a \<longrightarrow> vm_mem vm' a = vm_mem vm a"
proof -
  note g = vm_goodD [OF good]
  let ?C = "cells D T" and ?e = "(frame_of (pde vm d pg), pg mod 1024)"
  have t: "frame_of (pde vm d pg) \<in> T" by (rule pde_table [OF g(1) d pe(1)])
  have e: "?e \<in> ?C" "is_cell ?e" using table_cell [OF t] by (simp_all add: is_cell_def)
  have ev: "ent vm' c = (if c = ?e then v else ent vm c)" if "is_cell c" for c
    unfolding vm' using peek_poke [OF e(2) that] .
  have "refs (ent vm') ?C p \<noteq> {}" if p: "p \<in> T \<union> P'" for p
  proof (cases "p = frame_of v")
    case True
    then have "?e \<in> refs (ent vm') ?C p" using e ev v by (simp add: refs_def)
    then show ?thesis by blast
  next
    case False
    then have "p \<in> T \<union> P" using p P' by blast
    from g(3) [OF this] obtain c where c: "c \<in> ?C" "present (ent vm c)" "frame_of (ent vm c) = p" by (auto simp: refs_def)
    then have "c \<noteq> ?e" using no by (auto simp: pte_def)
    then have "ent vm' c = ent vm c" using ev [OF inv_cell(1) [OF g(1) c(1)]] by (simp only: if_False)
    then have "c \<in> refs (ent vm') ?C p" using c by (simp add: refs_def)
    then show ?thesis by blast
  qed
  then show "vm_good R X' D T P' k' vm'" using inv' g(2) by (simp add: vm_good_def unlocked_def vm')
  show pd: "pde vm' d' pg' = pde vm d' pg'" if "d' \<in> D" "user_page pg'" for d' pg'
    using ev [OF user_cell [OF g(1) that]] that(1) t inv_parts(5) [OF g(1)] by (auto simp: pde_def)
  show pv: "pte vm' d pg = v" using pd [OF d] ev [OF e(2)] by (simp add: pte_def)
  show "translate vm' d' pg' = (if d' = d \<and> pg' = pg then Some (frame_of v) else translate vm d' pg')"
    if o: "d' \<in> D" "user_page pg'" for d' pg'
  proof (cases "d' = d \<and> pg' = pg")
    case True
    then show ?thesis using pd [OF d] pv v pe by (simp add: translate_def)
  next
    case False
    have "pte vm' d' pg' = pte vm d' pg'" if pr: "present (pde vm d' pg')"
    proof -
      have "(frame_of (pde vm d' pg'), pg' mod 1024) \<noteq> ?e"
      proof
        assume "(frame_of (pde vm d' pg'), pg' mod 1024) = ?e"
        then have "d' = d" "pg' div 1024 = pg div 1024" "pg' mod 1024 = pg mod 1024"
          using table_alone [OF g(1) pe d o pr] by simp_all
        moreover have "pg' = pg' div 1024 * 1024 + pg' mod 1024" "pg = pg div 1024 * 1024 + pg mod 1024" by simp_all
        ultimately show False using False by metis
      qed
      then show ?thesis using ev [of "(frame_of (pde vm d' pg'), pg' mod 1024)"] pd [OF o] by (auto simp: pte_def is_cell_def)
    qed
    then show ?thesis using False pd [OF o] by (auto simp: translate_def)
  qed
  show "\<forall>a. \<forall>p \<in> insert (rg_zero R) (rg_static R \<union> P \<union> X). in_frame p a \<longrightarrow> vm_mem vm' a = vm_mem vm a"
    using tables_apart [OF g(1)] t poke_elsewhere [OF e(2)] unfolding vm' by fastforce
qed

text \<open>The first part of \<^verbatim>\<open>map_address\<close>: the page table of the address.\<close>

definition map_table :: "u32 \<Rightarrow> u32 \<Rightarrow> u32 \<Rightarrow> vm \<Rightarrow> (u32 \<times> vm) outcome" where
  "map_table page flags d vm = bind_ok (get_page_table page d vm) (\<lambda>(t, vm).
     if t = 0 then bind_ok (vm_alloc vm) (\<lambda>(t, vm). bind_ok (set_page_table page t flags d vm) (\<lambda>vm. Inr (t, vm))) else Inr (t, vm))"

lemma map_address_eq:
  "map_address a b flags d vm = bind_ok (map_table (a div FRAME_SIZE) flags d vm) (\<lambda>(t, vm).
     Inr (poke (cell (t, unat (a div FRAME_SIZE) mod 1024)) (frame_of b OR flags) vm))"
  unfolding map_address_def map_table_def Let_def table_entry_address frame_of_def
  by (cases "get_page_table (a div FRAME_SIZE) d vm") (simp_all add: case_prod_beta)

lemma own_table_ready:
  assumes good: "vm_good R X D T P k vm" and d: "d \<in> D" "user_page pg" "present (pde vm d pg)"
    and own: "own_table R X D T P k (cells D T) (d, pg div 1024) t vm vm'"
  shows "table_of R X D T P k d pg t vm vm'"
proof -
  have c: "(d, pg div 1024) \<in> cells D T" "fst (d, pg div 1024) \<in> D" "present (ent vm (d, pg div 1024))"
    using dir_cell [OF d(1,2)] d by (simp_all add: pde_def)
  show ?thesis unfolding table_of_def
    using own_table_good [OF good c own] own_tableD(3-5,10) [OF own] by (simp add: pde_def)
qed

lemma table_ready:
  assumes good: "vm_good R X D T P k vm" and d: "d \<in> D" "user_page (unat page)"
    and fl: "present (pde vm d (unat page)) \<or> flags = FLAG_PR OR FLAG_RW OR FLAG_US"
  shows "map_table page flags d vm = Inl Panic \<and> frames_full R (D \<union> T \<union> P \<union> X)
    \<or> (\<exists>t vm'. map_table page flags d vm = Inr (t, vm') \<and> table_of R X D T P k d (unat page) t vm vm')"
proof (cases "present (pde vm d (unat page))")
  case True
  from get_table_present [OF good d True] show ?thesis
  proof
    assume "\<exists>vm' t'. get_page_table page d vm = Inr (t', vm') \<and> t' \<noteq> 0
      \<and> own_table R X D T P k (cells D T) (d, unat page div 1024) t' vm vm'"
    then obtain vm' t where t: "get_page_table page d vm = Inr (t, vm')" "t \<noteq> 0"
      "own_table R X D T P k (cells D T) (d, unat page div 1024) t vm vm'" by blast
    then have "map_table page flags d vm = Inr (t, vm')" by (simp add: map_table_def)
    then show ?thesis using own_table_ready [OF good d True t(3)] by blast
  qed (simp add: map_table_def)
next
  case False
  note g = vm_goodD [OF good]
  have get: "get_page_table page d vm = Inr (0, vm)" by (rule get_table_absent [OF False])
  show ?thesis
  proof (cases "card (D \<union> T \<union> P \<union> X) = unat (rg_bytes R) div 4096")
    case True
    then have "vm_alloc vm = Inl Panic" using vm_alloc_ok [OF g(1)] by simp
    then show ?thesis using True get by (simp add: map_table_def frames_full_def)
  next
    case full: False
    then obtain t vm1 where al: "vm_alloc vm = Inr (t, vm1)" using vm_alloc_ok [OF g(1)] by auto
    note n = new_table_good [OF good d False al]
    have "\<not> present (ent vm1 (d, unat page div 1024))" using n(2) by (simp add: pde_def)
    from entry_absent [OF this] have "map_table page flags d vm
        = Inr (t, poke (cell (d, unat page div 1024)) (t OR (FLAG_PR OR FLAG_RW OR FLAG_US)) vm1)"
      using get al fl False
      by (simp add: map_table_def set_page_table_def get_page_directory_entry_def dir_entry_address or.assoc)
    then show ?thesis using n(1) by blast
  qed
qed

lemma table_ofD:
  assumes "table_of R X D T P k d pg t vm vm'"
  shows "vm_good R X D (insert t T) P k vm'" "present (pde vm' d pg)" "writable (pde vm' d pg)" "frame_of (pde vm' d pg) = t"
    "\<And>d' pg'. d' \<in> D \<Longrightarrow> user_page pg' \<Longrightarrow> translate vm' d' pg' = translate vm d' pg'"
    "\<forall>a. \<forall>p \<in> insert (rg_zero R) (rg_static R \<union> P \<union> X). in_frame p a \<longrightarrow> vm_mem vm' a = vm_mem vm a"
  using assms unfolding table_of_def by blast+

lemma mapped_elsewhere:
  assumes "\<forall>d' \<in> D. \<forall>pg'. user_page pg' \<longrightarrow> translate vm' d' pg' = (if d' = d \<and> pg' = pg then Some f else translate vm d' pg')"
    and "vm_inv R X D T P k (cells D T) vm" "d' \<in> D" "user_page pg'" "(d', pg') \<noteq> (d, pg)"
    and "\<forall>a. \<forall>p \<in> insert (rg_zero R) (rg_static R \<union> P \<union> X). in_frame p a \<longrightarrow> vm_mem vm' a = vm_mem vm a"
  shows "view vm' d' pg' = view vm d' pg'"
  using assms(1,3-5) by (intro view_cong [OF assms(2-4) _ assms(6)]) auto

text \<open>A page is mapped at an address where there was none.\<close>

definition page_mapped :: "vm_region \<Rightarrow> u32 set \<Rightarrow> u32 set \<Rightarrow> u32 set \<Rightarrow> u32 \<Rightarrow> nat \<Rightarrow> u32 \<Rightarrow> vm \<Rightarrow> vm \<Rightarrow> bool" where
  "page_mapped R X D P d pg f vm vm' \<longleftrightarrow>
     (\<forall>d' \<in> D. \<forall>pg'. user_page pg' \<longrightarrow> translate vm' d' pg' = (if d' = d \<and> pg' = pg then Some f else translate vm d' pg'))
     \<and> (\<forall>a. \<forall>p \<in> insert (rg_zero R) (rg_static R \<union> P \<union> X). in_frame p a \<longrightarrow> vm_mem vm' a = vm_mem vm a)"

lemma page_put:
  assumes tof: "table_of R X D T P k d pg t vm vm1" and d: "d \<in> D" "user_page pg" and no: "translate vm d pg = None"
    and v: "present v" and P': "P' \<subseteq> insert (frame_of v) P"
    and inv': "vm_inv R X' D (insert t T) P' k' (insert (t, pg mod 1024) (cells D (insert t T) - {(t, pg mod 1024)}))
      (poke (cell (t, pg mod 1024)) v vm1)"
  shows "vm_good R X' D (insert t T) P' k' (poke (cell (t, pg mod 1024)) v vm1)"
    "writable v \<Longrightarrow> writable_at (poke (cell (t, pg mod 1024)) v vm1) d pg"
    "page_mapped R X D P d pg (frame_of v) vm (poke (cell (t, pg mod 1024)) v vm1)"
proof -
  let ?T = "insert t T" and ?e = "(t, pg mod 1024)"
  let ?vm = "poke (cell ?e) v vm1"
  note o = table_ofD [OF tof]
  have "insert ?e (cells D ?T - {?e}) = cells D ?T" using table_cell [of t ?T] by auto
  then have inv: "vm_inv R X' D ?T P' k' (cells D ?T) ?vm" using inv' by simp
  have np: "\<not> present (pte vm1 d pg)" using o(5) [OF d] o(2) no by (auto simp: translate_def split: if_splits)
  have vm: "?vm = poke (cell (frame_of (pde vm1 d pg), pg mod 1024)) v vm1" using o(4) by simp
  note w = entry_written [OF o(1) d o(2,3) np v P' vm inv]
  show "vm_good R X' D ?T P' k' ?vm" by (rule w(1))
  show "writable_at ?vm d pg" if "writable v"
    using w(2) w(3,4) [OF d] o(3) that by (simp add: writable_at_def)
  show "page_mapped R X D P d pg (frame_of v) vm ?vm"
    unfolding page_mapped_def using w(4,5) o(5,6) by simp
qed

lemma map_fresh_ok:
  assumes good: "vm_good R X D T P k vm" and d: "d \<in> D" and pg: "pg = unat (a div FRAME_SIZE)" "user_page pg"
    and no: "translate vm d pg = None" and f: "f \<in> X"
  shows "map_address a f (FLAG_PR OR FLAG_RW OR FLAG_US) d vm = Inl Panic \<and> frames_full R (D \<union> T \<union> P \<union> X)
    \<or> (\<exists>vm' t. map_address a f (FLAG_PR OR FLAG_RW OR FLAG_US) d vm = Inr vm' \<and> vm_good R (X - {f}) D (insert t T) (insert f P) k vm'
      \<and> writable_at vm' d pg \<and> page_mapped R X D P d pg f vm vm')"
proof -
  let ?fl = "FLAG_PR OR FLAG_RW OR FLAG_US"
  have u: "user_page (unat (a div FRAME_SIZE))" using pg by simp
  have f0: "offset f = 0" using vm_aligned [OF vm_goodD(1) [OF good], of f] f by blast
  have ff: "frame_of f = f" by (rule frame_of_frame [OF f0])
  have "map_table (a div FRAME_SIZE) ?fl d vm = Inl Panic \<and> frames_full R (D \<union> T \<union> P \<union> X)
    \<or> (\<exists>t vm'. map_table (a div FRAME_SIZE) ?fl d vm = Inr (t, vm') \<and> table_of R X D T P k d (unat (a div FRAME_SIZE)) t vm vm')"
    by (rule table_ready [OF good d u]) simp
  then show ?thesis
  proof (elim disjE)
    assume "\<exists>t vm'. map_table (a div FRAME_SIZE) ?fl d vm = Inr (t, vm') \<and> table_of R X D T P k d (unat (a div FRAME_SIZE)) t vm vm'"
    then obtain t vm1 where t: "map_table (a div FRAME_SIZE) ?fl d vm = Inr (t, vm1)" "table_of R X D T P k d pg t vm vm1"
      unfolding pg(1) by blast
    let ?T = "insert t T" and ?v = "f OR ?fl" and ?e = "(t, pg mod 1024)"
    let ?C = "cells D ?T - {?e}"
    note o = table_ofD [OF t(2)]
    note g = vm_goodD [OF o(1)]
    have call: "map_address a f ?fl d vm = Inr (poke (cell ?e) ?v vm1)"
      using t(1) ff unfolding map_address_eq pg(1) by simp
    note fl = flags_of(1-3) [OF f0]
    have np: "\<not> present (ent vm1 ?e)" using o(5) [OF d pg(2)] o(2,4) no by (auto simp: translate_def pte_def split: if_splits)
    have x: "insert f (X - {f}) = X" "f \<notin> D \<union> ?T \<union> P \<union> (X - {f})" "f \<notin> insert (rg_zero R) (?T \<union> P)"
      using f inv_parts(5-7) [OF g(1)] inv_zero_apart [OF g(1)] by auto
    have i0: "vm_inv R X D ?T P k ?C vm1" by (rule inv_forget [OF g(1)]) (use np in simp)
    have i1: "vm_inv R (X - {f}) D ?T (insert f P) k ?C vm1" by (rule adopt_page) (use i0 x in simp_all)
    have e: "is_cell ?e" "fst ?e \<in> ?T" "fst ?e \<notin> D"
      using vm_aligned [OF g(1), of t] inv_parts(5) [OF g(1)] by (auto simp: is_cell_def)
    have "vm_inv R (X - {f}) D ?T (insert f P) k (insert ?e ?C) (poke (cell ?e) ?v vm1)"
      by (rule inv_restore [OF i1]) (use e fl no_refs [OF i0 x(3)] in simp_all)
    note p = page_put [OF t(2) d pg(2) no fl(1) _ this]
    show ?thesis using p(1-3) fl call by auto
  qed (simp add: map_address_eq)
qed

text \<open>The frame of zeros: a reference is counted before the entry that holds it is written.\<close>

lemma inv_restore_zero:
  assumes inv: "vm_inv R X D T P 2 C vm" and c: "c \<notin> C" "is_cell c" "fst c \<in> T"
    and v: "present v" "\<not> writable v" "frame_of v = rg_zero R"
  shows "vm_inv R X D T P 1 (insert c C) (poke (cell c) v vm)"
proof (rule inv_change [OF inv])
  let ?vm = "poke (cell c) v vm" and ?z = "rg_zero R"
  note i = inv_parts [OF inv]
  show "pm_inv (rg_start R) (rg_bytes R) (vm_phys ?vm) (D \<union> T \<union> P \<union> X)" using inv_poke_phys [OF i(1) c(2)] c(3) by blast
  show "vm_mem ?vm a = vm_mem vm a" if "in_frame ?z a" for a
    using poke_elsewhere [OF c(2)] zero_apart [OF inv _ that] c(3) by blast
  have same: "ent ?vm d = ent vm d" if "d \<in> C" for d
    using set_cells(2) [OF c(2) inv_cell(1) [OF inv that]] that c(1) by blast
  have new: "ent ?vm c = v" using set_cells(1) [OF c(2)] .
  have cD: "fst c \<notin> D" using c(3) i(5) by auto
  show "kinds D T (insert ?z P) (insert c C) (ent ?vm)"
    using i(3) c(2,3) cD v same new by (auto simp: kinds_def is_cell_def)
  have acc: "accounted (zero_refs R 2) C (ent ?vm) (rcount ?vm)"
    using i(4) accounted_cong [of C "ent ?vm" "ent vm"] same by simp
  note x = ext_entry [OF acc, of ?z]
  have e: "(zero_refs R 2)(?z := zero_refs R 2 ?z - 1) = zero_refs R 1" by (auto simp: zero_refs_def fun_eq_iff)
  have n: "0 < rcount ?vm ?z" using accountedD(1) [OF acc, of ?z] by (simp add: zero_refs_def)
  have "accounted (zero_refs R 1) (insert c C) (ent ?vm)
      ((rcount ?vm)(?z := rcount ?vm ?z - 1, ?z := ((rcount ?vm)(?z := rcount ?vm ?z - 1)) ?z + 1))"
    using add_read_only [of "zero_refs R 1" C "ent ?vm" "(rcount ?vm)(?z := rcount ?vm ?z - 1)" c] x e
      inv_finite(1) [OF inv] c(1) new v by (simp add: zero_refs_def)
  then show "accounted (zero_refs R 1) (insert c C) (ent ?vm) (rcount ?vm)" using n by simp
qed (use inv_parts(5-9) [OF inv] in auto)

lemma ref_zero_ok:
  assumes good: "vm_good R X D T P 1 vm" and z: "zero_frame st = rg_zero R"
  shows "\<exists>vm'. ref_zero_frame st vm = Inr vm' \<and> vm_good R X D T P 2 vm' \<and> vm_phys vm' = vm_phys vm"
proof -
  note g = vm_goodD [OF good]
  note i = inv_parts [OF g(1)]
  let ?z = "rg_zero R"
  let ?vm = "set_count ?z (rcount vm ?z + 1) vm"
  have c: "counted vm ?z" using i(2) by (simp add: region_ok_def)
  have small: "rcount vm ?z + 1 < 4294967296" using inv_rcount [OF g(1), of ?z] by linarith
  have call: "ref_zero_frame st vm = Inr ?vm"
    using count_up [OF c, of "?z div FRAME_SIZE"] z by (simp add: ref_zero_frame_def cow_ref_only_def page_of_def unat_div_distrib FRAME_SIZE_def)
  have "\<not> writable (ent vm c)" if "c \<in> refs (ent vm) (cells D T) ?z" for c
    using accountedD(2) [OF i(4) that] by (auto simp: zero_refs_def)
  then have "accounted (zero_refs R 2) (cells D T) (ent ?vm) (rcount ?vm)"
    using i(4) rcount_set [OF c small] unfolding accounted_def by (simp add: zero_refs_def)
  then have "vm_inv R X D T P 2 (cells D T) ?vm"
    using i by (intro inv_change [OF g(1)]) simp_all
  then have "vm_good R X D T P 2 ?vm" using g(2,3) by (simp add: vm_good_def unlocked_def)
  then show ?thesis using call by (auto simp: set_count_def)
qed

lemma map_zero_ok:
  assumes good: "vm_good R X D T P 1 vm" and d: "d \<in> D" and pg: "pg = unat (a div FRAME_SIZE)" "user_page pg"
    and no: "translate vm d pg = None" and pr: "present (pde vm d pg)" and z: "zero_frame st = rg_zero R"
  shows "bind_ok (ref_zero_frame st vm) (map_address a (zero_frame st) (FLAG_PR OR FLAG_US) d) = Inl Panic
      \<and> frames_full R (D \<union> T \<union> P \<union> X)
    \<or> (\<exists>vm' T'. bind_ok (ref_zero_frame st vm) (map_address a (zero_frame st) (FLAG_PR OR FLAG_US) d) = Inr vm'
      \<and> vm_good R X D T' P 1 vm' \<and> page_mapped R X D P d pg (rg_zero R) vm vm')"
proof -
  let ?fl = "FLAG_PR OR FLAG_US" and ?z = "rg_zero R"
  obtain vm0 where z0: "ref_zero_frame st vm = Inr vm0" "vm_good R X D T P 2 vm0" "vm_phys vm0 = vm_phys vm"
    using ref_zero_ok [OF good z] by blast
  have same: "pde vm0 = pde vm" "pte vm0 = pte vm" "translate vm0 = translate vm"
    using z0(3) by (simp_all add: pde_def pte_def translate_def ent_def peek_def fun_eq_iff)
  have u: "user_page (unat (a div FRAME_SIZE))" using pg by simp
  have f0: "offset ?z = 0" using vm_aligned [OF vm_goodD(1) [OF good], of ?z] by blast
  have "map_table (a div FRAME_SIZE) ?fl d vm0 = Inl Panic \<and> frames_full R (D \<union> T \<union> P \<union> X)
    \<or> (\<exists>t vm'. map_table (a div FRAME_SIZE) ?fl d vm0 = Inr (t, vm') \<and> table_of R X D T P 2 d (unat (a div FRAME_SIZE)) t vm0 vm')"
    by (rule table_ready [OF z0(2) d u]) (use pr pg(1) same in simp)
  then show ?thesis
  proof (elim disjE)
    assume "\<exists>t vm'. map_table (a div FRAME_SIZE) ?fl d vm0 = Inr (t, vm') \<and> table_of R X D T P 2 d (unat (a div FRAME_SIZE)) t vm0 vm'"
    then obtain t vm1 where t: "map_table (a div FRAME_SIZE) ?fl d vm0 = Inr (t, vm1)" "table_of R X D T P 2 d pg t vm0 vm1"
      unfolding pg(1) by blast
    let ?T = "insert t T" and ?v = "?z OR ?fl" and ?e = "(t, pg mod 1024)"
    let ?C = "cells D ?T - {?e}"
    note o = table_ofD [OF t(2)]
    note g = vm_goodD [OF o(1)]
    have call: "bind_ok (ref_zero_frame st vm) (map_address a (zero_frame st) ?fl d) = Inr (poke (cell ?e) ?v vm1)"
      using t(1) z z0(1) frame_of_frame [OF f0] unfolding map_address_eq pg(1) by simp
    note fl = flags_of(4-6) [OF f0]
    have np: "\<not> present (ent vm1 ?e)" using o(5) [OF d pg(2)] o(2,4) no same(3) by (auto simp: translate_def pte_def split: if_splits)
    have i0: "vm_inv R X D ?T P 2 ?C vm1" by (rule inv_forget [OF g(1)]) (use np in simp)
    have "vm_inv R X D ?T P 1 (insert ?e ?C) (poke (cell ?e) ?v vm1)"
      by (rule inv_restore_zero [OF i0]) (use fl vm_aligned [OF g(1), of t] in \<open>auto simp: is_cell_def\<close>)
    note p = page_put [OF t(2) d pg(2) _ fl(1) _ this]
    have n0: "translate vm0 d pg = None" using no same by simp
    have "page_mapped R X D P d pg ?z vm (poke (cell ?e) ?v vm1)"
      using p(3) [OF n0 subset_insertI] fl(3) same(3) z0(3) by (simp add: page_mapped_def)
    then show ?thesis using p(1) [OF n0 subset_insertI] call by blast
  qed (use z0(1) in \<open>simp add: map_address_eq\<close>)
qed

section \<open>New directories\<close>

lemma cells_directory: "cells D T \<union> {f} \<times> user_dirs = cells (insert f D) T"
  by (auto simp: cells_def)

lemma directory_added:
  assumes good: "vm_good R X D T P k vm" and f: "f \<notin> insert (rg_zero R) (rg_static R \<union> D \<union> T \<union> P \<union> X)"
    and inv': "vm_inv R (insert f X) D T P k (cells D T) vm'" and locks: "page_locks vm' = page_locks vm"
    and same: "\<forall>e. is_cell e \<longrightarrow> fst e \<noteq> f \<longrightarrow> ent vm' e = ent vm e"
    and empty: "\<forall>j \<in> user_dirs. \<not> present (ent vm' (f, j))"
  shows "vm_good R X (insert f D) T P k vm'" "\<And>d pg. d \<in> D \<Longrightarrow> user_page pg \<Longrightarrow> translate vm' d pg = translate vm d pg"
    "\<And>pg. user_page pg \<Longrightarrow> translate vm' f pg = None"
proof -
  note g = vm_goodD [OF good]
  have "vm_inv R X (insert f D) T P k (cells D T \<union> {f} \<times> user_dirs) vm'"
    by (rule adopt_directory [OF inv']) (use f empty in \<open>auto simp: user_dirs_def\<close>)
  then have inv: "vm_inv R X (insert f D) T P k (cells (insert f D) T) vm'" unfolding cells_directory .
  have old: "ent vm' e = ent vm e" if "e \<in> cells D T" for e
    using same [THEN spec, of e] inv_cell [OF g(1) that] f by auto
  have "refs (ent vm') (cells (insert f D) T) p \<noteq> {}" if p: "p \<in> T \<union> P" for p
  proof -
    obtain e where e: "e \<in> cells D T" "present (ent vm e)" "frame_of (ent vm e) = p" using g(3) [OF p] by (auto simp: refs_def)
    then have "e \<in> refs (ent vm') (cells (insert f D) T) p" using old by (auto simp: refs_def cells_def)
    then show ?thesis by blast
  qed
  then show "vm_good R X (insert f D) T P k vm'" using inv g(2) locks by (simp add: vm_good_def unlocked_def)
  show "translate vm' d pg = translate vm d pg" if d: "d \<in> D" "user_page pg" for d pg
  proof -
    have e: "pde vm' d pg = pde vm d pg" using old [OF dir_cell [OF d]] by (simp add: pde_def)
    moreover have "pte vm' d pg = pte vm d pg" if "present (pde vm d pg)"
      using old [OF table_cell [OF pde_table [OF g(1) d that]]] unfolding pte_def e .
    ultimately show ?thesis by (auto simp: translate_def)
  qed
  show "translate vm' f pg = None" if "user_page pg" for pg
    using empty that by (simp add: translate_def pde_def user_page_def)
qed

lemma ent_copy:
  assumes "offset f = 0" "offset b = 0" "j < 1024"
    and "\<And>n. n < 4096 \<Longrightarrow> vm_mem vm' (f + of_nat n) = vm_mem vm (b + of_nat n)"
  shows "ent vm' (f, j) = ent vm (b, j)"
proof -
  have "vm_mem vm' (cell (f, j) + of_nat i) = vm_mem vm (cell (b, j) + of_nat i)" if "i < 4" for i
    using assms(4) [of "4 * j + i"] assms(3) that by (simp add: cell_def add.assoc)
  from this [of 0] this [of 1] this [of 2] this [of 3] show ?thesis by (simp add: ent_def peek_def load32_def)
qed

lemma new_directory_ok:
  assumes good: "vm_good R X D T P k vm" and b: "base_directory st \<in> rg_static R"
    and empty: "\<forall>j \<in> user_dirs. \<not> present (ent vm (base_directory st, j))"
  shows "new_directory st vm = Inl Panic \<and> frames_full R (D \<union> T \<union> P \<union> X) \<or>
    (\<exists>f vm'. new_directory st vm = Inr (f, vm') \<and> f \<notin> D \<union> X \<and> vm_good R X (insert f D) T P k vm'
      \<and> (\<forall>d \<in> D. \<forall>pg. user_page pg \<longrightarrow> translate vm' d pg = translate vm d pg) \<and> (\<forall>pg. user_page pg \<longrightarrow> translate vm' f pg = None)
      \<and> (\<forall>a. \<forall>p \<in> insert (rg_zero R) (rg_static R \<union> P \<union> X). in_frame p a \<longrightarrow> vm_mem vm' a = vm_mem vm a))"
proof (cases "frames_full R (D \<union> T \<union> P \<union> X)")
  case True
  then show ?thesis using vm_alloc_ok [OF vm_goodD(1) [OF good]] by (simp add: new_directory_def frames_full_def)
next
  case False
  note g = vm_goodD [OF good]
  let ?b = "base_directory st"
  obtain f vm1 where f: "vm_alloc vm = Inr (f, vm1)" "f \<notin> insert (rg_zero R) (rg_static R \<union> D \<union> T \<union> P \<union> X)"
      "vm_inv R (insert f X) D T P k (cells D T) vm1" "page_locks vm1 = page_locks vm"
      "\<And>e. is_cell e \<Longrightarrow> ent vm1 e = (if fst e = f then 0 else ent vm e)"
      "\<And>a. vm_mem vm1 a = (if in_frame f a then 0 else vm_mem vm a)"
    using vm_alloc_ok [OF g(1)] False by (auto simp: frames_full_def)
  define m where "m = memcpy f ?b FRAME_SIZE (vm_mem vm1)"
  have f0: "offset f = 0" and b0: "offset ?b = 0"
    using vm_aligned [OF f(3), of f] inv_parts(2) [OF g(1)] b by (auto simp: region_ok_def)
  have fb: "f \<noteq> ?b" using b f(2) by auto
  have out: "\<not> in_frame f a \<Longrightarrow> m a = vm_mem vm1 a" for a by (auto simp: m_def memcpy_def in_frame_def)
  have ins: "m (f + of_nat n) = vm_mem vm (?b + of_nat n)" if "n < 4096" for n
  proof -
    have "\<not> in_frame f (?b + of_nat n)"
      using frame_byte [OF b0 that] frames_apart [of ?b f "?b + of_nat n"] fb f0 b0 by simp
    then have "vm_mem vm1 (?b + of_nat n) = vm_mem vm (?b + of_nat n)" using f(6) by simp
    then show ?thesis using frame_byte [OF f0 that] by (simp add: m_def memcpy_def in_frame_def)
  qed
  let ?vm = "set_mem m vm1"
  note w = inv_write [OF f(3), of f m] 
  have inv: "vm_inv R (insert f X) D T P k (cells D T) ?vm" by (rule w(1)) (use out in auto)
  have same: "\<forall>e. is_cell e \<longrightarrow> fst e \<noteq> f \<longrightarrow> ent ?vm e = ent vm e"
    using w(2) [OF _ out] f(5) by simp
  have new: "ent ?vm (f, j) = ent vm (?b, j)" if "j < 1024" for j
    by (rule ent_copy [OF f0 b0 that]) (use ins in \<open>simp add: set_mem_def\<close>)
  have e: "\<forall>j \<in> user_dirs. \<not> present (ent ?vm (f, j))" using new empty by (simp add: user_dirs_def)
  have locks: "page_locks ?vm = page_locks vm" using f(4) by (simp add: set_mem_def)
  note a = directory_added [OF good f(2) inv locks same e]
  have "vm_mem ?vm a = vm_mem vm a" if p: "p \<in> insert (rg_zero R) (rg_static R \<union> P \<union> X)" "in_frame p a" for p a
  proof -
    have "offset p = 0" using p(1) vm_aligned [OF g(1), of p] inv_parts(2) [OF g(1)] by (auto simp: region_ok_def)
    then have "\<not> in_frame f a" using frames_apart [of p f a] p f(2) f0 by auto
    then show ?thesis using out f(6) by (simp add: set_mem_def)
  qed
  moreover have "new_directory st vm = Inr (f, ?vm)"
    using f(1) by (simp add: new_directory_def vm_memcpy_def set_mem_def m_def)
  ultimately show ?thesis using a f(2) by blast
qed

section \<open>Copies of a directory\<close>

lemma inv_poke_outside:
  assumes inv: "vm_inv R X D T P k C vm" and c: "c \<notin> C" "is_cell c" "fst c \<in> D \<union> T"
  shows "vm_inv R X D T P k C (poke (cell c) v vm)"
proof (rule inv_change [OF inv])
  let ?vm = "poke (cell c) v vm"
  note i = inv_parts [OF inv]
  show "pm_inv (rg_start R) (rg_bytes R) (vm_phys ?vm) (D \<union> T \<union> P \<union> X)" using inv_poke_phys [OF i(1) c(2)] c(3) by blast
  show "vm_mem ?vm a = vm_mem vm a" if "in_frame (rg_zero R) a" for a
    using poke_elsewhere [OF c(2)] zero_apart [OF inv _ that] c(3) by blast
  have same: "ent ?vm d = ent vm d" if "d \<in> C" for d
    using set_cells(2) [OF c(2) inv_cell(1) [OF inv that]] that c(1) by blast
  show "kinds D T (insert (rg_zero R) P) C (ent ?vm)" using i(3) same by (simp add: kinds_def)
  show "accounted (zero_refs R k) C (ent ?vm) (rcount ?vm)"
    using i(4) accounted_cong [of C "ent ?vm" "ent vm"] same by simp
qed (use inv_parts(5-9) [OF inv] in auto)

lemma inv_poke_absent:
  assumes inv: "vm_inv R X D T P k C vm" and c: "c \<in> C" "\<not> present (ent vm c)" "\<not> present v"
  shows "vm_inv R X D T P k C (poke (cell c) v vm)"
proof -
  have "vm_inv R X D T P k (C - {c}) vm" by (rule inv_forget [OF inv]) (use c in simp)
  then have "vm_inv R X D T P k (insert c (C - {c})) (poke (cell c) v vm)"
    by (rule inv_restore) (use inv_cell [OF inv c(1)] c(3) in auto)
  then show ?thesis using c(1) by (simp add: insert_absorb)
qed

lemma user_dir_bounds: "unat user_page_dir_start = 512" "unat user_page_dir_end = 960"
  by (simp_all add: user_page_dir_start_def user_page_dir_end_def USER_MEM_START_def SHARED_ADDRESS_def FRAME_SIZE_def mask_values)

lemma kernel_entry_iff: "kernel_entry e i \<longleftrightarrow> \<not> present e \<or> i \<notin> user_dirs"
  by (auto simp: kernel_entry_def present_def user_dir_bounds user_dirs_def)

text \<open>One round: the entry of the other directory maps the same table in both, and nothing else changes.\<close>

lemma clone_step:
  assumes inv: "vm_inv R X D T P k (cells D T) vm" and fd: "f \<in> D" "d \<in> D" "f \<noteq> d" and i: "i < 1024"
    and empty: "i \<in> user_dirs \<Longrightarrow> \<not> present (ent vm (f, i))"
  shows "\<exists>vm'. (\<forall>n. clone_loop f d (Suc n) i vm = clone_loop f d n (Suc i) vm')
    \<and> vm_inv R X D T P k (cells D T) vm' \<and> page_locks vm' = page_locks vm
    \<and> same_map (ent vm (d, i)) (ent vm' (d, i)) \<and> same_map (ent vm (d, i)) (ent vm' (f, i))
    \<and> (\<forall>e. is_cell e \<longrightarrow> e \<noteq> (d, i) \<longrightarrow> e \<noteq> (f, i) \<longrightarrow> ent vm' e = ent vm e)
    \<and> (\<forall>a. \<not> in_frame d a \<longrightarrow> \<not> in_frame f a \<longrightarrow> vm_mem vm' a = vm_mem vm a)" (is "\<exists>vm'. ?Q vm'")
proof -
  let ?c = "(d, i)" and ?c' = "(f, i)"
  have cc: "is_cell ?c" "is_cell ?c'" "?c \<noteq> ?c'" using vm_aligned [OF inv] fd i by (auto simp: is_cell_def)
  show ?thesis
  proof (cases "kernel_entry (ent vm ?c) i")
    case True
    let ?vm = "poke (cell ?c') (ent vm ?c) vm"
    have "vm_inv R X D T P k (cells D T) ?vm"
    proof (cases "i \<in> user_dirs")
      case u: True
      then have "\<not> present (ent vm ?c)" using True by (simp add: kernel_entry_iff)
      then show ?thesis by (intro inv_poke_absent [OF inv]) (use u fd empty in \<open>auto simp: cells_def\<close>)
    next
      case False
      then have "?c' \<notin> cells D T" using fd inv_parts(5) [OF inv] by (auto simp: cells_def)
      then show ?thesis by (rule inv_poke_outside [OF inv]) (use cc fd in auto)
    qed
    moreover have "clone_loop f d (Suc n) i vm = clone_loop f d n (Suc i) ?vm" for n
      using True by (simp add: cell_pair ent_def [symmetric])
    ultimately have "?Q ?vm" using set_cells [OF cc(2)] cc poke_elsewhere [OF cc(2)] by simp
    then show ?thesis ..
  next
    case False
    then have p: "present (ent vm ?c)" "i \<in> user_dirs" by (simp_all add: kernel_entry_iff)
    have m: "?c \<in> cells D T" "?c' \<in> cells D T" using p(2) fd by (auto simp: cells_def)
    obtain vm1 where one: "cow_ref (cell ?c) vm = Inr (new_reference (ent vm ?c), vm1)"
        "vm_inv R X D T P k (cells D T) (poke (cell ?c') (new_reference (ent vm ?c)) vm1)" "page_locks vm1 = page_locks vm"
        "\<And>e. is_cell e \<Longrightarrow> ent (poke (cell ?c') (new_reference (ent vm ?c)) vm1) e =
           (if e = ?c then shared_entry (ent vm ?c) else if e = ?c' then new_reference (ent vm ?c) else ent vm e)"
        "\<And>a. \<not> in_frame (fst ?c) a \<Longrightarrow> \<not> in_frame (fst ?c') a \<Longrightarrow> vm_mem (poke (cell ?c') (new_reference (ent vm ?c)) vm1) a = vm_mem vm a"
      using share_step [OF inv m cc(3) _ empty [OF p(2)]] fd by auto
    let ?vm = "poke (cell ?c') (new_reference (ent vm ?c)) vm1"
    have "clone_loop f d (Suc n) i vm = clone_loop f d n (Suc i) ?vm" for n
      using False one(1) by (simp add: cell_pair ent_def [symmetric])
    then have "?Q ?vm" using one(2-5) cc by simp
    then show ?thesis ..
  qed
qed

lemma same_map_trans: "same_map a b \<Longrightarrow> same_map b c \<Longrightarrow> same_map a c"
  by (auto simp: same_map_def)

definition cloned :: "u32 \<Rightarrow> u32 \<Rightarrow> nat \<Rightarrow> vm \<Rightarrow> vm \<Rightarrow> bool" where
  "cloned f d i vm vm' \<longleftrightarrow> page_locks vm' = page_locks vm \<and> (\<forall>j < 1024. same_map (ent vm (d, j)) (ent vm' (d, j)))
     \<and> (\<forall>j < 1024. if i \<le> j then same_map (ent vm (d, j)) (ent vm' (f, j)) else ent vm' (f, j) = ent vm (f, j))
     \<and> (\<forall>e. is_cell e \<longrightarrow> fst e \<noteq> d \<longrightarrow> fst e \<noteq> f \<longrightarrow> ent vm' e = ent vm e)
     \<and> (\<forall>a. \<not> in_frame d a \<longrightarrow> \<not> in_frame f a \<longrightarrow> vm_mem vm' a = vm_mem vm a)"

lemma clonedD:
  assumes "cloned f d i vm vm'"
  shows "page_locks vm' = page_locks vm" "\<And>j. j < 1024 \<Longrightarrow> same_map (ent vm (d, j)) (ent vm' (d, j))"
    "\<And>j. j < 1024 \<Longrightarrow> i \<le> j \<Longrightarrow> same_map (ent vm (d, j)) (ent vm' (f, j))"
    "\<And>j. j < 1024 \<Longrightarrow> j < i \<Longrightarrow> ent vm' (f, j) = ent vm (f, j)"
    "\<And>e. is_cell e \<Longrightarrow> fst e \<noteq> d \<Longrightarrow> fst e \<noteq> f \<Longrightarrow> ent vm' e = ent vm e"
    "\<And>a. \<not> in_frame d a \<Longrightarrow> \<not> in_frame f a \<Longrightarrow> vm_mem vm' a = vm_mem vm a"
  using assms unfolding cloned_def by (auto split: if_splits dest: leD)

lemma clone_loop_ok:
  assumes fd: "f \<in> D" "d \<in> D" "f \<noteq> d"
  shows "vm_inv R X D T P k (cells D T) vm \<Longrightarrow> i + n = 1024 \<Longrightarrow> \<forall>j \<in> user_dirs. i \<le> j \<longrightarrow> \<not> present (ent vm (f, j)) \<Longrightarrow>
    \<exists>vm'. clone_loop f d n i vm = Inr vm' \<and> vm_inv R X D T P k (cells D T) vm' \<and> cloned f d i vm vm'"
proof (induction n arbitrary: i vm)
  case 0
  then show ?case by (simp add: cloned_def)
next
  case (Suc n)
  have i: "i < 1024" using Suc.prems(2) by simp
  have "i \<in> user_dirs \<Longrightarrow> \<not> present (ent vm (f, i))" using Suc.prems(3) by blast
  from clone_step [OF Suc.prems(1) fd i this] obtain vm1
    where one: "\<And>n. clone_loop f d (Suc n) i vm = clone_loop f d n (Suc i) vm1" "vm_inv R X D T P k (cells D T) vm1"
      "page_locks vm1 = page_locks vm" "same_map (ent vm (d, i)) (ent vm1 (d, i))" "same_map (ent vm (d, i)) (ent vm1 (f, i))"
      "\<And>e. is_cell e \<Longrightarrow> e \<noteq> (d, i) \<Longrightarrow> e \<noteq> (f, i) \<Longrightarrow> ent vm1 e = ent vm e"
      "\<And>a. \<not> in_frame d a \<Longrightarrow> \<not> in_frame f a \<Longrightarrow> vm_mem vm1 a = vm_mem vm a" by blast
  have al: "offset f = 0" "offset d = 0" using vm_aligned [OF Suc.prems(1)] fd by auto
  have other: "ent vm1 (f, j) = ent vm (f, j)" "ent vm1 (d, j) = ent vm (d, j)" if "j < 1024" "j \<noteq> i" for j
    using one(6) [of "(f, j)"] one(6) [of "(d, j)"] that al fd(3) by (simp_all add: is_cell_def)
  have "\<forall>j \<in> user_dirs. Suc i \<le> j \<longrightarrow> \<not> present (ent vm1 (f, j))" using other(1) Suc.prems(3) by (simp add: user_dirs_def)
  moreover have "Suc i + n = 1024" using Suc.prems(2) by simp
  ultimately obtain vm'
    where rest: "clone_loop f d n (Suc i) vm1 = Inr vm'" "vm_inv R X D T P k (cells D T) vm'" "cloned f d (Suc i) vm1 vm'"
    using Suc.IH [OF one(2)] by blast
  note c = clonedD [OF rest(3)]
  have d1: "same_map (ent vm (d, j)) (ent vm1 (d, j))" if "j < 1024" for j
    using one(4) other(2) [OF that] by (cases "j = i") simp_all
  have "cloned f d i vm vm'" unfolding cloned_def
  proof (intro conjI allI impI)
    fix j :: nat assume j: "j < 1024"
    show "same_map (ent vm (d, j)) (ent vm' (d, j))" by (rule same_map_trans [OF d1 [OF j] c(2) [OF j]])
    consider "j = i" | "j < i" | "Suc i \<le> j" by linarith
    then show "if i \<le> j then same_map (ent vm (d, j)) (ent vm' (f, j)) else ent vm' (f, j) = ent vm (f, j)"
    proof cases
      case 1 then show ?thesis using one(5) c(4) [OF j] by simp
    next
      case 2 then show ?thesis using other(1) [OF j] c(4) [OF j] by simp
    next
      case 3 then show ?thesis using same_map_trans [OF d1 [OF j] c(3) [OF j 3]] by simp
    qed
  next
    fix e assume e: "is_cell e" "fst e \<noteq> d" "fst e \<noteq> f"
    show "ent vm' e = ent vm e" using c(5) [OF e] one(6) [OF e(1)] e(2,3) by (cases e) auto
  qed (use c(1,6) one(3,7) in simp_all)
  then show ?case using one(1) rest(1,2) by auto
qed

lemma clone_good:
  assumes good: "vm_good R X D T P k vm" and fd: "f \<in> D" "d \<in> D" "f \<noteq> d"
    and empty: "\<forall>j \<in> user_dirs. \<not> present (ent vm (f, j))"
    and inv': "vm_inv R X D T P k (cells D T) vm'" and cl: "cloned f d 0 vm vm'"
  shows "vm_good R X D T P k vm'"
    "\<And>d' pg. d' \<in> D \<Longrightarrow> user_page pg \<Longrightarrow> translate vm' d' pg = translate vm (if d' = f then d else d') pg"
    "\<forall>a. \<forall>p \<in> insert (rg_zero R) (rg_static R \<union> P \<union> X). in_frame p a \<longrightarrow> vm_mem vm' a = vm_mem vm a"
proof -
  note g = vm_goodD [OF good] and c = clonedD [OF cl]
  have sm: "same_map (ent vm e) (ent vm' e)" if e: "e \<in> cells D T" "present (ent vm e)" for e
  proof -
    have ic: "is_cell e" "snd e < 1024" using inv_cell [OF g(1) e(1)] by (auto simp: is_cell_def)
    have "fst e \<noteq> f"
    proof
      assume "fst e = f"
      then have "snd e \<in> user_dirs" using e(1) fd inv_parts(5) [OF g(1)] by (auto simp: cells_def)
      then show False using empty e(2) \<open>fst e = f\<close> by (cases e) auto
    qed
    then show ?thesis using c(2) [OF ic(2)] c(5) [OF ic(1)] by (cases e, cases "fst e = d") auto
  qed
  have "refs (ent vm') (cells D T) p \<noteq> {}" if p: "p \<in> T \<union> P" for p
  proof -
    obtain e where e: "e \<in> cells D T" "present (ent vm e)" "frame_of (ent vm e) = p" using g(3) [OF p] by (auto simp: refs_def)
    then have "e \<in> refs (ent vm') (cells D T) p" using same_mapD [OF sm [OF e(1,2)]] by (simp add: refs_def)
    then show ?thesis by blast
  qed
  then show "vm_good R X D T P k vm'" using inv' g(2) c(1) by (simp add: vm_good_def unlocked_def)
  show "translate vm' d' pg = translate vm (if d' = f then d else d') pg" if d': "d' \<in> D" "user_page pg" for d' pg
  proof -
    let ?s = "if d' = f then d else d'" and ?j = "pg div 1024"
    have s: "?s \<in> D" using d'(1) fd by simp
    have j: "?j < 1024" using d'(2) by (simp add: user_page_def user_dirs_def)
    have "ent vm' (d', ?j) = ent vm (d', ?j)" if "d' \<noteq> d" "d' \<noteq> f" using c(5) [OF user_cell [OF g(1) d']] that by simp
    then have pd: "same_map (pde vm ?s pg) (pde vm' d' pg)" using c(2) [OF j] c(3) [OF j]
      by (cases "d' = f"; cases "d' = d") (auto simp: pde_def)
    have "same_map (pte vm ?s pg) (pte vm' d' pg)" if pr: "present (pde vm ?s pg)"
    proof -
      have t: "frame_of (pde vm ?s pg) \<in> T" by (rule pde_table [OF g(1) s d'(2) pr])
      then have "frame_of (pde vm ?s pg) \<noteq> d" "frame_of (pde vm ?s pg) \<noteq> f" using fd inv_parts(5) [OF g(1)] by auto
      then have "pte vm' d' pg = pte vm ?s pg"
        using c(5) [of "(frame_of (pde vm ?s pg), pg mod 1024)"] same_mapD(2) [OF pd pr] by (simp add: pte_def is_cell_def)
      then show ?thesis by simp
    qed
    then show ?thesis using same_mapD [OF pd] same_mapD by (auto simp: translate_def)
  qed
  show "\<forall>a. \<forall>p \<in> insert (rg_zero R) (rg_static R \<union> P \<union> X). in_frame p a \<longrightarrow> vm_mem vm' a = vm_mem vm a"
    using tables_apart [OF g(1)] fd c(6) by blast
qed

lemma clone_directory_ok:
  assumes good: "vm_good R X D T P k vm" and d: "d \<in> D"
  shows "clone_directory d vm = Inl Panic \<and> frames_full R (D \<union> T \<union> P \<union> X) \<or>
    (\<exists>f vm'. clone_directory d vm = Inr (f, d, vm') \<and> f \<notin> D \<union> X \<and> vm_good R X (insert f D) T P k vm'
      \<and> (\<forall>d' \<in> insert f D. \<forall>pg. user_page pg \<longrightarrow> translate vm' d' pg = translate vm (if d' = f then d else d') pg)
      \<and> (\<forall>a. \<forall>p \<in> insert (rg_zero R) (rg_static R \<union> P \<union> X). in_frame p a \<longrightarrow> vm_mem vm' a = vm_mem vm a))"
proof -
  note g = vm_goodD [OF good]
  have "offset d = 0" using vm_aligned [OF g(1), of d] d by auto
  then have dd: "d AND PG_NUM_MASK = d" using frame_of_frame [of d] by (simp add: frame_of_def)
  have n: "unat pointers_per_frame = 1024" by (simp add: mask_values)
  show ?thesis
  proof (cases "frames_full R (D \<union> T \<union> P \<union> X)")
    case True
    then show ?thesis using vm_alloc_ok [OF g(1)] by (simp add: clone_directory_def frames_full_def)
  next
    case False
    then obtain f vm1 where f: "vm_alloc vm = Inr (f, vm1)" "f \<notin> insert (rg_zero R) (rg_static R \<union> D \<union> T \<union> P \<union> X)"
        "vm_inv R (insert f X) D T P k (cells D T) vm1" "page_locks vm1 = page_locks vm"
        "\<And>e. is_cell e \<Longrightarrow> ent vm1 e = (if fst e = f then 0 else ent vm e)"
        "\<And>a. vm_mem vm1 a = (if in_frame f a then 0 else vm_mem vm a)"
      using vm_alloc_ok [OF g(1)] by (auto simp: frames_full_def)
    have f0: "offset f = 0" using vm_aligned [OF f(3), of f] by auto
    have e: "\<forall>j \<in> user_dirs. \<not> present (ent vm1 (f, j))" using f(5) f0 by (simp add: is_cell_def user_dirs_def)
    have same: "\<forall>e. is_cell e \<longrightarrow> fst e \<noteq> f \<longrightarrow> ent vm1 e = ent vm e" using f(5) by simp
    note a = directory_added [OF good f(2-4) same e]
    have fd: "f \<in> insert f D" "d \<in> insert f D" "f \<noteq> d" using d f(2) by auto
    obtain vm' where l: "clone_loop f d 1024 0 vm1 = Inr vm'" "vm_inv R X (insert f D) T P k (cells (insert f D) T) vm'" "cloned f d 0 vm1 vm'"
      using clone_loop_ok [OF fd vm_goodD(1) [OF a(1)], of 0 1024] e by auto
    note c = clone_good [OF a(1) fd e l(2,3)]
    have "vm_mem vm' a = vm_mem vm a" if p: "p \<in> insert (rg_zero R) (rg_static R \<union> P \<union> X)" "in_frame p a" for p a
    proof -
      have "offset p = 0" using p(1) vm_aligned [OF g(1), of p] inv_parts(2) [OF g(1)] by (auto simp: region_ok_def)
      then have "\<not> in_frame f a" using frames_apart [of p f a] p f(2) f0 by auto
      then show ?thesis using f(6) c(3) p by metis
    qed
    moreover have "translate vm' d' pg = translate vm (if d' = f then d else d') pg" if "d' \<in> insert f D" "user_page pg" for d' pg
      using c(2) [OF that] a(2) that d by auto
    moreover have "clone_directory d vm = Inr (f, d, vm')" using f(1) l(1) n by (simp add: clone_directory_def dd)
    ultimately show ?thesis using f(2) c(1) by blast
  qed
qed

section \<open>The end of a directory\<close>

definition entry_dropped ::
    "vm_region \<Rightarrow> u32 set \<Rightarrow> u32 set \<Rightarrow> u32 set \<Rightarrow> nat \<Rightarrow> (u32 \<times> nat) set \<Rightarrow> u32 set \<Rightarrow> u32 set \<Rightarrow> vm \<Rightarrow> vm \<Rightarrow> bool" where
  "entry_dropped R X D P k A T' P' vm vm' \<longleftrightarrow> vm_good R X D T' P' k vm' \<and> P' \<subseteq> P
     \<and> (\<forall>e. is_cell e \<longrightarrow> fst e \<in> D \<longrightarrow> (if e \<in> A then \<not> present (ent vm' e) else ent vm' e = ent vm e))
     \<and> (\<forall>d \<in> D. \<forall>pg. user_page pg \<longrightarrow> (d, pg div 1024) \<notin> A \<longrightarrow> translate vm' d pg = translate vm d pg)
     \<and> (\<forall>a. \<forall>p \<in> insert (rg_zero R) (rg_static R \<union> P' \<union> X). in_frame p a \<longrightarrow> vm_mem vm' a = vm_mem vm a)"

lemma entry_droppedD:
  assumes "entry_dropped R X D P k A T' P' vm vm'"
  shows "vm_good R X D T' P' k vm'" "P' \<subseteq> P" "\<And>e. is_cell e \<Longrightarrow> fst e \<in> D \<Longrightarrow> e \<in> A \<Longrightarrow> \<not> present (ent vm' e)"
    "\<And>e. is_cell e \<Longrightarrow> fst e \<in> D \<Longrightarrow> e \<notin> A \<Longrightarrow> ent vm' e = ent vm e"
    "\<And>d pg. d \<in> D \<Longrightarrow> user_page pg \<Longrightarrow> (d, pg div 1024) \<notin> A \<Longrightarrow> translate vm' d pg = translate vm d pg"
    "\<forall>a. \<forall>p \<in> insert (rg_zero R) (rg_static R \<union> P' \<union> X). in_frame p a \<longrightarrow> vm_mem vm' a = vm_mem vm a"
  using assms unfolding entry_dropped_def by (auto split: if_splits)

lemma unmapped_good:
  assumes good: "vm_good R X D T P k vm" and c: "c \<in> cells D T" "fst c \<in> D" "present (ent vm c)"
    and un: "unmapped R X D T P k (cells D T) c T' P' vm vm'"
  shows "entry_dropped R X D P k {c} T' P' vm vm'"
proof -
  note g = vm_goodD [OF good]
  have u: "vm_inv R X D T' P' k (cells D T - (T - T') \<times> {..<1024}) vm'" "page_locks vm' = page_locks vm" "T' \<subseteq> T" "P' \<subseteq> P"
      "\<forall>e. is_cell e \<longrightarrow> fst e \<in> D \<union> T' \<longrightarrow> ent vm' e = (if e = c \<and> present (ent vm c) then 0 else ent vm e)"
      "\<forall>p \<in> T' \<union> P'. refs (ent vm) (cells D T) p \<noteq> {} \<longrightarrow> refs (ent vm') (cells D T - (T - T') \<times> {..<1024}) p \<noteq> {}"
      "\<forall>a. \<forall>p \<in> insert (rg_zero R) (rg_static R \<union> P' \<union> X). in_frame p a \<longrightarrow> vm_mem vm' a = vm_mem vm a"
    using un unfolding unmapped_def by blast+
  have C: "cells D T - (T - T') \<times> {..<1024} = cells D T'" using u(3) inv_parts(5) [OF g(1)] by (auto simp: cells_def)
  have "refs (ent vm') (cells D T') p \<noteq> {}" if "p \<in> T' \<union> P'" for p using u(3,4,6) g(3) [of p] that unfolding C by blast
  then have good': "vm_good R X D T' P' k vm'" using u(1,2) g(2) unfolding C by (simp add: vm_good_def unlocked_def)
  have tr: "translate vm' d pg = translate vm d pg" if d: "d \<in> D" "user_page pg" "(d, pg div 1024) \<noteq> c" for d pg
  proof -
    have e: "pde vm' d pg = pde vm d pg" using u(5) user_cell [OF g(1) d(1,2)] d(1,3) by (simp add: pde_def)
    have "pte vm' d pg = pte vm d pg" if pr: "present (pde vm d pg)"
    proof -
      have t: "frame_of (pde vm d pg) \<in> T'" using pde_table [OF vm_goodD(1) [OF good'] d(1,2)] pr e by simp
      then have "fst c \<noteq> frame_of (pde vm d pg)" using c(2) inv_parts(5) [OF vm_goodD(1) [OF good']] by auto
      then show ?thesis using u(5) t e by (auto simp: pte_def is_cell_def)
    qed
    then show ?thesis using e by (auto simp: translate_def)
  qed
  have "if e \<in> {c} then \<not> present (ent vm' e) else ent vm' e = ent vm e" if "is_cell e" "fst e \<in> D" for e
    using u(5) that c(3) by (cases "e = c") auto
  then show ?thesis unfolding entry_dropped_def using good' u(4,7) tr by blast
qed

lemma unref_dir_ok:
  assumes good: "vm_good R X D T P k vm" and c: "c \<in> cells D T" "fst c \<in> D"
  shows "\<exists>vm' T' P'. cow_unref (cell c) True vm = Inr vm' \<and> entry_dropped R X D P k {c} T' P' vm vm'"
proof (cases "present (ent vm c)")
  case False
  then have "cow_unref (cell c) True vm = Inr vm" by (simp add: cow_unref_def unref_with_def entry_flags ent_def [symmetric])
  then show ?thesis using good False unfolding entry_dropped_def by force
next
  case True
  note g = vm_goodD [OF good]
  have t: "frame_of (ent vm c) \<in> T" using kindsD(1) [OF inv_parts(3) [OF g(1)] c(1) True c(2)] .
  then have tc: "{frame_of (ent vm c)} \<times> {..<1024} \<subseteq> cells D T" by (auto simp: cells_def)
  show ?thesis
  proof (cases "is_last vm c")
    case last: True
    from unref_last_table [OF g(1) c True g(2) last tc] show ?thesis using unmapped_good [OF good c True] by blast
  next
    case False
    from unref_shared_table [OF g(1) c True g(2) False] show ?thesis using unmapped_good [OF good c True] by blast
  qed
qed

lemma entry_dropped_trans:
  assumes a: "entry_dropped R X D P k A T1 P1 vm vm1" and b: "entry_dropped R X D P1 k B T2 P2 vm1 vm2"
  shows "entry_dropped R X D P k (A \<union> B) T2 P2 vm vm2"
proof -
  note x = entry_droppedD [OF a] and y = entry_droppedD [OF b]
  have "if e \<in> A \<union> B then \<not> present (ent vm2 e) else ent vm2 e = ent vm e" if e: "is_cell e" "fst e \<in> D" for e
    using x(3,4) [OF e] y(3,4) [OF e] by (cases "e \<in> B"; cases "e \<in> A") auto
  moreover have "translate vm2 d pg = translate vm d pg" if "d \<in> D" "user_page pg" "(d, pg div 1024) \<notin> A \<union> B" for d pg
    using x(5) y(5) that by simp
  moreover have "vm_mem vm2 a = vm_mem vm a" if "p \<in> insert (rg_zero R) (rg_static R \<union> P2 \<union> X)" "in_frame p a" for p a
  proof -
    have "p \<in> insert (rg_zero R) (rg_static R \<union> P1 \<union> X)" using that(1) y(2) by blast
    then show ?thesis using x(6) y(6) that by metis
  qed
  ultimately show ?thesis unfolding entry_dropped_def using x(2) y(1,2) by blast
qed

lemma free_loop_ok:
  assumes d: "d \<in> D"
  shows "vm_good R X D T P k vm \<Longrightarrow> 512 \<le> i \<Longrightarrow> i + n = 960 \<Longrightarrow>
    \<exists>vm' T' P'. free_loop d n (of_nat i) vm = Inr vm' \<and> entry_dropped R X D P k ({d} \<times> {i..<960}) T' P' vm vm'"
proof (induction n arbitrary: i vm T P)
  case 0
  then have "entry_dropped R X D P k {} T P vm vm" by (simp add: entry_dropped_def)
  then show ?case using 0 by auto
next
  case (Suc n)
  have c: "(d, i) \<in> cells D T" "fst (d, i) \<in> D" using d Suc.prems(2,3) by (auto simp: cells_def user_dirs_def)
  obtain vm1 T1 P1 where one: "cow_unref (cell (d, i)) True vm = Inr vm1" "entry_dropped R X D P k {(d, i)} T1 P1 vm vm1"
    using unref_dir_ok [OF Suc.prems(1) c] by blast
  have "512 \<le> Suc i" "Suc i + n = 960" using Suc.prems(2,3) by simp_all
  then obtain vm' T' P' where r: "free_loop d n (of_nat (Suc i)) vm1 = Inr vm'"
      "entry_dropped R X D P1 k ({d} \<times> {Suc i..<960}) T' P' vm1 vm'"
    using Suc.IH [OF entry_droppedD(1) [OF one(2)]] by blast
  have "{(d, i)} \<union> {d} \<times> {Suc i..<960} = {d} \<times> {i..<960}" using Suc.prems(3) by auto
  then have "entry_dropped R X D P k ({d} \<times> {i..<960}) T' P' vm vm'" using entry_dropped_trans [OF one(2) r(2)] by simp
  moreover have "free_loop d (Suc n) (of_nat i) vm = Inr vm'" using one(1) r(1) by (simp add: cell_pair add.commute)
  ultimately show ?case by blast
qed

lemma free_directory_ok:
  assumes good: "vm_good R X D T P k vm" and d: "d \<in> D" and b: "base_directory st \<in> rg_static R"
  shows "\<exists>vm' T' P'. free_directory st d vm = Inr vm' \<and> vm_good R X (D - {d}) T' P' k vm' \<and> P' \<subseteq> P
    \<and> (\<forall>d' \<in> D - {d}. \<forall>pg. user_page pg \<longrightarrow> translate vm' d' pg = translate vm d' pg)
    \<and> (\<forall>a. \<forall>p \<in> insert (rg_zero R) (rg_static R \<union> P' \<union> X). in_frame p a \<longrightarrow> vm_mem vm' a = vm_mem vm a)"
proof -
  note g = vm_goodD [OF good]
  have "offset d = 0" using vm_aligned [OF g(1), of d] d by auto
  then have dd: "d AND PG_NUM_MASK = d" using frame_of_frame [of d] by (simp add: frame_of_def)
  have db: "d \<noteq> base_directory st" using inv_static_apart [OF g(1), of "base_directory st"] b d by auto
  have d0: "d \<noteq> 0" using frame_nonzero [OF g(1)] d by blast
  obtain vm1 T' P' where l: "free_loop d 448 (of_nat 512) vm = Inr vm1" "entry_dropped R X D P k ({d} \<times> {512..<960}) T' P' vm vm1"
    using free_loop_ok [OF d good, of 512 448] by auto
  note e = entry_droppedD [OF l(2)]
  note g1 = vm_goodD [OF e(1)]
  have gone: "\<forall>c \<in> {d} \<times> user_dirs. \<not> present (ent vm1 c)"
    using e(3) d \<open>offset d = 0\<close> by (auto simp: user_dirs_def is_cell_def)
  have C: "cells D T' - {d} \<times> user_dirs = cells (D - {d}) T'" using d inv_parts(5) [OF g1(1)] by (auto simp: cells_def)
  have i1: "vm_inv R X D T' P' k (cells (D - {d}) T') vm1" using inv_forget [OF g1(1) gone] unfolding C .
  have dn: "d \<notin> insert (rg_zero R) (T' \<union> P')" "d \<notin> X" using d inv_parts(5,6) [OF g1(1)] inv_zero_apart [OF g1(1)] by auto
  have "d \<notin> fst ` cells (D - {d}) T'" using dn(1) by (auto simp: cells_def)
  from vm_dealloc_ok [OF i1 _ this no_refs [OF i1 dn(1)]] d obtain vm'
    where v: "vm_dealloc d vm1 = Inr vm'" "vm_inv R (X - {d}) (D - {d}) (T' - {d}) (P' - {d}) k (cells (D - {d}) T') vm'"
      "page_locks vm' = page_locks vm1" "\<And>c. is_cell c \<Longrightarrow> fst c \<noteq> d \<Longrightarrow> ent vm' c = ent vm1 c"
      "\<And>a. \<not> in_frame d a \<Longrightarrow> vm_mem vm' a = vm_mem vm1 a" by blast
  have "X - {d} = X" "T' - {d} = T'" "P' - {d} = P'" using dn by auto
  then have inv': "vm_inv R X (D - {d}) T' P' k (cells (D - {d}) T') vm'" using v(2) by simp
  have same: "ent vm' c = ent vm1 c" if "c \<in> cells (D - {d}) T'" for c
    using v(4) [of c] inv_cell [OF inv' that] dn(1) by auto
  have "refs (ent vm') (cells (D - {d}) T') p \<noteq> {}" if p: "p \<in> T' \<union> P'" for p
  proof -
    obtain c where c: "c \<in> cells D T'" "present (ent vm1 c)" "frame_of (ent vm1 c) = p" using g1(3) [OF p] by (auto simp: refs_def)
    then have "c \<in> cells (D - {d}) T'" using gone unfolding C [symmetric] by blast
    then have "c \<in> refs (ent vm') (cells (D - {d}) T') p" using c same by (simp add: refs_def)
    then show ?thesis by blast
  qed
  then have good': "vm_good R X (D - {d}) T' P' k vm'" using inv' g1(2) v(3) by (simp add: vm_good_def unlocked_def)
  have tr: "translate vm' d' pg = translate vm d' pg" if o: "d' \<in> D - {d}" "user_page pg" for d' pg
  proof -
    have p: "pde vm' d' pg = pde vm1 d' pg" using same [OF dir_cell [OF o]] by (simp add: pde_def)
    moreover have "pte vm' d' pg = pte vm1 d' pg" if "present (pde vm1 d' pg)"
      using same [OF table_cell [OF pde_table [OF inv' o]]] that unfolding pte_def p by simp
    ultimately have "translate vm' d' pg = translate vm1 d' pg" by (auto simp: translate_def)
    then show ?thesis using e(5) [of d' pg] o by simp
  qed
  have "vm_mem vm' a = vm_mem vm a" if p: "p \<in> insert (rg_zero R) (rg_static R \<union> P' \<union> X)" "in_frame p a" for p a
    using v(5) e(6) p tables_apart [OF g1(1) _ p, of d] d by (metis UnI1)
  moreover have "free_directory st d vm = Inr vm'"
    using l(1) v(1) dd d0 db user_dir_bounds
    by (simp add: free_directory_def user_page_dir_start_def USER_MEM_START_def FRAME_SIZE_def mask_values)
  ultimately show ?thesis using good' e(2) tr by blast
qed

section \<open>Reading and writing memory\<close>

text \<open>The processor stores a byte at an offset of a page.\<close>

definition user_store :: "u32 \<Rightarrow> nat \<Rightarrow> nat \<Rightarrow> u8 \<Rightarrow> vm \<Rightarrow> vm" where
  "user_store d pg n b vm = (case translate vm d pg of None \<Rightarrow> vm | Some f \<Rightarrow> poke_byte (f + of_nat n) b vm)"

lemma write_good:
  assumes good: "vm_good R X D T P k vm" and q: "q \<in> P \<union> X" "in_frame q a"
  shows "vm_good R X D T P k (poke_byte a b vm)"
    "\<And>d pg. d \<in> D \<Longrightarrow> user_page pg \<Longrightarrow> pde (poke_byte a b vm) d pg = pde vm d pg"
    "\<And>d pg. d \<in> D \<Longrightarrow> user_page pg \<Longrightarrow> translate (poke_byte a b vm) d pg = translate vm d pg"
proof -
  note g = vm_goodD [OF good]
  let ?vm = "poke_byte a b vm"
  have vm: "?vm = set_mem ((vm_mem vm)(a := b)) vm" by (simp add: poke_byte_def set_mem_def)
  have out: "\<And>x. \<not> in_frame q x \<Longrightarrow> ((vm_mem vm)(a := b)) x = vm_mem vm x" using q(2) by auto
  have inv: "vm_inv R X D T P k (cells D T) ?vm" unfolding vm by (rule inv_write(1) [OF g(1) q(1) out])
  have same: "ent ?vm e = ent vm e" if e: "e \<in> cells D T" for e
  proof -
    have "fst e \<noteq> q" using inv_cell [OF g(1) e] q(1) inv_parts(6) [OF g(1)] by auto
    then show ?thesis unfolding vm by (intro inv_write(2) [OF g(1) q(1) out] inv_cell(1) [OF g(1) e])
  qed
  have "refs (ent ?vm) (cells D T) = refs (ent vm) (cells D T)" using same by (auto simp: refs_def fun_eq_iff)
  then show "vm_good R X D T P k ?vm" using inv g(2,3) by (simp add: vm_good_def unlocked_def poke_byte_def)
  show p: "pde ?vm d pg = pde vm d pg" if "d \<in> D" "user_page pg" for d pg using same [OF dir_cell [OF that]] by (simp add: pde_def)
  show "translate ?vm d pg = translate vm d pg" if d: "d \<in> D" "user_page pg" for d pg
  proof -
    have "pte ?vm d pg = pte vm d pg" if "present (pde vm d pg)"
      using same [OF table_cell [OF pde_table [OF g(1) d that]]] unfolding pte_def p [OF d] .
    then show ?thesis using p [OF d] by (auto simp: translate_def)
  qed
qed

lemma write_writable:
  assumes good: "vm_good R X D T P k vm" and q: "q \<in> P \<union> X" "in_frame q a" and d: "d \<in> D" "user_page pg" and w: "writable_at vm d pg"
  shows "writable_at (poke_byte a b vm) d pg"
proof -
  note g = vm_goodD [OF good] and wg = write_good [OF good q, where b = b]
  have pr: "present (pde vm d pg)" using w by (auto simp: writable_at_def translate_def split: if_splits)
  let ?e = "(frame_of (pde vm d pg), pg mod 1024)"
  have e: "?e \<in> cells D T" by (rule table_cell [OF pde_table [OF g(1) d pr]])
  then have "fst ?e \<noteq> q" using inv_cell(2) [OF g(1) e] q(1) inv_parts(6) [OF g(1)] by auto
  then have "ent (set_mem ((vm_mem vm)(a := b)) vm) ?e = ent vm ?e"
    by (intro inv_write(2) [OF g(1) q(1)] inv_cell(1) [OF g(1) e]) (use q(2) in auto)
  then have "pte (poke_byte a b vm) d pg = pte vm d pg"
    using wg(2) [OF d] by (simp add: pte_def poke_byte_def set_mem_def)
  then show ?thesis using w wg(2,3) [OF d] by (simp add: writable_at_def)
qed

lemma page_bytes_write:
  assumes "offset f = 0" "n < 4096"
  shows "page_bytes ((m :: memory)(f + of_nat n := b)) f = (page_bytes m f)[n := b]"
proof (rule nth_equalityI)
  fix i assume "i < length (page_bytes (m(f + of_nat n := b)) f)"
  then have i: "i < 4096" by (simp add: page_bytes_def)
  have "f + of_nat i = f + of_nat n \<longleftrightarrow> i = n"
    using i assms(2) by (simp add: word_of_nat_eq_iff take_bit_eq_mod)
  then show "page_bytes (m(f + of_nat n := b)) f ! i = (page_bytes m f)[n := b] ! i"
    using i by (auto simp: page_bytes_def nth_list_update)
qed (simp add: page_bytes_def)

lemma writable_frame:
  assumes inv: "vm_inv R X D T P k (cells D T) vm" and d: "d \<in> D" "user_page pg" and w: "writable_at vm d pg"
  shows "\<exists>f \<in> P. translate vm d pg = Some f"
proof -
  obtain f where f: "translate vm d pg = Some f" "present (pde vm d pg)" "present (pte vm d pg)" "f = frame_of (pte vm d pg)" "writable (pte vm d pg)"
    using w by (auto simp: writable_at_def translate_def split: if_splits)
  have c: "(frame_of (pde vm d pg), pg mod 1024) \<in> cells D T" using table_cell [OF pde_table [OF inv d f(2)]] .
  then have "zero_refs R k f = 0" using accountedD(2) [OF inv_parts(4) [OF inv], of _ f] f(3-5) by (auto simp: refs_def pte_def)
  then have "f \<noteq> rg_zero R" using inv_parts(9) [OF inv] by (auto simp: zero_refs_def)
  then show ?thesis using translate_page [OF inv d f(1)] f(1) by auto
qed

lemma store_ok:
  assumes good: "vm_good R X D T P k vm" and d: "d \<in> D" "user_page pg" and w: "writable_at vm d pg" and n: "n < 4096"
  shows "vm_good R X D T P k (user_store d pg n b vm)"
    "\<And>d' pg'. d' \<in> D \<Longrightarrow> user_page pg' \<Longrightarrow> view (user_store d pg n b vm) d' pg' =
       (if d' = d \<and> pg' = pg then map_option (\<lambda>bs. bs[n := b]) (view vm d pg) else view vm d' pg')"
    "\<And>a p. p \<in> insert (rg_zero R) (rg_static R \<union> X) \<Longrightarrow> in_frame p a \<Longrightarrow> vm_mem (user_store d pg n b vm) a = vm_mem vm a"
proof -
  note g = vm_goodD [OF good]
  obtain f where f: "f \<in> P" "translate vm d pg = Some f" using writable_frame [OF g(1) d w] by blast
  have f0: "offset f = 0" using vm_aligned [OF g(1), of f] f(1) by blast
  note fa = frame_byte [OF f0 n]
  have vm: "user_store d pg n b vm = poke_byte (f + of_nat n) b vm" using f(2) by (simp add: user_store_def)
  have mem: "vm_mem (poke_byte (f + of_nat n) b vm) = (vm_mem vm)(f + of_nat n := b)" by (simp add: poke_byte_def)
  note wg = write_good [OF good UnI1 [OF f(1)] fa, where b = b, folded vm]
  show "vm_good R X D T P k (user_store d pg n b vm)" by (rule wg(1))
  have apart: "vm_mem (user_store d pg n b vm) a = vm_mem vm a" if "offset p = 0" "p \<noteq> f" "in_frame p a" for p a
    using frames_apart [of p f a] that f0 fa unfolding vm mem by auto
  show "view (user_store d pg n b vm) d' pg' =
      (if d' = d \<and> pg' = pg then map_option (\<lambda>bs. bs[n := b]) (view vm d pg) else view vm d' pg')"
    if o: "d' \<in> D" "user_page pg'" for d' pg'
  proof (cases "d' = d \<and> pg' = pg")
    case True
    then show ?thesis using wg(3) [OF d] f(2) page_bytes_write [OF f0 n] by (simp add: view_def vm mem)
  next
    case False
    have "view (user_store d pg n b vm) d' pg' = view vm d' pg'"
    proof (cases "translate vm d' pg'")
      case (Some h)
      have "h \<noteq> f" using writable_alone [OF g(1) w d o] False Some f(2) by auto
      moreover have "offset h = 0" using translate_page [OF g(1) o Some] vm_aligned [OF g(1), of h] by blast
      ultimately have "page_bytes (vm_mem (user_store d pg n b vm)) h = page_bytes (vm_mem vm) h"
        by (intro page_bytes_cong apart)
      then show ?thesis using wg(3) [OF o] Some by (simp add: view_def)
    qed (use wg(3) [OF o] in \<open>simp add: view_def\<close>)
    then show ?thesis using False by auto
  qed
  show "vm_mem (user_store d pg n b vm) a = vm_mem vm a" if p: "p \<in> insert (rg_zero R) (rg_static R \<union> X)" "in_frame p a" for a p
  proof (rule apart [OF _ _ p(2)])
    show "offset p = 0" using p(1) vm_aligned [OF g(1), of p] inv_parts(2) [OF g(1)] by (auto simp: region_ok_def)
    show "p \<noteq> f" using p(1) f(1) inv_static_apart [OF g(1), of p] inv_parts(7) [OF g(1)] by auto
  qed
qed

end
