(* ===== verification/Private_Spaces.thy ===== *)
theory Private_Spaces
  imports Space_Operations
begin

text \<open>
  Histories of the virtual memory: directories are made, copied and released, pages are mapped, shared,
  copied on a write and written by processes, and the kernel uses frames of its own. Beside the memory
  runs what each process should see.
\<close>

section \<open>Histories\<close>





section \<open>What every history keeps\<close>





















section \<open>Every frame is accounted for\<close>






section \<open>A history\<close>









end
