(* ===== verification/Bit_Tree.thy ===== *)
theory Bit_Tree
  imports Prelude
begin

text \<open>
  The sparse array of \<^verbatim>\<open>kernel/bit_tree.h\<close>: a tree of nodes with 32 children whose occupied slots are the bits of
  a word. Trees share nodes after a copy; a node that more than one pointer refers to is copied before an
  edit. Nodes and items are addresses in a store, and \<open>0\<close> is the null pointer. A deleted node leaves the
  store of live nodes; its memory keeps its contents until the heap gives it out again. The locks of the
  nodes protect single statements and are left out: operations run one after the other.
\<close>

section \<open>Nodes and the store\<close>

record bit_node =
  node_refs :: u32
  present_bits :: u32
  pointers :: "nat list"

record 'a bit_store =
  bs_nodes :: "nat \<rightharpoonup> bit_node"
  bs_items :: "nat \<rightharpoonup> 'a"
  bs_freed :: "nat \<rightharpoonup> bit_node"
  bs_next :: nat

definition new_bit_node :: bit_node where
  "new_bit_node = \<lparr>node_refs = 1, present_bits = 0, pointers = replicate 32 0\<rparr>"

text \<open>Access through a pointer, which must be to a live node.\<close>

definition node_at :: "'a bit_store \<Rightarrow> nat \<Rightarrow> bit_node outcome" where
  "node_at s n = (case bs_nodes s n of None \<Rightarrow> Inl OutOfBounds | Some b \<Rightarrow> Inr b)"

definition put_node :: "nat \<Rightarrow> bit_node \<Rightarrow> 'a bit_store \<Rightarrow> 'a bit_store" where
  "put_node n b s = s\<lparr>bs_nodes := (bs_nodes s)(n \<mapsto> b)\<rparr>"

definition alloc_node :: "bit_node \<Rightarrow> 'a bit_store \<Rightarrow> nat \<times> 'a bit_store" where
  "alloc_node b s = (bs_next s, s\<lparr>bs_nodes := (bs_nodes s)(bs_next s \<mapsto> b), bs_next := Suc (bs_next s)\<rparr>)"

definition alloc_item :: "'a \<Rightarrow> 'a bit_store \<Rightarrow> nat \<times> 'a bit_store" where
  "alloc_item x s = (bs_next s, s\<lparr>bs_items := (bs_items s)(bs_next s \<mapsto> x), bs_next := Suc (bs_next s)\<rparr>)"

definition delete_bit_node :: "nat \<Rightarrow> 'a bit_store \<Rightarrow> 'a bit_store outcome" where
  "delete_bit_node n s = bind_ok (node_at s n) (\<lambda>b.
     Inr (s\<lparr>bs_nodes := (bs_nodes s)(n := None), bs_freed := (bs_freed s)(n \<mapsto> b)\<rparr>))"

definition delete_item :: "nat \<Rightarrow> 'a bit_store \<Rightarrow> 'a bit_store outcome" where
  "delete_item p s = (if bs_items s p = None then Inl OutOfBounds else Inr (s\<lparr>bs_items := (bs_items s)(p := None)\<rparr>))"

fun for_each :: "('p \<Rightarrow> 's \<Rightarrow> 's outcome) \<Rightarrow> 'p list \<Rightarrow> 's \<Rightarrow> 's outcome" where
  "for_each f [] s = Inr s"
| "for_each f (x # xs) s = bind_ok (f x s) (for_each f xs)"

text \<open>The constructor that copies a node: it refers to the same children, which are counted once more.\<close>

definition share_child :: "nat \<Rightarrow> 'a bit_store \<Rightarrow> 'a bit_store outcome" where
  "share_child c s =
     (if c = 0 then Inr s
      else bind_ok (node_at s c) (\<lambda>b. Inr (put_node c (b\<lparr>node_refs := node_refs b + 1\<rparr>) s)))"

definition copy_node :: "nat \<Rightarrow> bool \<Rightarrow> 'a bit_store \<Rightarrow> (nat \<times> 'a bit_store) outcome" where
  "copy_node other is_last_level s =
     bind_ok (node_at s other) (\<lambda>b.
     bind_ok (if is_last_level then Inr s else for_each share_child (pointers b) s) (\<lambda>s.
       Inr (alloc_node \<lparr>node_refs = 1, present_bits = present_bits b, pointers = pointers b\<rparr> s)))"

text \<open>\<^verbatim>\<open>BitTreeNode::free\<close>: whether the last reference is gone.\<close>

primrec node_free :: "nat \<Rightarrow> bool \<Rightarrow> nat \<Rightarrow> 'a bit_store \<Rightarrow> (bool \<times> 'a bit_store) outcome" where
  "node_free 0 free_data n s = Inl OutOfBounds"
| "node_free (Suc l) free_data n s =
     bind_ok (node_at s n) (\<lambda>b.
       let refs = node_refs b - 1; s = put_node n (b\<lparr>node_refs := refs\<rparr>) s
       in if refs > 0 then Inr (False, s)
          else
            bind_ok
              (for_each (\<lambda>c s.
                 if c = 0 then Inr s
                 else if l = 0 then (if free_data then delete_item c s else Inr s)
                 else bind_ok (node_free l free_data c s) (\<lambda>(last, s). if last then delete_bit_node c s else Inr s))
               (pointers b) s)
              (\<lambda>s. Inr (True, s)))"

section \<open>The tree\<close>

datatype entry_action = Insert | Lookup | Delete

record bit_tree =
  bt_levels :: nat
  bt_offset :: u32
  bt_divisor :: u32
  bt_root :: nat
  bt_size :: u32

primrec level_size :: "nat \<Rightarrow> u32 \<Rightarrow> u32" where
  "level_size 0 n = n"
| "level_size (Suc l) n = level_size l (n * 32)"

definition new_bit_tree :: "nat \<Rightarrow> u32 \<Rightarrow> u32 \<Rightarrow> 'a bit_store \<Rightarrow> bit_tree \<times> 'a bit_store" where
  "new_bit_tree levels off divisor s =
     (let (r, s) = alloc_node new_bit_node s
      in (\<lparr>bt_levels = levels, bt_offset = off, bt_divisor = divisor, bt_root = r,
           bt_size = level_size levels (if levels = 0 then 0 else 1)\<rparr>, s))"

definition copy_bit_tree :: "bit_tree \<Rightarrow> 'a bit_store \<Rightarrow> (bit_tree \<times> 'a bit_store) outcome" where
  "copy_bit_tree other s = bind_ok (copy_node (bt_root other) False s) (\<lambda>(r, s). Inr (other\<lparr>bt_root := r\<rparr>, s))"

definition free_node :: "bit_tree \<Rightarrow> nat \<Rightarrow> nat \<Rightarrow> bool \<Rightarrow> 'a bit_store \<Rightarrow> 'a bit_store outcome" where
  "free_node t n level free_data s =
     bind_ok (node_free level free_data n s) (\<lambda>(_, s). if n \<noteq> bt_root t then delete_bit_node n s else Inr s)"

text \<open>The end of a tree takes the memory of its root with it.\<close>

definition drop_bit_tree :: "bit_tree \<Rightarrow> 'a bit_store \<Rightarrow> 'a bit_store outcome" where
  "drop_bit_tree t s = bind_ok (free_node t (bt_root t) (bt_levels t) True s) (delete_bit_node (bt_root t))"

definition clear_bit_tree :: "bit_tree \<Rightarrow> 'a bit_store \<Rightarrow> 'a bit_store outcome" where
  "clear_bit_tree t s = bind_ok (free_node t (bt_root t) (bt_levels t) True s) (\<lambda>s. Inr (put_node (bt_root t) new_bit_node s))"

definition adjust_index :: "bit_tree \<Rightarrow> u32 \<Rightarrow> u32 option" where
  "adjust_index t index =
     (if index < bt_offset t then None
      else let index = (index - bt_offset t) div bt_divisor t in if index < bt_size t then Some index else None)"

definition get_level_index :: "u32 \<Rightarrow> nat \<Rightarrow> nat" where
  "get_level_index index level = unat (drop_bit (5 * (level - 1)) index AND 31)"

text \<open>The entry of a slot; a write to a node that was deleted changes its memory.\<close>

definition slot_read :: "'a bit_store \<Rightarrow> nat \<times> nat \<Rightarrow> nat outcome" where
  "slot_read s = (\<lambda>(n, i).
     case bs_nodes s n of Some b \<Rightarrow> Inr (pointers b ! i)
     | None \<Rightarrow> (case bs_freed s n of None \<Rightarrow> Inl OutOfBounds | Some b \<Rightarrow> Inr (pointers b ! i)))"

definition slot_write :: "nat \<times> nat \<Rightarrow> nat \<Rightarrow> 'a bit_store \<Rightarrow> 'a bit_store outcome" where
  "slot_write = (\<lambda>(n, i) v s.
     case bs_nodes s n of Some b \<Rightarrow> Inr (put_node n (b\<lparr>pointers := (pointers b)[i := v]\<rparr>) s)
     | None \<Rightarrow> (case bs_freed s n of None \<Rightarrow> Inl OutOfBounds
         | Some b \<Rightarrow> Inr (s\<lparr>bs_freed := (bs_freed s)(n \<mapsto> b\<lparr>pointers := (pointers b)[i := v]\<rparr>)\<rparr>)))"

text \<open>The items of a leaf that is copied are copied as well.\<close>

fun copy_items :: "nat list \<Rightarrow> 'a bit_store \<Rightarrow> (nat list \<times> 'a bit_store) outcome" where
  "copy_items [] s = Inr ([], s)"
| "copy_items (p # ps) s =
     bind_ok
       (if p = 0 then Inr (0, s)
        else case bs_items s p of None \<Rightarrow> Inl OutOfBounds | Some x \<Rightarrow> Inr (alloc_item x s)) (\<lambda>(q, s).
     bind_ok (copy_items ps s) (\<lambda>(qs, s). Inr (q # qs, s)))"

text \<open>Copy on write; the pointer to the node is \<open>node_ref\<close>, where \<open>None\<close> is the local variable for the root.\<close>

definition unshare :: "nat \<Rightarrow> (nat \<times> nat) option \<Rightarrow> nat \<Rightarrow> 'a bit_store \<Rightarrow> (nat \<times> 'a bit_store) outcome" where
  "unshare level node_ref node s =
     bind_ok (node_at s node) (\<lambda>b.
       if node_refs b > 1 then
         bind_ok (copy_node node (level = 1) (put_node node (b\<lparr>node_refs := node_refs b - 1\<rparr>) s)) (\<lambda>(n, s).
         bind_ok
           (if level = 1 then
              bind_ok (node_at s n) (\<lambda>b. bind_ok (copy_items (pointers b) s) (\<lambda>(ps, s). Inr (put_node n (b\<lparr>pointers := ps\<rparr>) s)))
            else Inr s) (\<lambda>s.
         bind_ok (case node_ref of None \<Rightarrow> Inr s | Some r \<Rightarrow> slot_write r n s) (\<lambda>s. Inr (n, s))))
       else Inr (node, s))"

definition mark_slot :: "entry_action \<Rightarrow> nat \<Rightarrow> nat \<Rightarrow> 'a bit_store \<Rightarrow> 'a bit_store outcome" where
  "mark_slot action node i s =
     bind_ok (node_at s node) (\<lambda>b.
       Inr (case action of
          Insert \<Rightarrow> put_node node (b\<lparr>present_bits := present_bits b OR push_bit i 1\<rparr>) s
        | Delete \<Rightarrow> put_node node (b\<lparr>present_bits := present_bits b AND NOT (push_bit i 1)\<rparr>) s
        | Lookup \<Rightarrow> s))"

text \<open>After the removal below a node: the child goes if nothing is left in it.\<close>

definition prune :: "bit_tree \<Rightarrow> nat \<Rightarrow> nat \<Rightarrow> nat \<Rightarrow> 'a bit_store \<Rightarrow> 'a bit_store outcome" where
  "prune t level node i s =
     bind_ok (slot_read s (node, i)) (\<lambda>c.
     bind_ok (node_at s c) (\<lambda>cb.
       if present_bits cb = 0 then
         bind_ok (mark_slot Delete node i s) (\<lambda>s.
         bind_ok (free_node t c (level - 1) False s) (slot_write (node, i) 0))
       else Inr s))"

primrec get_entry_ref ::
    "bit_tree \<Rightarrow> u32 \<Rightarrow> entry_action \<Rightarrow> nat \<Rightarrow> (nat \<times> nat) option \<Rightarrow> nat \<Rightarrow> 'a bit_store \<Rightarrow> ((nat \<times> nat) option \<times> 'a bit_store) outcome" where
  "get_entry_ref t index action 0 = (\<lambda>node_ref node s. Inl OutOfBounds)"
| "get_entry_ref t index action (Suc l) = (\<lambda>node_ref node s.
     bind_ok (if action \<noteq> Lookup then unshare (Suc l) node_ref node s else Inr (node, s)) (\<lambda>(node, s).
       let i = get_level_index index (Suc l)
       in if l = 0 then bind_ok (mark_slot action node i s) (\<lambda>s. Inr (Some (node, i), s))
          else
            bind_ok (slot_read s (node, i)) (\<lambda>c.
              if c = 0 \<and> action \<noteq> Insert then Inr (None, s)
              else
                bind_ok
                  (if c = 0 then
                     let (c, s) = alloc_node new_bit_node s
                     in bind_ok (mark_slot Insert node i s) (\<lambda>s. bind_ok (slot_write (node, i) c s) (\<lambda>s. Inr (c, s)))
                   else Inr (c, s)) (\<lambda>(c, s).
                bind_ok (get_entry_ref t index action l (Some (node, i)) c s) (\<lambda>(ref, s).
                  if action = Delete then bind_ok (prune t (Suc l) node i s) (\<lambda>s. Inr (ref, s)) else Inr (ref, s))))))"

section \<open>Operations of the tree\<close>

definition entry_ref :: "bit_tree \<Rightarrow> u32 \<Rightarrow> entry_action \<Rightarrow> 'a bit_store \<Rightarrow> ((nat \<times> nat) option \<times> 'a bit_store) outcome" where
  "entry_ref t index action = get_entry_ref t index action (bt_levels t) None (bt_root t)"

definition bt_insert :: "bit_tree \<Rightarrow> u32 \<Rightarrow> nat \<Rightarrow> 'a bit_store \<Rightarrow> (nat \<times> 'a bit_store) outcome" where
  "bt_insert t index item s =
     (case adjust_index t index of None \<Rightarrow> Inr (0, s)
      | Some index \<Rightarrow>
          bind_ok (entry_ref t index Insert s) (\<lambda>(ref, s).
            case ref of None \<Rightarrow> Inl OutOfBounds
            | Some r \<Rightarrow> bind_ok (slot_read s r) (\<lambda>previous. bind_ok (slot_write r item s) (\<lambda>s. Inr (previous, s)))))"

definition bt_lookup_exact :: "bit_tree \<Rightarrow> u32 \<Rightarrow> 'a bit_store \<Rightarrow> (nat \<times> 'a bit_store) outcome" where
  "bt_lookup_exact t index s =
     (case adjust_index t index of None \<Rightarrow> Inr (0, s)
      | Some index \<Rightarrow>
          bind_ok (entry_ref t index Lookup s) (\<lambda>(ref, s).
            case ref of None \<Rightarrow> Inr (0, s) | Some r \<Rightarrow> bind_ok (slot_read s r) (\<lambda>p. Inr (p, s))))"

definition bt_remove :: "bit_tree \<Rightarrow> u32 \<Rightarrow> 'a bit_store \<Rightarrow> (nat \<times> 'a bit_store) outcome" where
  "bt_remove t index s =
     (case adjust_index t index of None \<Rightarrow> Inr (0, s)
      | Some index \<Rightarrow>
          bind_ok (entry_ref t index Delete s) (\<lambda>(ref, s).
            case ref of None \<Rightarrow> Inr (0, s)
            | Some r \<Rightarrow> bind_ok (slot_read s r) (\<lambda>previous. bind_ok (slot_write r 0 s) (\<lambda>s. Inr (previous, s)))))"

section \<open>Queries\<close>

text \<open>The builtins of the compiler for the zeros above and below the bits of a word that is not zero.\<close>

definition builtin_clz :: "u32 \<Rightarrow> u32" where "builtin_clz x = of_nat (31 - last (filter (bit x) [0..<32]))"
definition builtin_ctz :: "u32 \<Rightarrow> u32" where "builtin_ctz x = of_nat (hd (filter (bit x) [0..<32]))"

definition mask_bits :: "u32 \<Rightarrow> u32 \<Rightarrow> bool \<Rightarrow> u32" where
  "mask_bits bits index is_floor =
     (if is_floor then let index = 31 - index in drop_bit (unat index) (push_bit (unat index) bits)
      else push_bit (unat index) (drop_bit (unat index) bits))"

definition compute_index :: "u32 \<Rightarrow> u32 \<Rightarrow> bool \<Rightarrow> u32" where
  "compute_index bits index is_floor =
     (if index > 31 then 32
      else
        let masked = mask_bits bits index is_floor
        in if masked = 0 then 32 else if is_floor then 31 - builtin_clz masked else builtin_ctz masked)"

primrec run_query :: "nat \<Rightarrow> u32 \<Rightarrow> bool \<Rightarrow> nat \<Rightarrow> 'a bit_store \<Rightarrow> nat outcome" where
  "run_query 0 index is_floor node s = Inl OutOfBounds"
| "run_query (Suc l) index is_floor node s =
     (if node = 0 then Inr 0
      else
        bind_ok (node_at s node) (\<lambda>b.
          let level_index = of_nat (get_level_index index (Suc l));
              query_index = compute_index (present_bits b) level_index is_floor
          in if query_index = 32 then Inr 0
             else if l = 0 then Inr (pointers b ! unat query_index)
             else
               let move_index = (if is_floor then 0xFFFFFFFF else 0);
                   new_index = (if level_index = query_index then index else move_index)
               in bind_ok (run_query l new_index is_floor (pointers b ! unat query_index) s) (\<lambda>result.
                    if result = 0 then
                      let retry_index = compute_index (present_bits b) (query_index + (if is_floor then - 1 else 1)) is_floor
                      in if retry_index = 32 then Inr 0
                         else run_query l move_index is_floor (pointers b ! unat retry_index) s
                    else Inr result)))"

definition bt_lookup_floor :: "bit_tree \<Rightarrow> u32 \<Rightarrow> 'a bit_store \<Rightarrow> nat outcome" where
  "bt_lookup_floor t index s =
     (case adjust_index t index of None \<Rightarrow> Inr 0 | Some index \<Rightarrow> run_query (bt_levels t) index True (bt_root t) s)"

definition bt_lookup_ceil :: "bit_tree \<Rightarrow> u32 \<Rightarrow> 'a bit_store \<Rightarrow> nat outcome" where
  "bt_lookup_ceil t index s =
     (case adjust_index t index of None \<Rightarrow> Inr 0 | Some index \<Rightarrow> run_query (bt_levels t) index False (bt_root t) s)"

end
