(* ===== verification/Bit_Tree_Invariant.thy ===== *)
theory Bit_Tree_Invariant
  imports Bit_Tree
begin

text \<open>
  The invariant of the trees over one store. Every live node has a level; the pointers of a leaf are items,
  those of another node are nodes of the next level. The counter of a node is the number of slots that hold
  it and of references from outside, such as the tree object for its root; an item is in one slot or held
  outside. Nodes in \<open>Z\<close> are about to be deleted and no longer count.
\<close>

section \<open>Pointers, values and the invariant\<close>

definition live :: "'a bit_store \<Rightarrow> nat set \<Rightarrow> nat set" where
  "live s Z = dom (bs_nodes s) - Z"

definition ptr :: "'a bit_store \<Rightarrow> nat \<Rightarrow> nat \<Rightarrow> nat" where
  "ptr s n i = (case bs_nodes s n of None \<Rightarrow> 0 | Some b \<Rightarrow> pointers b ! i)"

definition holders :: "'a bit_store \<Rightarrow> nat set \<Rightarrow> nat \<Rightarrow> (nat \<times> nat) set" where
  "holders s Z q = {(n, i). n \<in> live s Z \<and> i < 32 \<and> ptr s n i = q}"

primrec cont :: "'a bit_store \<Rightarrow> nat \<Rightarrow> nat \<Rightarrow> nat \<Rightarrow> nat" where
  "cont s 0 q k = q"
| "cont s (Suc l) q k = cont s l (ptr s q (k div 32 ^ l mod 32)) k"

definition val :: "'a bit_store \<Rightarrow> nat \<Rightarrow> nat \<Rightarrow> nat \<Rightarrow> 'a option" where
  "val s l q k = bs_items s (cont s l q k)"

definition shaped :: "nat \<Rightarrow> nat set \<Rightarrow> (nat \<Rightarrow> nat) \<Rightarrow> 'a bit_store \<Rightarrow> bool" where
  "shaped L Z lv s \<longleftrightarrow>
     (\<forall>n b. n \<notin> Z \<longrightarrow> bs_nodes s n = Some b \<longrightarrow> length (pointers b) = 32 \<and> 0 < lv n \<and> lv n \<le> L
        \<and> (\<forall>i < 32. bit (present_bits b) i \<longleftrightarrow> pointers b ! i \<noteq> 0))
     \<and> (\<forall>n \<in> live s Z. \<forall>i < 32. ptr s n i \<noteq> 0 \<longrightarrow>
          (if lv n = 1 then ptr s n i \<in> dom (bs_items s) else ptr s n i \<in> live s Z \<and> lv (ptr s n i) = lv n - 1))"

definition counted_refs :: "nat set \<Rightarrow> (nat \<Rightarrow> nat) \<Rightarrow> 'a bit_store \<Rightarrow> bool" where
  "counted_refs Z ext s \<longleftrightarrow>
     (\<forall>n b. n \<notin> Z \<longrightarrow> bs_nodes s n = Some b \<longrightarrow> unat (node_refs b) = card (holders s Z n) + ext n \<and> 0 < node_refs b)
     \<and> (\<forall>p \<in> dom (bs_items s). card (holders s Z p) + ext p = 1)
     \<and> (\<forall>q. ext q \<noteq> 0 \<longrightarrow> q \<in> live s Z \<union> dom (bs_items s))"

definition ids_ok :: "'a bit_store \<Rightarrow> bool" where
  "ids_ok s \<longleftrightarrow> 0 < bs_next s \<and> dom (bs_nodes s) \<union> dom (bs_items s) \<union> dom (bs_freed s) \<subseteq> {0<..<bs_next s}
     \<and> dom (bs_nodes s) \<inter> dom (bs_items s) = {} \<and> dom (bs_nodes s) \<inter> dom (bs_freed s) = {} \<and> dom (bs_items s) \<inter> dom (bs_freed s) = {}"

definition bt_inv :: "nat \<Rightarrow> nat set \<Rightarrow> (nat \<Rightarrow> nat) \<Rightarrow> (nat \<Rightarrow> nat) \<Rightarrow> 'a bit_store \<Rightarrow> bool" where
  "bt_inv L Z lv ext s \<longleftrightarrow> shaped L Z lv s \<and> counted_refs Z ext s \<and> ids_ok s"

lemma bt_invI:
  assumes "\<And>m b. m \<notin> Z \<Longrightarrow> bs_nodes s m = Some b \<Longrightarrow> length (pointers b) = 32 \<and> 0 < lv m \<and> lv m \<le> L
      \<and> (\<forall>j < 32. bit (present_bits b) j \<longleftrightarrow> pointers b ! j \<noteq> 0)"
    and "\<And>m j. m \<in> live s Z \<Longrightarrow> j < 32 \<Longrightarrow> ptr s m j \<noteq> 0 \<Longrightarrow>
      if lv m = 1 then ptr s m j \<in> dom (bs_items s) else ptr s m j \<in> live s Z \<and> lv (ptr s m j) = lv m - 1"
    and "\<And>m b. m \<notin> Z \<Longrightarrow> bs_nodes s m = Some b \<Longrightarrow> unat (node_refs b) = card (holders s Z m) + ext m \<and> 0 < node_refs b"
    and "\<And>p. p \<in> dom (bs_items s) \<Longrightarrow> card (holders s Z p) + ext p = 1"
    and "\<And>q. ext q \<noteq> 0 \<Longrightarrow> q \<in> live s Z \<union> dom (bs_items s)" and "ids_ok s"
  shows "bt_inv L Z lv ext s"
  using assms unfolding bt_inv_def shaped_def counted_refs_def by blast

text \<open>Memory holds far fewer nodes than the counters can count.\<close>

definition few_nodes :: "nat \<Rightarrow> 'a bit_store \<Rightarrow> bool" where
  "few_nodes k s \<longleftrightarrow> card (dom (bs_nodes s)) + k < 2 ^ 27"

lemma inv_shape:
  assumes "bt_inv L Z lv ext s" "n \<notin> Z" "bs_nodes s n = Some b"
  shows "length (pointers b) = 32" "0 < lv n" "lv n \<le> L" "\<And>i. i < 32 \<Longrightarrow> bit (present_bits b) i \<longleftrightarrow> pointers b ! i \<noteq> 0"
    "unat (node_refs b) = card (holders s Z n) + ext n" "0 < node_refs b" "n \<in> live s Z"
  using assms unfolding bt_inv_def shaped_def counted_refs_def live_def by auto

lemma inv_child:
  assumes "bt_inv L Z lv ext s" "n \<in> live s Z" "i < 32" "ptr s n i \<noteq> 0"
  shows "lv n = 1 \<Longrightarrow> ptr s n i \<in> dom (bs_items s)" "lv n \<noteq> 1 \<Longrightarrow> ptr s n i \<in> live s Z \<and> lv (ptr s n i) = lv n - 1"
  using assms unfolding bt_inv_def shaped_def by auto

lemma inv_items:
  assumes "bt_inv L Z lv ext s"
  shows "\<And>p. p \<in> dom (bs_items s) \<Longrightarrow> card (holders s Z p) + ext p = 1" "\<And>q. ext q \<noteq> 0 \<Longrightarrow> q \<in> live s Z \<union> dom (bs_items s)"
  using assms unfolding bt_inv_def counted_refs_def by auto

lemma inv_ids:
  assumes "bt_inv L Z lv ext s"
  shows "\<And>n. n \<in> dom (bs_nodes s) \<union> dom (bs_items s) \<union> dom (bs_freed s) \<Longrightarrow> 0 < n \<and> n < bs_next s"
    "dom (bs_nodes s) \<inter> dom (bs_items s) = {}" "dom (bs_nodes s) \<inter> dom (bs_freed s) = {}" "dom (bs_items s) \<inter> dom (bs_freed s) = {}"
    "ids_ok s" "0 < bs_next s"
  using assms unfolding bt_inv_def ids_ok_def by auto

lemma live_node: "n \<in> live s Z \<longleftrightarrow> n \<notin> Z \<and> (\<exists>b. bs_nodes s n = Some b)"
  by (auto simp: live_def)

lemma inv_live:
  assumes "bt_inv L Z lv ext s" "n \<in> live s Z"
  shows "n \<noteq> 0" "n < bs_next s" "0 < lv n" "lv n \<le> L"
proof -
  obtain b where b: "n \<notin> Z" "bs_nodes s n = Some b" using assms(2) by (auto simp: live_node)
  show "0 < lv n" "lv n \<le> L" using inv_shape [OF assms(1) b] by simp_all
  have "n \<in> dom (bs_nodes s)" using b by blast
  then show "n \<noteq> 0" "n < bs_next s" using inv_ids(1) [OF assms(1), of n] by simp_all
qed

lemma finite_store:
  assumes "ids_ok s"
  shows "finite (dom (bs_nodes s))" "finite (live s Z)" "finite (holders s Z q)"
proof -
  have "dom (bs_nodes s) \<subseteq> {0<..<bs_next s}" using assms by (auto simp: ids_ok_def)
  then show f: "finite (dom (bs_nodes s))" by (rule finite_subset) simp
  then show l: "finite (live s Z)" by (simp add: live_def)
  have "holders s Z q \<subseteq> live s Z \<times> {..<32}" by (auto simp: holders_def)
  then show "finite (holders s Z q)" by (rule finite_subset) (use l in simp)
qed

lemma holders_bound:
  assumes "ids_ok s" "few_nodes k s"
  shows "card (holders s Z q) + 32 * k < 4294967296"
proof -
  have "holders s Z q \<subseteq> dom (bs_nodes s) \<times> {..<32}" by (auto simp: holders_def live_def)
  then have "card (holders s Z q) \<le> card (dom (bs_nodes s) \<times> {..<32 :: nat})"
    by (rule card_mono [rotated]) (use finite_store(1) [OF assms(1)] in simp)
  then show ?thesis using assms(2) by (simp add: few_nodes_def card_cartesian_product)
qed

lemma items_zero: "ids_ok s \<Longrightarrow> bs_items s 0 = None" "ids_ok s \<Longrightarrow> bs_nodes s 0 = None"
  by (auto simp: ids_ok_def dom_def)

lemma cont_null [simp]:
  assumes "ids_ok s"
  shows "cont s l 0 k = 0"
  by (induction l) (simp_all add: ptr_def items_zero [OF assms])

section \<open>Equal values\<close>

text \<open>A relation between the pointers of two stores that holds for the slots of related nodes.\<close>

lemma val_sim:
  assumes step: "\<And>l q' q i. \<rho> (Suc l) q' q \<Longrightarrow> i < 32 \<Longrightarrow> \<rho> l (ptr s' q' i) (ptr s q i)"
    and item: "\<And>q' q. \<rho> 0 q' q \<Longrightarrow> bs_items s' q' = bs_items s q"
  shows "\<rho> l q' q \<Longrightarrow> val s' l q' k = val s l q k"
proof (induction l arbitrary: q' q)
  case (Suc l)
  have "\<rho> l (ptr s' q' (k div 32 ^ l mod 32)) (ptr s q (k div 32 ^ l mod 32))" by (rule step [OF Suc.prems]) simp
  from Suc.IH [OF this] show ?case by (simp add: val_def)
qed (simp add: val_def item)

text \<open>What may be held at a level: the null pointer, an item, or a live node.\<close>

definition at_level :: "'a bit_store \<Rightarrow> nat set \<Rightarrow> (nat \<Rightarrow> nat) \<Rightarrow> nat \<Rightarrow> nat \<Rightarrow> bool" where
  "at_level s Z lv l q \<longleftrightarrow> q = 0 \<or> (if l = 0 then q \<in> dom (bs_items s) else q \<in> live s Z \<and> lv q = l)"

lemma child_level:
  assumes inv: "bt_inv L Z lv ext s" and q: "at_level s Z lv (Suc l) q" and i: "i < 32"
  shows "at_level s Z lv l (ptr s q i)"
proof (cases "q = 0 \<or> ptr s q i = 0")
  case True
  then show ?thesis using items_zero(2) [OF inv_ids(5) [OF inv]] by (auto simp: at_level_def ptr_def)
next
  case False
  then have "q \<in> live s Z" "lv q = Suc l" using q by (auto simp: at_level_def)
  then show ?thesis using inv_child [OF inv _ i] False by (cases l) (auto simp: at_level_def)
qed

lemma live_level: "n \<in> live s Z \<Longrightarrow> 0 < lv n \<Longrightarrow> at_level s Z lv (lv n) n"
  by (simp add: at_level_def)

section \<open>Elementary changes\<close>

text \<open>References are counted or dropped.\<close>

definition add_refs :: "(nat \<Rightarrow> u32) \<Rightarrow> 'a bit_store \<Rightarrow> 'a bit_store" where
  "add_refs f s = s\<lparr>bs_nodes := \<lambda>n. map_option (\<lambda>b. b\<lparr>node_refs := node_refs b + f n\<rparr>) (bs_nodes s n)\<rparr>"

lemma add_refs_fields [simp]:
  "bs_items (add_refs f s) = bs_items s" "bs_freed (add_refs f s) = bs_freed s" "bs_next (add_refs f s) = bs_next s"
  "dom (bs_nodes (add_refs f s)) = dom (bs_nodes s)" "live (add_refs f s) Z = live s Z" "ptr (add_refs f s) n i = ptr s n i"
  "holders (add_refs f s) Z q = holders s Z q" "ids_ok (add_refs f s) = ids_ok s" "cont (add_refs f s) l q k = cont s l q k"
  "val (add_refs f s) l q k = val s l q k" "few_nodes j (add_refs f s) = few_nodes j s"
proof -
  show d: "dom (bs_nodes (add_refs f s)) = dom (bs_nodes s)" by (auto simp: add_refs_def dom_def split: option.splits)
  show i: "bs_items (add_refs f s) = bs_items s" "bs_freed (add_refs f s) = bs_freed s" "bs_next (add_refs f s) = bs_next s"
    by (simp_all add: add_refs_def)
  show "live (add_refs f s) Z = live s Z" "ids_ok (add_refs f s) = ids_ok s" "few_nodes j (add_refs f s) = few_nodes j s"
    by (simp_all add: live_def ids_ok_def few_nodes_def d i)
  show p: "ptr (add_refs f s) n i = ptr s n i" for n i by (simp add: ptr_def add_refs_def split: option.splits)
  show "holders (add_refs f s) Z q = holders s Z q" by (simp add: holders_def live_def d p)
  show c: "cont (add_refs f s) l q k = cont s l q k" for l q k by (induction l arbitrary: q) (simp_all add: p)
  show "val (add_refs f s) l q k = val s l q k" by (simp add: val_def c i)
qed

lemma add_refs_inv:
  assumes inv: "bt_inv L Z lv ext s"
    and counts: "\<And>n b. n \<notin> Z \<Longrightarrow> bs_nodes s n = Some b \<Longrightarrow> unat (node_refs b + f n) = card (holders s Z n) + ext' n \<and> 0 < node_refs b + f n"
    and items: "\<And>p. p \<in> dom (bs_items s) \<Longrightarrow> ext' p = ext p" and rest: "\<And>q. ext' q \<noteq> 0 \<Longrightarrow> q \<in> live s Z \<union> dom (bs_items s)"
  shows "bt_inv L Z lv ext' (add_refs f s)"
proof -
  have "shaped L Z lv (add_refs f s)"
    using inv unfolding bt_inv_def shaped_def by (auto simp: add_refs_def [of f s, THEN arg_cong [of _ _ bs_nodes]])
  moreover have "counted_refs Z ext' (add_refs f s)"
    unfolding counted_refs_def using counts inv_items(1) [OF inv] items rest
    by (auto simp: add_refs_def [of f s, THEN arg_cong [of _ _ bs_nodes]])
  ultimately show ?thesis using inv_ids(5) [OF inv] by (simp add: bt_inv_def)
qed

text \<open>One more reference from outside for every entry of a list.\<close>

lemma share_refs:
  assumes inv: "bt_inv L Z lv ext s" and f: "\<And>n. f n \<noteq> 0 \<Longrightarrow> n \<in> live s Z" "\<And>n. card (holders s Z n) + ext n + f n < 4294967296"
  shows "bt_inv L Z lv (\<lambda>n. ext n + f n) (add_refs (\<lambda>n. of_nat (f n)) s)"
proof (rule add_refs_inv [OF inv])
  fix n b assume b: "n \<notin> Z" "bs_nodes s n = Some b"
  note i = inv_shape(5,6) [OF inv b]
  have "unat (of_nat (f n) :: u32) = f n" using f(2) [of n] by (intro unat_of_nat_exact) simp
  then have "unat (node_refs b + of_nat (f n)) = unat (node_refs b) + f n" using f(2) [of n] i(1) by (subst unat_plus_exact) simp_all
  then show "unat (node_refs b + of_nat (f n)) = card (holders s Z n) + (ext n + f n) \<and> 0 < node_refs b + of_nat (f n)"
    using i by (simp add: word_less_nat_alt)
next
  fix p assume "p \<in> dom (bs_items s)"
  then have "p \<notin> live s Z" using inv_ids(2) [OF inv] by (auto simp: live_def)
  then show "ext p + f p = ext p" using f(1) [of p] by auto
qed (use f(1) inv_items(2) [OF inv] in auto)

lemma drop_ref:
  assumes inv: "bt_inv L Z lv ext s" and c: "c \<notin> Z" "bs_nodes s c = Some b" "1 < node_refs b" "0 < ext c"
  shows "bt_inv L Z lv (ext(c := ext c - 1)) (add_refs ((\<lambda>_. 0)(c := - 1)) s)"
proof (rule add_refs_inv [OF inv])
  fix n b' assume b': "n \<notin> Z" "bs_nodes s n = Some b'"
  note i = inv_shape(5,6) [OF inv b']
  show "unat (node_refs b' + ((\<lambda>_. 0)(c := - 1)) n) = card (holders s Z n) + (ext(c := ext c - 1)) n \<and> 0 < node_refs b' + ((\<lambda>_. 0)(c := - 1)) n"
  proof (cases "n = c")
    case True
    then have "b' = b" using b' c by simp
    then have "unat (node_refs b' - 1) = unat (node_refs b') - 1" "1 < unat (node_refs b')"
      using c(3) by (simp_all add: unat_minus_one word_less_nat_alt) unat_arith
    then show ?thesis using True i c(4) by (auto simp: word_less_nat_alt)
  qed (use i in simp)
next
  fix p assume "p \<in> dom (bs_items s)"
  then show "(ext(c := ext c - 1)) p = ext p" using inv_ids(2) [OF inv] c(2) by auto
qed (use c inv_items(2) [OF inv] in \<open>auto simp: live_def split: if_splits\<close>)

text \<open>A slot is written, with its bit. The reference that was in it is held outside, the new one no longer.\<close>

definition set_slot :: "nat \<Rightarrow> nat \<Rightarrow> nat \<Rightarrow> 'a bit_store \<Rightarrow> 'a bit_store" where
  "set_slot n i q s = s\<lparr>bs_nodes := (bs_nodes s)(n := map_option (\<lambda>b. b\<lparr>
      present_bits := (if q = 0 then present_bits b AND NOT (push_bit i 1) else present_bits b OR push_bit i 1),
      pointers := (pointers b)[i := q]\<rparr>) (bs_nodes s n))\<rparr>"

lemma set_slot_fields [simp]:
  "bs_items (set_slot n i q s) = bs_items s" "bs_freed (set_slot n i q s) = bs_freed s" "bs_next (set_slot n i q s) = bs_next s"
  "dom (bs_nodes (set_slot n i q s)) = dom (bs_nodes s)" "live (set_slot n i q s) Z = live s Z"
  "ids_ok (set_slot n i q s) = ids_ok s" "few_nodes j (set_slot n i q s) = few_nodes j s"
proof -
  show d: "dom (bs_nodes (set_slot n i q s)) = dom (bs_nodes s)" by (auto simp: set_slot_def dom_def)
  show i: "bs_items (set_slot n i q s) = bs_items s" "bs_freed (set_slot n i q s) = bs_freed s" "bs_next (set_slot n i q s) = bs_next s"
    by (simp_all add: set_slot_def)
  show "live (set_slot n i q s) Z = live s Z" "ids_ok (set_slot n i q s) = ids_ok s" "few_nodes j (set_slot n i q s) = few_nodes j s"
    by (simp_all add: live_def ids_ok_def few_nodes_def d i)
qed

lemma ptr_set_slot:
  assumes "bs_nodes s n = Some b" "i < length (pointers b)"
  shows "ptr (set_slot n i q s) m j = (if m = n \<and> j = i then q else ptr s m j)"
  using assms by (auto simp: ptr_def set_slot_def)

lemma card_move:
  assumes "finite A" "A' = (A - {x}) \<union> (if new then {x} else {})"
  shows "card A' + (if x \<in> A then 1 else 0) = card A + (if new then 1 else 0)"
proof -
  have "card A = card (A - {x}) + (if x \<in> A then 1 else 0)" using assms(1) card_gt_0_iff [of A] by (cases "x \<in> A") auto
  moreover have "card ((A - {x}) \<union> (if new then {x} else {})) = card (A - {x}) + (if new then 1 else 0)"
    using assms(1) card_gt_0_iff [of A] by (cases "x \<in> A") (auto simp: card_insert_if)
  ultimately show ?thesis using assms(2) by simp
qed

lemma holders_set_slot:
  assumes inv: "bt_inv L Z lv ext s" and n: "n \<in> live s Z" "i < 32"
  shows "card (holders (set_slot n i q s) Z r) + (if r = ptr s n i then 1 else 0) = card (holders s Z r) + (if r = q then 1 else 0)"
proof -
  obtain b where b: "n \<notin> Z" "bs_nodes s n = Some b" using n(1) by (auto simp: live_node)
  note p = ptr_set_slot [OF b(2), of i q] inv_shape(1) [OF inv b]
  have "holders (set_slot n i q s) Z r = (holders s Z r - {(n, i)}) \<union> (if r = q then {(n, i)} else {})"
    using p n by (auto simp: holders_def split: if_splits)
  from card_move [OF finite_store(3) [OF inv_ids(5) [OF inv]] this]
  show ?thesis using n by (simp add: holders_def eq_commute [of r])
qed

lemma set_slot_inv:
  assumes inv: "bt_inv L Z lv ext s" and n: "n \<in> live s Z" "i < 32"
    and q: "at_level s Z lv (lv n - 1) q"
    and ext': "\<And>r. r \<noteq> 0 \<Longrightarrow> ext' r + (if r = q then 1 else 0) = ext r + (if r = ptr s n i then 1 else 0)" "ext' 0 = 0"
  shows "bt_inv L Z lv ext' (set_slot n i q s)"
proof -
  obtain b where b: "n \<notin> Z" "bs_nodes s n = Some b" using n(1) by (auto simp: live_node)
  note sh = inv_shape [OF inv b] and p = ptr_set_slot [OF b(2), of i q] and ids = inv_ids [OF inv]
  have nodes: "bs_nodes (set_slot n i q s) m = (if m = n then Some (b\<lparr>
      present_bits := (if q = 0 then present_bits b AND NOT (push_bit i 1) else present_bits b OR push_bit i 1),
      pointers := (pointers b)[i := q]\<rparr>) else bs_nodes s m)" for m using b(2) by (simp add: set_slot_def)
  have bits: "bit (push_bit i (1 :: u32)) j \<longleftrightarrow> j = i" if "j < 32" for j
    using that n(2) by (auto simp: bit_exp_iff)
  have one: "length (pointers b') = 32 \<and> 0 < lv m \<and> lv m \<le> L \<and> (\<forall>j < 32. bit (present_bits b') j \<longleftrightarrow> pointers b' ! j \<noteq> 0)"
    if m: "m \<notin> Z" "bs_nodes (set_slot n i q s) m = Some b'" for m b'
  proof (cases "m = n")
    case True
    then have "b' = b\<lparr>present_bits := (if q = 0 then present_bits b AND NOT (push_bit i 1) else present_bits b OR push_bit i 1),
      pointers := (pointers b)[i := q]\<rparr>" using m nodes by simp
    then show ?thesis using True sh bits n(2) by (auto simp: nth_list_update bit_and_iff bit_or_iff bit_not_iff)
  next
    case False
    then show ?thesis using inv_shape(1-4) [OF inv m(1)] m(2) nodes by simp
  qed
  have two: "if lv m = 1 then ptr (set_slot n i q s) m j \<in> dom (bs_items (set_slot n i q s))
      else ptr (set_slot n i q s) m j \<in> live (set_slot n i q s) Z \<and> lv (ptr (set_slot n i q s) m j) = lv m - 1"
    if m': "m \<in> live (set_slot n i q s) Z" "j < 32" "ptr (set_slot n i q s) m j \<noteq> 0" for m j
  proof (cases "m = n \<and> j = i")
    note m = m'[unfolded set_slot_fields]
    case True
    then have "ptr (set_slot n i q s) m j = q" "q \<noteq> 0" using p sh(1) n(2) m(3) by simp_all
    then show ?thesis using q True sh(2) by (auto simp: at_level_def split: if_splits)
  next
    note m = m'[unfolded set_slot_fields]
    case False
    then show ?thesis using inv_child [OF inv m(1,2)] m(3) p sh(1) n(2) by auto
  qed
  have sum: "card (holders (set_slot n i q s) Z r) + ext' r = card (holders s Z r) + ext r" if "r \<noteq> 0" for r
    using holders_set_slot [OF inv n, of q r] ext'(1) [OF that] by linarith
  have three: "unat (node_refs b') = card (holders (set_slot n i q s) Z m) + ext' m \<and> 0 < node_refs b'"
    if m: "m \<notin> Z" "bs_nodes (set_slot n i q s) m = Some b'" for m b'
  proof -
    have m0: "m \<noteq> 0" using ids(1) [of m] m(2) nodes [of m] b(2) by (auto split: if_splits)
    obtain b0 where b0: "bs_nodes s m = Some b0" "node_refs b' = node_refs b0" using m(2) nodes [of m] b(2) by (auto split: if_splits)
    show ?thesis using inv_shape(5,6) [OF inv m(1) b0(1)] b0(2) sum [OF m0] by simp
  qed
  have four: "card (holders (set_slot n i q s) Z r) + ext' r = 1" if "r \<in> dom (bs_items (set_slot n i q s))" for r
    using sum [of r] inv_items(1) [OF inv, of r] ids(1) [of r] that by auto
  have five: "r \<in> live (set_slot n i q s) Z \<union> dom (bs_items (set_slot n i q s))" if "ext' r \<noteq> 0" for r
  proof (cases "ext r = 0")
    case True
    then have "r = ptr s n i" "r \<noteq> 0" using that ext'(1) [of r] ext'(2) by (cases "r = 0"; auto split: if_splits)+
    then show ?thesis using inv_child [OF inv n] by (cases "lv n = 1") auto
  qed (use inv_items(2) [OF inv] in auto)
  show ?thesis by (rule bt_invI [OF one two three four five]) (simp_all add: ids(5))
qed

text \<open>A new node without children, and a new item, each held by one reference from outside.\<close>

lemma fresh_holders:
  assumes inv: "bt_inv L Z lv ext s" and q: "bs_next s \<le> q"
  shows "holders s Z q = {}" "ext q = 0" "q \<notin> live s Z" "q \<notin> dom (bs_items s)" "q \<notin> dom (bs_nodes s)" "q \<notin> dom (bs_freed s)"
proof -
  note ids = inv_ids [OF inv]
  show d: "q \<notin> dom (bs_items s)" "q \<notin> dom (bs_nodes s)" "q \<notin> dom (bs_freed s)" using ids(1) [of q] q by auto
  then show l: "q \<notin> live s Z" by (simp add: live_def)
  show "ext q = 0" using inv_items(2) [OF inv, of q] d l by auto
  have "q \<noteq> ptr s n i" if "n \<in> live s Z" "i < 32" for n i
  proof (cases "ptr s n i = 0")
    case True
    then show ?thesis using q ids(1) [of n] that by (auto simp: live_def)
  next
    case False
    then show ?thesis using inv_child [OF inv that False] d l by (cases "lv n = 1") auto
  qed
  then show "holders s Z q = {}" by (auto simp: holders_def)
qed

definition with_node :: "bit_node \<Rightarrow> 'a bit_store \<Rightarrow> 'a bit_store" where
  "with_node b s = snd (alloc_node b s)"

lemma with_node_fields [simp]:
  "bs_items (with_node b s) = bs_items s" "bs_freed (with_node b s) = bs_freed s" "bs_next (with_node b s) = Suc (bs_next s)"
  "bs_nodes (with_node b s) = (bs_nodes s)(bs_next s \<mapsto> b)"
  by (simp_all add: with_node_def alloc_node_def)

lemma new_node_ptr:
  assumes "j < 32"
  shows "ptr (with_node new_bit_node s) m j = (if m = bs_next s then 0 else ptr s m j)"
  using assms by (simp add: ptr_def new_bit_node_def)

lemma new_node_inv:
  assumes inv: "bt_inv L Z lv ext s" and l: "0 < l" "l \<le> L" and Z: "bs_next s \<notin> Z"
  shows "bt_inv L Z (lv(bs_next s := l)) (ext(bs_next s := 1)) (with_node new_bit_node s)"
    "live (with_node new_bit_node s) Z = insert (bs_next s) (live s Z)"
proof -
  let ?n = "bs_next s" and ?s = "with_node new_bit_node s" and ?lv = "lv(bs_next s := l)" and ?e = "ext(bs_next s := 1)"
  note f = fresh_holders [OF inv le_refl] and ids = inv_ids [OF inv]
  show live: "live ?s Z = insert ?n (live s Z)" using Z by (auto simp: live_def)
  have h: "holders ?s Z q = holders s Z q" if "q \<noteq> 0" for q
  proof -
    have "(m, i) \<in> holders ?s Z q \<longleftrightarrow> (m, i) \<in> holders s Z q" for m i
      using f(3) that by (cases "i < 32"; cases "m = ?n") (auto simp: holders_def live new_node_ptr)
    then show ?thesis by auto
  qed
  have one: "length (pointers b) = 32 \<and> 0 < ?lv m \<and> ?lv m \<le> L \<and> (\<forall>j < 32. bit (present_bits b) j \<longleftrightarrow> pointers b ! j \<noteq> 0)"
    if "m \<notin> Z" "bs_nodes ?s m = Some b" for m b
    using that l inv_shape(1-4) [OF inv that(1)] by (auto simp: new_bit_node_def split: if_splits)
  have two: "if ?lv m = 1 then ptr ?s m j \<in> dom (bs_items ?s) else ptr ?s m j \<in> live ?s Z \<and> ?lv (ptr ?s m j) = ?lv m - 1"
    if m: "m \<in> live ?s Z" "j < 32" "ptr ?s m j \<noteq> 0" for m j
  proof -
    have e: "m \<noteq> ?n" "ptr ?s m j = ptr s m j" "ptr s m j \<noteq> 0" using m(3) new_node_ptr [OF m(2), of s m] by (auto split: if_splits)
    then have "m \<in> live s Z" using m(1) live by simp
    note c = inv_child [OF inv this m(2) e(3)]
    show ?thesis unfolding live using c e f(3) by (cases "lv m = 1") auto
  qed
  have three: "unat (node_refs b) = card (holders ?s Z m) + ?e m \<and> 0 < node_refs b"
    if m: "m \<notin> Z" "bs_nodes ?s m = Some b" for m b
  proof -
    have "m \<noteq> 0" using m(2) ids(6) items_zero(2) [OF ids(5)] by (cases "m = 0") (auto split: if_splits)
    then show ?thesis using h [of m] f(1) inv_shape(5,6) [OF inv m(1), of b] m(2) by (auto simp: new_bit_node_def split: if_splits)
  qed
  have four: "card (holders ?s Z p) + ?e p = 1" if "p \<in> dom (bs_items ?s)" for p
    using inv_items(1) [OF inv, of p] h [of p] ids(1) [of p] f(4) that by auto
  have five: "p \<in> live ?s Z \<union> dom (bs_items ?s)" if "?e p \<noteq> 0" for p
    unfolding live using inv_items(2) [OF inv, of p] that by (auto split: if_splits)
  have ok: "ids_ok ?s" using ids(5) f(4-6) unfolding ids_ok_def by auto
  show "bt_inv L Z ?lv ?e ?s" by (rule bt_invI [OF one two three four five]) (assumption | rule ok)+
qed

definition with_item :: "'a \<Rightarrow> 'a bit_store \<Rightarrow> 'a bit_store" where
  "with_item x s = snd (alloc_item x s)"

lemma with_item_fields [simp]:
  "bs_items (with_item x s) = (bs_items s)(bs_next s \<mapsto> x)" "bs_freed (with_item x s) = bs_freed s"
  "bs_next (with_item x s) = Suc (bs_next s)" "bs_nodes (with_item x s) = bs_nodes s"
  "live (with_item x s) Z = live s Z" "ptr (with_item x s) n i = ptr s n i" "holders (with_item x s) Z q = holders s Z q"
  "few_nodes j (with_item x s) = few_nodes j s"
  by (simp_all add: with_item_def alloc_item_def live_def ptr_def holders_def few_nodes_def)

lemma new_item_inv:
  assumes inv: "bt_inv L Z lv ext s"
  shows "bt_inv L Z lv (ext(bs_next s := 1)) (with_item x s)"
proof -
  note f = fresh_holders [OF inv le_refl] and ids = inv_ids [OF inv]
  have ne: "m \<noteq> bs_next s" if "bs_nodes s m = Some b" for m b using f(5) that by auto
  have "shaped L Z lv (with_item x s)" using inv unfolding bt_inv_def shaped_def by auto
  moreover have "counted_refs Z (ext(bs_next s := 1)) (with_item x s)"
    using inv f(1,4) ne unfolding bt_inv_def counted_refs_def by (auto split: if_splits)
  moreover have "ids_ok (with_item x s)" using ids(5) f(4-6) unfolding ids_ok_def by auto
  ultimately show ?thesis by (simp add: bt_inv_def)
qed

text \<open>All slots of a new node are filled with references that were held outside.\<close>

definition fill_node :: "nat \<Rightarrow> u32 \<Rightarrow> nat list \<Rightarrow> 'a bit_store \<Rightarrow> 'a bit_store" where
  "fill_node n bits qs s = s\<lparr>bs_nodes := (bs_nodes s)(n := map_option (\<lambda>b. b\<lparr>present_bits := bits, pointers := qs\<rparr>) (bs_nodes s n))\<rparr>"

lemma fill_node_fields [simp]:
  "bs_items (fill_node n bits qs s) = bs_items s" "bs_freed (fill_node n bits qs s) = bs_freed s" "bs_next (fill_node n bits qs s) = bs_next s"
  "dom (bs_nodes (fill_node n bits qs s)) = dom (bs_nodes s)" "live (fill_node n bits qs s) Z = live s Z"
  "ids_ok (fill_node n bits qs s) = ids_ok s" "few_nodes j (fill_node n bits qs s) = few_nodes j s"
proof -
  show d: "dom (bs_nodes (fill_node n bits qs s)) = dom (bs_nodes s)" by (auto simp: fill_node_def dom_def)
  show i: "bs_items (fill_node n bits qs s) = bs_items s" "bs_freed (fill_node n bits qs s) = bs_freed s" "bs_next (fill_node n bits qs s) = bs_next s"
    by (simp_all add: fill_node_def)
  show "live (fill_node n bits qs s) Z = live s Z" "ids_ok (fill_node n bits qs s) = ids_ok s" "few_nodes j (fill_node n bits qs s) = few_nodes j s"
    by (simp_all add: live_def ids_ok_def few_nodes_def d i)
qed

lemma ptr_fill_node: "bs_nodes s n = Some b \<Longrightarrow> ptr (fill_node n bits qs s) m j = (if m = n then qs ! j else ptr s m j)"
  by (simp add: ptr_def fill_node_def)

lemma count_slots: "count_list qs q = card {i. i < length qs \<and> qs ! i = q}"
  by (simp add: count_list_eq_length_filter length_filter_conv_card eq_commute)

lemma fill_node_inv:
  assumes inv: "bt_inv L Z lv ext s" and n: "n \<in> live s Z" "\<And>j. j < 32 \<Longrightarrow> ptr s n j = 0"
    and qs: "length qs = 32" "\<And>j. j < 32 \<Longrightarrow> at_level s Z lv (lv n - 1) (qs ! j)" "\<And>j. j < 32 \<Longrightarrow> bit bits j \<longleftrightarrow> qs ! j \<noteq> 0"
    and ext': "\<And>q. q \<noteq> 0 \<Longrightarrow> ext' q + count_list qs q = ext q" "ext' 0 = 0"
  shows "bt_inv L Z lv ext' (fill_node n bits qs s)"
proof -
  let ?s = "fill_node n bits qs s"
  obtain b where b: "n \<notin> Z" "bs_nodes s n = Some b" using n(1) by (auto simp: live_node)
  note sh = inv_shape [OF inv b] and p = ptr_fill_node [OF b(2), of bits qs] and ids = inv_ids [OF inv]
  have nodes: "bs_nodes ?s m = (if m = n then Some (b\<lparr>present_bits := bits, pointers := qs\<rparr>) else bs_nodes s m)" for m
    using b(2) by (simp add: fill_node_def)
  have sum: "card (holders ?s Z q) + ext' q = card (holders s Z q) + ext q" if q: "q \<noteq> 0" for q
  proof -
    have "(n, i) \<notin> holders s Z q" for i using n(2) [of i] q by (auto simp: holders_def)
    then have disj: "holders s Z q \<inter> Pair n ` {i. i < length qs \<and> qs ! i = q} = {}" by auto
    have "(m, i) \<in> holders ?s Z q \<longleftrightarrow> (m, i) \<in> holders s Z q \<union> Pair n ` {i. i < length qs \<and> qs ! i = q}" for m i
      using p n q qs(1) n(2) [of i] by (cases "m = n"; cases "i < 32") (auto simp: holders_def)
    then have "holders ?s Z q = holders s Z q \<union> Pair n ` {i. i < length qs \<and> qs ! i = q}" by auto
    then have "card (holders ?s Z q) = card (holders s Z q) + card (Pair n ` {i. i < length qs \<and> qs ! i = q})"
      using card_Un_disjoint [OF finite_store(3) [OF ids(5)] _ disj] by simp
    also have "card (Pair n ` {i. i < length qs \<and> qs ! i = q}) = count_list qs q"
      unfolding count_slots by (rule card_image) (simp add: inj_on_def)
    finally show ?thesis using ext'(1) [OF q] by simp
  qed
  have one: "length (pointers b') = 32 \<and> 0 < lv m \<and> lv m \<le> L \<and> (\<forall>j < 32. bit (present_bits b') j \<longleftrightarrow> pointers b' ! j \<noteq> 0)"
    if "m \<notin> Z" "bs_nodes ?s m = Some b'" for m b'
    using that nodes [of m] sh qs inv_shape(1-4) [OF inv that(1)] by (auto split: if_splits)
  have two: "if lv m = 1 then ptr ?s m j \<in> dom (bs_items ?s) else ptr ?s m j \<in> live ?s Z \<and> lv (ptr ?s m j) = lv m - 1"
    if m: "m \<in> live ?s Z" "j < 32" "ptr ?s m j \<noteq> 0" for m j
    unfolding fill_node_fields using m [unfolded fill_node_fields] inv_child [OF inv m(1) [unfolded fill_node_fields] m(2)] qs(2) [OF m(2)] p [of m j] sh(2) by (cases "m = n") (auto simp: at_level_def split: if_splits)
  have three: "unat (node_refs b') = card (holders ?s Z m) + ext' m \<and> 0 < node_refs b'" if m: "m \<notin> Z" "bs_nodes ?s m = Some b'" for m b'
  proof -
    have m0: "m \<noteq> 0" using ids(1) [of m] m(2) nodes [of m] b(2) by (auto split: if_splits)
    obtain b0 where b0: "bs_nodes s m = Some b0" "node_refs b' = node_refs b0" using m(2) nodes [of m] b(2) by (auto split: if_splits)
    show ?thesis using inv_shape(5,6) [OF inv m(1) b0(1)] b0(2) sum [OF m0] by simp
  qed
  have four: "card (holders ?s Z r) + ext' r = 1" if "r \<in> dom (bs_items ?s)" for r
    using sum [of r] inv_items(1) [OF inv, of r] ids(1) [of r] that by auto
  have five: "r \<in> live ?s Z \<union> dom (bs_items ?s)" if "ext' r \<noteq> 0" for r
    unfolding fill_node_fields using inv_items(2) [OF inv, of r] ext'(1) [of r] ext'(2) that by (cases "r = 0") auto
  show ?thesis by (rule bt_invI [OF one two three four five]) (simp_all add: ids(5))
qed

text \<open>What is held only from outside can go: an item, and a node whose references are then held outside.\<close>

lemma delete_item_inv:
  assumes inv: "bt_inv L Z lv ext s" and p: "p \<in> dom (bs_items s)" "0 < ext p"
  shows "bt_inv L Z lv (ext(p := 0)) (s\<lparr>bs_items := (bs_items s)(p := None)\<rparr>)" "ext p = 1"
proof -
  note ids = inv_ids [OF inv]
  have c: "card (holders s Z p) = 0" "ext p = 1" using inv_items(1) [OF inv p(1)] p(2) by simp_all
  then show "ext p = 1" by simp
  have h: "holders s Z p = {}" using c(1) finite_store(3) [OF ids(5)] by simp
  then have np: "ptr s m j \<noteq> p" if "m \<in> live s Z" "j < 32" for m j using that by (auto simp: holders_def)
  let ?s = "s\<lparr>bs_items := (bs_items s)(p := None)\<rparr>"
  have f [simp]: "live ?s Z = live s Z" "ptr ?s m j = ptr s m j" "holders ?s Z q = holders s Z q" for m j q
    by (simp_all add: live_def ptr_def holders_def)
  have pn: "p \<notin> dom (bs_nodes s)" using p(1) ids(2) by auto
  show "bt_inv L Z lv (ext(p := 0)) ?s"
  proof (rule bt_invI)
    fix m j assume m: "m \<in> live ?s Z" "j < 32" "ptr ?s m j \<noteq> 0"
    then show "if lv m = 1 then ptr ?s m j \<in> dom (bs_items ?s) else ptr ?s m j \<in> live ?s Z \<and> lv (ptr ?s m j) = lv m - 1"
      using inv_child [OF inv, of m j] np [of m j] by auto
  next
    fix m b assume "m \<notin> Z" "bs_nodes ?s m = Some b"
    then show "unat (node_refs b) = card (holders ?s Z m) + (ext(p := 0)) m \<and> 0 < node_refs b"
      using inv_shape(5,6) [OF inv, of m b] pn by auto
  next
    show "ids_ok ?s" using ids(5) unfolding ids_ok_def by auto
  qed (use inv_shape(1-4) [OF inv] inv_items [OF inv] in \<open>auto split: if_splits\<close>)
qed

definition retired :: "nat \<Rightarrow> 'a bit_store \<Rightarrow> 'a bit_store" where
  "retired n s = s\<lparr>bs_nodes := (bs_nodes s)(n := map_option (\<lambda>b. b\<lparr>node_refs := 0\<rparr>) (bs_nodes s n))\<rparr>"

lemma retired_fields [simp]:
  "bs_items (retired n s) = bs_items s" "bs_freed (retired n s) = bs_freed s" "bs_next (retired n s) = bs_next s"
  "dom (bs_nodes (retired n s)) = dom (bs_nodes s)" "ptr (retired n s) m j = ptr s m j" "ids_ok (retired n s) = ids_ok s"
proof -
  show d: "dom (bs_nodes (retired n s)) = dom (bs_nodes s)" by (auto simp: retired_def dom_def)
  show i: "bs_items (retired n s) = bs_items s" "bs_freed (retired n s) = bs_freed s" "bs_next (retired n s) = bs_next s"
    by (simp_all add: retired_def)
  show "ids_ok (retired n s) = ids_ok s" by (simp add: ids_ok_def d i)
  show "ptr (retired n s) m j = ptr s m j" by (simp add: ptr_def retired_def split: option.splits)
qed

lemma retire_inv:
  assumes inv: "bt_inv L Z lv ext s" and n: "n \<notin> Z" "bs_nodes s n = Some b" "node_refs b = 1" "0 < ext n"
  shows "bt_inv L (insert n Z) lv (\<lambda>q. if q = 0 \<or> q = n then 0 else ext q + count_list (pointers b) q) (retired n s)"
proof -
  let ?s = "retired n s" and ?e = "\<lambda>q. if q = 0 \<or> q = n then 0 else ext q + count_list (pointers b) q"
  note ids = inv_ids [OF inv] and sh = inv_shape [OF inv n(1,2)]
  have "card (holders s Z n) = 0" using sh(5) n(3,4) by simp
  then have hn: "holders s Z n = {}" using finite_store(3) [OF ids(5), of Z n] by simp
  then have np: "ptr s m j \<noteq> n" if "m \<in> live s Z" "j < 32" for m j using that by (auto simp: holders_def)
  have live: "live ?s (insert n Z) = live s Z - {n}" by (auto simp: live_def)
  have sum: "card (holders ?s (insert n Z) q) + ?e q = card (holders s Z q) + ext q" if q: "q \<noteq> 0" "q \<noteq> n" for q
  proof -
    have "holders s Z q = holders ?s (insert n Z) q \<union> Pair n ` {i. i < length (pointers b) \<and> pointers b ! i = q}"
    proof -
      have "ptr s n j = pointers b ! j" for j using n(2) by (simp add: ptr_def)
      then show ?thesis using sh(1,7) unfolding holders_def live by auto
    qed
    moreover have "holders ?s (insert n Z) q \<inter> Pair n ` {i. i < length (pointers b) \<and> pointers b ! i = q} = {}"
      unfolding holders_def live by auto
    moreover have "finite (holders ?s (insert n Z) q)" by (rule finite_store(3)) (simp add: ids(5))
    moreover have "finite (Pair n ` {i. i < length (pointers b) \<and> pointers b ! i = q})" by simp
    ultimately have "card (holders s Z q) = card (holders ?s (insert n Z) q) + card (Pair n ` {i. i < length (pointers b) \<and> pointers b ! i = q})"
      using card_Un_disjoint by metis
    also have "card (Pair n ` {i. i < length (pointers b) \<and> pointers b ! i = q}) = count_list (pointers b) q"
      unfolding count_slots by (rule card_image) (simp add: inj_on_def)
    finally show ?thesis using q by simp
  qed
  have old: "bs_nodes ?s m = Some b' \<Longrightarrow> m \<notin> insert n Z \<Longrightarrow> bs_nodes s m = Some b'" for m b' by (auto simp: retired_def)
  show ?thesis
  proof (rule bt_invI)
    fix m b' assume m: "m \<notin> insert n Z" "bs_nodes ?s m = Some b'"
    then have m': "m \<notin> Z" "bs_nodes s m = Some b'" "m \<noteq> n" using old by auto
    then have "m \<noteq> 0" using ids(1) [of m] by auto
    then show "unat (node_refs b') = card (holders ?s (insert n Z) m) + ?e m \<and> 0 < node_refs b'"
      using inv_shape(5,6) [OF inv m'(1,2)] sum [of m] m'(3) by linarith
    show "length (pointers b') = 32 \<and> 0 < lv m \<and> lv m \<le> L \<and> (\<forall>j < 32. bit (present_bits b') j \<longleftrightarrow> pointers b' ! j \<noteq> 0)"
      using inv_shape(1-4) [OF inv m'(1,2)] by simp
  next
    fix m j assume m: "m \<in> live ?s (insert n Z)" "j < 32" "ptr ?s m j \<noteq> 0"
    then have m': "m \<in> live s Z" "ptr s m j \<noteq> 0" by (simp_all add: live)
    show "if lv m = 1 then ptr ?s m j \<in> dom (bs_items ?s) else ptr ?s m j \<in> live ?s (insert n Z) \<and> lv (ptr ?s m j) = lv m - 1"
      unfolding live using inv_child [OF inv m'(1) m(2) m'(2)] np [OF m'(1) m(2)] by simp
  next
    fix p assume p: "p \<in> dom (bs_items ?s)"
    then have "p \<noteq> 0" "p \<noteq> n" using ids(1) [of p] ids(2) n(2) by auto
    then show "card (holders ?s (insert n Z) p) + ?e p = 1" using sum [of p] inv_items(1) [OF inv, of p] p by simp
  next
    fix q assume q: "?e q \<noteq> 0"
    then have q': "q \<noteq> 0" "q \<noteq> n" by (auto split: if_splits)
    show "q \<in> live ?s (insert n Z) \<union> dom (bs_items ?s)"
    proof (cases "ext q = 0")
      case True
      then have "q \<in> set (pointers b)" using q q' count_notin by fastforce
      then obtain i where i: "i < 32" "ptr s n i = q" using sh(1) n(2) by (auto simp: in_set_conv_nth ptr_def)
      show ?thesis unfolding live using inv_child [OF inv sh(7) i(1)] i(2) q' by (cases "lv n = 1") auto
    next
      case False
      then show ?thesis unfolding live using inv_items(2) [OF inv, of q] q' by auto
    qed
  next
    show "ids_ok ?s" by (simp add: ids(5))
  qed
qed

lemma delete_bit_node_inv:
  assumes inv: "bt_inv L (insert n Z) lv ext s" and n: "n \<notin> Z" "bs_nodes s n = Some b"
  shows "\<exists>s'. delete_bit_node n s = Inr s' \<and> bt_inv L Z lv ext s' \<and> bs_nodes s' = (bs_nodes s)(n := None)
    \<and> bs_items s' = bs_items s \<and> bs_next s' = bs_next s \<and> bs_freed s' = (bs_freed s)(n \<mapsto> b)"
proof -
  let ?s = "s\<lparr>bs_nodes := (bs_nodes s)(n := None), bs_freed := (bs_freed s)(n \<mapsto> b)\<rparr>"
  note ids = inv_ids [OF inv]
  have live: "live ?s Z = live s (insert n Z)" by (auto simp: live_def)
  have p: "ptr ?s m j = ptr s m j" if "m \<in> live s (insert n Z)" for m j using that by (auto simp: ptr_def live_def)
  have h: "holders ?s Z q = holders s (insert n Z) q" for q using p unfolding holders_def live by auto
  have "bt_inv L Z lv ext ?s"
  proof (rule bt_invI)
    fix m b' assume m: "m \<notin> Z" "bs_nodes ?s m = Some b'"
    then have m': "m \<notin> insert n Z" "bs_nodes s m = Some b'" by (auto split: if_splits)
    show "length (pointers b') = 32 \<and> 0 < lv m \<and> lv m \<le> L \<and> (\<forall>j < 32. bit (present_bits b') j \<longleftrightarrow> pointers b' ! j \<noteq> 0)"
      "unat (node_refs b') = card (holders ?s Z m) + ext m \<and> 0 < node_refs b'"
      using inv_shape(1-6) [OF inv m'] unfolding h by simp_all
  next
    fix m j assume m: "m \<in> live ?s Z" "j < 32" "ptr ?s m j \<noteq> 0"
    then show "if lv m = 1 then ptr ?s m j \<in> dom (bs_items ?s) else ptr ?s m j \<in> live ?s Z \<and> lv (ptr ?s m j) = lv m - 1"
      unfolding live using inv_child [OF inv, of m j] p [of m j] by simp
  next
    show "ids_ok ?s" using ids(5) n(2) unfolding ids_ok_def by auto
  qed (use inv_items [OF inv] in \<open>simp_all add: h live\<close>)
  then show ?thesis using n(2) by (simp add: delete_bit_node_def node_at_def)
qed

section \<open>Releasing references\<close>

text \<open>Releasing leaves what remains as it was.\<close>

definition remains :: "'a bit_store \<Rightarrow> 'a bit_store \<Rightarrow> bool" where
  "remains s s' \<longleftrightarrow> (\<forall>m b'. bs_nodes s' m = Some b' \<longrightarrow> (\<exists>b. bs_nodes s m = Some b \<and> pointers b' = pointers b \<and> present_bits b' = present_bits b))
     \<and> (\<forall>p x. bs_items s' p = Some x \<longrightarrow> bs_items s p = Some x) \<and> bs_next s' = bs_next s"

lemma remains_refl: "remains s s"
  by (auto simp: remains_def)

lemma remains_trans:
  assumes "remains s s'" "remains s' s''"
  shows "remains s s''"
  unfolding remains_def
proof (intro conjI allI impI)
  fix m b'' assume "bs_nodes s'' m = Some b''"
  then obtain b' where "bs_nodes s' m = Some b'" "pointers b'' = pointers b'" "present_bits b'' = present_bits b'"
    using assms(2) unfolding remains_def by blast
  moreover from this obtain b where "bs_nodes s m = Some b" "pointers b' = pointers b" "present_bits b' = present_bits b"
    using assms(1) unfolding remains_def by blast
  ultimately show "\<exists>b. bs_nodes s m = Some b \<and> pointers b'' = pointers b \<and> present_bits b'' = present_bits b" by simp
next
  show "bs_next s'' = bs_next s" using assms by (simp add: remains_def)
  fix p x assume "bs_items s'' p = Some x"
  then show "bs_items s p = Some x" using assms unfolding remains_def by blast
qed

lemma remains_add_refs: "remains s (add_refs f s)"
  by (auto simp: remains_def add_refs_def)

lemma remains_retired: "remains s (retired n s)"
  by (auto simp: remains_def retired_def split: if_splits)

lemma remains_val:
  assumes inv: "bt_inv L Z lv ext s'" and z: "ids_ok s" and r: "remains s s'" and q: "at_level s' Z lv l q"
  shows "val s' l q k = val s l q k"
proof (rule val_sim [where \<rho> = "\<lambda>l q' q. q' = q \<and> at_level s' Z lv l q"])
  fix l q' q i assume q: "q' = q \<and> at_level s' Z lv (Suc l) q" and i: "i < (32 :: nat)"
  have "ptr s' q i = ptr s q i"
  proof (cases "q = 0")
    case True
    then show ?thesis using items_zero(2) [OF z] items_zero(2) [OF inv_ids(5) [OF inv]] by (simp add: ptr_def)
  next
    case False
    then obtain b' where "bs_nodes s' q = Some b'" using q by (auto simp: at_level_def live_node)
    then show ?thesis using r unfolding remains_def ptr_def by fastforce
  qed
  then show "ptr s' q' i = ptr s q i \<and> at_level s' Z lv l (ptr s q i)" using child_level [OF inv _ i, of l q] q by simp
next
  fix q' q assume q: "q' = q \<and> at_level s' Z lv 0 q"
  show "bs_items s' q' = bs_items s q"
  proof (cases "q = 0")
    case True
    then show ?thesis using q items_zero(1) [OF z] items_zero(1) [OF inv_ids(5) [OF inv]] by simp
  next
    case False
    then obtain x where "bs_items s' q = Some x" using q by (auto simp: at_level_def)
    then show ?thesis using q r unfolding remains_def by fastforce
  qed
qed (use q in simp)

definition keeps :: "nat set \<Rightarrow> 'a bit_store \<Rightarrow> 'a bit_store \<Rightarrow> bool" where
  "keeps Z s s' \<longleftrightarrow> remains s s' \<and> (\<forall>m \<in> Z. bs_nodes s' m = bs_nodes s m)"

lemma keeps_refl: "keeps Z s s"
  by (simp add: keeps_def remains_refl)

lemma keeps_chain: "keeps Z s s' \<Longrightarrow> keeps Z s' s'' \<Longrightarrow> keeps Z s s''"
  using remains_trans by (auto simp: keeps_def)

lemma keeps_remains: "keeps Z s s' \<Longrightarrow> remains s s'"
  by (simp add: keeps_def)

definition released ::
    "nat \<Rightarrow> nat set \<Rightarrow> (nat \<Rightarrow> nat) \<Rightarrow> (nat \<Rightarrow> nat) \<Rightarrow> nat \<Rightarrow> bool \<Rightarrow> 'a bit_store \<Rightarrow> 'a bit_store \<Rightarrow> bool" where
  "released L Z lv ext n z s s' \<longleftrightarrow> keeps Z s s' \<and>
     (if z then bt_inv L (insert n Z) lv (ext(n := 0)) s' \<and> n \<in> dom (bs_nodes s') \<and> ext n = 1
      else bt_inv L Z lv (ext(n := ext n - 1)) s')"

lemma dec_refs: "bs_nodes s n = Some b \<Longrightarrow> put_node n (b\<lparr>node_refs := node_refs b - 1\<rparr>) s = add_refs ((\<lambda>_. 0)(n := - 1)) s"
  by (auto simp: put_node_def add_refs_def fun_eq_iff option.map_id [unfolded id_def])

lemma release_list:
  assumes f: "\<And>c s e. bt_inv L Z lv e s \<Longrightarrow> remains s0 s \<Longrightarrow> c \<noteq> 0 \<Longrightarrow> c \<in> C \<Longrightarrow> 0 < e c \<Longrightarrow>
      \<exists>s'. f c s = Inr s' \<and> bt_inv L Z lv (e(c := e c - 1)) s' \<and> keeps Z s s'" "\<And>s. f 0 s = Inr s"
  shows "bt_inv L Z lv e s \<Longrightarrow> remains s0 s \<Longrightarrow> set ps \<subseteq> insert 0 C \<Longrightarrow> (\<And>q. q \<noteq> 0 \<Longrightarrow> count_list ps q \<le> e q) \<Longrightarrow>
    \<exists>s'. for_each f ps s = Inr s' \<and> bt_inv L Z lv (\<lambda>q. if q = 0 then e q else e q - count_list ps q) s' \<and> keeps Z s s'"
proof (induction ps arbitrary: s e)
  case Nil
  have "(\<lambda>q. if q = 0 then e q else e q - count_list [] q) = e" by (auto simp: fun_eq_iff)
  then show ?case using Nil.prems(1) keeps_refl by simp
next
  case (Cons c ps)
  show ?case
  proof (cases "c = 0")
    case True
    have "(\<lambda>q. if q = 0 then e q else e q - count_list (c # ps) q) = (\<lambda>q. if q = 0 then e q else e q - count_list ps q)"
      using True by (auto simp: fun_eq_iff)
    moreover have "count_list ps q \<le> e q" if "q \<noteq> 0" for q using Cons.prems(4) [OF that] True that by simp
    ultimately show ?thesis using Cons.IH [OF Cons.prems(1,2)] Cons.prems(3) f(2) True by simp
  next
    case False
    have e: "0 < e c" "c \<in> C" using Cons.prems(4) [of c] Cons.prems(3) False by auto
    obtain s1 where one: "f c s = Inr s1" "bt_inv L Z lv (e(c := e c - 1)) s1" "keeps Z s s1"
      using f(1) [OF Cons.prems(1,2) False e(2,1)] by blast
    have le: "count_list ps q \<le> (e(c := e c - 1)) q" if "q \<noteq> 0" for q using Cons.prems(4) [OF that] e(1) by (auto split: if_splits)
    obtain s' where rest: "for_each f ps s1 = Inr s'"
        "bt_inv L Z lv (\<lambda>q. if q = 0 then (e(c := e c - 1)) q else (e(c := e c - 1)) q - count_list ps q) s'" "keeps Z s1 s'"
      using Cons.IH [OF one(2) remains_trans [OF Cons.prems(2) keeps_remains [OF one(3)]] _ le] Cons.prems(3) by auto
    have "(\<lambda>q. if q = 0 then (e(c := e c - 1)) q else (e(c := e c - 1)) q - count_list ps q)
        = (\<lambda>q. if q = 0 then e q else e q - count_list (c # ps) q)" using False by (auto simp: fun_eq_iff)
    then show ?thesis using one(1) rest keeps_chain [OF one(3) rest(3)] by simp
  qed
qed

lemma remains_dom:
  assumes "remains s s'"
  shows "dom (bs_nodes s') \<subseteq> dom (bs_nodes s)" "dom (bs_items s') \<subseteq> dom (bs_items s)"
  using assms unfolding remains_def by blast+

lemma release_item:
  assumes inv: "bt_inv L Z lv e s1" and r: "remains s s1" "ids_ok s" and c: "c \<in> dom (bs_items s)" "0 < e c"
  shows "\<exists>s2. delete_item c s1 = Inr s2 \<and> bt_inv L Z lv (e(c := e c - 1)) s2 \<and> keeps Z s1 s2"
proof -
  have "c \<notin> dom (bs_nodes s1)" using c(1) remains_dom(1) [OF r(1)] r(2) unfolding ids_ok_def by blast
  then have "c \<in> dom (bs_items s1)" using inv_items(2) [OF inv, of c] c(2) by (auto simp: live_def)
  note d = delete_item_inv [OF inv this c(2)]
  have "keeps Z s1 (s1\<lparr>bs_items := (bs_items s1)(c := None)\<rparr>)" by (auto simp: keeps_def remains_def)
  moreover have "bt_inv L Z lv (e(c := e c - 1)) (s1\<lparr>bs_items := (bs_items s1)(c := None)\<rparr>)" using d by simp
  ultimately show ?thesis using \<open>c \<in> dom (bs_items s1)\<close> by (auto simp: delete_item_def)
qed

text \<open>A child is released, and deleted if that was its last reference.\<close>

lemma release_node:
  assumes inv: "bt_inv L Z lv e s1" and c: "c \<notin> Z" and r: "node_free l True c s1 = Inr (z, s2)" "released L Z lv e c z s1 s2"
  shows "\<exists>s3. (if z then delete_bit_node c s2 else Inr s2) = Inr s3 \<and> bt_inv L Z lv (e(c := e c - 1)) s3 \<and> keeps Z s1 s3"
proof (cases z)
  case True
  then have k: "bt_inv L (insert c Z) lv (e(c := 0)) s2" "c \<in> dom (bs_nodes s2)" "e c = 1" "keeps Z s1 s2"
    using r(2) by (simp_all add: released_def)
  obtain b where "bs_nodes s2 c = Some b" using k(2) by blast
  from delete_bit_node_inv [OF k(1) c this] obtain s3 where d: "delete_bit_node c s2 = Inr s3" "bt_inv L Z lv (e(c := 0)) s3"
      "bs_nodes s3 = (bs_nodes s2)(c := None)" "bs_items s3 = bs_items s2" "bs_next s3 = bs_next s2" by blast
  have "keeps Z s2 s3" using d(3-5) c by (auto simp: keeps_def remains_def split: if_splits)
  then show ?thesis using True d(1,2) k(3) keeps_chain [OF k(4)] by simp
qed (use r in \<open>simp add: released_def\<close>)

lemma node_free_ok:
  "bt_inv L Z lv ext s \<Longrightarrow> n \<in> live s Z \<Longrightarrow> lv n = l \<Longrightarrow> 0 < ext n \<Longrightarrow>
    \<exists>z s'. node_free l True n s = Inr (z, s') \<and> released L Z lv ext n z s s'"
proof (induction l arbitrary: Z ext s n)
  case 0
  then show ?case using inv_live(3) [OF 0(1,2)] by simp
next
  case (Suc l)
  note inv = Suc.prems(1)
  obtain b where b: "n \<notin> Z" "bs_nodes s n = Some b" using Suc.prems(2) by (auto simp: live_node)
  note sh = inv_shape [OF inv b] and ids = inv_ids [OF inv]
  let ?s = "add_refs ((\<lambda>_. 0)(n := - 1)) s"
  show ?case
  proof (cases "node_refs b - 1 > 0")
    case True
    then have "1 < node_refs b" using sh(6) by unat_arith
    from drop_ref [OF inv b this Suc.prems(4)] have "released L Z lv ext n False s ?s"
      using b(1) remains_add_refs [of s] by (auto simp: released_def keeps_def add_refs_def option.map_id [unfolded id_def])
    moreover have "node_free (Suc l) True n s = Inr (False, ?s)" using True b(2) dec_refs [OF b(2)] by (simp add: node_at_def Let_def)
    ultimately show ?thesis by blast
  next
    case False
    then have r1: "node_refs b = 1" using sh(6) by (simp add: word_gt_0)
    have s0: "put_node n (b\<lparr>node_refs := node_refs b - 1\<rparr>) s = retired n s" using b(2) r1 by (simp add: put_node_def retired_def)
    let ?Z = "insert n Z" and ?e = "\<lambda>q. if q = 0 \<or> q = n then 0 else ext q + count_list (pointers b) q"
    let ?f = "\<lambda>c s. if c = 0 then Inr s else if l = 0 then (if True then delete_item c s else Inr s)
        else bind_ok (node_free l True c s) (\<lambda>(last, s). if last then delete_bit_node c s else Inr s)"
    let ?C = "if l = 0 then dom (bs_items s) else {c. c \<notin> dom (bs_items s) \<and> c \<notin> ?Z \<and> lv c = l}"
    have en: "ext n = 1" using sh(5) r1 Suc.prems(4) by simp
    have i1: "bt_inv L ?Z lv ?e (retired n s)" by (rule retire_inv [OF inv b r1 Suc.prems(4)])
    have ptrs: "ptr s n j = pointers b ! j" for j using b(2) by (simp add: ptr_def)
    have "card (holders s Z n) = 0" using sh(5) r1 en by simp
    then have "holders s Z n = {}" using finite_store(3) [OF ids(5)] by simp
    then have nn: "count_list (pointers b) n = 0" using sh(1,7) ptrs unfolding count_slots holders_def by auto
    have C: "set (pointers b) \<subseteq> insert 0 ?C"
    proof
      fix c assume "c \<in> set (pointers b)"
      then obtain j where j: "j < 32" "ptr s n j = c" using sh(1) ptrs by (auto simp: in_set_conv_nth)
      have "c \<noteq> n" if "c \<noteq> 0" using nn \<open>c \<in> set (pointers b)\<close> count_list_0_iff by metis
      then show "c \<in> insert 0 ?C"
        using inv_child [OF inv sh(7) j(1)] j(2) Suc.prems(3) ids(2) by (cases "c = 0"; cases "l = 0") (auto simp: live_def)
    qed
    have step: "\<exists>s2. ?f c s1 = Inr s2 \<and> bt_inv L ?Z lv (e(c := e c - 1)) s2 \<and> keeps ?Z s1 s2"
      if r: "bt_inv L ?Z lv e s1" "remains s s1" "c \<noteq> 0" "c \<in> ?C" "0 < e c" for c s1 e
    proof (cases "l = 0")
      case True
      then show ?thesis using release_item [OF r(1,2) ids(5) _ r(5)] r(3,4) by simp
    next
      case False
      then have c: "c \<notin> dom (bs_items s)" "c \<notin> ?Z" "lv c = l" using r(4) by auto
      then have "c \<in> live s1 ?Z" using inv_items(2) [OF r(1), of c] r(5) remains_dom(2) [OF r(2)] by auto
      then obtain z s2 where k: "node_free l True c s1 = Inr (z, s2)" "released L ?Z lv e c z s1 s2"
        using Suc.IH [OF r(1) _ c(3) r(5)] by blast
      then show ?thesis using release_node [OF r(1) c(2) k] False r(3) by simp
    qed
    have le: "count_list (pointers b) q \<le> ?e q" if "q \<noteq> 0" for q using nn that by simp
    from release_list [where f = ?f and C = ?C, OF step _ i1 remains_retired C le]
    obtain s' where l: "for_each ?f (pointers b) (retired n s) = Inr s'"
        "bt_inv L ?Z lv (\<lambda>q. if q = 0 then ?e q else ?e q - count_list (pointers b) q) s'" "keeps ?Z (retired n s) s'" by auto
    have "keeps Z s s'" using l(3) remains_trans [OF remains_retired [of s n]] b(1) by (auto simp: keeps_def retired_def)
    moreover have "n \<in> dom (bs_nodes s')" using l(3) b(2) by (simp add: keeps_def retired_def domIff)
    moreover have "(\<lambda>q. if q = 0 then ?e q else ?e q - count_list (pointers b) q) = ext(n := 0)"
      using nn inv_items(2) [OF inv, of 0] ids(1) [of 0] by (auto simp: fun_eq_iff live_def)
    ultimately have "released L Z lv ext n True s s'" using l(2) en by (simp add: released_def)
    moreover have "node_free (Suc l) True n s = Inr (True, s')" using False b(2) l(1) s0 by (simp add: node_at_def Let_def)
    ultimately show ?thesis by blast
  qed
qed

section \<open>Copies of nodes\<close>

lemma add_refs_add: "add_refs f (add_refs g s) = add_refs (\<lambda>n. g n + f n) s"
  by (auto simp: add_refs_def fun_eq_iff option.map_comp comp_def add.assoc)

lemma add_refs_zero [simp]: "add_refs (\<lambda>_. 0) s = s"
  by (simp add: add_refs_def option.map_id [unfolded id_def])

lemma inc_refs: "bs_nodes s n = Some b \<Longrightarrow> put_node n (b\<lparr>node_refs := node_refs b + 1\<rparr>) s = add_refs ((\<lambda>_. 0)(n := 1)) s"
  by (auto simp: put_node_def add_refs_def fun_eq_iff option.map_id [unfolded id_def])

lemma add_refs_cong:
  assumes "\<And>n. n \<in> dom (bs_nodes s) \<Longrightarrow> f n = g n"
  shows "add_refs f s = add_refs g s"
proof -
  have "map_option (\<lambda>b. b\<lparr>node_refs := node_refs b + f n\<rparr>) (bs_nodes s n) = map_option (\<lambda>b. b\<lparr>node_refs := node_refs b + g n\<rparr>) (bs_nodes s n)" for n
    using assms [of n] by (cases "bs_nodes s n") (simp_all add: domI)
  then show ?thesis by (simp add: add_refs_def)
qed

lemma share_children:
  assumes "bs_nodes s 0 = None"
  shows "set ps \<subseteq> insert 0 (dom (bs_nodes s)) \<Longrightarrow> for_each share_child ps s = Inr (add_refs (\<lambda>n. of_nat (count_list ps n)) s)"
  using assms
proof (induction ps arbitrary: s)
  case (Cons c ps)
  show ?case
  proof (cases "c = 0")
    case True
    have "add_refs (\<lambda>n. of_nat (count_list ps n)) s = add_refs (\<lambda>n. of_nat (count_list (c # ps) n)) s"
    proof (rule add_refs_cong)
      fix n assume "n \<in> dom (bs_nodes s)"
      then have "n \<noteq> 0" using Cons.prems(2) by (cases "n = 0") auto
      then show "of_nat (count_list ps n) = (of_nat (count_list (c # ps) n) :: u32)" using True by simp
    qed
    then show ?thesis using True Cons by (simp add: share_child_def)
  next
    case False
    then obtain b where b: "bs_nodes s c = Some b" using Cons.prems(1) by auto
    let ?s = "add_refs ((\<lambda>_. 0)(c := 1)) s"
    have "bs_nodes ?s 0 = None" using Cons.prems(2) by (simp add: add_refs_def)
    moreover have "set ps \<subseteq> insert 0 (dom (bs_nodes ?s))" using Cons.prems(1) by simp
    ultimately have "for_each share_child ps ?s = Inr (add_refs (\<lambda>n. of_nat (count_list ps n)) ?s)" using Cons.IH by blast
    moreover have "(\<lambda>n. ((\<lambda>_. 0)(c := 1)) n + of_nat (count_list ps n)) = (\<lambda>n. of_nat (count_list (c # ps) n) :: u32)" by (auto simp: fun_eq_iff)
    moreover have "share_child c s = Inr ?s" using False b inc_refs [OF b] by (simp add: share_child_def node_at_def)
    ultimately show ?thesis by (simp add: add_refs_add)
  qed
qed simp

text \<open>A node of an inner level is copied: a new node with the same children, held from outside.\<close>

definition twin :: "nat \<Rightarrow> 'a bit_store \<Rightarrow> 'a bit_store" where
  "twin c s = (case bs_nodes s c of None \<Rightarrow> s | Some b \<Rightarrow>
     with_node \<lparr>node_refs = 1, present_bits = present_bits b, pointers = pointers b\<rparr> (add_refs (\<lambda>n. of_nat (count_list (pointers b) n)) s))"

lemma inner_pointers:
  assumes inv: "bt_inv L Z lv ext s" and c: "c \<notin> Z" "bs_nodes s c = Some b" "lv c \<noteq> 1"
  shows "set (pointers b) \<subseteq> insert 0 (live s Z)" "\<And>q. q \<in> set (pointers b) \<Longrightarrow> q \<noteq> 0 \<Longrightarrow> lv q = lv c - 1"
proof -
  note sh = inv_shape [OF inv c(1,2)]
  have "q = 0 \<or> q \<in> live s Z \<and> lv q = lv c - 1" if q: "q \<in> set (pointers b)" for q
  proof -
    obtain j where j: "j < 32" "ptr s c j = q" using q sh(1) c(2) by (auto simp: in_set_conv_nth ptr_def)
    then show ?thesis using inv_child(2) [OF inv sh(7) j(1)] c(3) by auto
  qed
  then show "set (pointers b) \<subseteq> insert 0 (live s Z)" "\<And>q. q \<in> set (pointers b) \<Longrightarrow> q \<noteq> 0 \<Longrightarrow> lv q = lv c - 1" by auto
qed

lemma copy_node_eq:
  assumes inv: "bt_inv L Z lv ext s" and c: "c \<notin> Z" "bs_nodes s c = Some b" "lv c \<noteq> 1"
  shows "copy_node c False s = Inr (bs_next s, twin c s)"
proof -
  have "set (pointers b) \<subseteq> insert 0 (dom (bs_nodes s))" using inner_pointers(1) [OF inv c] by (auto simp: live_def)
  from share_children [OF items_zero(2) [OF inv_ids(5) [OF inv]] this]
  show ?thesis using c(2) by (simp add: copy_node_def node_at_def twin_def with_node_def alloc_node_def)
qed

lemma ext_null: "bt_inv L Z lv ext s \<Longrightarrow> ext 0 = 0"
  using inv_items(2) [of L Z lv ext s 0] items_zero inv_ids(5) by (fastforce simp: live_def)

lemma twin_eq:
  assumes inv: "bt_inv L Z lv ext s" and c: "c \<notin> Z" "bs_nodes s c = Some b" "lv c \<noteq> 1"
  shows "twin c s = fill_node (bs_next s) (present_bits b) (pointers b)
    (add_refs (\<lambda>q. of_nat (if q = 0 then 0 else count_list (pointers b) q)) (with_node new_bit_node s))"
    "count_list (pointers b) (bs_next s) = 0"
proof -
  note ids = inv_ids [OF inv] and ip = inner_pointers [OF inv c]
  have fresh: "bs_next s \<notin> dom (bs_nodes s)" "bs_next s \<noteq> 0" using fresh_holders [OF inv le_refl] ids(6) by auto
  show nps: "count_list (pointers b) (bs_next s) = 0" using ip(1) fresh by (auto simp: live_def count_list_0_iff)
  have "q \<noteq> 0" if "bs_nodes s q = Some b'" for q b' using that items_zero(2) [OF ids(5)] by (cases "q = 0") auto
  then have e: "map_option (\<lambda>b'. b'\<lparr>node_refs := node_refs b' + of_nat (if q = 0 then 0 else count_list (pointers b) q)\<rparr>) (bs_nodes s q)
      = map_option (\<lambda>b'. b'\<lparr>node_refs := node_refs b' + of_nat (count_list (pointers b) q)\<rparr>) (bs_nodes s q)" for q
    by (cases "bs_nodes s q") auto
  show "twin c s = fill_node (bs_next s) (present_bits b) (pointers b)
    (add_refs (\<lambda>q. of_nat (if q = 0 then 0 else count_list (pointers b) q)) (with_node new_bit_node s))"
    using c(2) nps fresh e
    by (auto simp: twin_def fill_node_def add_refs_def with_node_def alloc_node_def new_bit_node_def fun_eq_iff)
qed

lemma twin_inv:
  assumes inv: "bt_inv L Z lv ext s" and c: "c \<notin> Z" "bs_nodes s c = Some b" "lv c \<noteq> 1"
    and few: "few_nodes 3 s" "\<And>q. ext q \<le> 1" and Z: "bs_next s \<notin> Z"
  shows "bt_inv L Z (lv(bs_next s := lv c)) (ext(bs_next s := 1)) (twin c s)"
    "live (twin c s) Z = insert (bs_next s) (live s Z)" "bs_items (twin c s) = bs_items s" "bs_next (twin c s) = Suc (bs_next s)"
    "bs_freed (twin c s) = bs_freed s" "dom (bs_nodes (twin c s)) = insert (bs_next s) (dom (bs_nodes s))"
    "\<And>m j. j < 32 \<Longrightarrow> ptr (twin c s) m j = (if m = bs_next s then ptr s c j else ptr s m j)"
proof -
  let ?nx = "bs_next s" and ?ps = "pointers b"
  note sh = inv_shape [OF inv c(1,2)] and ip = inner_pointers [OF inv c] and ids = inv_ids [OF inv]
  let ?f = "\<lambda>n. if n = 0 then 0 else count_list ?ps n"
  let ?s0 = "with_node new_bit_node s" and ?lv = "lv(?nx := lv c)"
  let ?s1 = "add_refs (\<lambda>q. of_nat (?f q)) ?s0"
  note n = new_node_inv [OF inv sh(2,3) Z] and tw = twin_eq [OF inv c]
  have fresh: "?nx \<notin> dom (bs_nodes s)" "?nx \<noteq> 0" "ext ?nx = 0" "?nx \<notin> live s Z" using fresh_holders [OF inv le_refl] ids(6) by auto
  have i1: "bt_inv L Z ?lv (\<lambda>q. (ext(?nx := 1)) q + ?f q) ?s1"
  proof (rule share_refs [OF n(1)])
    show "q \<in> live ?s0 Z" if "?f q \<noteq> 0" for q
      using ip(1) that n(2) count_notin by (cases "q \<in> set ?ps") (auto split: if_splits)
    have "few_nodes 2 ?s0" using few(1) fresh(1) finite_store(1) [OF ids(5)] by (simp add: few_nodes_def)
    from holders_bound [OF inv_ids(5) [OF n(1)] this, of Z]
    have b1: "card (holders ?s0 Z q) + 64 < 4294967296" for q by simp
    have b2: "?f q \<le> 32" for q using count_le_length [of ?ps q] sh(1) by simp
    have b3: "(ext(?nx := 1)) q \<le> 1" for q using few(2) by simp
    show "card (holders ?s0 Z q) + (ext(?nx := 1)) q + ?f q < 4294967296" for q using b1 [of q] b2 [of q] b3 [of q] by linarith
  qed
  have p0: "ptr ?s1 m j = (if m = ?nx then 0 else ptr s m j)" if "j < 32" for m j using new_node_ptr [OF that, of s m] by (simp only: add_refs_fields)
  have s1n: "\<exists>b'. bs_nodes ?s1 ?nx = Some b'" by (simp add: add_refs_def)
  show inv': "bt_inv L Z ?lv (ext(?nx := 1)) (twin c s)" unfolding tw(1)
  proof (rule fill_node_inv [OF i1])
    show "?nx \<in> live ?s1 Z" using n(2) by simp
    show "at_level ?s1 Z ?lv (?lv ?nx - 1) (?ps ! j)" if "j < 32" for j
    proof -
      have q: "?ps ! j \<in> set ?ps" using that sh(1) by simp
      then show ?thesis using ip(1) ip(2) [OF q] fresh(4) n(2) c(3) sh(2) by (auto simp: at_level_def)
    qed
    show "(ext(?nx := 1)) 0 = 0" using ext_null [OF inv] fresh(2) by simp
  qed (use p0 sh(1,4) in auto)
  show "live (twin c s) Z = insert ?nx (live s Z)" "bs_items (twin c s) = bs_items s" "bs_next (twin c s) = Suc ?nx"
    "bs_freed (twin c s) = bs_freed s" "dom (bs_nodes (twin c s)) = insert (bs_next s) (dom (bs_nodes s))"
    unfolding tw(1) by (simp_all add: n(2))
  obtain b' where b': "bs_nodes ?s1 ?nx = Some b'" using s1n by blast
  have pc: "ptr s c j = ?ps ! j" for j using c(2) by (simp add: ptr_def)
  show "ptr (twin c s) m j = (if m = ?nx then ptr s c j else ptr s m j)" if "j < 32" for m j
    unfolding tw(1) ptr_fill_node [OF b'] pc p0 [OF that] by simp
qed

text \<open>The items of a leaf are copied.\<close>

lemma copy_items_nodes:
  "copy_items ps (s\<lparr>bs_nodes := N\<rparr>) = bind_ok (copy_items ps s) (\<lambda>(qs, s'). Inr (qs, s'\<lparr>bs_nodes := N\<rparr>))"
proof (induction ps arbitrary: s)
  case (Cons p ps)
  show ?case
  proof (cases "p = 0")
    case True
    show ?thesis using Cons.IH [of s] True by (cases "copy_items ps s") (auto simp: case_prod_beta)
  next
    case False
    show ?thesis
    proof (cases "bs_items s p")
      case (Some x)
      define s1 where "s1 = snd (alloc_item x s)"
      have "alloc_item x (s\<lparr>bs_nodes := N\<rparr>) = (bs_next s, s1\<lparr>bs_nodes := N\<rparr>)" "alloc_item x s = (bs_next s, s1)"
        by (simp_all add: s1_def alloc_item_def)
      then show ?thesis using Cons.IH [of s1] False Some by (cases "copy_items ps s1") (auto simp: case_prod_beta)
    qed (use False in simp)
  qed
qed simp

definition items_copied :: "nat list \<Rightarrow> nat list \<Rightarrow> 'a bit_store \<Rightarrow> 'a bit_store \<Rightarrow> bool" where
  "items_copied ps qs s s' \<longleftrightarrow> length qs = length ps \<and> bs_nodes s' = bs_nodes s \<and> bs_freed s' = bs_freed s \<and> bs_next s \<le> bs_next s'
     \<and> (\<forall>p < bs_next s. bs_items s' p = bs_items s p)
     \<and> (\<forall>j < length ps. (qs ! j = 0 \<longleftrightarrow> ps ! j = 0) \<and> bs_items s' (qs ! j) = bs_items s (ps ! j))
     \<and> (\<forall>q \<in> set qs. q \<noteq> 0 \<longrightarrow> bs_next s \<le> q)"

lemma copy_items_ok:
  "bt_inv L Z lv ext s \<Longrightarrow> set ps \<subseteq> insert 0 (dom (bs_items s)) \<Longrightarrow>
    \<exists>qs s'. copy_items ps s = Inr (qs, s') \<and> items_copied ps qs s s'
      \<and> bt_inv L Z lv (\<lambda>q. if q = 0 then 0 else ext q + count_list qs q) s'"
proof (induction ps arbitrary: s ext)
  case Nil
  have "(\<lambda>q. if q = 0 then 0 else ext q + count_list [] q) = ext" using ext_null [OF Nil(1)] by (auto simp: fun_eq_iff)
  then show ?case using Nil(1) by (simp add: items_copied_def)
next
  case (Cons p ps)
  note ids = inv_ids [OF Cons.prems(1)]
  show ?case
  proof (cases "p = 0")
    case True
    obtain qs s' where r: "copy_items ps s = Inr (qs, s')" "items_copied ps qs s s'"
        "bt_inv L Z lv (\<lambda>q. if q = 0 then 0 else ext q + count_list qs q) s'"
      using Cons.IH [OF Cons.prems(1)] Cons.prems(2) by auto
    have "(\<lambda>q. if q = 0 then 0 else ext q + count_list (0 # qs) q) = (\<lambda>q. if q = 0 then 0 else ext q + count_list qs q)" by auto
    moreover have "items_copied (p # ps) (0 # qs) s s'"
      using r(2) True items_zero(1) [OF ids(5)] items_zero(1) [OF inv_ids(5) [OF r(3)]] by (auto simp: items_copied_def nth_Cons split: nat.splits)
    ultimately show ?thesis using r True by simp
  next
    case False
    then obtain x where x: "bs_items s p = Some x" using Cons.prems(2) by auto
    let ?q = "bs_next s" and ?s = "with_item x s"
    have al: "alloc_item x s = (?q, ?s)" by (simp add: with_item_def alloc_item_def)
    have "set ps \<subseteq> insert 0 (dom (bs_items ?s))" using Cons.prems(2) by auto
    then obtain qs s' where r: "copy_items ps ?s = Inr (qs, s')" "items_copied ps qs ?s s'"
        "bt_inv L Z lv (\<lambda>q. if q = 0 then 0 else (ext(?q := 1)) q + count_list qs q) s'"
      using Cons.IH [OF new_item_inv [OF Cons.prems(1), of x]] by blast
    note c = r(2) [unfolded items_copied_def with_item_fields]
    have "?q \<notin> set qs" using c ids(6) by force
    then have "(\<lambda>q. if q = 0 then 0 else (ext(?q := 1)) q + count_list qs q) = (\<lambda>q. if q = 0 then 0 else ext q + count_list (?q # qs) q)"
      using fresh_holders(2) [OF Cons.prems(1) le_refl] by (auto simp: fun_eq_iff count_notin)
    then have i: "bt_inv L Z lv (\<lambda>q. if q = 0 then 0 else ext q + count_list (?q # qs) q) s'" using r(3) by simp
    have p: "p < ?q" using ids(1) [of p] x by auto
    have old: "bs_items s (ps ! j) = ((bs_items s)(?q \<mapsto> x)) (ps ! j)" if "j < length ps" for j
    proof -
      have "ps ! j \<in> insert 0 (dom (bs_items s))" using nth_mem [OF that] Cons.prems(2) by auto
      then have "ps ! j \<noteq> ?q" using fresh_holders(4) [OF Cons.prems(1) le_refl] ids(6) by auto
      then show ?thesis by simp
    qed
    have "items_copied (p # ps) (?q # qs) s s'" unfolding items_copied_def
    proof (intro conjI allI impI ballI)
      fix j assume j: "j < length (p # ps)"
      show "((?q # qs) ! j = 0) = ((p # ps) ! j = 0)" "bs_items s' ((?q # qs) ! j) = bs_items s ((p # ps) ! j)"
        using j c False x ids(6) old by (auto simp: nth_Cons less_Suc_eq split: nat.splits)
    qed (use c in auto)
    then show ?thesis using r(1) i al False x by simp
  qed
qed

definition pres :: "'a bit_store \<Rightarrow> nat \<Rightarrow> u32" where
  "pres s n = (case bs_nodes s n of None \<Rightarrow> 0 | Some b \<Rightarrow> present_bits b)"

text \<open>A copy of the node of one slot, with equal values, held from outside.\<close>

definition node_copied :: "nat \<Rightarrow> (nat \<Rightarrow> nat) \<Rightarrow> (nat \<Rightarrow> nat) \<Rightarrow> nat \<Rightarrow> nat \<Rightarrow> 'a bit_store \<Rightarrow> 'a bit_store \<Rightarrow> bool" where
  "node_copied L lv ext c nx s s' \<longleftrightarrow> bt_inv L {} (lv(nx := lv c)) (ext(nx := 1)) s' \<and> nx \<notin> live s {} \<and> live s' {} = insert nx (live s {})
     \<and> ext nx = 0 \<and> nx \<noteq> 0 \<and> holders s' {} nx = {} \<and> pres s' nx = pres s c \<and> (\<forall>m \<in> live s {}. pres s' m = pres s m \<and> (\<forall>j < 32. ptr s' m j = ptr s m j))
     \<and> (\<forall>k. val s' (lv c) nx k = val s (lv c) c k) \<and> (\<forall>m \<in> live s {}. \<forall>k. val s' (lv m) m k = val s (lv m) m k)
     \<and> card (dom (bs_nodes s')) = Suc (card (dom (bs_nodes s))) \<and> bs_items s \<subseteq>\<^sub>m bs_items s'"

lemma live_all: "live s {} = dom (bs_nodes s)"
  by (simp add: live_def)

lemma twin_pres:
  assumes "bt_inv L {} lv ext s" "bs_nodes s c = Some b" "lv c \<noteq> 1" "m \<in> insert (bs_next s) (live s {})"
  shows "pres (twin c s) m = (if m = bs_next s then present_bits b else pres s m)"
  using assms(2,4) by (auto simp: pres_def twin_def live_all add_refs_def)

lemma inner_copied:
  assumes inv: "bt_inv L {} lv ext s" and c: "bs_nodes s c = Some b" "lv c \<noteq> 1" and few: "few_nodes 3 s" "\<And>q. ext q \<le> 1"
  shows "node_copied L lv ext c (bs_next s) s (twin c s)"
proof -
  let ?nx = "bs_next s" and ?s = "twin c s" and ?lv = "lv(bs_next s := lv c)"
  have z: "c \<notin> {}" "?nx \<notin> {}" by simp_all
  note t = twin_inv [OF inv z(1) c few z(2)] and f = fresh_holders [OF inv le_refl] and ids = inv_ids [OF inv]
  note sh = inv_shape [OF inv z(1) c(1)]
  have v: "val ?s l q' k = val s l q k" if "q' = q \<and> at_level s {} lv l q \<or> l = lv c \<and> q' = ?nx \<and> q = c" for l q' q k
  proof (rule val_sim [where \<rho> = "\<lambda>l q' q. q' = q \<and> at_level s {} lv l q \<or> l = lv c \<and> q' = ?nx \<and> q = c"])
    fix l q' q i assume r: "q' = q \<and> at_level s {} lv (Suc l) q \<or> Suc l = lv c \<and> q' = ?nx \<and> q = c" and i: "i < (32 :: nat)"
    have "at_level s {} lv (Suc l) q" using r live_level [of c s "{}" lv] sh(2,7) by auto
    then have a: "at_level s {} lv l (ptr s q i)" by (rule child_level [OF inv _ i])
    have "ptr ?s q' i = ptr s q i" using r t(7) [OF i] f(3) ids(6) by (auto simp: at_level_def)
    then show "ptr ?s q' i = ptr s q i \<and> at_level s {} lv l (ptr s q i) \<or> l = lv c \<and> ptr ?s q' i = ?nx \<and> ptr s q i = c" using a by simp
  next
    fix q' q assume "q' = q \<and> at_level s {} lv 0 q \<or> 0 = lv c \<and> q' = ?nx \<and> q = c"
    then show "bs_items ?s q' = bs_items s q" using sh(2) t(3) by auto
  qed (use that in simp)
  have "ptr ?s m j \<noteq> ?nx" if "m \<in> insert ?nx (live s {})" "j < 32" for m j
  proof -
    have "ptr ?s m j = ptr s (if m = ?nx then c else m) j" "(if m = ?nx then c else m) \<in> live s {}" using t(7) [OF that(2)] that(1) sh(7) by auto
    then show ?thesis using f(1) that(2) by (auto simp: holders_def)
  qed
  then have h: "holders ?s {} ?nx = {}" unfolding holders_def t(2) by auto
  have lv: "val ?s (lv m) m k = val s (lv m) m k" if "m \<in> live s {}" for m k
    using v live_level [of m s "{}" lv] that inv_live(3) [OF inv that] by blast
  have cd: "card (dom (bs_nodes ?s)) = Suc (card (dom (bs_nodes s)))" using t(6) f(5) finite_store(1) [OF ids(5)] by simp
  show ?thesis unfolding node_copied_def
    using t(1,2,3) f(2,3) ids(6) h v [of "?nx" c "lv c"] lv cd t(7) twin_pres [OF inv c] c(1) by (auto simp: pres_def)
qed

lemma leaf_copied:
  assumes inv: "bt_inv L {} lv ext s" and c: "bs_nodes s c = Some b" "lv c = 1"
  shows "\<exists>qs s1. copy_items (pointers b) (with_node new_bit_node s) = Inr (qs, s1)
    \<and> bs_nodes s1 = bs_nodes (with_node new_bit_node s)
    \<and> node_copied L lv ext c (bs_next s) s (fill_node (bs_next s) (present_bits b) qs s1)"
proof -
  let ?nx = "bs_next s" and ?ps = "pointers b" and ?sn = "with_node new_bit_node s" and ?lv = "lv(bs_next s := lv c)"
  have z: "c \<notin> {}" "?nx \<notin> {}" by simp_all
  note sh = inv_shape [OF inv z(1) c(1)] and f = fresh_holders [OF inv le_refl] and ids = inv_ids [OF inv]
  note n = new_node_inv [OF inv sh(2,3) z(2)]
  have pc: "ptr s c j = ?ps ! j" for j using c(1) by (simp add: ptr_def)
  have items: "?ps ! j = 0 \<or> ?ps ! j \<in> dom (bs_items s)" if "j < 32" for j
    using inv_child(1) [OF inv sh(7) that _ c(2)] pc by auto
  have "set ?ps \<subseteq> insert 0 (dom (bs_items ?sn))"
  proof
    fix q assume "q \<in> set ?ps"
    then obtain j where "j < 32" "?ps ! j = q" using sh(1) by (auto simp: in_set_conv_nth)
    then show "q \<in> insert 0 (dom (bs_items ?sn))" using items [of j] by auto
  qed
  from copy_items_ok [OF n(1) this] obtain qs s1 where k: "copy_items ?ps ?sn = Inr (qs, s1)" "items_copied ?ps qs ?sn s1"
      "bt_inv L {} ?lv (\<lambda>q. if q = 0 then 0 else (ext(?nx := 1)) q + count_list qs q) s1" by blast
  note ic = k(2) [unfolded items_copied_def with_node_fields]
  let ?s = "fill_node ?nx (present_bits b) qs s1"
  have nx: "?nx \<noteq> 0" "?nx < Suc ?nx" using ids(6) by simp_all
  have nq: "?nx \<notin> set qs" using ic nx by force
  have l1: "live s1 {} = insert ?nx (live s {})" using ic n(2) by (simp add: live_def)
  have b1: "bs_nodes s1 ?nx = Some new_bit_node" using ic by simp
  have p1: "ptr s1 m j = (if m = ?nx then 0 else ptr s m j)" if "j < 32" for m j
    using ic new_node_ptr [OF that, of s m] by (simp add: ptr_def)
  have p: "ptr ?s m j = (if m = ?nx then qs ! j else ptr s m j)" if "j < 32" for m j
    unfolding ptr_fill_node [OF b1] p1 [OF that] by simp
  have qi: "qs ! j = 0 \<or> qs ! j \<in> dom (bs_items s1)" if "j < 32" for j
    using items [OF that] ic that sh(1) by (auto simp: domIff)
  have i2: "bt_inv L {} ?lv (ext(?nx := 1)) ?s"
  proof (rule fill_node_inv [OF k(3)])
    show "?nx \<in> live s1 {}" using l1 by simp
    show "at_level s1 {} ?lv (?lv ?nx - 1) (qs ! j)" if "j < 32" for j using qi [OF that] c(2) by (simp add: at_level_def)
    show "(ext(?nx := 1)) 0 = 0" using ext_null [OF inv] nx by simp
    show "bit (present_bits b) j = (qs ! j \<noteq> 0)" if "j < 32" for j using sh(1,4) ic that by simp
  qed (use p1 sh(1) ic in auto)
  have old: "bs_items s1 q = bs_items s q" if "q = 0 \<or> q \<in> dom (bs_items s)" for q
  proof -
    have "q < Suc ?nx" using ids(1) [of q] ids(6) that by (cases "q = 0") simp_all
    then show ?thesis using ic by blast
  qed
  have v: "val ?s l q' k = val s l q k"
    if "q' = q \<and> at_level s {} lv l q \<or> l = 1 \<and> q' = ?nx \<and> q = c \<or> l = 0 \<and> (\<exists>j < 32. q' = qs ! j \<and> q = ?ps ! j)" for l q' q k
  proof (rule val_sim [where \<rho> = "\<lambda>l q' q. q' = q \<and> at_level s {} lv l q \<or> l = 1 \<and> q' = ?nx \<and> q = c \<or> l = 0 \<and> (\<exists>j < 32. q' = qs ! j \<and> q = ?ps ! j)"])
    fix l q' q i assume r: "q' = q \<and> at_level s {} lv (Suc l) q \<or> Suc l = 1 \<and> q' = ?nx \<and> q = c \<or> Suc l = 0 \<and> (\<exists>j < 32. q' = qs ! j \<and> q = ?ps ! j)"
      and i: "i < (32 :: nat)"
    show "ptr ?s q' i = ptr s q i \<and> at_level s {} lv l (ptr s q i) \<or> l = 1 \<and> ptr ?s q' i = ?nx \<and> ptr s q i = c
      \<or> l = 0 \<and> (\<exists>j < 32. ptr ?s q' i = qs ! j \<and> ptr s q i = ?ps ! j)"
    proof (cases "q' = q \<and> at_level s {} lv (Suc l) q")
      case True
      then have "q \<noteq> ?nx" using f(3) nx by (auto simp: at_level_def)
      then show ?thesis using True p [OF i] child_level [OF inv _ i] by simp
    qed (use r p [OF i] pc i in auto)
  next
    fix q' q assume "q' = q \<and> at_level s {} lv 0 q \<or> (0 :: nat) = 1 \<and> q' = ?nx \<and> q = c \<or> (0 :: nat) = 0 \<and> (\<exists>j < 32. q' = qs ! j \<and> q = ?ps ! j)"
    then show "bs_items ?s q' = bs_items s q" using old [of q] ic sh(1) by (auto simp: at_level_def)
  qed (use that in simp)
  have "ptr ?s m j \<noteq> ?nx" if m: "m \<in> insert ?nx (live s {})" "j < 32" for m j
  proof -
    have "qs ! j \<in> set qs" using ic sh(1) m(2) by simp
    then show ?thesis using p [OF m(2)] nq m f(1) by (cases "m = ?nx") (auto simp: holders_def)
  qed
  then have h: "holders ?s {} ?nx = {}" using l1 unfolding holders_def by auto
  have lv: "val ?s (lv m) m k = val s (lv m) m k" if "m \<in> live s {}" for m k
    using v [of m m "lv m" k] live_level [of m s "{}" lv] that inv_live(3) [OF inv that] by simp
  have cd: "card (dom (bs_nodes ?s)) = Suc (card (dom (bs_nodes s)))" using ic f(5) finite_store(1) [OF ids(5)] by simp
  have pr: "pres ?s m = (if m = ?nx then present_bits b else pres s m)" for m using ic by (simp add: pres_def fill_node_def)
  have "node_copied L lv ext c ?nx s ?s" unfolding node_copied_def
  proof (intro conjI ballI allI impI)
    fix m j assume "m \<in> live s {}" "j < (32 :: nat)"
    then show "ptr ?s m j = ptr s m j" using p f(3) by auto
  next
    fix m assume "m \<in> live s {}"
    then show "pres ?s m = pres s m" using pr f(3) by auto
  next
    show "val ?s (lv c) ?nx k = val s (lv c) c k" for k using v [of ?nx c 1] c(2) by simp
    show "pres ?s ?nx = pres s c" using pr c(1) by (simp add: pres_def)
    show "bs_items s \<subseteq>\<^sub>m bs_items ?s" using old by (auto simp: map_le_def)
  qed (use i2 l1 f(2,3) nx h lv cd in simp_all)
  moreover have "bs_nodes s1 = bs_nodes ?sn" using ic by simp
  ultimately show ?thesis using k(1) by (intro exI [of _ qs] exI [of _ s1] conjI)
qed

section \<open>Copy on write\<close>

text \<open>The slot \<open>(p, i)\<close> holds a node that nothing else refers to; all values are as they were.\<close>

definition own_child ::
    "nat \<Rightarrow> (nat \<Rightarrow> nat) \<Rightarrow> (nat \<Rightarrow> nat) \<Rightarrow> (nat \<Rightarrow> nat) \<Rightarrow> nat \<Rightarrow> nat \<Rightarrow> nat \<Rightarrow> 'a bit_store \<Rightarrow> 'a bit_store \<Rightarrow> bool" where
  "own_child L lv lv' ext p i n s s' \<longleftrightarrow> bt_inv L {} lv' ext s' \<and> live s' {} = insert n (live s {}) \<and> (\<forall>m \<in> live s {}. lv' m = lv m) \<and> lv' n = lv p - 1 \<and> ptr s' p i = n \<and> holders s' {} n = {(p, i)} \<and> ext n = 0 \<and> pres s' n = pres s (ptr s p i)
     \<and> (\<forall>m \<in> live s {}. (m \<noteq> p \<longrightarrow> pres s' m = pres s m) \<and> (\<forall>j < 32. (m, j) \<noteq> (p, i) \<longrightarrow> ptr s' m j = ptr s m j))
     \<and> (\<forall>m \<in> live s {}. \<forall>k. val s' (lv m) m k = val s (lv m) m k)
     \<and> card (dom (bs_nodes s')) \<le> Suc (card (dom (bs_nodes s))) \<and> bs_items s \<subseteq>\<^sub>m bs_items s'"

lemma set_slot_val:
  assumes inv: "bt_inv L {} lv ext s" and p: "p \<in> live s {}" "i < 32" and q: "\<And>k. val s (lv p - 1) q k = val s (lv p - 1) (ptr s p i) k"
    and ql: "at_level s {} lv (lv p - 1) q" and m: "at_level s {} lv l m"
  shows "val (set_slot p i q s) l m k = val s l m k"
  using m
proof (induction l arbitrary: m)
  case 0
  then show ?case by (simp add: val_def)
next
  case (Suc l)
  let ?j = "k div 32 ^ l mod 32"
  obtain b where b: "bs_nodes s p = Some b" "i < length (pointers b)" using p inv_shape(1) [OF inv] by (fastforce simp: live_node)
  show ?case
  proof (cases "m = p \<and> ?j = i")
    case True
    then have l: "lv p - 1 = l" using Suc.prems p inv_live(1) [OF inv p(1)] by (auto simp: at_level_def)
    have "val (set_slot p i q s) (Suc l) m k = val (set_slot p i q s) l q k" using True ptr_set_slot [OF b, of q] by (simp add: val_def)
    also have "\<dots> = val s l (ptr s p i) k" using Suc.IH [of q] ql q [of k] l by simp
    also have "\<dots> = val s (Suc l) m k" using True by (simp add: val_def)
    finally show ?thesis .
  next
    case False
    then have "ptr (set_slot p i q s) m ?j = ptr s m ?j" using ptr_set_slot [OF b, of q] by auto
    then show ?thesis using Suc.IH [OF child_level [OF inv Suc.prems, of ?j]] by (simp add: val_def)
  qed
qed

lemma swap_child:
  assumes inv: "bt_inv L {} lv ext s" and p: "p \<in> live s {}" "i < 32" "1 < lv p" and c: "ptr s p i = c" "bs_nodes s c = Some b" "1 < node_refs b"
    and cp: "node_copied L lv ext c nx s s1"
  shows "own_child L lv (lv(nx := lv c)) ext p i nx s (add_refs ((\<lambda>_. 0)(c := - 1)) (set_slot p i nx s1))"
proof -
  let ?lv = "lv(nx := lv c)" and ?s2 = "set_slot p i nx s1"
  have n: "bt_inv L {} ?lv (ext(nx := 1)) s1" "nx \<notin> live s {}" "live s1 {} = insert nx (live s {})" "ext nx = 0" "nx \<noteq> 0"
      "holders s1 {} nx = {}" "pres s1 nx = pres s c" "\<And>m. m \<in> live s {} \<Longrightarrow> pres s1 m = pres s m"
      "\<And>m j. m \<in> live s {} \<Longrightarrow> j < 32 \<Longrightarrow> ptr s1 m j = ptr s m j"
      "\<And>k. val s1 (lv c) nx k = val s (lv c) c k" "\<And>m k. m \<in> live s {} \<Longrightarrow> val s1 (lv m) m k = val s (lv m) m k"
      "card (dom (bs_nodes s1)) = Suc (card (dom (bs_nodes s)))" "bs_items s \<subseteq>\<^sub>m bs_items s1"
    using cp unfolding node_copied_def by auto
  have cl: "c \<in> live s {}" "c \<noteq> nx" "p \<noteq> nx" using c(2) n(2) p(1) by (auto simp: live_all)
  have c0: "c \<noteq> 0" using inv_live(1) [OF inv cl(1)] .
  have lc: "lv c = lv p - 1" using inv_child(2) [OF inv p(1,2)] c(1) c0 p(3) by simp
  have p1: "p \<in> live s1 {}" "ptr s1 p i = c" using n(3,9) p c(1) by auto
  have lq: "at_level s1 {} ?lv (?lv p - 1) nx" using n(3) lc cl(3) p(3) by (simp add: at_level_def)
  let ?e = "(ext(nx := 0))(c := ext c + 1)"
  have i2: "bt_inv L {} ?lv ?e ?s2"
    by (rule set_slot_inv [OF n(1) p1(1) p(2) lq]) (use p1(2) cl ext_null [OF inv] n(5) c0 in auto)
  obtain b1 where b1: "bs_nodes s1 p = Some b1" "i < length (pointers b1)" using p1(1) p(2) inv_shape(1) [OF n(1)] by (fastforce simp: live_node)
  note ps = ptr_set_slot [OF b1, of nx]
  have "c \<in> dom (bs_nodes ?s2)" using cl(1) n(3) by (simp add: live_all)
  then obtain b2 where b2: "bs_nodes ?s2 c = Some b2" by blast
  have hc: "card (holders ?s2 {} c) + 1 = card (holders s1 {} c)" using holders_set_slot [OF n(1) p1(1) p(2), of nx c] p1(2) cl by simp
  have "(m, j) \<in> holders s {} c \<Longrightarrow> (m, j) \<in> holders s1 {} c" for m j using n(3,9) by (auto simp: holders_def)
  then have "card (holders s {} c) \<le> card (holders s1 {} c)"
    by (intro card_mono finite_store(3) inv_ids(5) [OF n(1)]) auto
  moreover have "unat (node_refs b) = card (holders s {} c) + ext c" "1 < unat (node_refs b)"
    using inv_shape(5) [OF inv _ c(2)] c(3) by (simp_all add: word_less_nat_alt)
  moreover have "unat (node_refs b2) = card (holders ?s2 {} c) + (ext c + 1)" using inv_shape(5) [OF i2 _ b2] by simp
  ultimately have "1 < unat (node_refs b2)" using hc by linarith
  then have r2: "1 < node_refs b2" by (simp add: word_less_nat_alt)
  have i3: "bt_inv L {} ?lv ext (add_refs ((\<lambda>_. 0)(c := - 1)) ?s2)"
  proof -
    have "?e(c := ?e c - 1) = ext" using n(4) cl(2) by (auto simp: fun_eq_iff)
    then show ?thesis using drop_ref [OF i2 _ b2 r2] by simp
  qed
  have hn: "holders ?s2 {} nx = {(p, i)}" using ps n(6) p1(1) p(2) by (auto simp: holders_def)
  have val: "val ?s2 (lv m) m k = val s (lv m) m k" if m: "m \<in> live s {}" for m k
  proof -
    have "val s1 (?lv p - 1) nx k = val s1 (?lv p - 1) (ptr s1 p i) k" for k using n(10) n(11) [OF cl(1)] lc cl(3) p1(2) by simp
    moreover have "at_level s1 {} ?lv (lv m) m" using m n(2,3) inv_live(3) [OF inv m] by (auto simp: at_level_def)
    ultimately have "val ?s2 (lv m) m k = val s1 (lv m) m k" using set_slot_val [OF n(1) p1(1) p(2) _ lq] by blast
    then show ?thesis using n(11) [OF m] by simp
  qed
  have pr: "pres (add_refs f ?s2) m = (if m = p then pres s1 m OR push_bit i 1 else pres s1 m)" for f m
    using n(5) b1(1) by (simp add: pres_def add_refs_def set_slot_def split: option.splits)
  have "pres s1 p OR push_bit i 1 = pres s1 p"
  proof -
    have "bit (pres s1 p) i" using inv_shape(4) [OF n(1) _ b1(1) p(2)] p1(2) c0 b1(1) by (simp add: pres_def ptr_def)
    then show ?thesis using p(2) by (intro bit_word_eqI) (auto simp: bit_or_iff bit_exp_iff)
  qed
  then have pr': "pres (add_refs f ?s2) m = pres s1 m" for f m using pr by simp
  show ?thesis unfolding own_child_def
  proof (intro conjI ballI allI impI)
    fix m j assume "m \<in> live s {}" "j < 32" "(m, j) \<noteq> (p, i)"
    then show "ptr (add_refs ((\<lambda>_. 0)(c := - 1)) ?s2) m j = ptr s m j" using n(9) ps by auto
  next
    fix m k assume "m \<in> live s {}"
    then show "val (add_refs ((\<lambda>_. 0)(c := - 1)) ?s2) (lv m) m k = val s (lv m) m k" using val by simp
  next
    fix m assume m: "m \<in> live s {}"
    show "pres (add_refs ((\<lambda>_. 0)(c := - 1)) ?s2) m = pres s m" using pr' n(8) [OF m] by simp
    show "(lv(nx := lv c)) m = lv m" using m n(2) by auto
  qed (use i3 n(3,4,7,12,13) hn ps lc c(1) pr' in simp_all)
qed

end
