(* ===== verification/Bit_Tree_Edits.thy ===== *)
theory Bit_Tree_Edits
  imports Bit_Tree_Invariant
begin

text \<open>
  The operations of the tree of bits: the search for a slot with copies on the way, insertion, removal,
  copies and the end of a tree, over the invariant.
\<close>

section \<open>The slot that is edited\<close>

lemma slot_write_set:
  assumes "bs_nodes s n = Some b" "bit (present_bits b) i" "i < 32" "q \<noteq> 0"
  shows "slot_write (n, i) q s = Inr (set_slot n i q s)"
proof -
  have "present_bits b OR push_bit i 1 = present_bits b" using assms(2,3) by (intro bit_word_eqI) (auto simp: bit_or_iff bit_exp_iff)
  then show ?thesis using assms(1,4) by (simp add: slot_write_def set_slot_def put_node_def)
qed

lemma set_slot_add_refs: "set_slot n i q (add_refs f s) = add_refs f (set_slot n i q s)"
proof (rule bit_store.equality)
  have "bs_nodes (set_slot n i q (add_refs f s)) m = bs_nodes (add_refs f (set_slot n i q s)) m" for m
    by (cases "bs_nodes s m"; cases "m = n") (simp_all add: set_slot_def add_refs_def)
  then show "bs_nodes (set_slot n i q (add_refs f s)) = bs_nodes (add_refs f (set_slot n i q s))" by (rule ext)
qed (simp_all add: set_slot_def add_refs_def)

lemma copy_inner_eq:
  assumes inv: "bt_inv L {} lv ext s" and c: "bs_nodes s c = Some b" "lv c \<noteq> 1"
  shows "copy_node c False (add_refs ((\<lambda>_. 0)(c := - 1)) s) = Inr (bs_next s, add_refs ((\<lambda>_. 0)(c := - 1)) (twin c s))"
proof -
  let ?s = "add_refs ((\<lambda>_. 0)(c := - 1)) s"
  have z: "c \<notin> {}" by simp
  note ids = inv_ids [OF inv]
  have "set (pointers b) \<subseteq> insert 0 (dom (bs_nodes ?s))" using inner_pointers(1) [OF inv z c] by (auto simp: live_def)
  moreover have "bs_nodes ?s 0 = None" using items_zero(2) [OF ids(5)] by (simp add: add_refs_def)
  ultimately have "for_each share_child (pointers b) ?s = Inr (add_refs (\<lambda>n. of_nat (count_list (pointers b) n)) ?s)"
    using share_children by blast
  moreover have "bs_next s \<noteq> c" using fresh_holders(5) [OF inv le_refl] c(1) by auto
  moreover have nn: "node_at ?s c = Inr (b\<lparr>node_refs := node_refs b - 1\<rparr>)" using c(1) by (simp add: node_at_def add_refs_def)
  ultimately show ?thesis using c(1)
    by (auto simp: copy_node_def twin_def with_node_def alloc_node_def add_refs_def fun_eq_iff option.map_comp comp_def add.commute)
qed

lemma unshare_inner:
  assumes inv: "bt_inv L {} lv ext s" and p: "p \<in> live s {}" "i < 32" and c: "ptr s p i = c" "bs_nodes s c = Some b" "lv c \<noteq> 1" "1 < node_refs b"
    and n1: "bs_nodes (twin c s) p = Some bp" "bit (present_bits bp) i"
  shows "unshare (lv c) (Some (p, i)) c s = Inr (bs_next s, add_refs ((\<lambda>_. 0)(c := - 1)) (set_slot p i (bs_next s) (twin c s)))"
proof -
  let ?d = "(\<lambda>_. 0)(c := - 1) :: nat \<Rightarrow> u32"
  have "bs_nodes (add_refs ?d (twin c s)) p = Some (bp\<lparr>node_refs := node_refs bp + ?d p\<rparr>)" using n1(1) by (simp add: add_refs_def)
  from slot_write_set [OF this _ p(2), of "bs_next s"] have "slot_write (p, i) (bs_next s) (add_refs ?d (twin c s))
      = Inr (add_refs ?d (set_slot p i (bs_next s) (twin c s)))"
    using n1(2) inv_ids(6) [OF inv] by (simp add: set_slot_add_refs)
  then show ?thesis using c copy_inner_eq [OF inv c(2,3)] dec_refs [OF c(2)] by (simp add: unshare_def node_at_def)
qed

lemma unshare_leaf:
  assumes inv: "bt_inv L {} lv ext s" and p: "i < 32" and c: "bs_nodes s c = Some b" "1 < node_refs b"
    and k: "copy_items (pointers b) (with_node new_bit_node s) = Inr (qs, s1)" "bs_nodes s1 = bs_nodes (with_node new_bit_node s)"
    and n1: "bs_nodes (fill_node (bs_next s) (present_bits b) qs s1) p = Some bp" "bit (present_bits bp) i"
  shows "unshare 1 (Some (p, i)) c s
    = Inr (bs_next s, add_refs ((\<lambda>_. 0)(c := - 1)) (set_slot p i (bs_next s) (fill_node (bs_next s) (present_bits b) qs s1)))"
proof -
  let ?d = "(\<lambda>_. 0)(c := - 1) :: nat \<Rightarrow> u32" and ?nx = "bs_next s"
  let ?b = "\<lparr>node_refs = 1, present_bits = present_bits b, pointers = pointers b\<rparr>"
  let ?sa = "with_node ?b (add_refs ?d s)"
  have nc: "?nx \<noteq> c" using fresh_holders(5) [OF inv le_refl] c(1) by auto
  have copy: "copy_node c True (add_refs ?d s) = Inr (?nx, ?sa)"
    using c(1) by (simp add: copy_node_def node_at_def with_node_def alloc_node_def add_refs_def)
  have sa: "?sa = (with_node new_bit_node s)\<lparr>bs_nodes := bs_nodes ?sa\<rparr>" by (simp add: with_node_def alloc_node_def add_refs_def)
  have items: "copy_items (pointers b) ?sa = Inr (qs, s1\<lparr>bs_nodes := bs_nodes ?sa\<rparr>)"
    by (subst sa) (use copy_items_nodes [where ps = "pointers b" and s = "with_node new_bit_node s" and N = "bs_nodes ?sa"] k(1) in simp)
  have eq: "put_node ?nx (?b\<lparr>pointers := qs\<rparr>) (s1\<lparr>bs_nodes := bs_nodes ?sa\<rparr>) = add_refs ?d (fill_node ?nx (present_bits b) qs s1)"
  proof (rule bit_store.equality)
    have "bs_nodes (put_node ?nx (?b\<lparr>pointers := qs\<rparr>) (s1\<lparr>bs_nodes := bs_nodes ?sa\<rparr>)) m
        = bs_nodes (add_refs ?d (fill_node ?nx (present_bits b) qs s1)) m" for m
      using nc k(2) by (cases "bs_nodes s m"; cases "m = ?nx") (simp_all add: put_node_def add_refs_def fill_node_def new_bit_node_def)
    then show "bs_nodes (put_node ?nx (?b\<lparr>pointers := qs\<rparr>) (s1\<lparr>bs_nodes := bs_nodes ?sa\<rparr>))
        = bs_nodes (add_refs ?d (fill_node ?nx (present_bits b) qs s1))" by (rule ext)
  qed (simp_all add: put_node_def add_refs_def fill_node_def)
  have "bs_nodes (add_refs ?d (fill_node ?nx (present_bits b) qs s1)) p = Some (bp\<lparr>node_refs := node_refs bp + ?d p\<rparr>)"
    using n1(1) by (simp add: add_refs_def)
  from slot_write_set [OF this _ p, of ?nx] have "slot_write (p, i) ?nx (add_refs ?d (fill_node ?nx (present_bits b) qs s1))
      = Inr (add_refs ?d (set_slot p i ?nx (fill_node ?nx (present_bits b) qs s1)))"
    using n1(2) inv_ids(6) [OF inv] by (simp add: set_slot_add_refs)
  moreover have "node_at ?sa ?nx = Inr ?b" by (simp add: node_at_def)
  ultimately show ?thesis using c copy items eq dec_refs [OF c(1)] by (simp add: unshare_def node_at_def [of s])
qed

lemma unshare_ok:
  assumes inv: "bt_inv L {} lv ext s" and p: "p \<in> live s {}" "i < 32" "1 < lv p" and c: "ptr s p i = c" "c \<noteq> 0"
    and few: "few_nodes 3 s" "\<And>q. ext q \<le> 1"
  shows "\<exists>n s' lv'. unshare (lv p - 1) (Some (p, i)) c s = Inr (n, s') \<and> own_child L lv lv' ext p i n s s'"
proof -
  have cl: "c \<in> live s {}" "lv c = lv p - 1" using inv_child(2) [OF inv p(1,2)] c p(3) by auto
  obtain b where b: "bs_nodes s c = Some b" using cl(1) by (auto simp: live_node)
  have z: "c \<notin> {}" by simp
  note sh = inv_shape [OF inv z b]
  have pin: "(p, i) \<in> holders s {} c" using p c(1) by (simp add: holders_def)
  show ?thesis
  proof (cases "1 < node_refs b")
    case True
    have cpd: "\<exists>bp. bs_nodes s1 p = Some bp \<and> bit (present_bits bp) i" if "node_copied L lv ext c (bs_next s) s s1" for s1
    proof -
      have "bt_inv L {} (lv(bs_next s := lv c)) (ext(bs_next s := 1)) s1" "p \<in> live s1 {}" "ptr s1 p i = c"
        using that p c(1) unfolding node_copied_def by auto
      then show ?thesis using inv_shape(4) [of L "{}" _ _ s1 p] p(2) c(2) by (fastforce simp: live_node ptr_def)
    qed
    show ?thesis
    proof (cases "lv c = 1")
      case l1: True
      obtain qs s1 where k: "copy_items (pointers b) (with_node new_bit_node s) = Inr (qs, s1)" "bs_nodes s1 = bs_nodes (with_node new_bit_node s)"
          "node_copied L lv ext c (bs_next s) s (fill_node (bs_next s) (present_bits b) qs s1)"
        using leaf_copied [OF inv b l1] by blast
      obtain bp where bp: "bs_nodes (fill_node (bs_next s) (present_bits b) qs s1) p = Some bp" "bit (present_bits bp) i" using cpd [OF k(3)] by blast
      show ?thesis using unshare_leaf [OF inv p(2) b True k(1,2) bp] swap_child [OF inv p c(1) b True k(3)] cl(2) l1 by auto
    next
      case False
      note k = inner_copied [OF inv b False few]
      obtain bp where bp: "bs_nodes (twin c s) p = Some bp" "bit (present_bits bp) i" using cpd [OF k] by blast
      show ?thesis using unshare_inner [OF inv p(1,2) c(1) b False True bp] swap_child [OF inv p c(1) b True k] cl(2) by auto
    qed
  next
    case False
    then have r1: "node_refs b = 1" using sh(6) by unat_arith
    then have "card (holders s {} c) + ext c = 1" using sh(5) by simp
    moreover have "0 < card (holders s {} c)" using pin finite_store(3) [OF inv_ids(5) [OF inv]] card_gt_0_iff by blast
    ultimately have "ext c = 0" "card (holders s {} c) = 1" by simp_all
    moreover from this(2) have "holders s {} c = {(p, i)}" using pin by (metis card_1_singletonE singletonD)
    ultimately have "own_child L lv lv ext p i c s s" using inv cl c(1) unfolding own_child_def by (simp add: insert_absorb)
    moreover have "unshare (lv p - 1) (Some (p, i)) c s = Inr (c, s)" using b r1 by (simp add: unshare_def node_at_def)
    ultimately show ?thesis by blast
  qed
qed

text \<open>A slot without a child gets an empty node.\<close>

lemma grow_child:
  assumes inv: "bt_inv L {} lv ext s" and p: "p \<in> live s {}" "i < 32" "1 < lv p" "ptr s p i = 0"
  shows "own_child L lv (lv(bs_next s := lv p - 1)) ext p i (bs_next s) s (set_slot p i (bs_next s) (with_node new_bit_node s))"
    "mark_slot Insert p i (with_node new_bit_node s) = Inr s1 \<Longrightarrow> slot_write (p, i) (bs_next s) s1 = Inr (set_slot p i (bs_next s) (with_node new_bit_node s))"
    "\<exists>s1. mark_slot Insert p i (with_node new_bit_node s) = Inr s1"
proof -
  let ?nx = "bs_next s" and ?sn = "with_node new_bit_node s" and ?lv = "lv(bs_next s := lv p - 1)"
  let ?s = "set_slot p i ?nx ?sn"
  have z: "?nx \<notin> {}" by simp
  note f = fresh_holders [OF inv le_refl] and ids = inv_ids [OF inv]
  have l: "0 < lv p - 1" "lv p - 1 \<le> L" using p(3) inv_live(4) [OF inv p(1)] by simp_all
  note n = new_node_inv [OF inv l z]
  have np: "p \<noteq> ?nx" using f(3) p(1) by auto
  have pn: "p \<in> live ?sn {}" "ptr ?sn p i = 0" using n(2) p new_node_ptr [OF p(2), of s p] np by auto
  have lq: "at_level ?sn {} ?lv (?lv p - 1) ?nx" using n(2) np p(3) by (simp add: at_level_def)
  have i2: "bt_inv L {} ?lv ext ?s"
    by (rule set_slot_inv [OF n(1) pn(1) p(2) lq]) (use pn(2) f(2) ext_null [OF inv] in auto)
  obtain b where b: "bs_nodes ?sn p = Some b" "i < length (pointers b)" using pn(1) p(2) inv_shape(1) [OF n(1)] by (fastforce simp: live_node)
  note ps = ptr_set_slot [OF b, of ?nx]
  have hn: "holders ?s {} ?nx = {(p, i)}" using ps new_node_ptr [of _ s] f(1) ids(6) p(1,2) n(2) by (auto simp: holders_def split: if_splits)
  have vn: "val ?sn (lv p - 1) ?nx k = None" for k
  proof -
    obtain l' where "lv p - 1 = Suc l'" using l(1) gr0_conv_Suc by blast
    then show ?thesis using new_node_ptr [of _ s ?nx] inv_ids(5) [OF n(1)] items_zero(1) [OF inv_ids(5) [OF n(1)]] by (simp add: val_def)
  qed
  have v0: "val ?sn (lv p - 1) 0 k = None" for k using inv_ids(5) [OF n(1)] items_zero(1) [OF ids(5)] by (simp add: val_def)
  have vm: "val ?sn l m k = val s l m k" if "at_level s {} lv l m" for l m k
  proof (rule val_sim [where \<rho> = "\<lambda>l q' q. q' = q \<and> at_level s {} lv l q"])
    fix l q' q j assume r: "q' = q \<and> at_level s {} lv (Suc l) q" and j: "j < (32 :: nat)"
    then have "q \<noteq> ?nx" using f(3) ids(6) by (auto simp: at_level_def)
    then show "ptr ?sn q' j = ptr s q j \<and> at_level s {} lv l (ptr s q j)" using r new_node_ptr [OF j, of s q] child_level [OF inv _ j] by simp
  qed (use that in auto)
  have val: "val ?s (lv m) m k = val s (lv m) m k" if m: "m \<in> live s {}" for m k
  proof -
    have "at_level ?sn {} ?lv (lv m) m" "at_level s {} lv (lv m) m" using m n(2) f(3) inv_live(3) [OF inv m] by (auto simp: at_level_def)
    moreover have "val ?sn (?lv p - 1) ?nx k = val ?sn (?lv p - 1) (ptr ?sn p i) k" for k using vn v0 pn(2) np by simp
    ultimately show ?thesis using set_slot_val [OF n(1) pn(1) p(2) _ lq] vm by metis
  qed
  have pr: "m \<noteq> p \<Longrightarrow> pres ?s m = pres ?sn m" for m by (simp add: pres_def set_slot_def)
  have pr': "pres ?sn m = (if m = ?nx then 0 else pres s m)" for m by (simp add: pres_def new_bit_node_def)
  show "own_child L lv ?lv ext p i ?nx s ?s" unfolding own_child_def
  proof (intro conjI ballI allI impI)
    fix m j assume "m \<in> live s {}" "j < 32" "(m, j) \<noteq> (p, i)"
    then show "ptr ?s m j = ptr s m j" using new_node_ptr [of j s m] ps f(3) by auto
  next
    show "pres ?s ?nx = pres s (ptr s p i)" using pr [of ?nx] pr' np items_zero(2) [OF ids(5)] p(4) by (simp add: pres_def new_bit_node_def)
    show "card (dom (bs_nodes ?s)) \<le> Suc (card (dom (bs_nodes s)))" using f(5) finite_store(1) [OF ids(5)] by simp
  next
    fix m assume m: "m \<in> live s {}"
    then show "m \<noteq> p \<Longrightarrow> pres ?s m = pres s m" using pr pr' f(3) by auto
    show "?lv m = lv m" using m f(3) by auto
  qed (use i2 n(2) hn ps f(2) val in simp_all)
  show "\<exists>s1. mark_slot Insert p i ?sn = Inr s1" using b by (simp add: mark_slot_def node_at_def)
  show "slot_write (p, i) ?nx s1 = Inr ?s" if "mark_slot Insert p i ?sn = Inr s1"
    using b that ids(6) by (auto simp: mark_slot_def node_at_def slot_write_def set_slot_def put_node_def)
qed

section \<open>The path to a key\<close>

abbreviation digit :: "nat \<Rightarrow> nat \<Rightarrow> nat" where
  "digit k l \<equiv> k div 32 ^ l mod 32"

text \<open>The nodes on the path of the key \<open>k\<close> below the root \<open>r\<close>, as long as only the path refers to them.\<close>

inductive owned :: "'a bit_store \<Rightarrow> (nat \<Rightarrow> nat) \<Rightarrow> nat \<Rightarrow> nat \<Rightarrow> nat \<Rightarrow> nat \<Rightarrow> nat \<Rightarrow> bool" for s ext L r k where
  root: "owned s ext L r k L r"
| child: "owned s ext L r k (Suc l) p \<Longrightarrow> holders s {} n = {(p, digit k l)} \<Longrightarrow> ext n = 0 \<Longrightarrow> n \<noteq> 0 \<Longrightarrow> 0 < l \<Longrightarrow> owned s ext L r k l n"

lemma owned_top: "owned s ext L r k l n \<Longrightarrow> l \<le> L"
  by (induction rule: owned.induct) simp_all

lemma owned_root: "owned s ext L r k L n \<Longrightarrow> n = r"
  by (erule owned.cases) (auto dest: owned_top)

lemma owned_child: "owned s ext L r k l n \<Longrightarrow> l < L \<Longrightarrow>
    \<exists>p. owned s ext L r k (Suc l) p \<and> holders s {} n = {(p, digit k l)} \<and> ext n = 0 \<and> ptr s p (digit k l) = n"
  by (erule owned.cases) (auto simp: holders_def)

lemma owned_live:
  assumes "owned s ext L r k l n" "bt_inv L {} lv e s" "r \<in> live s {}" "lv r = L"
  shows "n \<in> live s {}" "lv n = l"
proof -
  have "n \<in> live s {} \<and> lv n = l" using assms
  proof (induction rule: owned.induct)
    case (child l p n)
    then have "p \<in> live s {}" "lv p = Suc l" "(p, digit k l) \<in> holders s {} n" by simp_all
    then show ?case using inv_child(2) [OF child.prems(1), of p "digit k l"] child.hyps(4,5) by (auto simp: holders_def)
  qed simp
  then show "n \<in> live s {}" "lv n = l" by simp_all
qed

text \<open>A write below the path leaves its nodes alone.\<close>

lemma owned_mono:
  assumes o: "owned s ext L r k l n" and inv: "bt_inv L {} lv e s" "bt_inv L {} lv' e' s'" and r: "r \<in> live s {}" "lv r = L"
    and same: "\<And>m. m \<in> live s {} \<Longrightarrow> l \<le> lv m \<Longrightarrow> m \<in> live s' {} \<and> lv' m = lv m"
    and up: "\<And>m. m \<in> live s' {} \<Longrightarrow> l < lv' m \<Longrightarrow> m \<in> live s {} \<and> lv m = lv' m \<and> (\<forall>j < 32. ptr s' m j = ptr s m j)"
    and ext: "\<And>m. m \<in> live s {} \<Longrightarrow> l \<le> lv m \<Longrightarrow> ext m = 0 \<Longrightarrow> ext' m = 0"
  shows "owned s' ext' L r k l n"
  using o same up ext
proof (induction rule: owned.induct)
  case (child l p n)
  note pl = owned_live [OF child.hyps(1) inv(1) r]
  have nl: "n \<in> live s {}" "lv n = l" using owned_live [OF owned.child [OF child.hyps] inv(1) r] by simp_all
  have "owned s' ext' L r k (Suc l) p"
  proof (rule child.IH)
    show "m \<in> live s' {} \<and> lv' m = lv m" if "m \<in> live s {}" "Suc l \<le> lv m" for m using child.prems(1) that by simp
    show "m \<in> live s {} \<and> lv m = lv' m \<and> (\<forall>j < 32. ptr s' m j = ptr s m j)" if "m \<in> live s' {}" "Suc l < lv' m" for m
      using child.prems(2) that by simp
    show "ext' m = 0" if "m \<in> live s {}" "Suc l \<le> lv m" "ext m = 0" for m using child.prems(3) that by simp
  qed
  moreover have "holders s' {} n = {(p, digit k l)}"
  proof -
    have "(m, j) \<in> holders s' {} n \<longleftrightarrow> (m, j) \<in> holders s {} n" for m j
    proof
      assume h: "(m, j) \<in> holders s' {} n"
      then have m: "m \<in> live s' {}" "j < 32" "ptr s' m j = n" by (simp_all add: holders_def)
      have nl': "n \<in> live s' {}" "lv' n = l" using child.prems(1) nl by simp_all
      have "n \<notin> dom (bs_items s')" using inv_ids(2) [OF inv(2)] nl'(1) by (auto simp: live_all)
      then have "lv' m \<noteq> 1" using inv_child(1) [OF inv(2) m(1,2)] m(3) child.hyps(4) by blast
      then have "lv' n = lv' m - 1" "0 < lv' m" using inv_child(2) [OF inv(2) m(1,2)] m(3) child.hyps(4) inv_live(3) [OF inv(2) m(1)] by simp_all
      then have "l < lv' m" using nl'(2) child.hyps(5) by simp
      then show "(m, j) \<in> holders s {} n" using child.prems(2) [OF m(1)] m by (simp add: holders_def)
    next
      assume h: "(m, j) \<in> holders s {} n"
      then have mj: "m = p" "j = digit k l" using child.hyps(2) by simp_all
      moreover have "ptr s p (digit k l) = n" "digit k l < 32" using h mj by (simp_all add: holders_def)
      ultimately
      show "(m, j) \<in> holders s' {} n" using child.prems(1) [of p] child.prems(2) [of p] pl by (simp add: holders_def)
    qed
    then show ?thesis using child.hyps(2) by auto
  qed
  moreover have "ext' n = 0" using child.prems(3) nl child.hyps(3) by simp
  ultimately show ?case by (rule owned.child) (use child.hyps(4,5) in simp_all)
qed (rule owned.root)

lemma own_childD:
  assumes "own_child L lv lv' ext p i n s s'"
  shows "bt_inv L {} lv' ext s'" "live s' {} = insert n (live s {})" "\<And>m. m \<in> live s {} \<Longrightarrow> lv' m = lv m" "lv' n = lv p - 1"
    "ptr s' p i = n" "holders s' {} n = {(p, i)}" "ext n = 0" "pres s' n = pres s (ptr s p i)"
    "\<And>m. m \<in> live s {} \<Longrightarrow> m \<noteq> p \<Longrightarrow> pres s' m = pres s m"
    "\<And>m j. m \<in> live s {} \<Longrightarrow> j < 32 \<Longrightarrow> (m, j) \<noteq> (p, i) \<Longrightarrow> ptr s' m j = ptr s m j"
    "\<And>m k. m \<in> live s {} \<Longrightarrow> val s' (lv m) m k = val s (lv m) m k" "card (dom (bs_nodes s')) \<le> Suc (card (dom (bs_nodes s)))"
    "bs_items s \<subseteq>\<^sub>m bs_items s'"
  using assms unfolding own_child_def by simp_all

lemma own_child_owned:
  assumes o: "owned s ext L r k (Suc l) p" and inv: "bt_inv L {} lv ext s" and r: "r \<in> live s {}" "lv r = L"
    and c: "own_child L lv lv' ext p (digit k l) n s s'" "0 < l"
  shows "owned s' ext L r k (Suc l) p" "owned s' ext L r k l n"
proof -
  note pl = owned_live [OF o inv r]
  note d = own_childD [OF c(1)]
  have n: "lv' n = l" "n \<in> live s' {}" using d(2,4) pl(2) by simp_all
  show o2: "owned s' ext L r k (Suc l) p"
  proof (rule owned_mono [OF o inv d(1) r])
    fix m assume m: "m \<in> live s' {}" "Suc l < lv' m"
    then have "m \<in> live s {}" using d(2) n(1) by auto
    moreover from this have "lv' m = lv m" by (rule d(3))
    moreover from this have "m \<noteq> p" using m(2) pl(2) by auto
    ultimately show "m \<in> live s {} \<and> lv m = lv' m \<and> (\<forall>j < 32. ptr s' m j = ptr s m j)" using d(10) [of m] by simp
  next
    show "m \<in> live s' {} \<and> lv' m = lv m" if "m \<in> live s {}" for m using that d(2,3) by simp
  qed
  show "owned s' ext L r k l n"
    by (rule owned.child [OF o2 d(6,7) inv_live(1) [OF d(1) n(2)] c(2)])
qed

text \<open>The write to the leaf at the end of an owned path changes the value of one key of one tree.\<close>

lemma digit_step: "k mod 32 ^ Suc l = (32 :: nat) ^ l * digit k l + k mod 32 ^ l"
  using mod_mult2_eq [of k "32 ^ l" 32] by (simp add: mult.commute)

lemma leaf_write_other:
  assumes inv: "bt_inv L {} lv e s" and r: "r \<in> live s {}" "lv r = L" and o: "owned s ext L r k 1 n"
    and m: "at_level s {} lv l m" "\<not> (owned s ext L r k l m \<and> k' mod 32 ^ l = k mod 32 ^ l)" "0 < l"
  shows "val (set_slot n (digit k 0) q s) l m k' = val s l m k'"
  using m
proof (induction l arbitrary: m)
  case (Suc l)
  let ?s = "set_slot n (digit k 0) q s" and ?j = "digit k' l"
  note nl = owned_live [OF o inv r]
  obtain b where b: "bs_nodes s n = Some b" "digit k 0 < length (pointers b)" using nl(1) inv_shape(1) [OF inv] by (fastforce simp: live_node)
  have ps: "ptr ?s m ?j = ptr s m ?j"
  proof (cases "m = n \<and> ?j = digit k 0")
    case True
    moreover from this have "l = 0" using Suc.prems(1) nl inv_live(1) [OF inv nl(1)] by (simp add: at_level_def)
    ultimately show ?thesis using Suc.prems(2) o by simp
  qed (simp only: ptr_set_slot [OF b] if_False)
  have jl: "?j < 32" by simp
  note cl = child_level [OF inv Suc.prems(1) jl]
  have "val ?s l (ptr s m ?j) k' = val s l (ptr s m ?j) k'"
  proof (cases "l = 0 \<or> ptr s m ?j = 0")
    case True
    then show ?thesis using inv_ids(5) [OF inv] by (auto simp: val_def)
  next
    case False
    have "\<not> (owned s ext L r k l (ptr s m ?j) \<and> k' mod 32 ^ l = k mod 32 ^ l)"
    proof
      assume a: "owned s ext L r k l (ptr s m ?j) \<and> k' mod 32 ^ l = k mod 32 ^ l"
      have m: "m \<in> live s {}" "lv m = Suc l"
        using Suc.prems(1) False items_zero(2) [OF inv_ids(5) [OF inv]] by (auto simp: at_level_def ptr_def)
      then have "l < L" using inv_live(4) [OF inv m(1)] by simp
      then obtain p where p: "owned s ext L r k (Suc l) p" "holders s {} (ptr s m ?j) = {(p, digit k l)}" using a owned_child by blast
      moreover have "(m, ?j) \<in> holders s {} (ptr s m ?j)" using m(1) by (simp add: holders_def)
      ultimately have "m = p" "?j = digit k l" by simp_all
      then show False using Suc.prems(2) p(1) a digit_step [of k l] digit_step [of k' l] by simp
    qed
    then show ?thesis using Suc.IH [OF cl] False by simp
  qed
  then show ?case using ps by (simp add: val_def)
qed simp

lemma owned_cont:
  assumes "owned s ext L r k l n"
    and "\<And>p l'. owned s ext L r k (Suc l') p \<Longrightarrow> l \<le> l' \<Longrightarrow> ptr s' p (digit k l') = ptr s p (digit k l')"
  shows "cont s' L r k = cont s' l n k"
  using assms
proof (induction rule: owned.induct)
  case (child l p n)
  have "cont s' L r k = cont s' (Suc l) p k" by (rule child.IH) (use child.prems in simp)
  moreover have "ptr s' p (digit k l) = n"
  proof -
    have "(p, digit k l) \<in> holders s {} n" using child.hyps(2) by simp
    then show ?thesis using child.prems [OF child.hyps(1)] by (simp add: holders_def)
  qed
  ultimately show ?case by simp
qed simp

lemma leaf_write:
  assumes inv: "bt_inv L {} lv e s" and r: "r \<in> live s {}" "lv r = L" "r' \<in> live s {}" "lv r' = L" and o: "owned s ext L r k 1 n"
    and k: "k < 32 ^ L" "k' < 32 ^ L"
  shows "val (set_slot n (digit k 0) q s) L r' k' = (if r' = r \<and> k' = k then bs_items s q else val s L r' k')"
proof (cases "r' = r \<and> k' = k")
  case False
  have "at_level s {} lv L r'" using live_level [of r' s "{}" lv] r(3,4) inv_live(3) [OF inv r(3)] by simp
  moreover have "\<not> (owned s ext L r k L r' \<and> k' mod 32 ^ L = k mod 32 ^ L)" using False k owned_root by fastforce
  moreover have "0 < L" using inv_live(3,4) [OF inv r(1)] by simp
  ultimately have "val (set_slot n (digit k 0) q s) L r' k' = val s L r' k'" by (rule leaf_write_other [OF inv r(1,2) o])
  then show ?thesis using False by (simp only: if_False)
next
  case True
  let ?s = "set_slot n (digit k 0) q s"
  note nl = owned_live [OF o inv r(1,2)]
  obtain b where b: "bs_nodes s n = Some b" "digit k 0 < length (pointers b)" using nl(1) inv_shape(1) [OF inv] by (fastforce simp: live_node)
  have "cont ?s L r k = cont ?s 1 n k"
  proof (rule owned_cont [OF o])
    fix p l' assume "owned s ext L r k (Suc l') p" "1 \<le> l'"
    then have "lv p \<noteq> lv n" using owned_live(2) [OF _ inv r(1,2)] nl(2) by fastforce
    then have "\<not> (p = n \<and> digit k l' = digit k 0)" by auto
    then show "ptr ?s p (digit k l') = ptr s p (digit k l')" by (simp only: ptr_set_slot [OF b] if_False)
  qed
  also have "\<dots> = q" using ptr_set_slot [OF b, of q n] by simp
  finally show ?thesis using True by (simp add: val_def)
qed

section \<open>Descent for an insertion\<close>

lemma level_digit: "get_level_index index (Suc l) = digit (unat index) l"
proof -
  have "drop_bit (5 * l) index AND 31 = take_bit 5 (drop_bit (5 * l) index)" by (simp add: take_bit_eq_mask mask_eq_exp_minus_1)
  then have "unat (drop_bit (5 * l) index AND 31) = take_bit 5 (drop_bit (5 * l) (unat index))"
    by (simp only: unat_drop_bit_eq unsigned_take_bit_eq)
  then have "unat (drop_bit (5 * l) index AND 31) = unat index div 2 ^ (5 * l) mod 2 ^ 5"
    by (simp only: drop_bit_eq_div take_bit_eq_mod)
  then show ?thesis by (simp add: get_level_index_def power_mult)
qed

definition descend :: "bit_tree \<Rightarrow> u32 \<Rightarrow> entry_action \<Rightarrow> nat \<Rightarrow> nat \<Rightarrow> 'a bit_store \<Rightarrow> ((nat \<times> nat) option \<times> 'a bit_store) outcome" where
  "descend t index action l node s =
     (let i = digit (unat index) l
      in if l = 0 then bind_ok (mark_slot action node i s) (\<lambda>s. Inr (Some (node, i), s))
         else
           bind_ok (slot_read s (node, i)) (\<lambda>c.
             if c = 0 \<and> action \<noteq> Insert then Inr (None, s)
             else
               bind_ok
                 (if c = 0 then
                    let (c, s) = alloc_node new_bit_node s
                    in bind_ok (mark_slot Insert node i s) (\<lambda>s. bind_ok (slot_write (node, i) c s) (\<lambda>s. Inr (c, s)))
                  else Inr (c, s)) (\<lambda>(c, s).
               bind_ok (get_entry_ref t index action l (Some (node, i)) c s) (\<lambda>(ref, s).
                 if action = Delete then bind_ok (prune t (Suc l) node i s) (\<lambda>s. Inr (ref, s)) else Inr (ref, s)))))"

lemma get_entry_ref_Suc:
  "get_entry_ref t index action (Suc l) ref node s =
    bind_ok (if action \<noteq> Lookup then unshare (Suc l) ref node s else Inr (node, s)) (\<lambda>(node, s). descend t index action l node s)"
  by (simp only: get_entry_ref.simps level_digit descend_def)

declare get_entry_ref.simps [simp del]

definition full :: "nat \<Rightarrow> (nat \<Rightarrow> nat) \<Rightarrow> nat set \<Rightarrow> 'a bit_store \<Rightarrow> bool" where
  "full L lv P s \<longleftrightarrow> (\<forall>m \<in> live s {}. lv m < L \<and> m \<notin> P \<longrightarrow> pres s m \<noteq> 0)"

text \<open>An edit that changes no value of the nodes that were there.\<close>

definition edited :: "nat \<Rightarrow> (nat \<Rightarrow> nat) \<Rightarrow> (nat \<Rightarrow> nat) \<Rightarrow> (nat \<Rightarrow> nat) \<Rightarrow> 'a bit_store \<Rightarrow> 'a bit_store \<Rightarrow> bool" where
  "edited L lv lv' ext s s' \<longleftrightarrow> bt_inv L {} lv' ext s' \<and> live s {} \<subseteq> live s' {} \<and> (\<forall>m \<in> live s {}. lv' m = lv m)
     \<and> (\<forall>m \<in> live s {}. \<forall>k. val s' (lv m) m k = val s (lv m) m k) \<and> bs_items s \<subseteq>\<^sub>m bs_items s'"

lemma editedD:
  assumes "edited L lv lv' ext s s'"
  shows "bt_inv L {} lv' ext s'" "\<And>m. m \<in> live s {} \<Longrightarrow> m \<in> live s' {}" "\<And>m. m \<in> live s {} \<Longrightarrow> lv' m = lv m"
    "\<And>m k. m \<in> live s {} \<Longrightarrow> val s' (lv m) m k = val s (lv m) m k" "bs_items s \<subseteq>\<^sub>m bs_items s'"
  using assms unfolding edited_def by auto

lemma edited_refl: "bt_inv L {} lv ext s \<Longrightarrow> edited L lv lv ext s s"
  by (simp add: edited_def)

lemma edited_own: "own_child L lv lv' ext p i n s s' \<Longrightarrow> edited L lv lv' ext s s'"
  using own_childD [of L lv lv' ext p i n s s'] unfolding edited_def by blast

lemma edited_trans:
  assumes "edited L lv lv1 ext s s1" "edited L lv1 lv2 ext s1 s2"
  shows "edited L lv lv2 ext s s2"
proof -
  note a = editedD [OF assms(1)] and b = editedD [OF assms(2)]
  have "val s2 (lv m) m k = val s (lv m) m k" if "m \<in> live s {}" for m k
    using a(3,4) [OF that] b(4) [OF a(2) [OF that], of k] by simp
  moreover have "lv2 m = lv m" "m \<in> live s2 {}" if "m \<in> live s {}" for m using a(2,3) [OF that] b(2,3) by simp_all
  ultimately show ?thesis unfolding edited_def using b(1) map_le_trans [OF a(5) b(5)] by blast
qed

lemma unshare_own:
  assumes inv: "bt_inv L {} lv ext s" and n: "n \<in> live s {}" "card (holders s {} n) + ext n = 1"
  shows "unshare l ref n s = Inr (n, s)"
proof -
  obtain b where b: "bs_nodes s n = Some b" using n(1) by (auto simp: live_node)
  then have "unat (node_refs b) = 1" using inv_shape(5) [OF inv _ b] n(2) by simp
  then have "node_refs b = 1" by unat_arith
  then show ?thesis using b by (simp add: unshare_def node_at_def)
qed

lemma slot_read_ptr: "n \<in> live s {} \<Longrightarrow> slot_read s (n, i) = Inr (ptr s n i)"
  by (auto simp: slot_read_def ptr_def live_node)

lemma pres_child:
  assumes inv: "bt_inv L {} lv ext s" and p: "p \<in> live s {}" "i < 32" "ptr s p i \<noteq> 0"
  shows "pres s p \<noteq> 0"
proof -
  obtain b where b: "bs_nodes s p = Some b" using p(1) by (auto simp: live_node)
  then have "bit (present_bits b) i" using inv_shape(4) [OF inv _ b p(2)] p(3) by (simp add: ptr_def)
  then show ?thesis using b by (auto simp: pres_def)
qed

lemma own_child_full:
  assumes inv: "bt_inv L {} lv ext s" and p: "p \<in> live s {}" "i < 32" and f: "full L lv {p} s" and c: "own_child L lv lv' ext p i n s s'"
  shows "full L lv' {n} s'"
  unfolding full_def
proof (intro ballI impI)
  fix m assume m: "m \<in> live s' {}" "lv' m < L \<and> m \<notin> {n}"
  note d = own_childD [OF c]
  have ms: "m \<in> live s {}" using m d(2) by auto
  show "pres s' m \<noteq> 0"
  proof (cases "m = p")
    case True
    have "n \<in> live s' {}" using d(2) by simp
    then show ?thesis using pres_child [OF d(1) m(1) p(2)] True d(5) inv_live(1) [OF d(1)] by simp
  next
    case False
    then show ?thesis using f ms d(3,9) [OF ms] m(2) unfolding full_def by auto
  qed
qed

text \<open>One level down: the child of the slot, fresh or copied if need be.\<close>

lemma own_step:
  assumes inv: "bt_inv L {} lv ext s" and p: "p \<in> live s {}" "i < 32" "1 < lv p" and few: "few_nodes 3 s" "\<And>q. ext q \<le> 1"
    and l: "lv p = Suc (Suc l)" "i = digit (unat index) (Suc l)" and a: "action = Insert \<or> action = Delete \<and> ptr s p i \<noteq> 0"
  shows "\<exists>n s' lv'. own_child L lv lv' ext p i n s s' \<and>
    descend t index action (Suc l) p s = bind_ok (descend t index action l n s') (\<lambda>(ref, s).
      if action = Delete then bind_ok (prune t (Suc (Suc l)) p i s) (\<lambda>s. Inr (ref, s)) else Inr (ref, s))"
proof (cases "ptr s p i = 0")
  case True
  then have a: "action = Insert" using a by simp
  note g = grow_child [OF inv p True]
  let ?n = "bs_next s" and ?s = "set_slot p i (bs_next s) (with_node new_bit_node s)"
  have alloc: "alloc_node new_bit_node s = (?n, with_node new_bit_node s)" by (simp add: with_node_def alloc_node_def)
  obtain s1 where s1: "mark_slot Insert p i (with_node new_bit_node s) = Inr s1" using g(3) by blast
  note d = own_childD [OF g(1)]
  have "unshare (Suc l) (Some (p, i)) ?n ?s = Inr (?n, ?s)" by (rule unshare_own [OF d(1)]) (use d(2,6,7) in simp_all)
  then have "descend t index action (Suc l) p s = bind_ok (descend t index action l ?n ?s) (\<lambda>(ref, s).
      if action = Delete then bind_ok (prune t (Suc (Suc l)) p i s) (\<lambda>s. Inr (ref, s)) else Inr (ref, s))"
    using True s1 g(2) [OF s1] a l(2) slot_read_ptr [OF p(1), of i] get_entry_ref_Suc [of t index Insert l "Some (p, i)" ?n ?s]
    by (simp add: descend_def [of t index Insert "Suc l"] alloc)
  then show ?thesis using g(1) by blast
next
  case False
  obtain n s' lv' where u: "unshare (Suc l) (Some (p, i)) (ptr s p i) s = Inr (n, s')" "own_child L lv lv' ext p i n s s'"
    using unshare_ok [OF inv p refl False few] l(1) by auto
  have "action \<noteq> Lookup" using a by auto
  then have "descend t index action (Suc l) p s = bind_ok (descend t index action l n s') (\<lambda>(ref, s).
      if action = Delete then bind_ok (prune t (Suc (Suc l)) p i s) (\<lambda>s. Inr (ref, s)) else Inr (ref, s))"
    using False u(1) slot_read_ptr [OF p(1), of i] get_entry_ref_Suc [of t index action l "Some (p, i)" "ptr s p i" s]
    unfolding l(2) by (simp add: descend_def [of t index action "Suc l"] Let_def del: power_Suc)
  then show ?thesis using u(2) by blast
qed

lemma bind_ok_return [simp]: "bind_ok m Inr = m"
  by (cases m) auto

lemma few_own: "few_nodes (Suc j) s \<Longrightarrow> own_child L lv lv' ext p i n s s' \<Longrightarrow> few_nodes j s'"
  using own_childD(12) [of L lv lv' ext p i n s s'] by (simp add: few_nodes_def)

lemma insert_descend:
  "bt_inv L {} lv ext s \<Longrightarrow> r \<in> live s {} \<Longrightarrow> lv r = L \<Longrightarrow> owned s ext L r (unat index) (Suc l) p \<Longrightarrow> full L lv {p} s \<Longrightarrow>
    few_nodes (3 + l) s \<Longrightarrow> (\<And>q. ext q \<le> 1) \<Longrightarrow>
    \<exists>n s' lv'. descend t index Insert l p s
        = bind_ok (mark_slot Insert n (digit (unat index) 0) s') (\<lambda>s. Inr (Some (n, digit (unat index) 0), s))
      \<and> edited L lv lv' ext s s' \<and> owned s' ext L r (unat index) 1 n \<and> full L lv' {n} s'
      \<and> card (dom (bs_nodes s')) \<le> card (dom (bs_nodes s)) + l"
proof (induction l arbitrary: p s lv)
  case 0
  then show ?case using edited_refl [OF 0(1)] by (intro exI [of _ p] exI [of _ s] exI [of _ lv]) (simp add: descend_def Let_def)
next
  case (Suc l)
  let ?i = "digit (unat index) (Suc l)"
  note inv = Suc.prems(1) and pl = owned_live [OF Suc.prems(4,1-3)]
  have i: "?i < 32" "1 < lv p" using pl(2) by simp_all
  have f: "few_nodes 3 s" "few_nodes (Suc (3 + l)) s" using Suc.prems(6) by (simp_all add: few_nodes_def)
  obtain n s1 lv1 where o: "own_child L lv lv1 ext p ?i n s s1" and st: "descend t index Insert (Suc l) p s = descend t index Insert l n s1"
    using own_step [OF inv pl(1) i f(1) Suc.prems(7) pl(2) refl, of Insert t] by auto
  note d = own_childD [OF o]
  have r: "r \<in> live s1 {}" "lv1 r = L" using d(2,3) Suc.prems(2,3) by simp_all
  note w = own_child_owned [OF Suc.prems(4,1-3) o zero_less_Suc]
  from Suc.IH [OF d(1) r w(2) own_child_full [OF inv pl(1) i(1) Suc.prems(5) o] few_own [OF f(2) o] Suc.prems(7)]
  obtain n2 s2 lv2 where h: "descend t index Insert l n s1 = bind_ok (mark_slot Insert n2 (digit (unat index) 0) s2) (\<lambda>s. Inr (Some (n2, digit (unat index) 0), s))"
      "edited L lv1 lv2 ext s1 s2" "owned s2 ext L r (unat index) 1 n2" "full L lv2 {n2} s2" "card (dom (bs_nodes s2)) \<le> card (dom (bs_nodes s1)) + l"
    by blast
  have "edited L lv lv2 ext s s2" by (rule edited_trans [OF edited_own [OF o] h(2)])
  moreover have "card (dom (bs_nodes s2)) \<le> card (dom (bs_nodes s)) + Suc l" using h(5) d(12) by simp
  ultimately show ?case using st h(1,3,4) by (intro exI [of _ n2] exI [of _ s2] exI [of _ lv2]) simp
qed

lemma mark_write:
  assumes "bs_nodes s n = Some b" "q \<noteq> 0"
  shows "\<exists>s1. mark_slot Insert n i s = Inr s1 \<and> slot_read s1 (n, i) = Inr (ptr s n i) \<and> slot_write (n, i) q s1 = Inr (set_slot n i q s)"
  using assms by (auto simp: mark_slot_def node_at_def slot_read_def slot_write_def set_slot_def put_node_def ptr_def)

section \<open>Trees\<close>

text \<open>The roots \<open>R\<close> and the items \<open>H\<close> that are held outside of the trees.\<close>

definition tree_ext :: "nat set \<Rightarrow> nat set \<Rightarrow> nat \<Rightarrow> nat" where
  "tree_ext R H q = (if q \<in> R \<union> H then 1 else 0)"

lemma tree_ext_le: "tree_ext R H q \<le> 1"
  by (simp add: tree_ext_def)

definition forest :: "nat \<Rightarrow> nat set \<Rightarrow> nat set \<Rightarrow> (nat \<Rightarrow> nat) \<Rightarrow> 'a bit_store \<Rightarrow> bool" where
  "forest L R H lv s \<longleftrightarrow> bt_inv L {} lv (tree_ext R H) s \<and> R \<subseteq> live s {} \<and> H \<subseteq> dom (bs_items s) \<and> (\<forall>r \<in> R. lv r = L) \<and> full L lv {} s"

lemma forestD:
  assumes "forest L R H lv s"
  shows "bt_inv L {} lv (tree_ext R H) s" "\<And>r. r \<in> R \<Longrightarrow> r \<in> live s {}" "\<And>r. r \<in> R \<Longrightarrow> lv r = L" "H \<subseteq> dom (bs_items s)" "full L lv {} s"
    "\<And>r. r \<in> R \<Longrightarrow> r \<noteq> 0 \<and> r \<notin> H \<and> 0 < L"
proof -
  show inv: "bt_inv L {} lv (tree_ext R H) s" and "full L lv {} s" and H: "H \<subseteq> dom (bs_items s)" using assms unfolding forest_def by simp_all
  show R: "r \<in> live s {}" and l: "lv r = L" if "r \<in> R" for r using assms that unfolding forest_def by auto
  show "r \<noteq> 0 \<and> r \<notin> H \<and> 0 < L" if "r \<in> R" for r
    using R [OF that] l [OF that] inv_live(1,3) [OF inv R [OF that]] inv_ids(2) [OF inv] H by (auto simp: live_all)
qed

lemma root_holders:
  assumes inv: "bt_inv L {} lv ext s" and r: "r \<in> live s {}" "lv r = L"
  shows "holders s {} r = {}"
proof -
  have False if m: "m \<in> live s {}" "j < 32" "ptr s m j = r" for m j
  proof (cases "lv m = 1")
    case True
    then show ?thesis using inv_child(1) [OF inv m(1,2)] m(3) inv_live(1) [OF inv r(1)] inv_ids(2) [OF inv] r(1) by (auto simp: live_all)
  next
    case False
    then have "L = lv m - 1" using inv_child(2) [OF inv m(1,2)] m(3) inv_live(1) [OF inv r(1)] r(2) by simp
    then show ?thesis using inv_live(3,4) [OF inv m(1)] by simp
  qed
  then show ?thesis by (auto simp: holders_def)
qed

lemma root_entry:
  assumes f: "forest L R H lv s" and r: "bt_root t \<in> R" "bt_levels t = Suc l" "L = Suc l"
  shows "entry_ref t index action s = descend t index action l (bt_root t) s"
proof -
  note d = forestD [OF f]
  have "card (holders s {} (bt_root t)) + tree_ext R H (bt_root t) = 1"
    using root_holders [OF d(1) d(2,3) [OF r(1)]] r(1) by (simp add: tree_ext_def)
  then have "unshare (Suc l) None (bt_root t) s = Inr (bt_root t, s)" by (rule unshare_own [OF d(1) d(2) [OF r(1)]])
  then show ?thesis by (simp add: entry_ref_def r(2) get_entry_ref_Suc)
qed

lemma items_kept: "bs_items s \<subseteq>\<^sub>m bs_items s' \<Longrightarrow> q \<in> dom (bs_items s) \<Longrightarrow> bs_items s' q = bs_items s q"
  by (auto simp: map_le_def)

text \<open>What an operation does to the values: the key \<open>k\<close> of the tree \<open>r\<close> is set to \<open>v\<close>.\<close>

definition updates :: "nat \<Rightarrow> nat set \<Rightarrow> nat \<Rightarrow> nat \<Rightarrow> 'a option \<Rightarrow> 'a bit_store \<Rightarrow> 'a bit_store \<Rightarrow> bool" where
  "updates L R r k v s s' \<longleftrightarrow> (\<forall>r' \<in> R. \<forall>k' < 32 ^ L. val s' L r' k' = (if r' = r \<and> k' = k then v else val s L r' k'))"

lemma leaf_updates:
  assumes f: "edited L lv lv1 ext s s1" "owned s1 ext L r k 1 n" "\<And>r'. r' \<in> R \<Longrightarrow> r' \<in> live s {} \<and> lv r' = L" "r \<in> R" "k < 32 ^ L"
  shows "updates L R r k (bs_items s1 q) s (set_slot n (digit k 0) q s1)" "bs_items s1 (ptr s1 n (digit k 0)) = val s L r k"
proof -
  note e = editedD [OF f(1)]
  have R: "r' \<in> live s1 {}" "lv1 r' = L" "val s1 L r' k' = val s L r' k'" if "r' \<in> R" for r' k'
    using f(3) [OF that] e(2,3) e(4) [of r' k'] by auto
  show "updates L R r k (bs_items s1 q) s (set_slot n (digit k 0) q s1)" unfolding updates_def
    using leaf_write [OF e(1) R(1,2) [OF f(4)] R(1,2) f(2,5)] R(3) by auto
  have "cont s1 L r k = cont s1 1 n k" by (rule owned_cont [OF f(2) refl])
  then show "bs_items s1 (ptr s1 n (digit k 0)) = val s L r k" using R(3) [OF f(4), of k] by (simp add: val_def)
qed

lemma full_set_slot:
  assumes f: "full L lv {n} s" and inv: "bt_inv L {} lv e (set_slot n i q s)" and n: "n \<in> live s {}" "i < 32" "q \<noteq> 0" "ptr (set_slot n i q s) n i = q"
  shows "full L lv {} (set_slot n i q s)"
  unfolding full_def
proof (intro ballI impI)
  fix m assume m: "m \<in> live (set_slot n i q s) {}" "lv m < L \<and> m \<notin> {}"
  show "pres (set_slot n i q s) m \<noteq> 0"
  proof (cases "m = n")
    case True
    then show ?thesis using pres_child [OF inv m(1) n(2)] n(3,4) by simp
  next
    case False
    then have "pres (set_slot n i q s) m = pres s m" by (simp add: pres_def set_slot_def)
    then show ?thesis using f m False by (simp add: full_def)
  qed
qed

definition held :: "nat \<Rightarrow> nat set" where
  "held p = (if p = 0 then {} else {p})"

lemma bt_insert_ok:
  assumes f: "forest L R H lv s" and t: "bt_root t \<in> R" "bt_levels t = L" and k: "adjust_index t index = Some i" "unat i < 32 ^ L"
    and item: "item \<in> H" and few: "few_nodes (3 + L) s"
  shows "\<exists>p s' lv'. bt_insert t index item s = Inr (p, s') \<and> forest L R (H - {item} \<union> held p) lv' s' \<and> p \<notin> H
    \<and> bs_items s' p = val s L (bt_root t) (unat i) \<and> updates L R (bt_root t) (unat i) (bs_items s item) s s'
    \<and> (\<forall>h \<in> H. bs_items s' h = bs_items s h) \<and> card (dom (bs_nodes s')) \<le> card (dom (bs_nodes s)) + L"
proof -
  note d = forestD [OF f]
  let ?r = "bt_root t" and ?k = "unat i" and ?x = "tree_ext R H"
  obtain l where l: "L = Suc l" using d(6) [OF t(1)] gr0_conv_Suc by blast
  have "owned s ?x L ?r ?k (Suc l) ?r" using owned.root [of s ?x L ?r ?k] unfolding l .
  moreover have "full L lv {?r} s" using d(5) by (simp add: full_def)
  moreover have "few_nodes (3 + l) s" using few l by (simp add: few_nodes_def)
  ultimately obtain n s1 lv1 where h: "descend t i Insert l ?r s = bind_ok (mark_slot Insert n (digit ?k 0) s1) (\<lambda>s. Inr (Some (n, digit ?k 0), s))"
      "edited L lv lv1 ?x s s1" "owned s1 ?x L ?r ?k 1 n" "full L lv1 {n} s1" "card (dom (bs_nodes s1)) \<le> card (dom (bs_nodes s)) + l"
    using insert_descend [OF d(1) d(2,3) [OF t(1)], of i l ?r t] tree_ext_le by blast
  note e = editedD [OF h(2)]
  have R: "r' \<in> live s1 {}" "lv1 r' = L" if "r' \<in> R" for r' using d(2,3) [OF that] e(2,3) by auto
  note nl = owned_live [OF h(3) e(1) R [OF t(1)]]
  let ?i = "digit ?k 0" and ?p = "ptr s1 n (digit ?k 0)" and ?s = "set_slot n (digit (unat i) 0) item s1"
  have si: "item \<in> dom (bs_items s)" using item d(4) by blast
  then have it: "item \<in> dom (bs_items s1)" "item \<noteq> 0" "?i < 32"
    using subsetD [OF map_le_implies_dom_le [OF e(5)]] inv_ids(1) [OF d(1), of item] by (blast, simp, simp)
  obtain b where b: "bs_nodes s1 n = Some b" "?i < length (pointers b)" using nl(1) inv_shape(1) [OF e(1)] by (fastforce simp: live_node)
  have ph: "?p \<notin> R \<union> H" 
  proof (cases "?p = 0")
    case False
    then have "?p \<in> dom (bs_items s1)" using inv_child(1) [OF e(1) nl(1) it(3)] nl(2) by simp
    moreover have "0 < card (holders s1 {} ?p)"
      using nl(1) it(3) finite_store(3) [OF inv_ids(5) [OF e(1)]] by (force simp: card_gt_0_iff holders_def)
    ultimately have "?x ?p = 0" using inv_items(1) [OF e(1), of ?p] by simp
    then show ?thesis by (simp add: tree_ext_def split: if_splits)
  qed (use ext_null [OF e(1)] in \<open>simp add: tree_ext_def split: if_splits\<close>)
  have inv: "bt_inv L {} lv1 (tree_ext R (H - {item} \<union> held ?p)) ?s"
  proof (rule set_slot_inv [OF e(1) nl(1) it(3)])
    show "at_level s1 {} lv1 (lv1 n - 1) item" using it nl(2) by (simp add: at_level_def)
    show "tree_ext R (H - {item} \<union> held ?p) q + (if q = item then 1 else 0) = ?x q + (if q = ?p then 1 else 0)" if "q \<noteq> 0" for q
      using that ph item d(6) by (auto simp: tree_ext_def held_def)
    show "tree_ext R (H - {item} \<union> held ?p) 0 = 0" using ext_null [OF e(1)] by (auto simp: tree_ext_def held_def split: if_splits)
  qed
  have "forest L R (H - {item} \<union> held ?p) lv1 ?s" unfolding forest_def
  proof (intro conjI)
    show "full L lv1 {} ?s" by (rule full_set_slot [OF h(4) inv nl(1) it(3,2)]) (simp only: ptr_set_slot [OF b], simp)
    have "held ?p \<subseteq> dom (bs_items s1)" using inv_child(1) [OF e(1) nl(1) it(3)] nl(2) by (auto simp: held_def)
    then show "H - {item} \<union> held ?p \<subseteq> dom (bs_items ?s)" using d(4) map_le_implies_dom_le [OF e(5)] by auto
  qed (use inv R in auto)
  moreover have "bt_insert t index item s = Inr (?p, ?s)"
    using mark_write [OF b(1) it(2), of ?i] h(1) root_entry [OF f t(1) _ l] k(1) t(2) l by (auto simp: bt_insert_def)
  moreover have "bs_items s1 item = bs_items s item" by (rule items_kept [OF e(5) si])
  moreover have "updates L R ?r ?k (bs_items s1 item) s ?s" "bs_items s1 ?p = val s L ?r ?k"
    using leaf_updates [OF h(2,3) _ t(1) k(2)] d(2,3) by simp_all
  moreover have "\<forall>h \<in> H. bs_items s1 h = bs_items s h" using items_kept [OF e(5)] d(4) by blast
  ultimately show ?thesis using ph h(5) l by (intro exI [of _ ?p] exI [of _ ?s] exI [of _ lv1]) simp
qed

end
