(* ===== verification/Bit_Tree_Removal.thy ===== *)
theory Bit_Tree_Removal
  imports Bit_Tree_Edits
begin

text \<open>
  Removal from the tree of bits. The bit of a leaf is cleared on the way down and its pointer only after
  the way back, on which empty nodes go; the leaf may be gone by then. The state in between is the
  final one with a pointer left behind.
\<close>

section \<open>The pointer that is left behind\<close>

definition slot_node :: "'a bit_store \<Rightarrow> nat \<Rightarrow> bit_node option" where
  "slot_node s n = (case bs_nodes s n of Some b \<Rightarrow> Some b | None \<Rightarrow> bs_freed s n)"

definition pend :: "nat \<Rightarrow> nat \<Rightarrow> nat \<Rightarrow> 'a bit_store \<Rightarrow> 'a bit_store" where
  "pend n i q s =
     (case bs_nodes s n of Some b \<Rightarrow> put_node n (b\<lparr>pointers := (pointers b)[i := q]\<rparr>) s
      | None \<Rightarrow> (case bs_freed s n of None \<Rightarrow> s | Some b \<Rightarrow> s\<lparr>bs_freed := (bs_freed s)(n \<mapsto> b\<lparr>pointers := (pointers b)[i := q]\<rparr>)\<rparr>))"

text \<open>The slot is empty but for the pointer.\<close>

definition vacant :: "'a bit_store \<Rightarrow> nat \<Rightarrow> nat \<Rightarrow> bool" where
  "vacant s n i \<longleftrightarrow> (\<exists>b. slot_node s n = Some b \<and> length (pointers b) = 32 \<and> pointers b ! i = 0 \<and> i < 32)"

lemma pend_slot:
  assumes "vacant s n i"
  shows "slot_read (pend n i q s) (n, i) = Inr q" "slot_write (n, i) 0 (pend n i q s) = Inr s"
proof -
  obtain b where b: "slot_node s n = Some b" "length (pointers b) = 32" "pointers b ! i = 0" "i < 32" using assms by (auto simp: vacant_def)
  have u: "(pointers b)[i := 0] = pointers b" using b(3) list_update_id [of "pointers b" i] by simp
  show "slot_read (pend n i q s) (n, i) = Inr q"
    using b by (auto simp: slot_read_def pend_def slot_node_def put_node_def split: option.splits)
  have "b\<lparr>pointers := pointers b\<rparr> = b" by simp
  then show "slot_write (n, i) 0 (pend n i q s) = Inr s"
    using b u by (auto simp: slot_write_def pend_def slot_node_def put_node_def fun_upd_idem split: option.splits)
qed

lemma mark_delete:
  assumes inv: "bt_inv L {} lv ext s" and n: "n \<in> live s {}" "i < 32"
  shows "mark_slot Delete n i s = Inr (pend n i (ptr s n i) (set_slot n i 0 s))" "vacant (set_slot n i 0 s) n i"
proof -
  obtain b where b: "bs_nodes s n = Some b" using n(1) by (auto simp: live_node)
  have l: "length (pointers b) = 32" using inv_shape(1) [OF inv _ b] by simp
  show "mark_slot Delete n i s = Inr (pend n i (ptr s n i) (set_slot n i 0 s))"
    using b by (simp add: mark_slot_def node_at_def pend_def set_slot_def put_node_def ptr_def)
  show "vacant (set_slot n i 0 s) n i" using b l n(2) by (simp add: vacant_def slot_node_def set_slot_def)
qed

section \<open>Cutting off an empty child\<close>

definition cut :: "nat \<Rightarrow> nat \<Rightarrow> nat \<Rightarrow> 'a bit_store \<Rightarrow> 'a bit_store" where
  "cut p i c s =
     (let s1 = retired c (set_slot p i 0 s)
      in s1\<lparr>bs_nodes := (bs_nodes s1)(c := None), bs_freed := (bs_freed s1)(c := bs_nodes s1 c)\<rparr>)"

lemma for_each_skip: "(\<And>x. x \<in> set xs \<Longrightarrow> f x s = Inr s) \<Longrightarrow> for_each f xs s = Inr s"
  by (induction xs) simp_all

lemma free_empty:
  assumes "bs_nodes s c = Some b" "node_refs b = 1" "l = 0 \<or> set (pointers b) \<subseteq> {0}" "c \<noteq> bt_root t"
  shows "free_node t c (Suc l) False s
    = Inr (s\<lparr>bs_nodes := (bs_nodes s)(c := None), bs_freed := (bs_freed s)(c \<mapsto> b\<lparr>node_refs := 0\<rparr>)\<rparr>)"
proof -
  let ?s = "put_node c (b\<lparr>node_refs := 0\<rparr>) s"
  have "for_each (\<lambda>c s. if c = 0 then Inr s else if l = 0 then (if False then delete_item c s else Inr s)
        else bind_ok (node_free l False c s) (\<lambda>(last, s). if last then delete_bit_node c s else Inr s)) (pointers b) ?s = Inr ?s"
    by (rule for_each_skip) (use assms(3) in auto)
  then show ?thesis using assms(1,2,4) by (simp add: free_node_def node_at_def delete_bit_node_def put_node_def)
qed

lemma pend_nodes:
  "bs_nodes (pend n j q s) m = (if m = n then map_option (\<lambda>b. b\<lparr>pointers := (pointers b)[j := q]\<rparr>) (bs_nodes s n) else bs_nodes s m)"
  by (simp add: pend_def put_node_def split: option.splits)

lemma prune_keep:
  assumes "p \<in> live s {}" "p \<noteq> n" "ptr s p i = c" "c \<in> live s {}" "pres s c \<noteq> 0"
  shows "prune t l p i (pend n j q s) = Inr (pend n j q s)"
proof -
  obtain bp cb where b: "bs_nodes s p = Some bp" "bs_nodes s c = Some cb" using assms(1,4) by (auto simp: live_node)
  have "pointers bp ! i = c" "present_bits cb \<noteq> 0" using assms(3,5) b by (simp_all add: ptr_def pres_def)
  then show ?thesis using assms(2) b by (auto simp: prune_def slot_read_def node_at_def pend_nodes)
qed

lemma pend_none:
  assumes "ids_ok s"
  shows "pend 0 i q s = s"
proof -
  have "bs_nodes s 0 = None" "bs_freed s 0 = None" using assms unfolding ids_ok_def by (auto simp: domIff)
  then show ?thesis by (simp add: pend_def)
qed

lemma empty_pointers:
  assumes inv: "bt_inv L {} lv ext s" and c: "bs_nodes s c = Some b" "present_bits b = 0"
  shows "set (pointers b) \<subseteq> {0}"
proof
  fix q assume "q \<in> set (pointers b)"
  then obtain i where "i < 32" "pointers b ! i = q" using inv_shape(1) [OF inv _ c(1)] by (auto simp: in_set_conv_nth)
  then show "q \<in> {0}" using inv_shape(4) [OF inv _ c(1)] c(2) by auto
qed

lemma prune_cut:
  assumes inv: "bt_inv L {} lv ext s" and p: "p \<in> live s {}" "i < 32" "1 < lv p" "p \<noteq> n" and c: "ptr s p i = c" "c \<noteq> 0"
    and o: "holders s {} c = {(p, i)}" "ext c = 0" "pres s c = 0" "c \<noteq> bt_root t" and n: "n \<in> live s {} \<Longrightarrow> lv n = 1"
  shows "prune t (lv p) p i (pend n j q s) = Inr (pend n j q (cut p i c s))"
proof -
  have cl: "c \<in> live s {}" "lv c = lv p - 1" using inv_child(2) [OF inv p(1,2)] c p(3) by auto
  obtain l where l: "lv c = Suc l" using cl(2) p(3) by (metis Suc_diff_1 Suc_diff_Suc One_nat_def)
  obtain bp cb where b: "bs_nodes s p = Some bp" "bs_nodes s c = Some cb" using p(1) cl(1) by (auto simp: live_node)
  have cp: "c \<noteq> p" using cl(2) p(3) by auto
  have "unat (node_refs cb) = 1" using inv_shape(5) [OF inv _ b(2)] o(1,2) by simp
  then have r: "node_refs cb = 1" by unat_arith
  have z: "present_bits cb = 0" "set (pointers cb) \<subseteq> {0}" using o(3) b(2) empty_pointers [OF inv b(2)] by (simp_all add: pres_def)
  define cb' where "cb' = (if c = n then cb\<lparr>pointers := (pointers cb)[j := q]\<rparr> else cb)"
  let ?s = "put_node p (bp\<lparr>present_bits := present_bits bp AND NOT (push_bit i 1)\<rparr>) (pend n j q s)"
  have sc: "bs_nodes ?s c = Some cb'" using b(2) cp by (auto simp: put_node_def pend_nodes cb'_def)
  have cb': "node_refs cb' = 1" "present_bits cb' = 0" "l = 0 \<or> set (pointers cb') \<subseteq> {0}"
    using r z n cl(1) l by (auto simp: cb'_def)
  have f: "free_node t c (Suc l) False ?s = Inr (?s\<lparr>bs_nodes := (bs_nodes ?s)(c := None), bs_freed := (bs_freed ?s)(c \<mapsto> cb'\<lparr>node_refs := 0\<rparr>)\<rparr>)"
    by (rule free_empty [OF sc cb'(1,3) o(4)])
  have sp: "bs_nodes (pend n j q s) p = Some bp" "pointers bp ! i = c" "bs_nodes (pend n j q s) c = Some cb'"
    using b p(4) c(1) sc cp by (simp_all add: pend_nodes ptr_def put_node_def)
  have lp: "lv p - 1 = Suc l" using cl(2) l by simp
  let ?e = "put_node p (bp\<lparr>present_bits := present_bits bp AND NOT (push_bit i 1), pointers := (pointers bp)[i := 0]\<rparr>)
      (?s\<lparr>bs_nodes := (bs_nodes ?s)(c := None), bs_freed := (bs_freed ?s)(c \<mapsto> cb'\<lparr>node_refs := 0\<rparr>)\<rparr>)"
  have "prune t (lv p) p i (pend n j q s) = Inr ?e"
    using sp f cb'(2) lp cp by (simp add: prune_def slot_read_def node_at_def mark_slot_def slot_write_def put_node_def)
  moreover have "?e = pend n j q (cut p i c s)"
  proof (rule bit_store.equality)
    show "bs_nodes ?e = bs_nodes (pend n j q (cut p i c s))"
      using b p(4) cp by (auto simp: fun_eq_iff pend_nodes cut_def retired_def set_slot_def put_node_def)
    show "bs_freed ?e = bs_freed (pend n j q (cut p i c s))"
      using b p(4) cp by (auto simp: fun_eq_iff pend_def cut_def retired_def set_slot_def put_node_def cb'_def split: option.splits)
  qed (use b in \<open>simp_all add: pend_def cut_def retired_def set_slot_def put_node_def split: option.splits\<close>)
  ultimately show ?thesis by simp
qed

lemma cut_fields [simp]:
  "bs_items (cut p i c s) = bs_items s" "bs_next (cut p i c s) = bs_next s" "live (cut p i c s) {} = live s {} - {c}"
  by (auto simp: cut_def Let_def live_all retired_def set_slot_def)

lemma cut_vacant: "vacant s n j \<Longrightarrow> n \<noteq> p \<Longrightarrow> c \<noteq> 0 \<Longrightarrow> bs_nodes s c = Some b \<Longrightarrow> c \<noteq> p \<Longrightarrow> vacant (cut p i c s) n j"
  by (auto simp: vacant_def slot_node_def cut_def Let_def retired_def set_slot_def split: option.splits)

lemma cut_ok:
  assumes inv: "bt_inv L {} lv ext s" and p: "p \<in> live s {}" "i < 32" "1 < lv p" and c: "ptr s p i = c" "c \<noteq> 0"
    and o: "holders s {} c = {(p, i)}" "ext c = 0" "pres s c = 0"
  shows "bt_inv L {} lv ext (cut p i c s)"
    "\<And>m j. m \<in> live s {} - {c} \<Longrightarrow> ptr (cut p i c s) m j = (if m = p \<and> j = i then 0 else ptr s m j)"
    "\<And>m. m \<in> live s {} - {c} \<Longrightarrow> m \<noteq> p \<Longrightarrow> pres (cut p i c s) m = pres s m"
    "\<And>m k. m \<in> live s {} - {c} \<Longrightarrow> val (cut p i c s) (lv m) m k = val s (lv m) m k"
    "c \<in> live s {}" "lv c = lv p - 1" "c \<noteq> p"
proof -
  let ?s1 = "set_slot p i 0 s" and ?s2 = "retired c (set_slot p i 0 s)"
  show cl: "c \<in> live s {}" "lv c = lv p - 1" using inv_child(2) [OF inv p(1,2)] c p(3) by auto
  then show cp: "c \<noteq> p" using p(3) by auto
  obtain bp cb where b: "bs_nodes s p = Some bp" "bs_nodes s c = Some cb" using p(1) cl(1) by (auto simp: live_node)
  have z: "present_bits cb = 0" "set (pointers cb) \<subseteq> {0}" using o(3) b(2) empty_pointers [OF inv b(2)] by (simp_all add: pres_def)
  have a0: "at_level s {} lv (lv p - 1) 0" by (simp add: at_level_def)
  have i1: "bt_inv L {} lv (ext(c := 1)) ?s1"
    by (rule set_slot_inv [OF inv p(1,2) a0]) (use c o(2) ext_null [OF inv] in auto)
  have ip: "i < length (pointers bp)" using inv_shape(1) [OF inv _ b(1)] p(2) by simp
  have b1: "bs_nodes ?s1 c = Some cb" using b(2) cp by (simp add: set_slot_def)
  have "unat (node_refs cb) = 1" using inv_shape(5) [OF inv _ b(2)] o(1,2) by simp
  then have r: "node_refs cb = 1" by unat_arith
  have "(\<lambda>q. if q = 0 \<or> q = c then 0 else (ext(c := 1)) q + count_list (pointers cb) q) = ext"
  proof
    fix q
    have "q \<noteq> 0 \<Longrightarrow> count_list (pointers cb) q = 0" using z(2) by (intro count_notin) auto
    then show "(if q = 0 \<or> q = c then 0 else (ext(c := 1)) q + count_list (pointers cb) q) = ext q"
      using o(2) ext_null [OF inv] by simp
  qed
  then have i2: "bt_inv L {c} lv ext ?s2" using retire_inv [OF i1 _ b1 r] by simp
  obtain s3 where s3: "delete_bit_node c ?s2 = Inr s3" "bt_inv L {} lv ext s3"
    using delete_bit_node_inv [OF i2, of "cb\<lparr>node_refs := 0\<rparr>"] b1 by (auto simp: retired_def)
  moreover have "delete_bit_node c ?s2 = Inr (cut p i c s)" using b1 by (simp add: delete_bit_node_def node_at_def cut_def Let_def retired_def)
  ultimately show i3: "bt_inv L {} lv ext (cut p i c s)" by simp
  show "ptr (cut p i c s) m j = (if m = p \<and> j = i then 0 else ptr s m j)" if "m \<in> live s {} - {c}" for m j
  proof -
    have "ptr (cut p i c s) m j = ptr ?s1 m j" using that by (simp add: ptr_def cut_def Let_def retired_def)
    then show ?thesis using ptr_set_slot [OF b(1) ip] by simp
  qed
  show "pres (cut p i c s) m = pres s m" if "m \<in> live s {} - {c}" "m \<noteq> p" for m
    using that by (simp add: pres_def cut_def Let_def retired_def set_slot_def)
  have rem: "remains ?s1 (cut p i c s)" by (auto simp: remains_def cut_def Let_def retired_def split: if_splits)
  have pc: "ptr s c j = 0" if "j < 32" for j
    using subsetD [OF z(2), of "pointers cb ! j"] b(2) that inv_shape(1) [OF inv _ b(2)] by (simp add: ptr_def)
  have vc: "val s (lv p - 1) 0 k = val s (lv p - 1) (ptr s p i) k" for k
  proof -
    obtain l where "lv p - 1 = Suc l" using p(3) by (metis Suc_diff_1 Suc_diff_Suc One_nat_def)
    moreover have "ptr s 0 j = 0" for j using items_zero(2) [OF inv_ids(5) [OF inv]] by (simp add: ptr_def)
    ultimately show ?thesis using pc inv_ids(5) [OF inv] c(1) by (simp add: val_def)
  qed
  show "val (cut p i c s) (lv m) m k = val s (lv m) m k" if m: "m \<in> live s {} - {c}" for m k
  proof -
    have ml: "at_level s {} lv (lv m) m" "at_level (cut p i c s) {} lv (lv m) m" using m inv_live(3) [OF inv, of m] by (simp_all add: at_level_def)
    have "val (cut p i c s) (lv m) m k = val ?s1 (lv m) m k" by (rule remains_val [OF i3 inv_ids(5) [OF i1] rem ml(2)])
    also have "\<dots> = val s (lv m) m k" by (rule set_slot_val [OF inv p(1,2) vc a0 ml(1)])
    finally show ?thesis .
  qed
qed

section \<open>Descent for a removal\<close>

definition with_held :: "(nat \<Rightarrow> nat) \<Rightarrow> nat \<Rightarrow> nat \<Rightarrow> nat" where
  "with_held ext q = (if q = 0 then ext else ext(q := 1))"

text \<open>The nodes of the level \<open>l\<close> and above survive, and above it nothing changes.\<close>

definition upper :: "nat \<Rightarrow> (nat \<Rightarrow> nat) \<Rightarrow> (nat \<Rightarrow> nat) \<Rightarrow> 'a bit_store \<Rightarrow> 'a bit_store \<Rightarrow> bool" where
  "upper l lv lv' s s' \<longleftrightarrow> (\<forall>m \<in> live s {}. l \<le> lv m \<longrightarrow> m \<in> live s' {} \<and> lv' m = lv m)
     \<and> (\<forall>m \<in> live s' {}. l < lv' m \<longrightarrow> m \<in> live s {} \<and> lv m = lv' m \<and> (\<forall>j < 32. ptr s' m j = ptr s m j))"

text \<open>The key \<open>k\<close> of the tree \<open>r\<close> is gone, and \<open>q\<close> holds its value.\<close>

definition removed ::
    "nat \<Rightarrow> (nat \<Rightarrow> nat) \<Rightarrow> nat \<Rightarrow> nat \<Rightarrow> (nat \<Rightarrow> nat) \<Rightarrow> (nat \<Rightarrow> nat) \<Rightarrow> nat \<Rightarrow> 'a bit_store \<Rightarrow> 'a bit_store \<Rightarrow> bool" where
  "removed L ext r k lv lv' q s s' \<longleftrightarrow> bt_inv L {} lv' (with_held ext q) s' \<and> ext q = 0
     \<and> (\<forall>m \<in> live s {}. lv m = L \<longrightarrow> (\<forall>k' < 32 ^ L. val s' L m k' = (if m = r \<and> k' = k then None else val s L m k')))
     \<and> bs_items s' q = val s L r k \<and> (q \<noteq> 0 \<longrightarrow> q \<in> dom (bs_items s')) \<and> bs_items s \<subseteq>\<^sub>m bs_items s'"

lemma upper_mono: "upper l lv lv' s s' \<Longrightarrow> l \<le> l' \<Longrightarrow> upper l' lv lv' s s'"
  unfolding upper_def by (meson le_trans less_le_trans not_le)

lemma upperD:
  assumes "upper l lv lv' s s'"
  shows "\<And>m. m \<in> live s {} \<Longrightarrow> l \<le> lv m \<Longrightarrow> m \<in> live s' {} \<and> lv' m = lv m"
    "\<And>m. m \<in> live s' {} \<Longrightarrow> l < lv' m \<Longrightarrow> m \<in> live s {} \<and> lv m = lv' m \<and> (\<forall>j < 32. ptr s' m j = ptr s m j)"
  using assms unfolding upper_def by blast+

lemma upperI:
  assumes "\<And>m. m \<in> live s {} \<Longrightarrow> l \<le> lv m \<Longrightarrow> m \<in> live s' {} \<and> lv' m = lv m"
    "\<And>m. m \<in> live s' {} \<Longrightarrow> l < lv' m \<Longrightarrow> m \<in> live s {} \<and> lv m = lv' m \<and> (\<forall>j < 32. ptr s' m j = ptr s m j)"
  shows "upper l lv lv' s s'"
  using assms unfolding upper_def by blast

lemma upper_trans:
  assumes "upper l lv lv1 s s1" "upper l lv1 lv2 s1 s2"
  shows "upper l lv lv2 s s2"
proof (rule upperI)
  fix m assume "m \<in> live s {}" "l \<le> lv m"
  from upperD(1) [OF assms(1) this] this(2) show "m \<in> live s2 {} \<and> lv2 m = lv m" using upperD(1) [OF assms(2), of m] by simp
next
  fix m assume "m \<in> live s2 {}" "l < lv2 m"
  from upperD(2) [OF assms(2) this] this(2) show "m \<in> live s {} \<and> lv m = lv2 m \<and> (\<forall>j < 32. ptr s2 m j = ptr s m j)"
    using upperD(2) [OF assms(1), of m] by simp
qed

lemma upper_own:
  assumes "own_child L lv lv' ext p i n s s'" "lv p = Suc l" "l \<noteq> 0"
  shows "upper (Suc l) lv lv' s s'"
proof -
  note d = own_childD [OF assms(1)]
  have "m \<in> live s {} \<and> lv m = lv' m \<and> (\<forall>j < 32. ptr s' m j = ptr s m j)" if m: "m \<in> live s' {}" "Suc l < lv' m" for m
  proof -
    have ml: "m \<in> live s {}" using m d(2,4) assms(2) by auto
    moreover from this have l: "lv m = lv' m" using d(3) by simp
    moreover from this have "m \<noteq> p" using m(2) assms(2) by auto
    ultimately show ?thesis using d(10) [OF ml] by simp
  qed
  moreover have "m \<in> live s' {} \<and> lv' m = lv m" if "m \<in> live s {}" for m using d(2,3) that by simp
  ultimately show ?thesis by (intro upperI)
qed

lemma upper_owned:
  assumes "owned s ext L r k l n" "bt_inv L {} lv e s" "bt_inv L {} lv' e' s'" "r \<in> live s {}" "lv r = L" "upper l lv lv' s s'"
  shows "owned s' ext L r k l n"
  by (rule owned_mono [OF assms(1-5)]) (use upperD [OF assms(6)] in blast)+

lemma own_child_full_all:
  assumes inv: "bt_inv L {} lv ext s" and p: "p \<in> live s {}" "i < 32" "1 < lv p" "ptr s p i \<noteq> 0" and f: "full L lv {} s"
    and c: "own_child L lv lv' ext p i n s s'"
  shows "full L lv' {} s'"
proof -
  note d = own_childD [OF c]
  have "ptr s p i \<in> live s {}" "lv (ptr s p i) = lv p - 1" using inv_child(2) [OF inv p(1,2,4)] p(3) by auto
  moreover have "lv p - 1 < L" using p(3) inv_live(4) [OF inv p(1)] by simp
  ultimately have "pres s' n \<noteq> 0" using f d(8) by (simp add: full_def)
  moreover have "full L lv' {n} s'" by (rule own_child_full [OF inv p(1,2) _ c]) (use f in \<open>simp add: full_def\<close>)
  ultimately show ?thesis unfolding full_def by blast
qed

lemma removedD:
  assumes "removed L ext r k lv lv' q s s'"
  shows "bt_inv L {} lv' (with_held ext q) s'" "ext q = 0" "bs_items s' q = val s L r k" "q \<noteq> 0 \<Longrightarrow> q \<in> dom (bs_items s')" "bs_items s \<subseteq>\<^sub>m bs_items s'"
    "\<And>m k'. m \<in> live s {} \<Longrightarrow> lv m = L \<Longrightarrow> k' < 32 ^ L \<Longrightarrow> val s' L m k' = (if m = r \<and> k' = k then None else val s L m k')"
  using assms unfolding removed_def by blast+

lemma removed_edited:
  assumes "edited L lv lv1 ext s s1" "removed L ext r k lv1 lv2 q s1 s2" "r \<in> live s {}" "lv r = L"
  shows "removed L ext r k lv lv2 q s s2"
proof -
  note e = editedD [OF assms(1)] and d = removedD [OF assms(2)]
  have v: "val s1 L m k' = val s L m k'" "m \<in> live s1 {}" "lv1 m = L" if "m \<in> live s {}" "lv m = L" for m k' using e(2,3) e(4) [of m k'] that by auto
  have "val s2 L m k' = (if m = r \<and> k' = k then None else val s L m k')" if "m \<in> live s {}" "lv m = L" "k' < 32 ^ L" for m k'
    using d(6) [OF v(2,3) [OF that(1,2)] that(3)] v(1) [OF that(1,2)] by simp
  then show ?thesis unfolding removed_def using d(1,2,4) d(3) v(1) [OF assms(3,4), of k] map_le_trans [OF e(5) d(5)] by simp
qed

lemma delete_leaf:
  assumes inv: "bt_inv L {} lv ext s" and r: "r \<in> live s {}" "lv r = L" and o: "owned s ext L r k 1 p" and k: "k < 32 ^ L"
    and f: "full L lv {} s"
  shows "removed L ext r k lv lv (ptr s p (digit k 0)) s (set_slot p (digit k 0) 0 s)"
    "upper 1 lv lv s (set_slot p (digit k 0) 0 s)" "full L lv {p} (set_slot p (digit k 0) 0 s)"
proof -
  let ?i = "digit k 0" and ?q = "ptr s p (digit k 0)" and ?s = "set_slot p (digit k 0) 0 s"
  note pl = owned_live [OF o inv r]
  have i: "?i < 32" by simp
  obtain b where b: "bs_nodes s p = Some b" "?i < length (pointers b)" using pl(1) inv_shape(1) [OF inv] by (fastforce simp: live_node)
  have q: "?q \<in> dom (bs_items s)" if "?q \<noteq> 0" using inv_child(1) [OF inv pl(1) i that pl(2)] .
  have e: "ext ?q = 0"
  proof (cases "?q = 0")
    case False
    have "(p, ?i) \<in> holders s {} ?q" using pl(1) by (simp add: holders_def)
    then have "0 < card (holders s {} ?q)" using finite_store(3) [OF inv_ids(5) [OF inv]] card_gt_0_iff by blast
    then show ?thesis using inv_items(1) [OF inv q [OF False]] by simp
  qed (use ext_null [OF inv] in simp)
  have "bt_inv L {} lv (with_held ext ?q) ?s"
  proof (rule set_slot_inv [OF inv pl(1) i])
    show "at_level s {} lv (lv p - 1) 0" by (simp add: at_level_def)
    show "with_held ext ?q x + (if x = 0 then 1 else 0) = ext x + (if x = ?q then 1 else 0)" if "x \<noteq> 0" for x
      using that e by (simp add: with_held_def)
    show "with_held ext ?q 0 = 0" using ext_null [OF inv] by (simp add: with_held_def)
  qed
  moreover have "updates L {m \<in> live s {}. lv m = L} r k (bs_items s 0) s ?s"
    by (rule leaf_updates(1) [OF edited_refl [OF inv] o _ _ k]) (use r in simp_all)
  moreover have "bs_items s ?q = val s L r k"
    by (rule leaf_updates(2) [OF edited_refl [OF inv] o, of "{m \<in> live s {}. lv m = L}"]) (use r k in simp_all)
  moreover have "bs_items s 0 = None" using items_zero(1) [OF inv_ids(5) [OF inv]] .
  ultimately show "removed L ext r k lv lv ?q s ?s" unfolding removed_def updates_def using e q by simp
  show "upper 1 lv lv s ?s"
  proof (rule upperI)
    fix m assume m: "m \<in> live ?s {}" "1 < lv m"
    then have "m \<noteq> p" using pl(2) by auto
    then show "m \<in> live s {} \<and> lv m = lv m \<and> (\<forall>j < 32. ptr ?s m j = ptr s m j)" using m(1) ptr_set_slot [OF b] by simp
  qed simp
  have "m \<noteq> p \<Longrightarrow> pres ?s m = pres s m" for m by (simp add: pres_def set_slot_def)
  then show "full L lv {p} ?s" using f by (simp add: full_def)
qed

text \<open>The way back at one node: its child, if it is empty, is cut off.\<close>

lemma prune_ok:
  assumes rm: "removed L ext r k lv0 lv q s0 s" and up: "\<And>m. m \<in> live s0 {} \<Longrightarrow> lv0 m = L \<Longrightarrow> m \<in> live s {} \<and> lv m = L"
    and p: "p \<in> live s {}" "lv p = Suc (Suc l)" and o: "owned s ext L r k (Suc l) c" "ptr s p (digit k (Suc l)) = c" "r \<in> live s {}" "lv r = L"
    and f: "full L lv {c} s" and n: "n \<in> live s {} \<Longrightarrow> lv n = 1" and v: "v \<Longrightarrow> vacant s n i" and t: "bt_root t = r"
  shows "\<exists>s'. prune t (Suc (Suc l)) p (digit k (Suc l)) (pend n i q s) = Inr (pend n i q s')
    \<and> removed L ext r k lv0 lv q s0 s' \<and> upper (Suc (Suc l)) lv lv s s' \<and> full L lv {p} s' \<and> live s' {} \<subseteq> live s {} \<and> (v \<longrightarrow> vacant s' n i)"
proof -
  let ?i = "digit k (Suc l)"
  note d = removedD [OF rm] and cl = owned_live [OF o(1) removedD(1) [OF rm] o(3,4)]
  have i: "?i < 32" "1 < lv p" "p \<noteq> n" using p n by auto
  have "Suc l < L" using inv_live(4) [OF d(1) p(1)] p(2) by simp
  then obtain p' where h: "holders s {} c = {(p', ?i)}" "ext c = 0" using owned_child [OF o(1)] by blast
  have "(p, ?i) \<in> holders s {} c" using p(1) o(2) by (simp add: holders_def)
  then have h: "holders s {} c = {(p, ?i)}" "ext c = 0" using h by auto
  show ?thesis
  proof (cases "pres s c = 0")
    case False
    have "prune t (Suc (Suc l)) p ?i (pend n i q s) = Inr (pend n i q s)" by (rule prune_keep [OF p(1) i(3) o(2) cl(1) False])
    moreover have "full L lv {p} s" using f False unfolding full_def by blast
    ultimately show ?thesis using rm v by (intro exI [of _ s] conjI upperI) simp_all
  next
    case True
    have c0: "c \<noteq> 0" "c \<notin> dom (bs_items s)" using inv_live(1) [OF d(1) cl(1)] inv_ids(2) [OF d(1)] cl(1) by (auto simp: live_all)
    have e: "with_held ext q c = 0" using h(2) d(4) c0 by (auto simp: with_held_def)
    have cr: "c \<noteq> bt_root t" using cl(2) o(4) t \<open>Suc l < L\<close> by auto
    note k = cut_ok [OF d(1) p(1) i(1,2) o(2) c0(1) h(1) e True]
    let ?s = "cut p ?i c s"
    have "prune t (Suc (Suc l)) p ?i (pend n i q s) = Inr (pend n i q ?s)"
      using prune_cut [OF d(1) p(1) i o(2) c0(1) h(1) e True cr n] p(2) by simp
    moreover have "removed L ext r k lv0 lv q s0 ?s"
    proof -
      have "val ?s L m k' = val s L m k'" if "m \<in> live s0 {}" "lv0 m = L" for m k'
      proof -
        have m: "m \<in> live s {}" "lv m = L" using up [OF that] by simp_all
        then have "m \<noteq> c" using cl(2) \<open>Suc l < L\<close> by auto
        then show ?thesis using k(4) [of m k'] m by simp
      qed
      then show ?thesis unfolding removed_def using d k(1) by simp
    qed
    moreover have "upper (Suc (Suc l)) lv lv s ?s"
    proof (rule upperI)
      show "m \<in> live ?s {} \<and> lv m = lv m" if "m \<in> live s {}" "Suc (Suc l) \<le> lv m" for m using that cl(2) by auto
      show "m \<in> live s {} \<and> lv m = lv m \<and> (\<forall>j < 32. ptr ?s m j = ptr s m j)" if "m \<in> live ?s {}" "Suc (Suc l) < lv m" for m
        using that k(2) [of m] p(2) by auto
    qed
    moreover have "full L lv {p} ?s" unfolding full_def
    proof (intro ballI impI)
      fix m assume "m \<in> live ?s {}" "lv m < L \<and> m \<notin> {p}"
      then show "pres ?s m \<noteq> 0" using k(3) [of m] f unfolding full_def by simp
    qed
    moreover obtain b where "bs_nodes s c = Some b" using cl(1) by (auto simp: live_node)
    then have "v \<longrightarrow> vacant ?s n i" using v cut_vacant [OF _ i(3) [symmetric] c0(1) _ k(7)] by blast
    ultimately show ?thesis by (intro exI [of _ ?s]) simp
  qed
qed

lemma ptr_null: "ids_ok s \<Longrightarrow> ptr s 0 j = 0"
  using items_zero(2) [of s] by (simp add: ptr_def)

text \<open>What the search for a slot to clear returns at a node of the level \<open>Suc l\<close>.\<close>

definition cleared ::
    "nat \<Rightarrow> (nat \<Rightarrow> nat) \<Rightarrow> nat \<Rightarrow> nat \<Rightarrow> nat \<Rightarrow> nat \<Rightarrow> (nat \<Rightarrow> nat) \<Rightarrow> 'a bit_store \<Rightarrow> ((nat \<times> nat) option \<times> 'a bit_store) outcome \<Rightarrow> bool" where
  "cleared L ext r k l p lv s x \<longleftrightarrow> (\<exists>ref n q s' lv'. x = Inr (ref, pend n (digit k 0) q s')
     \<and> removed L ext r k lv lv' q s s' \<and> upper (Suc l) lv lv' s s' \<and> full L lv' {p} s' \<and> (n \<in> live s' {} \<longrightarrow> lv' n = 1)
     \<and> (ref = None \<and> n = 0 \<and> q = 0 \<or> ref = Some (n, digit k 0) \<and> vacant s' n (digit k 0))
     \<and> card (live s' {}) \<le> card (live s {}) + l)"

lemma clearedI:
  assumes "x = Inr (ref, pend n (digit k 0) q s')" "removed L ext r k lv lv' q s s'" "upper (Suc l) lv lv' s s'" "full L lv' {p} s'"
    "n \<in> live s' {} \<Longrightarrow> lv' n = 1" "ref = None \<and> n = 0 \<and> q = 0 \<or> ref = Some (n, digit k 0) \<and> vacant s' n (digit k 0)"
    "card (live s' {}) \<le> card (live s {}) + l"
  shows "cleared L ext r k l p lv s x"
  unfolding cleared_def using assms by (intro exI [of _ ref] exI [of _ n] exI [of _ q] exI [of _ s'] exI [of _ lv'] conjI impI)

lemma clear_absent:
  assumes inv: "bt_inv L {} lv ext s" and r: "r \<in> live s {}" "lv r = L" and o: "owned s ext L r (unat index) (Suc (Suc l)) p"
    and f: "full L lv {} s" and z: "ptr s p (digit (unat index) (Suc l)) = 0"
  shows "cleared L ext r (unat index) (Suc l) p lv s (descend t index Delete (Suc l) p s)"
proof (rule clearedI)
  note pl = owned_live [OF o inv r] and ids = inv_ids(5) [OF inv]
  show "descend t index Delete (Suc l) p s = Inr (None, pend 0 (digit (unat index) 0) 0 s)"
    unfolding pend_none [OF ids] using slot_read_ptr [OF pl(1)] z by (simp add: descend_def Let_def)
  have "cont s L r (unat index) = cont s (Suc (Suc l)) p (unat index)" by (rule owned_cont [OF o refl])
  then have "val s L r (unat index) = None" using z ids items_zero(1) [OF ids] by (simp add: val_def ptr_null)
  then show "removed L ext r (unat index) lv lv 0 s s"
    unfolding removed_def with_held_def using inv ext_null [OF inv] items_zero(1) [OF ids] by auto
  show "upper (Suc (Suc l)) lv lv s s" by (rule upperI) simp_all
  show "full L lv {p} s" using f by (simp add: full_def)
  show "0 \<in> live s {} \<Longrightarrow> lv 0 = 1" using inv_live(1) [OF inv] by blast
qed simp_all

lemma clear_below:
  assumes inv: "bt_inv L {} lv ext s" and r: "r \<in> live s {}" "lv r = L" and o: "owned s ext L r k (Suc (Suc l)) p"
    and c: "own_child L lv lv1 ext p (digit k (Suc l)) c s s1" and IH: "cleared L ext r k l c lv1 s1 x" and t: "bt_root t = r"
  shows "cleared L ext r k (Suc l) p lv s (bind_ok x (\<lambda>(ref, s). bind_ok (prune t (Suc (Suc l)) p (digit k (Suc l)) s) (\<lambda>s. Inr (ref, s))))"
proof -
  let ?i = "digit k (Suc l)"
  note pl = owned_live [OF o inv r] and d = own_childD [OF c] and w = own_child_owned [OF o inv r c zero_less_Suc]
  obtain ref n q s2 lv2 where h: "x = Inr (ref, pend n (digit k 0) q s2)" "removed L ext r k lv1 lv2 q s1 s2" "upper (Suc l) lv1 lv2 s1 s2"
      "full L lv2 {c} s2" "n \<in> live s2 {} \<Longrightarrow> lv2 n = 1" "ref = None \<and> n = 0 \<and> q = 0 \<or> ref = Some (n, digit k 0) \<and> vacant s2 n (digit k 0)"
      "card (live s2 {}) \<le> card (live s1 {}) + l"
    using IH unfolding cleared_def by blast
  have r1: "r \<in> live s1 {}" "lv1 r = L" using d(2,3) r by simp_all
  have L: "Suc (Suc l) \<le> L" using owned_top [OF o] .
  have r2: "m \<in> live s2 {} \<and> lv2 m = L" if "m \<in> live s {}" "lv m = L" for m
    using upperD(1) [OF h(3), of m] d(2,3) that L by auto
  have p1: "p \<in> live s1 {}" "lv1 p = Suc (Suc l)" using d(2,3) pl by simp_all
  have p2: "p \<in> live s2 {}" "lv2 p = Suc (Suc l)" using upperD(1) [OF h(3) p1(1)] p1(2) by simp_all
  have pc: "ptr s2 p ?i = c" using upperD(2) [OF h(3) p2(1)] p2(2) d(5) by simp
  have o2: "owned s2 ext L r k (Suc l) c" by (rule upper_owned [OF w(2) d(1) removedD(1) [OF h(2)] r1 h(3)])
  have rm: "removed L ext r k lv lv2 q s s2" by (rule removed_edited [OF edited_own [OF c] h(2) r])
  obtain s3 where s3: "prune t (Suc (Suc l)) p ?i (pend n (digit k 0) q s2) = Inr (pend n (digit k 0) q s3)"
      "removed L ext r k lv lv2 q s s3" "upper (Suc (Suc l)) lv2 lv2 s2 s3" "full L lv2 {p} s3" "live s3 {} \<subseteq> live s2 {}"
      "ref \<noteq> None \<longrightarrow> vacant s3 n (digit k 0)"
    using prune_ok [OF rm r2 p2 o2 pc _ _ h(4,5) _ t, of "ref \<noteq> None" "digit k 0"] r2 [OF r] h(6) by auto
  show ?thesis
  proof (rule clearedI)
    show "bind_ok x (\<lambda>(ref, s). bind_ok (prune t (Suc (Suc l)) p ?i s) (\<lambda>s. Inr (ref, s))) = Inr (ref, pend n (digit k 0) q s3)"
      using h(1) s3(1) by simp
    have "upper (Suc (Suc l)) lv lv2 s s2"
      by (rule upper_trans [OF upper_own [OF c pl(2)] upper_mono [OF h(3)]]) simp_all
    then show "upper (Suc (Suc l)) lv lv2 s s3" by (rule upper_trans [OF _ s3(3)])
    have "card (live s3 {}) \<le> card (live s2 {})" by (rule card_mono [OF finite_store(2) [OF inv_ids(5) [OF removedD(1) [OF rm]]] s3(5)])
    then show "card (live s3 {}) \<le> card (live s {}) + Suc l" using h(7) d(12) by (simp add: live_all)
  qed (use s3(2,4,5,6) h(5,6) in auto)
qed

lemma delete_descend:
  "bt_inv L {} lv ext s \<Longrightarrow> r \<in> live s {} \<Longrightarrow> lv r = L \<Longrightarrow> owned s ext L r (unat index) (Suc l) p \<Longrightarrow> full L lv {} s \<Longrightarrow>
    few_nodes (3 + l) s \<Longrightarrow> (\<And>q. ext q \<le> 1) \<Longrightarrow> bt_root t = r \<Longrightarrow> unat index < 32 ^ L \<Longrightarrow>
    cleared L ext r (unat index) l p lv s (descend t index Delete l p s)"
proof (induction l arbitrary: p s lv)
  case 0
  let ?i = "digit (unat index) 0"
  have o: "owned s ext L r (unat index) 1 p" using 0(4) by simp
  note pl = owned_live [OF o 0(1-3)]
  have i: "?i < 32" by simp
  note m = mark_delete [OF 0(1) pl(1) i] and dl = delete_leaf [OF 0(1-3) o 0(9,5)]
  show ?case
    by (rule clearedI [where ref = "Some (p, ?i)" and n = p, OF _ dl(1)]) (use m dl pl(2) in \<open>simp_all add: descend_def Let_def\<close>)
next
  case (Suc l)
  let ?i = "digit (unat index) (Suc l)"
  note inv = Suc.prems(1) and pl = owned_live [OF Suc.prems(4,1-3)]
  have i: "?i < 32" "1 < lv p" using pl(2) by simp_all
  show ?case
  proof (cases "ptr s p ?i = 0")
    case True
    show ?thesis by (rule clear_absent [OF Suc.prems(1-5) True])
  next
    case False
    have f: "few_nodes 3 s" "few_nodes (Suc (3 + l)) s" using Suc.prems(6) by (simp_all add: few_nodes_def)
    obtain n s1 lv1 where o: "own_child L lv lv1 ext p ?i n s s1"
      and st: "descend t index Delete (Suc l) p s = bind_ok (descend t index Delete l n s1) (\<lambda>(ref, s). bind_ok (prune t (Suc (Suc l)) p ?i s) (\<lambda>s. Inr (ref, s)))"
      using own_step [OF inv pl(1) i f(1) Suc.prems(7) pl(2) refl, of Delete t] False by auto
    note d = own_childD [OF o] and w = own_child_owned [OF Suc.prems(4,1-3) o zero_less_Suc]
    have r: "r \<in> live s1 {}" "lv1 r = L" using d(2,3) Suc.prems(2,3) by simp_all
    have "cleared L ext r (unat index) l n lv1 s1 (descend t index Delete l n s1)"
      by (rule Suc.IH [OF d(1) r w(2) own_child_full_all [OF inv pl(1) i False Suc.prems(5) o] few_own [OF f(2) o] Suc.prems(7-9)])
    then show ?thesis unfolding st by (rule clear_below [OF inv Suc.prems(2-4) o _ Suc.prems(8)])
  qed
qed

section \<open>Removal and search\<close>

lemma bt_remove_ok:
  assumes f: "forest L R H lv s" and t: "bt_root t \<in> R" "bt_levels t = L" and k: "adjust_index t index = Some i" "unat i < 32 ^ L"
    and few: "few_nodes (3 + L) s"
  shows "\<exists>p s' lv'. bt_remove t index s = Inr (p, s') \<and> forest L R (H \<union> held p) lv' s' \<and> p \<notin> H
    \<and> bs_items s' p = val s L (bt_root t) (unat i) \<and> updates L R (bt_root t) (unat i) None s s'
    \<and> (\<forall>h \<in> H. bs_items s' h = bs_items s h) \<and> card (dom (bs_nodes s')) \<le> card (dom (bs_nodes s)) + L"
proof -
  note d = forestD [OF f]
  let ?r = "bt_root t" and ?k = "unat i" and ?x = "tree_ext R H"
  obtain l where l: "L = Suc l" using d(6) [OF t(1)] gr0_conv_Suc by blast
  have "owned s ?x L ?r ?k (Suc l) ?r" using owned.root [of s ?x L ?r ?k] unfolding l .
  moreover have "few_nodes (3 + l) s" using few l by (simp add: few_nodes_def)
  ultimately have "cleared L ?x ?r ?k l ?r lv s (descend t i Delete l ?r s)"
    using delete_descend [OF d(1) d(2,3) [OF t(1)] _ d(5)] tree_ext_le k(2) by blast
  then obtain ref n q s' lv' where h: "descend t i Delete l ?r s = Inr (ref, pend n (digit ?k 0) q s')" "removed L ?x ?r ?k lv lv' q s s'"
      "upper (Suc l) lv lv' s s'" "full L lv' {?r} s'" "ref = None \<and> n = 0 \<and> q = 0 \<or> ref = Some (n, digit ?k 0) \<and> vacant s' n (digit ?k 0)"
      "card (live s' {}) \<le> card (live s {}) + l"
    unfolding cleared_def by blast
  note m = removedD [OF h(2)]
  have R: "r \<in> live s' {}" "lv' r = L" if "r \<in> R" for r using upperD(1) [OF h(3) d(2) [OF that]] d(3) [OF that] l by simp_all
  have q: "q \<notin> R" "q \<notin> H" using m(2) by (auto simp: tree_ext_def split: if_splits)
  have "with_held ?x q = tree_ext R (H \<union> held q)" by (auto simp: with_held_def tree_ext_def held_def fun_eq_iff)
  moreover have "full L lv' {} s'" using h(4) R [OF t(1)] unfolding full_def by (metis less_irrefl singletonD)
  moreover have "H \<union> held q \<subseteq> dom (bs_items s')" using d(4) map_le_implies_dom_le [OF m(5)] m(4) by (simp add: held_def) blast
  ultimately have "forest L R (H \<union> held q) lv' s'" unfolding forest_def using m(1) R by auto
  moreover have "bt_remove t index s = Inr (q, s')"
  proof -
    have "pend 0 (digit ?k 0) 0 s' = s'" by (rule pend_none [OF inv_ids(5) [OF m(1)]])
    then show ?thesis using h(1,5) pend_slot [of s' n "digit ?k 0" q] root_entry [OF f t(1) _ l] k(1) t(2) l by (auto simp: bt_remove_def)
  qed
  moreover have "updates L R ?r ?k None s s'" unfolding updates_def using m(6) d(2,3) by blast
  moreover have "\<forall>h \<in> H. bs_items s' h = bs_items s h" using items_kept [OF m(5)] d(4) by blast
  ultimately show ?thesis using q(2) m(3) h(6) l by (intro exI [of _ q] exI [of _ s'] exI [of _ lv']) (simp add: live_all)
qed

lemma lookup_descend:
  "bt_inv L {} lv ext s \<Longrightarrow> n \<in> live s {} \<Longrightarrow> lv n = Suc l \<Longrightarrow>
    \<exists>ref. descend t index Lookup l n s = Inr (ref, s)
      \<and> (case ref of None \<Rightarrow> cont s (Suc l) n (unat index) = 0 | Some x \<Rightarrow> slot_read s x = Inr (cont s (Suc l) n (unat index)))"
proof (induction l arbitrary: n)
  case 0
  then show ?case using slot_read_ptr [OF 0(2)] by (auto simp: descend_def Let_def mark_slot_def node_at_def live_node)
next
  case (Suc l)
  let ?i = "digit (unat index) (Suc l)"
  let ?c = "ptr s n ?i"
  note ids = inv_ids(5) [OF Suc.prems(1)]
  show ?case
  proof (cases "?c = 0")
    case True
    then show ?thesis using slot_read_ptr [OF Suc.prems(2), of ?i] ids
      by (intro exI [of _ None]) (simp add: descend_def [of t index Lookup "Suc l"] Let_def ptr_null)
  next
    case False
    then have "?c \<in> live s {}" "lv ?c = Suc l" using inv_child(2) [OF Suc.prems(1,2), of ?i] Suc.prems(3) by simp_all
    then obtain ref where ref: "descend t index Lookup l ?c s = Inr (ref, s)"
        "case ref of None \<Rightarrow> cont s (Suc l) ?c (unat index) = 0 | Some x \<Rightarrow> slot_read s x = Inr (cont s (Suc l) ?c (unat index))"
      using Suc.IH [OF Suc.prems(1)] by blast
    have "descend t index Lookup (Suc l) n s = Inr (ref, s)"
      using False slot_read_ptr [OF Suc.prems(2), of ?i] ref(1) get_entry_ref_Suc [of t index Lookup l "Some (n, ?i)" ?c s]
      by (simp add: descend_def [of t index Lookup "Suc l"] Let_def del: power_Suc)
    moreover have "cont s (Suc (Suc l)) n (unat index) = cont s (Suc l) ?c (unat index)" by simp
    ultimately show ?thesis using ref(2) by (intro exI [of _ ref] conjI) (simp_all only:)
  qed
qed

lemma bt_lookup_exact_ok:
  assumes f: "forest L R H lv s" and t: "bt_root t \<in> R" "bt_levels t = L" and k: "adjust_index t index = Some i"
  shows "bt_lookup_exact t index s = Inr (cont s L (bt_root t) (unat i), s)"
proof -
  note d = forestD [OF f]
  obtain l where l: "L = Suc l" using d(6) [OF t(1)] gr0_conv_Suc by blast
  obtain ref where "descend t i Lookup l (bt_root t) s = Inr (ref, s)"
      "case ref of None \<Rightarrow> cont s L (bt_root t) (unat i) = 0 | Some x \<Rightarrow> slot_read s x = Inr (cont s L (bt_root t) (unat i))"
    using lookup_descend [OF d(1) d(2) [OF t(1)], of l t i] d(3) [OF t(1)] unfolding l by blast
  then show ?thesis using root_entry [OF f t(1) _ l] k t(2) l by (cases ref) (auto simp: bt_lookup_exact_def)
qed

end
