(* ===== verification/Bit_Tree_Queries.thy ===== *)
theory Bit_Tree_Queries
  imports Bit_Tree_Removal
begin

text \<open>
  The queries of the tree of bits for the nearest key at or below an index, and at or above it.
\<close>

section \<open>The nearest bit of a word\<close>

text \<open>The order of the keys that a query walks along, for a floor and for a ceiling.\<close>

definition towards :: "bool \<Rightarrow> nat \<Rightarrow> nat \<Rightarrow> bool" where
  "towards is_floor a b = (if is_floor then a \<le> b else b \<le> a)"

lemma towards_linear:
  "towards f a a" "towards f a b \<Longrightarrow> towards f b c \<Longrightarrow> towards f a c" "towards f a b \<Longrightarrow> towards f b a \<Longrightarrow> a = b" "towards f a b \<or> towards f b a"
  by (auto simp: towards_def split: if_splits)

definition nearest :: "(nat \<Rightarrow> bool) \<Rightarrow> bool \<Rightarrow> nat \<Rightarrow> nat \<Rightarrow> bool" where
  "nearest P f x k \<longleftrightarrow> P k \<and> towards f k x \<and> (\<forall>k'. P k' \<and> towards f k' x \<longrightarrow> towards f k' k)"

lemma bit_mask_bits:
  assumes "i < 32"
  shows "bit (mask_bits bits i f) j \<longleftrightarrow> bit bits j \<and> towards f j (unat i)"
proof (cases f)
  case True
  have i: "unat i < 32" using assms by unat_arith
  have "unat (31 - i) = 31 - unat i" using assms by unat_arith
  then show ?thesis using True i bit_imp_le_length [of bits j]
    by (auto simp: mask_bits_def towards_def Let_def bit_drop_bit_eq bit_push_bit_iff)
next
  case False
  then show ?thesis by (auto simp: mask_bits_def towards_def bit_drop_bit_eq bit_push_bit_iff dest: bit_imp_le_length)
qed

lemma sorted_filter_last: "xs = filter P [0..<n] \<Longrightarrow> xs \<noteq> [] \<Longrightarrow> j < n \<Longrightarrow> P j \<Longrightarrow> j \<le> last xs"
  by (induction n arbitrary: xs) (auto simp: less_Suc_eq split: if_splits)

lemma sorted_filter_hd: "xs = filter P [0..<n] \<Longrightarrow> xs \<noteq> [] \<Longrightarrow> j < n \<Longrightarrow> P j \<Longrightarrow> hd xs \<le> j"
proof (induction n arbitrary: xs)
  case (Suc n)
  show ?case
  proof (cases "filter P [0..<n] = []")
    case True
    then show ?thesis using Suc.prems by (auto simp: less_Suc_eq filter_empty_conv split: if_splits)
  next
    case False
    then have "hd (filter P [0..<n]) < n" using hd_in_set [OF False] by simp
    then show ?thesis using Suc False by (cases "j = n") (auto simp: less_Suc_eq split: if_splits)
  qed
qed simp

lemma compute_index_none: "31 < i \<Longrightarrow> compute_index bits i f = 32"
  by (simp add: compute_index_def)

lemma compute_index_ok:
  assumes "i \<le> 31"
  shows "(\<exists>j < 32. compute_index bits i f = of_nat j \<and> nearest (bit bits) f (unat i) j)
    \<or> compute_index bits i f = 32 \<and> (\<forall>j. towards f j (unat i) \<longrightarrow> \<not> bit bits j)"
proof -
  let ?m = "mask_bits bits i f" and ?xs = "filter (bit (mask_bits bits i f)) [0..<32]"
  have i: "i < 32" "\<not> 31 < i" using assms by unat_arith+
  note m = bit_mask_bits [OF i(1), of bits f]
  show ?thesis
  proof (cases "?m = 0")
    case True
    then have "\<not> bit ?m j" for j by simp
    then have "\<forall>j. towards f j (unat i) \<longrightarrow> \<not> bit bits j" using m by blast
    moreover have "compute_index bits i f = 32" using True i(2) by (simp add: compute_index_def)
    ultimately show ?thesis by blast
  next
    case False
    then obtain j where "bit ?m j" by (auto simp: bit_eq_iff)
    then have ne: "?xs \<noteq> []" using bit_imp_le_length [of ?m j] by (auto simp: filter_empty_conv)
    have all: "j < 32" if "bit ?m j" for j using bit_imp_le_length [OF that] by simp
    define j where "j = (if f then last ?xs else hd ?xs)"
    have "j \<in> set ?xs" unfolding j_def using last_in_set [OF ne] hd_in_set [OF ne] by presburger
    then have j: "j < 32" "bit ?m j" by simp_all
    have "31 - (of_nat (31 - j) :: u32) = of_nat j" using j(1) by (simp add: of_nat_diff)
    then have "compute_index bits i f = of_nat j"
      using False i(2) by (auto simp: compute_index_def builtin_clz_def builtin_ctz_def j_def)
    moreover have "nearest (bit bits) f (unat i) j" unfolding nearest_def
    proof (intro conjI allI impI)
      show "bit bits j" "towards f j (unat i)" using j(2) m by simp_all
      fix k assume "bit bits k \<and> towards f k (unat i)"
      then have "bit ?m k" using m by simp
      then show "towards f k j" unfolding towards_def j_def
        using sorted_filter_last [OF refl ne all] sorted_filter_hd [OF refl ne all] by presburger
    qed
    ultimately show ?thesis using j(1) by blast
  qed
qed

section \<open>The nearest key of a node\<close>

definition keys :: "'a bit_store \<Rightarrow> nat \<Rightarrow> nat \<Rightarrow> nat \<Rightarrow> bool" where
  "keys s l n k \<longleftrightarrow> k < 32 ^ l \<and> cont s l n k \<noteq> 0"

definition answer :: "'a bit_store \<Rightarrow> nat \<Rightarrow> nat \<Rightarrow> bool \<Rightarrow> nat \<Rightarrow> nat \<Rightarrow> bool" where
  "answer s l n f x q \<longleftrightarrow> q = 0 \<and> (\<forall>k. keys s l n k \<longrightarrow> \<not> towards f k x) \<or> (\<exists>k. nearest (keys s l n) f x k \<and> q = cont s l n k)"

lemma answer_found: "answer s l n f x q \<Longrightarrow> q \<noteq> 0 \<Longrightarrow> \<exists>k. nearest (keys s l n) f x k \<and> q = cont s l n k"
  by (auto simp: answer_def)

lemma answer_none: "answer s l n f x 0 \<Longrightarrow> keys s l n k \<Longrightarrow> \<not> towards f k x"
  by (auto simp: answer_def nearest_def keys_def)

lemma cont_mod: "cont s l n (k mod 32 ^ j) = cont s l n k" if "l \<le> j"
  using that
proof (induction l arbitrary: n)
  case (Suc l)
  have "(32 :: nat) ^ j = 32 ^ l * (32 * 32 ^ (j - Suc l))" using Suc.prems by (metis (no_types) le_add_diff_inverse mult.assoc power_Suc2 power_add)
  then have "k mod 32 ^ j div 32 ^ l = k div 32 ^ l mod (32 * 32 ^ (j - Suc l))" by (simp add: mod_mult2_eq)
  then have "digit (k mod 32 ^ j) l = digit k l" by (simp add: mod_mod_cancel)
  then show ?case using Suc by simp
qed simp

lemma towards_digits:
  assumes "e < B" "e' < B"
  shows "towards f (B * d + e) (B * d' + e') \<longleftrightarrow> d = d' \<and> towards f e e' \<or> d \<noteq> d' \<and> towards f d d'"
proof -
  have lt: "B * a + x < B * b + y" if "a < b" "x < B" for a b x y
  proof -
    have "B * a + x < B * Suc a" using that(2) by simp
    also have "\<dots> \<le> B * b" using that(1) by (intro mult_le_mono2) simp
    finally show ?thesis by simp
  qed
  show ?thesis using lt [of d d' e e'] lt [of d' d e' e] assms by (cases d d' rule: linorder_cases) (auto simp: towards_def)
qed

lemma cont_digit:
  assumes "e < 32 ^ l" "d < 32"
  shows "cont s (Suc l) n (32 ^ l * d + e) = cont s l (ptr s n d) e"
proof -
  have "digit (32 ^ l * d + e) l = d" "(32 ^ l * d + e) mod 32 ^ l = e" using assms by simp_all
  then show ?thesis using cont_mod [of l l s "ptr s n d" "32 ^ l * d + e"] by simp
qed

lemma keys_digit:
  assumes "keys s (Suc l) n k"
  shows "\<exists>d e. k = 32 ^ l * d + e \<and> d < 32 \<and> e < 32 ^ l \<and> keys s l (ptr s n d) e"
proof -
  let ?d = "k div 32 ^ l" and ?e = "k mod 32 ^ l"
  have k: "k = 32 ^ l * ?d + ?e" by simp
  have d: "?d < 32" "?e < 32 ^ l" using assms by (simp_all add: keys_def less_mult_imp_div_less)
  have "cont s (Suc l) n k = cont s l (ptr s n ?d) ?e" using cont_digit [OF d(2,1), of s n] k by simp
  then have "keys s l (ptr s n ?d) ?e" using assms d(2) unfolding keys_def by simp
  then show ?thesis using k d by (intro exI [of _ ?d] exI [of _ ?e]) simp
qed

lemma keys_digit': "keys s l (ptr s n d) e \<Longrightarrow> d < 32 \<Longrightarrow> keys s (Suc l) n (32 ^ l * d + e)"
proof -
  assume k: "keys s l (ptr s n d) e" "d < 32"
  then have "32 ^ l * d + e < 32 ^ l * Suc d" by (simp add: keys_def)
  also have "\<dots> \<le> 32 ^ l * 32" using k(2) by (intro mult_le_mono2) simp
  finally show ?thesis using k cont_digit [of e l d s n] unfolding keys_def by (simp add: mult.commute)
qed

lemma subtree_nonempty:
  "bt_inv L {} lv ext s \<Longrightarrow> full L lv {} s \<Longrightarrow> n \<in> live s {} \<Longrightarrow> lv n = Suc l \<Longrightarrow> pres s n \<noteq> 0 \<Longrightarrow> \<exists>k. keys s (Suc l) n k"
proof (induction l arbitrary: n)
  case (0 n)
  then obtain b where b: "bs_nodes s n = Some b" "present_bits b \<noteq> 0" by (auto simp: live_node pres_def)
  then obtain i where i: "bit (present_bits b) i" by (auto simp: bit_eq_iff)
  then have "i < 32" using bit_imp_le_length [of "present_bits b" i] by simp
  then show ?case using i inv_shape(4) [OF 0(1) _ b(1)] b(1) by (intro exI [of _ i]) (auto simp: keys_def ptr_def)
next
  case (Suc l n)
  then obtain b where b: "bs_nodes s n = Some b" "present_bits b \<noteq> 0" by (auto simp: live_node pres_def)
  then obtain i where i: "bit (present_bits b) i" by (auto simp: bit_eq_iff)
  then have i32: "i < 32" using bit_imp_le_length [of "present_bits b" i] by simp
  then have p: "ptr s n i \<noteq> 0" using i inv_shape(4) [OF Suc.prems(1) _ b(1)] b(1) by (simp add: ptr_def)
  have c: "ptr s n i \<in> live s {}" "lv (ptr s n i) = Suc l" using inv_child(2) [OF Suc.prems(1,3) i32 p] Suc.prems(4) by simp_all
  moreover have "Suc l < L" using inv_live(4) [OF Suc.prems(1,3)] Suc.prems(4) by simp
  ultimately have "pres s (ptr s n i) \<noteq> 0" using Suc.prems(2) by (simp add: full_def)
  then obtain e where "keys s (Suc l) (ptr s n i) e" using Suc.IH [OF Suc.prems(1,2) c] by blast
  then show ?case using keys_digit' [OF _ i32] by blast
qed

text \<open>The answer for a node from the answer for one of its children.\<close>

lemma answer_child:
  assumes d: "d < 32" "towards f d dx" and e: "nearest (keys s l (ptr s n d)) f y e" "ex < 32 ^ l"
    and y: "d = dx \<Longrightarrow> y = ex" "d \<noteq> dx \<Longrightarrow> \<forall>k < 32 ^ l. towards f k y"
    and other: "\<And>d' e'. d' < 32 \<Longrightarrow> d' \<noteq> d \<Longrightarrow> keys s l (ptr s n d') e' \<Longrightarrow> towards f (32 ^ l * d' + e') (32 ^ l * dx + ex) \<Longrightarrow> towards f d' d"
  shows "answer s (Suc l) n f (32 ^ l * dx + ex) (cont s l (ptr s n d) e)"
proof -
  have ke: "keys s l (ptr s n d) e" "e < 32 ^ l" "towards f e y" using e(1) by (auto simp: nearest_def keys_def)
  have "nearest (keys s (Suc l) n) f (32 ^ l * dx + ex) (32 ^ l * d + e)" unfolding nearest_def
  proof (intro conjI allI impI)
    show "keys s (Suc l) n (32 ^ l * d + e)" by (rule keys_digit' [OF ke(1) d(1)])
    show "towards f (32 ^ l * d + e) (32 ^ l * dx + ex)" unfolding towards_digits [OF ke(2) e(2)] using ke(3) y(1) d(2) by auto
    fix k' assume k': "keys s (Suc l) n k' \<and> towards f k' (32 ^ l * dx + ex)"
    then obtain d' e' where h: "k' = 32 ^ l * d' + e'" "d' < 32" "e' < 32 ^ l" "keys s l (ptr s n d') e'" using keys_digit by blast
    show "towards f k' (32 ^ l * d + e)" unfolding h(1) towards_digits [OF h(3) ke(2)]
    proof (cases "d' = d")
      case True
      have "towards f e' y" using y h(1,3) k' True unfolding h(1) towards_digits [OF h(3) e(2)] by (cases "d = dx") auto
      then show "d' = d \<and> towards f e' e \<or> d' \<noteq> d \<and> towards f d' d" using e(1) h(4) True by (auto simp: nearest_def)
    next
      case False
      then show "d' = d \<and> towards f e' e \<or> d' \<noteq> d \<and> towards f d' d" using other [OF h(2) False h(4)] k' h(1) by simp
    qed
  qed
  then show ?thesis unfolding answer_def using cont_digit [OF ke(2) d(1), of s n] by auto
qed

lemma answer_absent:
  assumes e: "ex < 32 ^ l"
    and other: "\<And>d' e'. d' < 32 \<Longrightarrow> keys s l (ptr s n d') e' \<Longrightarrow> \<not> towards f (32 ^ l * d' + e') (32 ^ l * dx + ex)"
  shows "answer s (Suc l) n f (32 ^ l * dx + ex) 0"
  unfolding answer_def using keys_digit [of s l n] other by blast

lemma small_u32:
  assumes "j < 32"
  shows "unat (of_nat j :: u32) = j" "(of_nat j :: u32) \<noteq> 32" "(of_nat j :: u32) \<le> 31"
proof -
  show u: "unat (of_nat j :: u32) = j" using assms by (intro unat_of_nat_exact) simp
  then have "unat (of_nat j :: u32) \<noteq> unat (32 :: u32)" using assms by simp
  then show "(of_nat j :: u32) \<noteq> 32" by metis
  show "(of_nat j :: u32) \<le> 31" using u assms by (simp add: word_le_nat_alt)
qed

lemma compute_retry:
  assumes d: "d < 32"
  shows "(\<exists>j < 32. compute_index bits (of_nat d + (if f then - 1 else 1)) f = of_nat j \<and> j \<noteq> d \<and> bit bits j \<and> towards f j d
        \<and> (\<forall>d'. bit bits d' \<and> towards f d' d \<and> d' \<noteq> d \<longrightarrow> towards f d' j))
    \<or> compute_index bits (of_nat d + (if f then - 1 else 1)) f = 32 \<and> (\<forall>d'. bit bits d' \<and> towards f d' d \<longrightarrow> d' = d)"
proof -
  let ?i = "of_nat d + (if f then - 1 else 1) :: u32"
  have b32: "d' < 32" if "bit bits d'" for d' using bit_imp_le_length [OF that] by simp

  show ?thesis
  proof (cases "if f then d = 0 else d = 31")
    case True
    then have "31 < ?i" by (auto split: if_splits)
    moreover have "d' = d" if "bit bits d'" "towards f d' d" for d' using that b32 [OF that(1)] True by (auto simp: towards_def split: if_splits)
    ultimately show ?thesis using compute_index_none by blast
  next
    case False
    define x where "x = (if f then d - 1 else d + 1)"
    have x: "x < 32" using False d by (auto simp: x_def split: if_splits)
    have "of_nat x = ?i" using False by (auto simp: x_def of_nat_diff split: if_splits)
    then have i: "unat ?i = x" "?i \<le> 31" using small_u32(1,3) [OF x] by simp_all
    have t: "towards f k x \<longleftrightarrow> towards f k d \<and> k \<noteq> d" for k using False by (auto simp: towards_def x_def split: if_splits)
    show ?thesis using compute_index_ok [OF i(2), of bits f] unfolding i(1) nearest_def t by blast
  qed
qed

lemma run_query_leaf:
  assumes inv: "bt_inv L {} lv ext s" and n: "n \<in> live s {}"
  shows "\<exists>q. run_query 1 index f n s = Inr q \<and> answer s 1 n f (unat index mod 32) q"
proof -
  obtain b where b: "bs_nodes s n = Some b" using n by (auto simp: live_node)
  let ?d = "unat index mod 32"
  have "?d < 32" by simp
  note d = small_u32 [OF this]
  have bit: "bit (present_bits b) j \<longleftrightarrow> ptr s n j \<noteq> 0" if "j < 32" for j using inv_shape(4) [OF inv _ b that] b by (simp add: ptr_def)
  have k: "keys s 0 q e \<longleftrightarrow> e = 0 \<and> q \<noteq> 0" for q e by (simp add: keys_def)
  have x: "unat index mod 32 = 32 ^ 0 * ?d + 0" by simp
  have n0: "n \<noteq> 0" using inv_live(1) [OF inv n] .
  note run = run_query.simps(2) [of 0 index f n s] level_digit [of index 0]
  from compute_index_ok [OF d(3), of "present_bits b" f] consider
      j where "j < 32" "compute_index (present_bits b) (of_nat ?d) f = of_nat j" "nearest (bit (present_bits b)) f ?d j"
    | "compute_index (present_bits b) (of_nat ?d) f = 32" "\<forall>j. towards f j ?d \<longrightarrow> \<not> bit (present_bits b) j"
    unfolding d(1) by blast
  then show ?thesis
  proof cases
    case (1 j)
    note uj = small_u32(1,2) [OF 1(1)]
    have "answer s (Suc 0) n f (32 ^ 0 * ?d + 0) (cont s 0 (ptr s n j) 0)"
    proof (rule answer_child [where y = 0])
      show "nearest (keys s 0 (ptr s n j)) f 0 0" using bit [OF 1(1)] 1(3) by (simp add: nearest_def k towards_def)
      fix d' e' assume "d' < 32" "keys s 0 (ptr s n d') e'" "towards f (32 ^ 0 * d' + e') (32 ^ 0 * ?d + 0)"
      then show "towards f d' j" using 1(3) bit by (simp add: nearest_def k)
    qed (use 1(1,3) in \<open>auto simp: nearest_def towards_def\<close>)
    moreover have "run_query 1 index f n s = Inr (ptr s n j)" using run 1(2) uj n0 b by (simp add: node_at_def ptr_def Let_def)
    ultimately show ?thesis by (intro exI [of _ "ptr s n j"]) simp
  next
    case 2
    have "answer s (Suc 0) n f (32 ^ 0 * ?d + 0) 0"
      by (rule answer_absent) (use 2(2) bit in \<open>auto simp: k\<close>)
    moreover have "run_query 1 index f n s = Inr 0" using run 2(1) n0 b by (simp add: node_at_def Let_def)
    ultimately show ?thesis by (intro exI [of _ 0]) simp
  qed
qed

definition move_index :: "bool \<Rightarrow> u32" where
  "move_index f = (if f then 0xFFFFFFFF else 0)"

lemma move_all:
  assumes "l \<le> 6" "k < 32 ^ l"
  shows "towards f k (unat (move_index f) mod 32 ^ l)"
proof -
  have "l \<in> {0, 1, 2, 3, 4, 5, 6}" using assms(1) by auto
  then show ?thesis using assms(2) by (auto simp: move_index_def towards_def)
qed

text \<open>The answer of a child to the query for its outermost key.\<close>

lemma move_answer:
  assumes inv: "bt_inv L {} lv ext s" and f: "full L lv {} s" and c: "c \<in> live s {}" "lv c = Suc l" "Suc l < L" "Suc l \<le> 6"
    and a: "answer s (Suc l) c d (unat (move_index d) mod 32 ^ Suc l) q"
  shows "q \<noteq> 0"
proof
  assume "q = 0"
  obtain k where k: "keys s (Suc l) c k" using subtree_nonempty [OF inv f c(1,2)] f c by (auto simp: full_def)
  then have "towards d k (unat (move_index d) mod 32 ^ Suc l)" using move_all [OF c(4)] by (simp only: keys_def)
  then show False using answer_none a k \<open>q = 0\<close> by metis
qed

lemma answer_first:
  assumes kb: "\<And>j e. j < 32 \<Longrightarrow> keys s l (ptr s n j) e \<Longrightarrow> bit (bits :: u32) j" and ex: "ex < 32 ^ l"
    and j: "j < 32" "nearest (bit bits) f dx j" and a: "answer s l (ptr s n j) f y q" "q \<noteq> 0"
    and y: "j = dx \<Longrightarrow> y = ex" "j \<noteq> dx \<Longrightarrow> \<forall>k < 32 ^ l. towards f k y"
  shows "answer s (Suc l) n f (32 ^ l * dx + ex) q"
proof -
  obtain e where e: "nearest (keys s l (ptr s n j)) f y e" "q = cont s l (ptr s n j) e" using answer_found [OF a] by blast
  show ?thesis unfolding e(2)
  proof (rule answer_child [OF j(1) _ e(1) ex y])
    show "towards f j dx" using j(2) by (simp add: nearest_def)
    fix d' e' assume k: "d' < 32" "keys s l (ptr s n d') e'" "towards f (32 ^ l * d' + e') (32 ^ l * dx + ex)"
    have "e' < 32 ^ l" using k(2) by (simp add: keys_def)
    then have "towards f d' dx" using k(3) towards_linear(1) unfolding towards_digits [OF \<open>e' < 32 ^ l\<close> ex] by blast
    then show "towards f d' j" using j(2) kb [OF k(1,2)] by (simp add: nearest_def)
  qed
qed

lemma answer_second:
  assumes kb: "\<And>j e. j < 32 \<Longrightarrow> keys s l (ptr s n j) e \<Longrightarrow> bit (bits :: u32) j" and ex: "ex < 32 ^ l" and none: "answer s l (ptr s n dx) f ex 0"
    and j: "j < 32" "j \<noteq> dx" "towards f j dx" "\<forall>d'. bit bits d' \<and> towards f d' dx \<and> d' \<noteq> dx \<longrightarrow> towards f d' j"
    and a: "answer s l (ptr s n j) f y q" "q \<noteq> 0" and y: "\<forall>k < 32 ^ l. towards f k y"
  shows "answer s (Suc l) n f (32 ^ l * dx + ex) q"
proof -
  obtain e where e: "nearest (keys s l (ptr s n j)) f y e" "q = cont s l (ptr s n j) e" using answer_found [OF a] by blast
  show ?thesis unfolding e(2)
  proof (rule answer_child [OF j(1,3) e(1) ex _ y])
    fix d' e' assume k: "d' < 32" "keys s l (ptr s n d') e'" "towards f (32 ^ l * d' + e') (32 ^ l * dx + ex)"
    have "e' < 32 ^ l" using k(2) by (simp add: keys_def)
    then have "d' \<noteq> dx" "towards f d' dx"
      using k(2,3) answer_none [OF none, of e'] unfolding towards_digits [OF \<open>e' < 32 ^ l\<close> ex] by auto
    then show "towards f d' j" using j(4) kb [OF k(1,2)] by blast
  qed (use j(2) in blast)
qed

lemma answer_neither:
  assumes kb: "\<And>j e. j < 32 \<Longrightarrow> keys s l (ptr s n j) e \<Longrightarrow> bit (bits :: u32) j" and ex: "ex < 32 ^ l" and none: "answer s l (ptr s n dx) f ex 0"
    and j: "\<forall>d'. bit bits d' \<and> towards f d' dx \<longrightarrow> d' = dx"
  shows "answer s (Suc l) n f (32 ^ l * dx + ex) 0"
proof (rule answer_absent [OF ex])
  fix d' e' assume k: "d' < 32" "keys s l (ptr s n d') e'"
  have e': "e' < 32 ^ l" using k(2) by (simp add: keys_def)
  show "\<not> towards f (32 ^ l * d' + e') (32 ^ l * dx + ex)" unfolding towards_digits [OF e' ex]
    using answer_none [OF none, of e'] k(2) j kb [OF k] by blast
qed

lemma inner_node:
  assumes inv: "bt_inv L {} lv ext s" and n: "n \<in> live s {}" "lv n = Suc (Suc l)" "bs_nodes s n = Some b"
  shows "\<And>j. j < 32 \<Longrightarrow> bit (present_bits b) j \<Longrightarrow> ptr s n j \<in> live s {} \<and> lv (ptr s n j) = Suc l" "Suc l < L"
    "\<And>j e. j < 32 \<Longrightarrow> keys s (Suc l) (ptr s n j) e \<Longrightarrow> bit (present_bits b) j"
proof -
  have bit: "bit (present_bits b) j \<longleftrightarrow> ptr s n j \<noteq> 0" if "j < 32" for j using inv_shape(4) [OF inv _ n(3) that] n(3) by (simp add: ptr_def)
  show "ptr s n j \<in> live s {} \<and> lv (ptr s n j) = Suc l" if "j < 32" "bit (present_bits b) j" for j
    using inv_child(2) [OF inv n(1) that(1)] bit [OF that(1)] that(2) n(2) by auto
  show "bit (present_bits b) j" if "j < 32" "keys s (Suc l) (ptr s n j) e" for j e
    using that bit [OF that(1)] inv_ids(5) [OF inv] by (auto simp: keys_def ptr_null simp del: cont.simps)
  show "Suc l < L" using inv_live(4) [OF inv n(1)] n(2) by simp
qed

text \<open>The second attempt, in the next child.\<close>

lemma run_query_retry:
  assumes inv: "bt_inv L {} lv ext s" and full: "full L lv {} s" and n: "n \<in> live s {}" "lv n = Suc (Suc l)" "bs_nodes s n = Some b" "Suc l \<le> 6"
    and IH: "\<And>c index. c \<in> live s {} \<Longrightarrow> lv c = Suc l \<Longrightarrow> \<exists>q. run_query (Suc l) index f c s = Inr q \<and> answer s (Suc l) c f (unat index mod 32 ^ Suc l) q"
    and d: "dx < 32" "ex < 32 ^ Suc l" and none: "answer s (Suc l) (ptr s n dx) f ex 0"
  shows "\<exists>q. (let ri = compute_index (present_bits b) (of_nat dx + (if f then - 1 else 1)) f
      in if ri = 32 then Inr 0 else run_query (Suc l) (move_index f) f (ptr s n (unat ri)) s) = Inr q
    \<and> answer s (Suc (Suc l)) n f (32 ^ Suc l * dx + ex) q"
proof -
  let ?bits = "present_bits b"
  note c = inner_node [OF inv n(1-3)]
  from compute_retry [OF d(1), of ?bits f] consider
      i where "i < 32" "compute_index ?bits (of_nat dx + (if f then - 1 else 1)) f = of_nat i" "i \<noteq> dx" "bit ?bits i" "towards f i dx"
        "\<forall>d'. bit ?bits d' \<and> towards f d' dx \<and> d' \<noteq> dx \<longrightarrow> towards f d' i"
    | "compute_index ?bits (of_nat dx + (if f then - 1 else 1)) f = 32" "\<forall>d'. bit ?bits d' \<and> towards f d' dx \<longrightarrow> d' = dx"
    by blast
  then show ?thesis
  proof cases
    case (1 i)
    note u = small_u32 [OF 1(1)]
    have ci: "ptr s n i \<in> live s {}" "lv (ptr s n i) = Suc l" using c(1) [OF 1(1,4)] by simp_all
    obtain q where q: "run_query (Suc l) (move_index f) f (ptr s n i) s = Inr q" "answer s (Suc l) (ptr s n i) f (unat (move_index f) mod 32 ^ Suc l) q"
      using IH [OF ci] by blast
    have all: "\<forall>k < 32 ^ Suc l. towards f k (unat (move_index f) mod 32 ^ Suc l)" by (intro allI impI move_all [OF n(4)])
    have "answer s (Suc (Suc l)) n f (32 ^ Suc l * dx + ex) q"
      by (rule answer_second [OF c(3) d(2) none 1(1,3,5,6) q(2) move_answer [OF inv full ci c(2) n(4) q(2)] all])
    then show ?thesis using q(1) 1(2) u(1,2) by (intro exI [of _ q]) (simp add: Let_def del: power_Suc)
  next
    case 2
    have "answer s (Suc (Suc l)) n f (32 ^ Suc l * dx + ex) 0" by (rule answer_neither [OF c(3) d(2) none 2(2)])
    then show ?thesis using 2(1) by (intro exI [of _ 0]) (simp add: Let_def del: power_Suc)
  qed
qed

lemma run_query_inner:
  assumes inv: "bt_inv L {} lv ext s" and full: "full L lv {} s" and n: "n \<in> live s {}" "lv n = Suc (Suc l)" "Suc l \<le> 6"
    and IH: "\<And>c index. c \<in> live s {} \<Longrightarrow> lv c = Suc l \<Longrightarrow> \<exists>q. run_query (Suc l) index f c s = Inr q \<and> answer s (Suc l) c f (unat index mod 32 ^ Suc l) q"
  shows "\<exists>q. run_query (Suc (Suc l)) index f n s = Inr q \<and> answer s (Suc (Suc l)) n f (unat index mod 32 ^ Suc (Suc l)) q"
proof -
  let ?B = "32 ^ Suc l :: nat" and ?dx = "digit (unat index) (Suc l)" and ?ex = "unat index mod 32 ^ Suc l"
  obtain b where b: "bs_nodes s n = Some b" using n(1) by (auto simp: live_node)
  let ?bits = "present_bits b"
  have dx: "?dx < 32" "?ex < ?B" by simp_all
  note d = small_u32 [OF dx(1)] and c = inner_node [OF inv n(1,2) b]
  have x: "unat index mod 32 ^ Suc (Suc l) = ?B * ?dx + ?ex" by (rule digit_step)
  have n0: "n \<noteq> 0" using inv_live(1) [OF inv n(1)] .
  have run: "run_query (Suc (Suc l)) index f n s =
      (let qi = compute_index ?bits (of_nat ?dx) f
       in if qi = 32 then Inr 0
          else bind_ok (run_query (Suc l) (if of_nat ?dx = qi then index else move_index f) f (ptr s n (unat qi)) s) (\<lambda>result.
            if result = 0 then let ri = compute_index ?bits (qi + (if f then - 1 else 1)) f
              in if ri = 32 then Inr 0 else run_query (Suc l) (move_index f) f (ptr s n (unat ri)) s
            else Inr result))"
    by (simp only: run_query.simps(2) [of "Suc l"] node_at_def b option.case bind_ok_simps n0 if_False level_digit Let_def move_index_def ptr_def nat.distinct Suc_neq_Zero)
  from compute_index_ok [OF d(3), of ?bits f] consider
      j where "j < 32" "compute_index ?bits (of_nat ?dx) f = of_nat j" "nearest (bit ?bits) f ?dx j"
    | "compute_index ?bits (of_nat ?dx) f = 32" "\<forall>j. towards f j ?dx \<longrightarrow> \<not> bit ?bits j"
    unfolding d(1) by blast
  then show ?thesis
  proof cases
    case 2
    have "answer s (Suc (Suc l)) n f (?B * ?dx + ?ex) 0"
    proof (rule answer_absent [OF dx(2)])
      fix d' e' assume k: "d' < 32" "keys s (Suc l) (ptr s n d') e'"
      then have "e' < ?B" unfolding keys_def by simp
      then show "\<not> towards f (?B * d' + e') (?B * ?dx + ?ex)" unfolding towards_digits [OF \<open>e' < ?B\<close> dx(2)]
        using c(3) [OF k] 2(2) towards_linear(1) by blast
    qed
    then show ?thesis unfolding x run by (intro exI [of _ 0]) (simp only: 2(1) Let_def if_True simp_thms)
  next
    case (1 j)
    let ?new = "if j = ?dx then index else move_index f"
    note u = small_u32 [OF 1(1)]
    have eq: "(of_nat ?dx = (of_nat j :: u32)) = (j = ?dx)" using d(1) u(1) by metis
    have cj: "ptr s n j \<in> live s {}" "lv (ptr s n j) = Suc l" using c(1) [OF 1(1)] 1(3) by (simp_all add: nearest_def)
    obtain q where q: "run_query (Suc l) ?new f (ptr s n j) s = Inr q" "answer s (Suc l) (ptr s n j) f (unat ?new mod ?B) q"
      using IH [OF cj] by blast
    have all: "\<forall>k < ?B. towards f k (unat (move_index f) mod ?B)" by (intro allI impI move_all [OF n(3)])
    note run = run [unfolded 1(2) Let_def eq u(1) q(1) bind_ok_simps if_not_P [OF u(2)]]
    show ?thesis
    proof (cases "q = 0")
      case False
      have "answer s (Suc (Suc l)) n f (?B * ?dx + ?ex) q"
        by (rule answer_first [OF c(3) dx(2) 1(1,3) q(2) False]) (use all in \<open>simp_all only: if_True if_False simp_thms\<close>)
      then show ?thesis unfolding x run using False by (intro exI [of _ q]) (simp only: if_False simp_thms)
    next
      case True
      have jd: "j = ?dx"
      proof (rule ccontr)
        assume "j \<noteq> ?dx"
        then have "answer s (Suc l) (ptr s n j) f (unat (move_index f) mod ?B) q" using q(2) by (simp only: if_False)
        then show False using move_answer [OF inv full cj c(2) n(3)] True by blast
      qed
      then have none: "answer s (Suc l) (ptr s n ?dx) f ?ex 0" using q(2) True by simp
      from run_query_retry [OF inv full n(1,2) b n(3) IH dx none] show ?thesis
        unfolding x run Let_def jd using True by (simp only: if_True simp_thms)
    qed
  qed
qed

lemma run_query_ok:
  "bt_inv L {} lv ext s \<Longrightarrow> full L lv {} s \<Longrightarrow> n \<in> live s {} \<Longrightarrow> lv n = Suc l \<Longrightarrow> l \<le> 6 \<Longrightarrow>
    \<exists>q. run_query (Suc l) index f n s = Inr q \<and> answer s (Suc l) n f (unat index mod 32 ^ Suc l) q"
proof (induction l arbitrary: n index)
  case 0
  then show ?case using run_query_leaf [OF 0(1,3), of index f] by simp
next
  case (Suc l)
  have l: "l \<le> 6" "Suc l \<le> 6" using Suc.prems(5) by simp_all
  show ?case by (rule run_query_inner [OF Suc.prems(1-4) l(2) Suc.IH [OF Suc.prems(1,2) _ _ l(1)]])
qed

end
