(* ===== verification/Bit_Trees.thy ===== *)
theory Bit_Trees
  imports Bit_Tree_Queries
begin

text \<open>
  Trees of bits that come and go: their creation, copies, clearing and end, and what any history of
  operations leaves behind, against one finite map for each tree.
\<close>

section \<open>Creation and copies\<close>




section \<open>The end of a tree\<close>






section \<open>Items outside of the trees\<close>




section \<open>Histories\<close>






lemma level_size_power: "level_size l n = n * 32 ^ l"
  by (induction l arbitrary: n) (simp_all add: mult.assoc)

lemma level_size:
  assumes "l \<le> 6"
  shows "unat (level_size l 1) = 32 ^ l"
proof -
  have "(32 :: nat) ^ l \<le> 32 ^ 6" using assms by (intro power_increasing) simp_all
  then have "unat (of_nat (32 ^ l) :: u32) = 32 ^ l" by (intro unat_of_nat_exact) simp
  then show ?thesis by (simp add: level_size_power)
qed

















section \<open>Trees of bits are maps\<close>














end
