(* ===== verification/Spec2Isabelle.thy ===== *)
theory Spec2Isabelle
  imports Prelude Circular_Buffer Input_Events Ps2 Atomics Intrusive_Queue Events Semaphores
    Pointers Block_IO Ext2 User_Memory Descriptor_List Heap_Allocator Idt Physical_Memory
    Snprintf Console Port_Devices Bounded_Buffer Files Elf Paths Boot_Config Cow
    Cow_Invariant Vmm Address_Spaces Space_Operations Private_Spaces
    Bit_Tree Bit_Tree_Invariant Bit_Tree_Edits Bit_Tree_Removal Bit_Tree_Queries Bit_Trees
begin

text \<open>
  A verification development of the kernel under \<^verbatim>\<open>src/kernel\<close>: a small multiprocessor operating system for
  the 32-bit PC with processes, virtual memory with copy on write, an ext2 file system on an ATA disk, pipes,
  semaphores, a serial console, and keyboard and mouse.

  \<^bold>\<open>How the parts interact.\<close> The boot code finds the memory and the processors (\<^verbatim>\<open>config.cc\<close>), sets up the heap
  (\<^verbatim>\<open>heap.cc\<close>), the frames (\<^verbatim>\<open>physmem.cc\<close>), the interrupt table (\<^verbatim>\<open>idt.cc\<close>) and the page tables (\<^verbatim>\<open>vmm.cc\<close>), and
  mounts the disk (\<^verbatim>\<open>ide.cc\<close>, \<^verbatim>\<open>block_io.cc\<close>, \<^verbatim>\<open>cache.cc\<close>, \<^verbatim>\<open>ext2.cc\<close>). Every core then runs the event loop (\<^verbatim>\<open>events.cc\<close>).
  Work that has to wait is put aside as an event in a queue (\<^verbatim>\<open>queue.h\<close>) of a semaphore, a future or a bounded
  buffer and runs when it is due. Processes enter the kernel by system calls and faults; they hold objects
  through tables of descriptors with shared pointers, reach files by paths, and share pages until one writes.

  \<^bold>\<open>Conventions.\<close> \<open>Prelude\<close>: machine integers are words of their width and wrap around as in the source.
  Code that may halt returns \<open>'a outcome\<close>, whose left summand is the failure: a failed assertion, a panic, a call
  of \<^verbatim>\<open>MISSING\<close>, an access out of bounds, a division by zero, or a wait that only another processor could end. A loop
  that may not end is a \<^verbatim>\<open>partial_function\<close> with the value \<open>None\<close> for not returning; that a loop ends is then a
  theorem. There is no fuel except where a loop of the source has a counter: the number of rounds left is then
  an argument, and the callers pass the bound of the source. Effects are passed explicitly in records that
  carry the fields of the source. Addresses the linker chooses, devices, and the memory of user processes are
  parameters. Interleavings of cores are inductive relations over atomic steps.

  \<^bold>\<open>Data structures.\<close>
  \<^item> \<open>Circular_Buffer\<close> (\<^verbatim>\<open>circular_buffer.h\<close>): the ring implements a bounded list; the locale \<open>bounded_fifo\<close> states the
    contract and is interpreted on the ring.
  \<^item> \<open>Intrusive_Queue\<close> (\<^verbatim>\<open>queue.h\<close>): queues linked through the items, several over one store; locale \<open>linked_fifo\<close>.
  \<^item> \<open>Pointers\<close> (\<^verbatim>\<open>shared.h\<close>, \<^verbatim>\<open>unique_ptr.h\<close>): an object lives exactly while a variable points to it.
  \<^item> \<open>Descriptor_List\<close> (\<^verbatim>\<open>descriptor_list.h\<close>): the counter is the number of empty slots, allocation and closing.
  \<^item> \<open>Heap_Allocator\<close> (\<^verbatim>\<open>heap.cc\<close>): blocks with boundary tags and a free list in an array of ints. Allocations
    are disjoint, releases never fail, and neighbouring free blocks are merged.

  \<^bold>\<open>Concurrency.\<close>
  \<^item> \<open>Atomics\<close> (\<^verbatim>\<open>atomic.h\<close>, \<^verbatim>\<open>loop.h\<close>): spin lock and compare-and-swap loops under any interference.
  \<^item> \<open>Events\<close> (\<^verbatim>\<open>events.cc\<close>): the timer queue is a stable sort; every turn of every core is safe for the allocated
    events.
  \<^item> \<open>Semaphores\<close> (\<^verbatim>\<open>semaphore.cc\<close>, \<^verbatim>\<open>future.h\<close>) and \<open>Bounded_Buffer\<close> (\<^verbatim>\<open>bounded_buffer.h\<close>): permits are conserved, waiting
    work runs in order and once, values arrive in order under every interleaving.

  \<^bold>\<open>Memory.\<close>
  \<^item> \<open>Physical_Memory\<close> (\<^verbatim>\<open>physmem.cc\<close>): frames are handed out exclusively and zeroed.
  \<^item> \<open>Cow\<close> (\<^verbatim>\<open>cow.cc\<close>) and \<open>Vmm\<close> (\<^verbatim>\<open>vmm.cc\<close>): reference counters, page tables and directories as bytes in
    physical memory. \<open>Cow_Invariant\<close> has the invariant: the counter of a frame is the number of read-only
    entries that hold it, and a writable entry is the only one. \<open>Address_Spaces\<close> reads directories as the
    processor does, \<open>Space_Operations\<close> shows what each operation changes, and \<open>Private_Spaces\<close> runs them in
    histories beside a specification in which each process has memory of its own.
  \<^item> \<open>User_Memory\<close> (\<^verbatim>\<open>kernel.h\<close>, \<^verbatim>\<open>utils.h\<close>, \<^verbatim>\<open>libk.cc\<close>): the checks of user addresses are exact, also at the wrap-around,
    and counting a user array ends.

  \<^bold>\<open>Devices and boot.\<close>
  \<^item> \<open>Input_Events\<close> and \<open>Ps2\<close> (\<^verbatim>\<open>input_events.cc\<close>, \<^verbatim>\<open>scancodes.h\<close>, \<^verbatim>\<open>ps2.cc\<close>): the interrupt handler as a state machine over
    scan codes and mouse packets.
  \<^item> \<open>Port_Devices\<close> (\<^verbatim>\<open>u8250.cc\<close>, \<^verbatim>\<open>ide.cc\<close>): devices are parameters that answer on ports; reading a sector ends
    and returns it.
  \<^item> \<open>Idt\<close> (\<^verbatim>\<open>idt.cc\<close>), \<open>Boot_Config\<close> (\<^verbatim>\<open>config.cc\<close>): gates; the search for the tables of the firmware and the walk over
    the processors.
  \<^item> \<open>Snprintf\<close>, \<open>Console\<close> (\<^verbatim>\<open>snprintf.cc\<close>, \<^verbatim>\<open>debug.cc\<close>): the formatter against a rendering of directives, printing
    and panics.

  \<^bold>\<open>Files and programs.\<close>
  \<^item> \<open>Block_IO\<close> (\<^verbatim>\<open>block_io.cc\<close>, \<^verbatim>\<open>cache.cc\<close>): byte access over blocks in the locale \<open>block_device\<close>, interpreted on the
    disk; the cache is transparent.
  \<^item> \<open>Ext2\<close> (\<^verbatim>\<open>ext2.cc\<close>): mounting, the radix tree of blocks, reading, and directory search.
  \<^item> \<open>Paths\<close> (\<^verbatim>\<open>kernel.cc\<close>): lookup with links always ends and finds what the path names.
  \<^item> \<open>Files\<close> (\<^verbatim>\<open>file_descriptor.cc\<close>): descriptors own their objects; concurrent reads divide the file.
  \<^item> \<open>Elf\<close> (\<^verbatim>\<open>elf.cc\<close>): validation accepts exactly the loadable files.

  \<^bold>\<open>Not modelled.\<close>
  \<^item> Assembly (\<^verbatim>\<open>machine.S\<close>, \<^verbatim>\<open>mbr.S\<close>, \<^verbatim>\<open>extra.S\<close>, \<^verbatim>\<open>ps2_int.S\<close>), the linker script and the start files (\<^verbatim>\<open>crti.cc\<close>, \<^verbatim>\<open>crtn.cc\<close>,
    \<^verbatim>\<open>destructor_fix.cc\<close>): not code of the kernel's language; what they provide is a parameter where it is used.
  \<^item> \<^verbatim>\<open>bit_tree.h\<close>, \<^verbatim>\<open>memory_mapping.cc\<close>, \<^verbatim>\<open>process.cc\<close>, \<^verbatim>\<open>sys.cc\<close> and the rest of the page fault handler in \<^verbatim>\<open>vmm.cc\<close>: they compose
    the components above with the registers of the processor and switch stacks.
  \<^item> \<^verbatim>\<open>pit.cc\<close>, \<^verbatim>\<open>smp.cc\<close>, \<^verbatim>\<open>irq.h\<close>, \<^verbatim>\<open>tss.h\<close> and \<^verbatim>\<open>init.cc\<close>: sequences of writes to timer and interrupt controller registers.
  \<^item> The C library and the user programs under \<^verbatim>\<open>libc\<close> and \<^verbatim>\<open>tests\<close>: third-party sources and test data.
  \<^item> Weak memory and the TLB: atomic operations are taken to be sequentially consistent, as the source requests.
\<close>

end
